(* ===== verification/Prelude.thy ===== *)
theory Prelude
  imports Main "HOL-Library.Word"
begin

text \<open>
  Shared vocabulary of the development: the machine integers of the AArch64 ABI the kernel is
  built for, the faults of C (a null dereference, an index outside an array, a read of an
  uninitialised local, a loop that does not end) as values, the result type with its bind, and
  the facts on words, lists and results that the component theories use.
\<close>

unbundle bit_operations_syntax

section \<open>Machine integers\<close>

text \<open>\<open>int\<close> and \<open>unsigned int\<close> are 32 bits wide, \<open>long\<close>, \<open>unsigned long\<close> and pointers 64.
  The signed types share the words; comparisons of signed values use \<open>sint\<close>.\<close>

type_synonym u8 = "8 word"
type_synonym u16 = "16 word"
type_synonym u32 = "32 word"
type_synonym s32 = "32 word"
type_synonym u64 = "64 word"
type_synonym s64 = "64 word"

named_theorems layout_defs
named_theorems op_defs
named_theorems frame

section \<open>Faults and results\<close>

datatype fault =
    Null_deref
  | Bad_pointer
  | Out_of_bounds
  | Uninit_read
  | Diverges

type_synonym 'a res = "fault + 'a"

definition bindr :: "'a res \<Rightarrow> ('a \<Rightarrow> 'b res) \<Rightarrow> 'b res" where
  "bindr r f = (case r of Inl e \<Rightarrow> Inl e | Inr x \<Rightarrow> f x)"

definition returns :: "'a option \<Rightarrow> 'a res" where
  "returns x = (case x of None \<Rightarrow> Inl Diverges | Some y \<Rightarrow> Inr y)"

lemma bindr_simps [simp]:
  "bindr (Inl e) f = Inl e"
  "bindr (Inr x) f = f x"
  by (simp_all add: bindr_def)

lemma bindr_eq_Inr: "bindr r f = Inr y \<longleftrightarrow> (\<exists>x. r = Inr x \<and> f x = Inr y)"
  by (cases r) auto

lemma bindr_eq_Inl:
  "bindr r f = Inl e \<longleftrightarrow> r = Inl e \<or> (\<exists>x. r = Inr x \<and> f x = Inl e)"
  by (cases r) auto

lemma bindr_assoc: "bindr (bindr r f) g = bindr r (\<lambda>x. bindr (f x) g)"
  by (cases r) auto

lemma returns_simps [simp]:
  "returns None = Inl Diverges"
  "returns (Some x) = Inr x"
  by (simp_all add: returns_def)

lemma returns_eq_Inr [simp]: "returns x = Inr y \<longleftrightarrow> x = Some y"
  by (cases x) auto

section \<open>Words\<close>

text \<open>Clearing the low \<open>n\<close> bits (the \<open>& ~(SIZE - 1)\<close> idiom of the headers) and alignment, in
  terms of natural numbers.\<close>

lemma unat_and_not_mask:
  fixes x :: "'a :: len word"
  shows "unat (x AND NOT (mask n)) = unat x div 2 ^ n * 2 ^ n"
proof -
  have "unat (x AND NOT (mask n)) = push_bit n (drop_bit n (unat x))"
    by (rule bit_eqI) (auto simp: bit_simps dest: bit_imp_le_length)
  then show ?thesis by (simp add: push_bit_eq_mult drop_bit_eq_div)
qed

lemma unat_and_mask:
  fixes x :: "'a :: len word"
  shows "unat (x AND mask n) = unat x mod 2 ^ n"
proof -
  have "unat (x AND mask n) = take_bit n (unat x)"
    by (rule bit_eqI) (auto simp: bit_simps dest: bit_imp_le_length)
  then show ?thesis by (simp add: take_bit_eq_mod)
qed

text \<open>A word at most \<open>b\<close> added without leaving the word.\<close>

lemma unat_add_lem':
  fixes x y :: "'a :: len word"
  assumes "unat x + unat y < 2 ^ LENGTH('a)"
  shows "unat (x + y) = unat x + unat y"
  using assms by (simp add: unat_word_ariths(1))

text \<open>A non-negative \<open>int\<close> converts to \<open>unsigned long\<close> unchanged.\<close>

lemma scast_nonneg:
  fixes k :: nat
  assumes "k < 2 ^ 31"
  shows "scast (word_of_nat k :: 32 word) = (word_of_nat k :: u64)"
proof -
  have "sint (word_of_nat k :: 32 word) = int k"
  proof -
    have "uint (word_of_nat k :: 32 word) = int k"
      using assms by (simp add: unsigned_of_nat take_bit_nat_eq_self)
    then show ?thesis
      using assms by (simp add: sint_uint signed_take_bit_int_eq_self)
  qed
  then show ?thesis by (simp add: scast_eq)
qed

text \<open>Signed 32-bit arithmetic that does not overflow.\<close>

lemma sint_word_of_int32:
  "- (2 ^ 31) \<le> k \<Longrightarrow> k < 2 ^ 31 \<Longrightarrow> sint (word_of_int k :: s32) = k"
  by (simp add: signed_of_int signed_take_bit_int_eq_self)

lemma sint_add32:
  fixes x y :: s32
  assumes "- (2 ^ 31) \<le> sint x + sint y" and "sint x + sint y < 2 ^ 31"
  shows "sint (x + y) = sint x + sint y"
proof -
  have "x + y = word_of_int (sint x + sint y)" by simp
  then show ?thesis using sint_word_of_int32 [OF assms] by metis
qed

lemma sint_diff32:
  fixes x y :: s32
  assumes "- (2 ^ 31) \<le> sint x - sint y" and "sint x - sint y < 2 ^ 31"
  shows "sint (x - y) = sint x - sint y"
proof -
  have "x - y = word_of_int (sint x - sint y)" by simp
  then show ?thesis using sint_word_of_int32 [OF assms] by metis
qed

section \<open>Bit fields\<close>

text \<open>The \<open>n\<close> bits from bit \<open>lo\<close>, the notation of the architecture manual.\<close>

definition bitfield :: "nat \<Rightarrow> nat \<Rightarrow> 'a :: len word \<Rightarrow> nat" where "bitfield lo n w = unat w div 2 ^ lo mod 2 ^ n"

lemma unat_drop: "unat (drop_bit lo w :: 'a :: len word) = unat w div 2 ^ lo"
proof -
  have "unat (drop_bit lo w) = drop_bit lo (unat w)"
    by (rule bit_eqI) (auto simp: bit_simps dest: bit_imp_le_length)
  then show ?thesis by (simp add: drop_bit_eq_div)
qed

lemma unat_bitfield: "m = mask n \<Longrightarrow> unat (drop_bit lo w AND m :: 'a :: len word) = bitfield lo n w"
  by (simp only: bitfield_def unat_and_mask unat_drop)

lemma unat_shifted_bitfield:
  assumes "m = mask n"
  shows "unat (drop_bit lo (w AND push_bit lo m) :: 'a :: len word) = bitfield lo n w"
proof -
  have "drop_bit lo (w AND push_bit lo m) = drop_bit lo w AND m"
    by (rule bit_word_eqI) (auto simp: bit_simps dest: bit_imp_le_length)
  then show ?thesis by (simp only: unat_bitfield [OF assms])
qed

lemma bitfield_flag: "w AND push_bit lo 1 \<noteq> 0 \<longleftrightarrow> bitfield lo 1 w = 1"
proof -
  have "w AND push_bit lo 1 \<noteq> 0 \<longleftrightarrow> bit w lo" by (simp only: push_bit_of_1 and_exp_eq_0_iff_not_bit not_not)
  also have "\<dots> \<longleftrightarrow> bit (unat w) lo" by (simp add: bit_unsigned_iff)
  also have "\<dots> \<longleftrightarrow> bitfield lo 1 w = 1" by (simp add: bitfield_def bit_iff_odd odd_iff_mod_2_eq_one)
  finally show ?thesis .
qed

lemma bitfield_less: "bitfield lo n w < 2 ^ n"
  by (simp add: bitfield_def)

end
