(* ===== verification/Machine.thy ===== *)
theory Machine
  imports Prelude
begin

text \<open>
  The machine under the kernel. Its record is the root of the kernel's state: every component
  extends it with its own globals, so that an operation of a lower component applies to the
  state of every component above it.

  \<^item> The hardware is not code of the repository. A device register and a system register are read
    through functions of the whole history of accesses (\<open>io_dev\<close>, \<open>sys_dev\<close>), the most general
    deterministic device; the kernel only sees the value and the history grows.
  \<^item> \<open>readl\<close>, \<open>writel\<close> are the accessors of \<^verbatim>\<open>arch/arm64/include/asm/io.h\<close>, \<open>read_sysreg\<close> and
    \<open>write_sysreg\<close> those of \<^verbatim>\<open>asm/sysregs.h\<close>; barriers and cache or TLB maintenance are events.
  \<^item> \<open>klog\<close> is the sequence of calls of \<open>printk\<close>, format and arguments, in order. What a call
    prints is the subject of the theory of \<^verbatim>\<open>lib/printk.c\<close>.
  \<^item> \<open>mem\<close> is the byte-addressed memory; \<open>irq_masked\<close> the I bit of PSTATE.DAIF.
\<close>

datatype varg = Arg_word u64 | Arg_str string

datatype hw_event =
    Io_read u64 u32
  | Io_write u64 u32
  | Sys_read string u64
  | Sys_write string u64
  | Insn string

record machine =
  klog :: "(string \<times> varg list) list"
  hw_trace :: "hw_event list"
  io_dev :: "hw_event list \<Rightarrow> u64 \<Rightarrow> u32"
  sys_dev :: "hw_event list \<Rightarrow> string \<Rightarrow> u64"
  mem :: "u64 \<Rightarrow> u8"
  irq_masked :: bool

definition printk_call :: "string \<Rightarrow> varg list \<Rightarrow> 'a machine_scheme \<Rightarrow> 'a machine_scheme" where
  [op_defs]: "printk_call fmt args s = s\<lparr>klog := klog s @ [(fmt, args)]\<rparr>"

text \<open>A string argument of a call, null where there is none.\<close>

definition arg_of_string :: "string option \<Rightarrow> varg" where
  "arg_of_string str = (case str of None \<Rightarrow> Arg_word 0 | Some str \<Rightarrow> Arg_str str)"

text \<open>An \<open>unsigned int\<close> argument, and an argument with a small value.\<close>

definition arg_u32 :: "u32 \<Rightarrow> varg" where "arg_u32 w = Arg_word (ucast w)"

definition arg_num :: "nat \<Rightarrow> varg" where "arg_num k = Arg_word (word_of_nat k)"

lemma arg_u32_num: "arg_u32 w = arg_num (unat w)"
  by (simp add: arg_u32_def arg_num_def)

definition hw_emit :: "hw_event \<Rightarrow> 'a machine_scheme \<Rightarrow> 'a machine_scheme" where
  [op_defs]: "hw_emit e s = s\<lparr>hw_trace := hw_trace s @ [e]\<rparr>"

definition readl :: "u64 \<Rightarrow> 'a machine_scheme \<Rightarrow> u32 \<times> 'a machine_scheme" where
  [op_defs]: "readl a s = (let v = io_dev s (hw_trace s) a in (v, hw_emit (Io_read a v) s))"

definition writel :: "u32 \<Rightarrow> u64 \<Rightarrow> 'a machine_scheme \<Rightarrow> 'a machine_scheme" where
  [op_defs]: "writel v a s = hw_emit (Io_write a v) s"

definition read_sysreg :: "string \<Rightarrow> 'a machine_scheme \<Rightarrow> u64 \<times> 'a machine_scheme" where
  [op_defs]: "read_sysreg r s = (let v = sys_dev s (hw_trace s) r in (v, hw_emit (Sys_read r v) s))"

definition write_sysreg :: "u64 \<Rightarrow> string \<Rightarrow> 'a machine_scheme \<Rightarrow> 'a machine_scheme" where
  [op_defs]: "write_sysreg v r s = hw_emit (Sys_write r v) s"

definition arch_local_irq_disable :: "'a machine_scheme \<Rightarrow> 'a machine_scheme" where
  [op_defs]: "arch_local_irq_disable s = s\<lparr>irq_masked := True\<rparr>"

definition arch_local_irq_enable :: "'a machine_scheme \<Rightarrow> 'a machine_scheme" where
  [op_defs]: "arch_local_irq_enable s = s\<lparr>irq_masked := False\<rparr>"

definition machine0 :: machine where
  "machine0 = \<lparr>klog = [], hw_trace = [], io_dev = (\<lambda>_ _. 0), sys_dev = (\<lambda>_ _. 0),
     mem = (\<lambda>_. 0), irq_masked = True\<rparr>"

end
