(* ===== verification/Page_Alloc.thy ===== *)
theory Page_Alloc
  imports Machine
begin

text \<open>
  The physical page allocator, \<^verbatim>\<open>mm/page_alloc.c\<close>, over the constants of \<^verbatim>\<open>include/page.h\<close> and
  \<^verbatim>\<open>asm/mm.h\<close>. \<open>mem_map\<close> is the array of one byte per page (a function of the index; an access
  outside its \<open>NR_PAGES\<close> entries is a fault), \<open>get_free_page\<close> the first-fit scan,
  \<open>free_page\<close> the release and \<open>mem_init\<close> the count of the free pages.
  The locale \<open>page_allocator\<close> is the contract the clients of the allocator (process creation,
  the page tables, the interrupt domain, the malloc system call) rely on; it is interpreted on
  the code's own operations.
\<close>

section \<open>Constants of page.h and asm/mm.h\<close>

definition PAGE_SHIFT :: nat where [layout_defs]: "PAGE_SHIFT = 12"
definition TABLE_SHIFT :: nat where [layout_defs]: "TABLE_SHIFT = 9"
definition SECTION_SHIFT :: nat where [layout_defs]: "SECTION_SHIFT = PAGE_SHIFT + TABLE_SHIFT"

definition PAGE_SIZE :: s32 where [layout_defs]: "PAGE_SIZE = push_bit PAGE_SHIFT 1"
definition PAGE_MASK :: s32 where [layout_defs]: "PAGE_MASK = NOT (PAGE_SIZE - 1)"
definition SECTION_SIZE :: s32 where [layout_defs]: "SECTION_SIZE = push_bit SECTION_SHIFT 1"

definition LOW_MEMORY :: s32 where [layout_defs]: "LOW_MEMORY = 2 * SECTION_SIZE"
definition TOTAL_MEMORY :: s32 where [layout_defs]: "TOTAL_MEMORY = 512 * 0x100000"
definition THREAD_SIZE :: s32 where [layout_defs]: "THREAD_SIZE = 1 * PAGE_SIZE"

text \<open>The header's constants are of type \<open>int\<close>; against an \<open>unsigned long\<close> they are sign
  extended, which is what makes \<open>PAGE_MASK\<close> clear the low bits only.\<close>

definition PAGE_ALIGN :: "u64 \<Rightarrow> u64" where
  "PAGE_ALIGN addr = (addr + scast PAGE_SIZE - 1) AND scast PAGE_MASK"

definition PAGE_ALIGN_DOWN :: "u64 \<Rightarrow> u64" where
  "PAGE_ALIGN_DOWN addr = addr AND scast PAGE_MASK"

lemma page_consts [simp]:
  "PAGE_SIZE = 4096" "PAGE_MASK = - 4096" "SECTION_SIZE = 2097152" "LOW_MEMORY = 4194304"
  "TOTAL_MEMORY = 536870912" "THREAD_SIZE = 4096"
  by (simp_all add: layout_defs)

definition page_aligned :: "u64 \<Rightarrow> bool" where
  "page_aligned p \<longleftrightarrow> p AND 4095 = 0"

lemma mask12: "(4095 :: u64) = mask 12" "(- 4096 :: u64) = NOT (mask 12)"
  by (simp_all add: mask_eq_exp_minus_1)

lemma page_aligned_iff: "page_aligned p \<longleftrightarrow> unat p mod 4096 = 0"
  by (simp add: page_aligned_def mask12 unat_and_mask flip: unat_eq_0)

text \<open>An offset inside an aligned page.\<close>

lemma page_offset:
  assumes "page_aligned p" and "k < 4096"
  shows "unat (p + word_of_nat k) = unat p + k" "(p + word_of_nat k) AND NOT 0xfff = p"
proof -
  have "4096 dvd unat p" using assms(1) by (simp only: page_aligned_iff dvd_eq_mod_eq_0)
  then obtain n where n: "unat p = 4096 * n" by (rule dvdE)
  moreover have "unat p < 2 ^ 64" using unsigned_less [of p, where 'a = nat] by simp
  ultimately have "unat p + k < 2 ^ 64" using assms(2) by (cases "n < 2 ^ 52") simp_all
  then show u: "unat (p + word_of_nat k) = unat p + k"
    using assms(2) by (simp add: unat_word_ariths unsigned_of_nat take_bit_nat_eq_self)
  have "unat ((p + word_of_nat k) AND NOT 0xfff) = unat p"
    using assms(2) by (simp add: mask12 unat_and_not_mask u n)
  then show "(p + word_of_nat k) AND NOT 0xfff = p" by (simp add: word_unat_eq_iff)
qed

lemma PAGE_ALIGN_DOWN_aligned [simp]: "page_aligned (PAGE_ALIGN_DOWN p)"
  by (simp add: PAGE_ALIGN_DOWN_def page_aligned_iff mask12 unat_and_not_mask)

lemma PAGE_ALIGN_aligned [simp]: "page_aligned (PAGE_ALIGN p)"
  by (simp add: PAGE_ALIGN_def page_aligned_iff mask12 unat_and_not_mask)

section \<open>The allocator\<close>

definition NR_PAGES :: nat where
  [layout_defs]: "NR_PAGES = unat (TOTAL_MEMORY div PAGE_SIZE)"

lemma NR_PAGES_val: "NR_PAGES = 131072"
  by (simp add: NR_PAGES_def)

record page_state = machine +
  mem_map :: "nat \<Rightarrow> u8"
  phy_start_address :: u64

text \<open>\<open>LOW_MEMORY + i * PAGE_SIZE\<close> is computed in \<open>int\<close> and converted to \<open>unsigned long\<close>.\<close>

definition page_addr :: "nat \<Rightarrow> u64" where
  "page_addr i = scast (LOW_MEMORY + word_of_nat i * PAGE_SIZE)"

function get_free_page_from :: "nat \<Rightarrow> 'a page_state_scheme \<Rightarrow> u64 \<times> 'a page_state_scheme" where
  "get_free_page_from i s =
     (if i < NR_PAGES then
        if mem_map s i = 0 then (page_addr i, s\<lparr>mem_map := (mem_map s)(i := 1)\<rparr>)
        else get_free_page_from (Suc i) s
      else (0, s))"
  by pat_completeness auto
termination
  by (relation "measure (\<lambda>(i, s). NR_PAGES - i)") auto

definition get_free_page :: "'a page_state_scheme \<Rightarrow> u64 \<times> 'a page_state_scheme" where
  "get_free_page s = get_free_page_from 0 s"

definition page_index :: "u64 \<Rightarrow> nat" where
  "page_index p = unat ((p - scast LOW_MEMORY) div scast PAGE_SIZE)"

definition free_page :: "u64 \<Rightarrow> 'a page_state_scheme \<Rightarrow> 'a page_state_scheme res" where
  "free_page p s =
     (if page_index p < NR_PAGES then Inr (s\<lparr>mem_map := (mem_map s)(page_index p := 0)\<rparr>)
      else Inl Out_of_bounds)"

partial_function (option) count_pages :: "u64 \<Rightarrow> u64 \<Rightarrow> u64 \<Rightarrow> u64 option" where
  "count_pages start_mem end_mem nr =
     (if start_mem < end_mem then count_pages (start_mem + scast PAGE_SIZE) end_mem (nr + 1)
      else Some nr)"

definition mem_init :: "u64 \<Rightarrow> u64 \<Rightarrow> 'a page_state_scheme \<Rightarrow> 'a page_state_scheme res" where
  "mem_init start_mem end_mem s =
     (let start_mem = PAGE_ALIGN start_mem;
          s = s\<lparr>phy_start_address := start_mem\<rparr>;
          end_mem = end_mem AND scast PAGE_MASK;
          free = end_mem - start_mem
      in bindr (returns (count_pages start_mem end_mem 0)) (\<lambda>nr_free_pages.
           Inr (printk_call ''Memory: %uKB available, %u free pages\<newline>''
                  [Arg_word (free div 1024), Arg_word nr_free_pages] s)))"

declare get_free_page_from.simps [simp del]

lemma page_addr_eq: "i < NR_PAGES \<Longrightarrow> page_addr i = 4194304 + 4096 * word_of_nat i"
  using scast_nonneg [of "4194304 + 4096 * i"]
  by (simp add: page_addr_def NR_PAGES_val mult.commute)

lemma unat_page_addr: "i < NR_PAGES \<Longrightarrow> unat (page_addr i) = 4194304 + 4096 * i"
  by (simp add: page_addr_eq NR_PAGES_val unat_word_ariths unat_of_nat)

lemma page_index_addr [simp]: "i < NR_PAGES \<Longrightarrow> page_index (page_addr i) = i"
  by (simp add: page_index_def page_addr_eq NR_PAGES_val unat_div unat_word_ariths unat_of_nat)

lemma page_addr_not_0 [simp]: "i < NR_PAGES \<Longrightarrow> page_addr i \<noteq> 0"
  using unat_page_addr [of i] by (metis add_is_0 unat_0 zero_neq_numeral)

lemma page_aligned_0 [simp]: "page_aligned 0"
  by (simp add: page_aligned_def)

lemma page_addr_aligned [simp]: "i < NR_PAGES \<Longrightarrow> page_aligned (page_addr i)"
  by (simp add: page_aligned_iff unat_page_addr)

section \<open>What the allocator does\<close>

definition used_pages :: "'a page_state_scheme \<Rightarrow> u64 set" where
  "used_pages s = {page_addr i | i. i < NR_PAGES \<and> mem_map s i \<noteq> 0}"

lemma get_free_page_from_cases:
  "(\<exists>j. i \<le> j \<and> j < NR_PAGES \<and> mem_map s j = 0 \<and> (\<forall>k. i \<le> k \<and> k < j \<longrightarrow> mem_map s k \<noteq> 0) \<and>
        get_free_page_from i s = (page_addr j, s\<lparr>mem_map := (mem_map s)(j := 1)\<rparr>))
   \<or> (\<forall>k. i \<le> k \<and> k < NR_PAGES \<longrightarrow> mem_map s k \<noteq> 0) \<and> get_free_page_from i s = (0, s)"
proof (induction i s rule: get_free_page_from.induct)
  case (1 i s)
  show ?case
  proof (cases "i < NR_PAGES \<and> mem_map s i \<noteq> 0")
    case True
    then have eq: "get_free_page_from i s = get_free_page_from (Suc i) s"
      by (simp add: get_free_page_from.simps [of i s])
    have le: "i \<le> k \<longleftrightarrow> i = k \<or> Suc i \<le> k" for k by linarith
    from True 1 consider (found) j where "Suc i \<le> j" "j < NR_PAGES" "mem_map s j = 0"
        "\<forall>k. Suc i \<le> k \<and> k < j \<longrightarrow> mem_map s k \<noteq> 0"
        "get_free_page_from i s = (page_addr j, s\<lparr>mem_map := (mem_map s)(j := 1)\<rparr>)"
      | (full) "\<forall>k. Suc i \<le> k \<and> k < NR_PAGES \<longrightarrow> mem_map s k \<noteq> 0" "get_free_page_from i s = (0, s)"
      unfolding eq by blast
    then show ?thesis
    proof cases
      case found
      with True have "\<forall>k. i \<le> k \<and> k < j \<longrightarrow> mem_map s k \<noteq> 0" by (auto simp: le)
      with found(1-3,5) show ?thesis by (intro disjI1 exI [of _ j]) (simp add: fun_upd_def)
    next
      case full
      with True have "\<forall>k. i \<le> k \<and> k < NR_PAGES \<longrightarrow> mem_map s k \<noteq> 0" by (auto simp: le)
      with full show ?thesis by simp
    qed
  next
    case False
    then consider "i < NR_PAGES" "mem_map s i = 0" | "NR_PAGES \<le> i" by linarith
    then show ?thesis
    proof cases
      case 1
      then show ?thesis
        by (intro disjI1 exI [of _ i]) (auto simp: get_free_page_from.simps [of i s] fun_upd_def)
    next
      case 2
      then show ?thesis by (intro disjI2) (auto simp: get_free_page_from.simps [of i s])
    qed
  qed
qed

lemma get_free_page_cases:
  obtains (found) i where "i < NR_PAGES" "mem_map s i = 0" "\<And>k. k < i \<Longrightarrow> mem_map s k \<noteq> 0"
      "get_free_page s = (page_addr i, s\<lparr>mem_map := (mem_map s)(i := 1)\<rparr>)"
  | (full) "\<And>k. k < NR_PAGES \<Longrightarrow> mem_map s k \<noteq> 0" "get_free_page s = (0, s)"
  using get_free_page_from_cases [of 0 s] by (auto simp: get_free_page_def)

lemma page_addr_inj: "i < NR_PAGES \<Longrightarrow> j < NR_PAGES \<Longrightarrow> page_addr i = page_addr j \<longleftrightarrow> i = j"
  by (metis page_index_addr)

lemma used_pages_alloc:
  "i < NR_PAGES \<Longrightarrow> used_pages (s\<lparr>mem_map := (mem_map s)(i := 1)\<rparr>) = insert (page_addr i) (used_pages s)"
  by (auto simp: used_pages_def)

lemma used_pages_free:
  "i < NR_PAGES \<Longrightarrow> used_pages (s\<lparr>mem_map := (mem_map s)(i := 0)\<rparr>) = used_pages s - {page_addr i}"
  by (auto simp: used_pages_def page_addr_inj)

lemma page_addr_used_iff:
  "i < NR_PAGES \<Longrightarrow> page_addr i \<in> used_pages s \<longleftrightarrow> mem_map s i \<noteq> 0"
  by (auto simp: used_pages_def page_addr_inj)

lemma get_free_page_fst:
  fixes s :: "'a page_state_scheme" and e :: "'b page_state_scheme"
  assumes "mem_map e = mem_map s"
  shows "fst (get_free_page e) = fst (get_free_page s)"
proof -
  have "fst (get_free_page_from i e) = fst (get_free_page_from i s)" for i
  proof (induction "NR_PAGES - i" arbitrary: i)
    case 0
    then show ?case by (simp add: get_free_page_from.simps [of i])
  next
    case (Suc n)
    then have "fst (get_free_page_from (Suc i) e) = fst (get_free_page_from (Suc i) s)" by simp
    then show ?case by (simp add: get_free_page_from.simps [of i] assms)
  qed
  then show ?thesis by (simp add: get_free_page_def)
qed

section \<open>The contract of a page allocator\<close>

primrec alloc_many :: "('s \<Rightarrow> u64 \<times> 's) \<Rightarrow> nat \<Rightarrow> 's \<Rightarrow> u64 list \<times> 's" where
  "alloc_many alloc 0 s = ([], s)"
| "alloc_many alloc (Suc n) s =
     (let (p, s) = alloc s; (ps, s) = alloc_many alloc n s in (p # ps, s))"

locale page_allocator =
  fixes alloc :: "'s \<Rightarrow> u64 \<times> 's"
    and free :: "u64 \<Rightarrow> 's \<Rightarrow> 's res"
    and used :: "'s \<Rightarrow> u64 set"
  assumes alloc_fresh: "alloc s = (p, s') \<Longrightarrow> p \<noteq> 0 \<Longrightarrow> p \<notin> used s \<and> used s' = insert p (used s)"
    and alloc_fail: "alloc s = (0, s') \<Longrightarrow> s' = s"
    and alloc_aligned: "alloc s = (p, s') \<Longrightarrow> page_aligned p"
    and free_used: "p \<in> used s \<Longrightarrow> \<exists>s'. free p s = Inr s' \<and> used s' = used s - {p}"
begin

lemma alloc_mono: "alloc s = (p, s') \<Longrightarrow> used s \<subseteq> used s'"
  by (cases "p = 0") (auto dest: alloc_fail alloc_fresh)

lemma alloc_free_used:
  assumes "alloc s = (p, s')" and "p \<noteq> 0"
  shows "\<exists>s''. free p s' = Inr s'' \<and> used s'' = used s"
  using alloc_fresh [OF assms] free_used [of p s'] by auto

lemma alloc_many_distinct:
  "alloc_many alloc n s = (ps, s') \<Longrightarrow>
     distinct (filter (\<lambda>p. p \<noteq> 0) ps) \<and> set ps \<inter> used s \<subseteq> {0} \<and>
     used s' = used s \<union> (set ps - {0})"
proof (induction n arbitrary: s ps s')
  case 0
  then show ?case by simp
next
  case (Suc n)
  obtain p s1 where a: "alloc s = (p, s1)" by fastforce
  obtain qs s2 where b: "alloc_many alloc n s1 = (qs, s2)" by fastforce
  from Suc.prems a b have [simp]: "ps = p # qs" "s' = s2" by auto
  from Suc.IH [OF b] have IH: "distinct (filter (\<lambda>p. p \<noteq> 0) qs)" "set qs \<inter> used s1 \<subseteq> {0}"
    "used s2 = used s1 \<union> (set qs - {0})" by auto
  show ?case
  proof (cases "p = 0")
    case True
    with alloc_fail a have "s1 = s" by simp
    with IH True show ?thesis by auto
  next
    case False
    from alloc_fresh [OF a False] IH False show ?thesis by auto
  qed
qed

end

lemma free_page_addr:
  "i < NR_PAGES \<Longrightarrow> free_page (page_addr i) s = Inr (s\<lparr>mem_map := (mem_map s)(i := 0)\<rparr>)"
  by (simp add: free_page_def)

interpretation pa: page_allocator get_free_page free_page used_pages
proof
  fix s :: "'a page_state_scheme" and p s'
  assume "get_free_page s = (p, s')" and "p \<noteq> 0"
  then show "p \<notin> used_pages s \<and> used_pages s' = insert p (used_pages s)"
    by (cases rule: get_free_page_cases [of s]) (auto simp: page_addr_used_iff used_pages_alloc)
next
  fix s s' :: "'a page_state_scheme"
  assume "get_free_page s = (0, s')"
  then show "s' = s" by (cases rule: get_free_page_cases [of s]) auto
next
  fix s :: "'a page_state_scheme" and p s'
  assume "get_free_page s = (p, s')"
  then show "page_aligned p"
    by (cases rule: get_free_page_cases [of s]) (auto intro: page_addr_aligned)
next
  fix s :: "'a page_state_scheme" and p
  assume "p \<in> used_pages s"
  then show "\<exists>s'. free_page p s = Inr s' \<and> used_pages s' = used_pages s - {p}"
    by (auto simp: used_pages_def [of s] free_page_addr used_pages_free)
qed

lemma count_pages_run:
  "unat e = unat st + 4096 * n \<Longrightarrow> count_pages st e c = Some (c + word_of_nat n)"
proof (induction n arbitrary: st c)
  case 0
  then have "e = st" by (simp add: word_unat_eq_iff)
  then show ?case by (simp add: count_pages.simps [of st])
next
  case (Suc n)
  have lt: "st < e" using Suc.prems by (simp add: word_less_nat_alt)
  have "unat st + 4096 < 2 ^ 64"
    using Suc.prems unsigned_less [of e, where 'a = nat] by simp
  then have "unat (st + 4096) = unat st + 4096" by (simp add: unat_word_ariths)
  with Suc.prems have "unat e = unat (st + 4096) + 4096 * n" by simp
  from Suc.IH [OF this, of "c + 1"] show ?case
    using lt by (simp add: count_pages.simps [of st] algebra_simps)
qed

lemma count_pages_aligned:
  assumes "page_aligned st" and "page_aligned e"
  shows "count_pages st e 0 = Some (if st < e then (e - st) div 4096 else 0)"
proof (cases "st < e")
  case False
  then show ?thesis by (simp add: count_pages.simps [of st])
next
  case True
  define n where "n = (unat e - unat st) div 4096"
  from True have lt: "unat st < unat e" by (simp add: word_less_nat_alt)
  have d: "4096 dvd unat e - unat st"
    using assms by (simp add: page_aligned_iff dvd_diff_nat mod_0_imp_dvd)
  then have n: "unat e = unat st + 4096 * n"
    using lt by (simp add: n_def)
  have "unat (e - st) = unat e - unat st" using lt by (simp add: unat_sub_if')
  then have "unat ((e - st) div 4096) = n" by (simp add: unat_div n_def)
  then have "(e - st) div 4096 = word_of_nat n" by (metis of_nat_unat ucast_id)
  with True count_pages_run [OF n, of 0] show ?thesis by simp
qed

section \<open>Properties\<close>

text \<open>C27. The allocator is first fit: it returns the address of the lowest page whose byte in \<open>mem_map\<close> is 0
  and marks exactly that byte, or it returns 0 and changes nothing when every page is in use.\<close>

theorem get_free_page_first_fit:
  "case get_free_page s of (p, s') \<Rightarrow>
     (\<exists>i. i < NR_PAGES \<and> mem_map s i = 0 \<and> {k. k < i \<and> mem_map s k = 0} = {} \<and>
          unat p = 4194304 + 4096 * i \<and> s' = s\<lparr>mem_map := (mem_map s)(i := 1)\<rparr>) \<or>
     p = 0 \<and> s' = s \<and> {k. k < NR_PAGES \<and> mem_map s k = 0} = {}"
  by (cases rule: get_free_page_cases [of s]) (auto simp: unat_page_addr)

text \<open>Freeing the page just allocated gives back the state before the allocation.\<close>

theorem get_free_page_then_free:
  assumes "get_free_page s = (p, s')" and "p \<noteq> 0"
  shows "free_page p s' = Inr s"
proof (cases rule: get_free_page_cases [of s])
  case (found i)
  then have "free_page p s' = Inr (s\<lparr>mem_map := (mem_map s)(i := 0)\<rparr>)"
    using assms by (auto simp: free_page_addr)
  also have "(mem_map s)(i := 0) = mem_map s" using found by auto
  finally show ?thesis by simp
qed (use assms in simp)

text \<open>Pages handed out by any number of allocations are pairwise different, and none of them was in use
  before.\<close>

theorem get_free_pages_distinct:
  assumes "alloc_many get_free_page n s = (ps, s')"
  shows "distinct (filter (\<lambda>p. p \<noteq> 0) ps) \<and> set ps \<inter> used_pages s \<subseteq> {0}"
  using pa.alloc_many_distinct [OF assms] by simp

text \<open>The release of an address outside the managed pages writes outside \<open>mem_map\<close>: the address is not checked.\<close>

theorem free_page_out_of_range:
  "free_page p s = Inl Out_of_bounds \<longleftrightarrow> unat p < 4194304 \<or> 541065216 \<le> unat p"
proof (cases "unat p < 4194304")
  case True
  then have "unat (p - 4194304) = unat p + 2 ^ 64 - 4194304" 
    by (simp add: unat_sub_if')
  then show ?thesis using True by (simp add: free_page_def page_index_def unat_div NR_PAGES_val)
next
  case False
  then have "unat (p - 4194304) = unat p - 4194304" 
    by (simp add: unat_sub_if')
  then show ?thesis using False by (simp add: free_page_def page_index_def unat_div NR_PAGES_val) arith
qed

text \<open>\<open>mem_init\<close> always returns; it reports the number of whole pages between the two addresses.\<close>

theorem mem_init_counts:
  "mem_init a b s = Inr (s\<lparr>phy_start_address := PAGE_ALIGN a,
     klog := klog s @ [(''Memory: %uKB available, %u free pages\<newline>'',
       [Arg_word ((PAGE_ALIGN_DOWN b - PAGE_ALIGN a) div 1024),
        Arg_word (if PAGE_ALIGN a < PAGE_ALIGN_DOWN b
                  then (PAGE_ALIGN_DOWN b - PAGE_ALIGN a) div 4096 else 0)])]\<rparr>)"
  by (simp add: mem_init_def Let_def printk_call_def count_pages_aligned
      flip: PAGE_ALIGN_DOWN_def del: page_consts)

text \<open>The pages of index 130048 and above, which the allocator hands out like the others, begin at or
  beyond the end of the 512 MB of memory: \<open>NR_PAGES\<close> counts pages from address 0, \<open>LOW_MEMORY\<close> is added to them.\<close>

theorem get_free_page_beyond_ram:
  "i < NR_PAGES \<Longrightarrow> scast TOTAL_MEMORY \<le> page_addr i \<longleftrightarrow> 130048 \<le> i"
  by (simp add: word_le_nat_alt unat_page_addr)

theorem get_free_page_beyond_ram_witness: "scast TOTAL_MEMORY \<le> page_addr 131071"
  using get_free_page_beyond_ram [of 131071] by (simp add: NR_PAGES_val)

theorem get_free_pages_distinct_witness:
  "distinct (filter (\<lambda>p. p \<noteq> 0) (fst (alloc_many get_free_page 5 \<lparr>klog = [], hw_trace = [], io_dev = (\<lambda>_ _. 0),
     sys_dev = (\<lambda>_ _. 0), mem = (\<lambda>_. 0), irq_masked = True, mem_map = (\<lambda>_. 0), phy_start_address = 0\<rparr>)))"
  by (rule get_free_pages_distinct [THEN conjunct1, OF surjective_pairing])

end
