(* ===== verification/Page_Race.thy ===== *)
theory Page_Race
  imports Page_Alloc
begin

text \<open>
  \<open>get_free_page\<close> of \<^verbatim>\<open>mm/page_alloc.c\<close> with its accesses to \<open>mem_map\<close> one by one, run by several
  tasks that can be switched between any two of them: the code takes no lock and does not mask the
  interrupts, and a kernel thread that calls it can be preempted. Run alone the steps are those of
  the function of the theory of the allocator.
\<close>

section \<open>The steps\<close>

text \<open>Where a caller is: before the test of a page, between its test and its mark, or back with a result.\<close>

datatype alloc_pc = Testing nat | Marking nat | Returned_page u64

fun alloc_step :: "alloc_pc \<Rightarrow> (nat \<Rightarrow> u8) \<Rightarrow> alloc_pc \<times> (nat \<Rightarrow> u8)" where
  "alloc_step (Testing i) m =
     (if i < NR_PAGES then (if m i = 0 then (Marking i, m) else (Testing (Suc i), m)) else (Returned_page 0, m))"
| "alloc_step (Marking i) m = (Returned_page (page_addr i), m(i := 1))"
| "alloc_step (Returned_page p) m = (Returned_page p, m)"

fun is_marking :: "alloc_pc \<Rightarrow> bool" where
  "is_marking (Marking i) = True"
| "is_marking pc = False"

text \<open>A step of one of the callers. With \<open>masked\<close> no other caller runs between the test and the mark, as if the interrupts
  were off there.\<close>

inductive callers_step :: "bool \<Rightarrow> alloc_pc list \<times> (nat \<Rightarrow> u8) \<Rightarrow> alloc_pc list \<times> (nat \<Rightarrow> u8) \<Rightarrow> bool" for masked where
  caller: "k < length cs \<Longrightarrow> (masked \<Longrightarrow> \<forall>j < length cs. j \<noteq> k \<longrightarrow> \<not> is_marking (cs ! j)) \<Longrightarrow> alloc_step (cs ! k) m = (pc, m') \<Longrightarrow>
     callers_step masked (cs, m) (cs[k := pc], m')"

inductive_cases callers_stepE: "callers_step masked (cs, m) c'"

abbreviation callers_run :: "bool \<Rightarrow> alloc_pc list \<times> (nat \<Rightarrow> u8) \<Rightarrow> alloc_pc list \<times> (nat \<Rightarrow> u8) \<Rightarrow> bool" where
  "callers_run masked \<equiv> (callers_step masked)\<^sup>*\<^sup>*"

lemma run_one:
  assumes "callers_run masked c (cs, m)" and "k < length cs" and "masked \<Longrightarrow> \<forall>j < length cs. j \<noteq> k \<longrightarrow> \<not> is_marking (cs ! j)"
    and "alloc_step (cs ! k) m = (pc, m')"
  shows "callers_run masked c (cs[k := pc], m')"
  by (rule rtranclp.rtrancl_into_rtrancl [OF assms(1) callers_step.caller [OF assms(2-4)]])

section \<open>One caller\<close>

text \<open>A caller at the test of page \<open>i\<close>, alone or with others that do not run.\<close>

lemma scan_to:
  assumes "callers_run masked c (cs[k := Testing i], m)" and "k < length cs" and "i \<le> n" and "n \<le> NR_PAGES"
    and "\<forall>j. i \<le> j \<and> j < n \<longrightarrow> m j \<noteq> 0" and "masked \<Longrightarrow> \<forall>j < length cs. j \<noteq> k \<longrightarrow> \<not> is_marking (cs ! j)"
  shows "callers_run masked c (cs[k := Testing n], m)"
  using assms(1,3,5)
proof (induction "n - i" arbitrary: i)
  case (Suc d)
  have "alloc_step (cs[k := Testing i] ! k) m = (Testing (Suc i), m)" using Suc.hyps(2) Suc.prems(2,3) assms(2,4) by simp
  from run_one [OF Suc.prems(1) _ _ this] have "callers_run masked c (cs[k := Testing (Suc i)], m)" using assms(2,6) by simp
  with Suc show ?case by (intro Suc.hyps(1) [of "Suc i"]) simp_all
qed simp

lemma alone_equals:
  "callers_run masked ([Testing 0], mem_map s) ([Returned_page (fst (get_free_page s))], mem_map (snd (get_free_page s)))"
proof -
  have z: "callers_run masked ([Testing 0], mem_map s) ([Testing 0][0 := Testing 0], mem_map s)" by simp
  show ?thesis
  proof (cases rule: get_free_page_cases [of s])
    case (found i)
    from scan_to [OF z, of i] found have "callers_run masked ([Testing 0], mem_map s) ([Testing i], mem_map s)" by auto
    from run_one [OF this, of 0 "Marking i" "mem_map s"] found have "callers_run masked ([Testing 0], mem_map s) ([Marking i], mem_map s)" by simp
    from run_one [OF this, of 0 "Returned_page (page_addr i)" "(mem_map s)(i := 1)"] found show ?thesis by simp
  next
    case full
    from scan_to [OF z, of NR_PAGES] full have "callers_run masked ([Testing 0], mem_map s) ([Testing NR_PAGES], mem_map s)" by auto
    from run_one [OF this, of 0 "Returned_page 0" "mem_map s"] full show ?thesis by simp
  qed
qed

section \<open>Several callers\<close>

fun caller_ok :: "(nat \<Rightarrow> u8) \<Rightarrow> alloc_pc \<Rightarrow> bool" where
  "caller_ok m (Testing i) = True"
| "caller_ok m (Marking i) = (i < NR_PAGES \<and> m i = 0)"
| "caller_ok m (Returned_page p) = (p = 0 \<or> (\<exists>i < NR_PAGES. p = page_addr i \<and> m i \<noteq> 0))"

definition callers_inv :: "alloc_pc list \<Rightarrow> (nat \<Rightarrow> u8) \<Rightarrow> bool" where
  "callers_inv cs m \<longleftrightarrow> (\<forall>k < length cs. caller_ok m (cs ! k)) \<and>
     (\<forall>j < length cs. \<forall>k < length cs. j \<noteq> k \<longrightarrow> is_marking (cs ! j) \<longrightarrow> \<not> is_marking (cs ! k)) \<and>
     (\<forall>j < length cs. \<forall>k < length cs. \<forall>p. j \<noteq> k \<longrightarrow> p \<noteq> 0 \<longrightarrow> cs ! j = Returned_page p \<longrightarrow> cs ! k \<noteq> Returned_page p)"

lemma callers_inv_update:
  assumes "callers_inv cs m" and "k < length cs" and "caller_ok m' pc"
    and "\<And>j. j < length cs \<Longrightarrow> j \<noteq> k \<Longrightarrow> caller_ok m' (cs ! j) \<and> \<not> is_marking (cs ! j) \<and> (\<forall>p. p \<noteq> 0 \<longrightarrow> pc = Returned_page p \<longrightarrow> cs ! j \<noteq> Returned_page p)"
  shows "callers_inv (cs[k := pc]) m'"
  unfolding callers_inv_def
proof (intro conjI allI impI)
  fix j assume "j < length (cs[k := pc])"
  then show "caller_ok m' (cs[k := pc] ! j)" using assms(3,4) by (cases "j = k") simp_all
next
  fix i j assume "i < length (cs[k := pc])" "j < length (cs[k := pc])" "i \<noteq> j" "is_marking (cs[k := pc] ! i)"
  then show "\<not> is_marking (cs[k := pc] ! j)" using assms(4) by (cases "i = k"; cases "j = k") simp_all
next
  fix i j p assume a: "i < length (cs[k := pc])" "j < length (cs[k := pc])" "i \<noteq> j" "p \<noteq> 0" "cs[k := pc] ! i = Returned_page p"
  have "cs ! i \<noteq> Returned_page p \<or> cs ! j \<noteq> Returned_page p" if "i \<noteq> k" "j \<noteq> k"
    using assms(1) a(1-4) unfolding callers_inv_def by auto
  then show "cs[k := pc] ! j \<noteq> Returned_page p" using a assms(4) by (cases "i = k"; cases "j = k") auto
qed

lemma callers_inv_step:
  assumes "callers_step True (cs, m) c'" and "callers_inv cs m"
  shows "callers_inv (fst c') (snd c')"
proof -
  obtain k pc m' where caller: "c' = (cs[k := pc], m')" "k < length cs"
      "\<forall>j < length cs. j \<noteq> k \<longrightarrow> \<not> is_marking (cs ! j)" "alloc_step (cs ! k) m = (pc, m')"
    using assms(1) by (rule callers_stepE) blast
  note ok = assms(2) [unfolded callers_inv_def, THEN conjunct1, rule_format]
  have rest: "\<not> is_marking (cs ! j)" if "j < length cs" "j \<noteq> k" for j using caller(3) that by simp
  show ?thesis
  proof (cases "cs ! k")
    case (Testing i)
    then have "m' = m" "caller_ok m pc" "\<And>p. pc = Returned_page p \<Longrightarrow> p = 0"
      using caller(4) by (auto split: if_splits)
    then show ?thesis using callers_inv_update [OF assms(2) caller(2), of m' pc] ok rest unfolding caller(1) by auto
  next
    case (Marking i)
    then have i: "i < NR_PAGES" "m i = 0" "pc = Returned_page (page_addr i)" "m' = m(i := 1)" using ok [OF caller(2)] caller(4) by auto
    have o: "caller_ok m' (cs ! j) \<and> cs ! j \<noteq> Returned_page (page_addr i)" if "j < length cs" "j \<noteq> k" for j
      using ok [OF that(1)] rest [OF that] i by (cases "cs ! j") (auto simp: page_addr_inj)
    have "caller_ok m' pc" using i by (auto intro!: exI [of _ i])
    with o show ?thesis using callers_inv_update [OF assms(2) caller(2), of m' pc] rest i(3) unfolding caller(1) by auto
  next
    case (Returned_page p)
    then have "cs[k := pc] = cs" "m' = m" using caller(4) by auto
    then show ?thesis using caller(1) assms(2) by simp
  qed
qed

lemma callers_inv_run:
  assumes "callers_run True (cs, m) (cs', m')" and "callers_inv cs m"
  shows "callers_inv cs' m'"
  using assms
proof (induction "(cs', m')" arbitrary: cs' m' rule: rtranclp_induct)
  case (step c)
  obtain ds d where c: "c = (ds, d)" by (cases c)
  then have "callers_inv ds d" using step by blast
  from callers_inv_step [OF step(2) [unfolded c] this] show ?case by simp
qed simp

section \<open>Properties\<close>

text \<open>C28. The allocator under preemption: between the test of a page and its mark there is a window in which a second
  caller is given the same page; if no caller can be interrupted in that window, any number of callers get different
  pages in every interleaving. A caller that runs alone does what the function does.\<close>

theorem get_free_page_race:
  assumes "fst (get_free_page s) \<noteq> 0"
  shows "callers_run False ([Testing 0, Testing 0], mem_map s)
       ([Returned_page (fst (get_free_page s)), Returned_page (fst (get_free_page s))], mem_map (snd (get_free_page s))) \<and>
     (\<forall>n cs m j k p. callers_run True (replicate n (Testing 0), mem_map s) (cs, m) \<longrightarrow> j < length cs \<longrightarrow> k < length cs \<longrightarrow> j \<noteq> k \<longrightarrow>
        p \<noteq> 0 \<longrightarrow> cs ! j = Returned_page p \<longrightarrow> cs ! k \<noteq> Returned_page p) \<and>
     (\<forall>masked. callers_run masked ([Testing 0], mem_map s) ([Returned_page (fst (get_free_page s))], mem_map (snd (get_free_page s))))"
proof (intro conjI allI impI)
  show "callers_run False ([Testing 0, Testing 0], mem_map s)
       ([Returned_page (fst (get_free_page s)), Returned_page (fst (get_free_page s))], mem_map (snd (get_free_page s)))"
  proof (cases rule: get_free_page_cases [of s])
    case (found i)
    let ?c = "([Testing 0, Testing 0], mem_map s)"
    from scan_to [of False ?c "[Testing 0, Testing 0]" 0 0 "mem_map s" i] found have "callers_run False ?c ([Testing i, Testing 0], mem_map s)" by simp
    with scan_to [of False ?c "[Testing i, Testing 0]" 1 0 "mem_map s" i] found have "callers_run False ?c ([Testing i, Testing i], mem_map s)" by simp
    from run_one [OF this, of 0 "Marking i" "mem_map s"] found have "callers_run False ?c ([Marking i, Testing i], mem_map s)" by simp
    from run_one [OF this, of 1 "Marking i" "mem_map s"] found have "callers_run False ?c ([Marking i, Marking i], mem_map s)" by simp
    from run_one [OF this, of 0 "Returned_page (page_addr i)" "(mem_map s)(i := 1)"]
    have "callers_run False ?c ([Returned_page (page_addr i), Marking i], (mem_map s)(i := 1))" by simp
    from run_one [OF this, of 1 "Returned_page (page_addr i)" "(mem_map s)(i := 1)"] found show ?thesis by simp
  next
    case full
    with assms show ?thesis by simp
  qed
next
  fix n cs m j k p
  assume r: "callers_run True (replicate n (Testing 0), mem_map s) (cs, m)" and p: "j < length cs" "k < length cs" "j \<noteq> k" "p \<noteq> 0" "cs ! j = Returned_page p"
  have "callers_inv (replicate n (Testing 0)) (mem_map s)" by (simp add: callers_inv_def)
  from callers_inv_run [OF r this] p show "cs ! k \<noteq> Returned_page p" by (simp add: callers_inv_def)
next
  show "callers_run masked ([Testing 0], mem_map s) ([Returned_page (fst (get_free_page s))], mem_map (snd (get_free_page s)))" for masked
    by (rule alone_equals)
qed

theorem get_free_page_race_witness:
  "callers_run False ([Testing 0, Testing 0], \<lambda>_. 0) ([Returned_page 0x400000, Returned_page 0x400000], (\<lambda>_. 0)(0 := 1))"
proof -
  let ?s = "\<lparr>klog = [], hw_trace = [], io_dev = (\<lambda>_ _. 0), sys_dev = (\<lambda>_ _. 0), mem = (\<lambda>_. 0), irq_masked = True,
     mem_map = (\<lambda>_. 0), phy_start_address = 0\<rparr> :: page_state"
  have g: "get_free_page ?s = (page_addr 0, ?s\<lparr>mem_map := (\<lambda>_. 0)(0 := 1)\<rparr>)"
    by (simp add: get_free_page_def get_free_page_from.simps [of 0] NR_PAGES_val fun_upd_def)
  have a: "page_addr 0 = 0x400000" using page_addr_eq [of 0] by (simp add: NR_PAGES_val)
  show ?thesis using get_free_page_race [of ?s] unfolding g by (simp add: a)
qed
end
