(* ===== verification/Klist.thy ===== *)
theory Klist
  imports Prelude
begin

text \<open>
  The intrusive circular doubly linked list of \<^verbatim>\<open>include/list.h\<close>. A \<open>list_head\<close> lives at an address
  of the store; every operation writes the pointers in the order the code writes them, so that
  aliasing of the arguments has its effect, and a null pointer that the code would follow is a
  fault. \<open>ring\<close> says which cyclic list the pointers represent; it is stated over the two pointer
  fields as functions, because the kernel has a second ring of the same shape, the
  \<open>next_task\<close>/\<open>prev_task\<close> links of the process table.
\<close>

section \<open>Rings of pointers\<close>

fun linked :: "(u64 \<Rightarrow> u64) \<Rightarrow> (u64 \<Rightarrow> u64) \<Rightarrow> u64 list \<Rightarrow> bool" where
  "linked nxt prv (a # b # xs) \<longleftrightarrow> nxt a = b \<and> prv b = a \<and> linked nxt prv (b # xs)"
| "linked nxt prv xs \<longleftrightarrow> True"

definition ring :: "(u64 \<Rightarrow> u64) \<Rightarrow> (u64 \<Rightarrow> u64) \<Rightarrow> u64 \<Rightarrow> u64 list \<Rightarrow> bool" where
  "ring nxt prv head xs \<longleftrightarrow> distinct (head # xs) \<and> linked nxt prv (head # xs @ [head])"

text \<open>The traversal shared by \<open>list_for_each\<close> and \<open>for_each_task\<close>: from the successor of the head
  until the head is met again; on a list that never comes back to the head it does not return.\<close>

partial_function (option) walk_from :: "(u64 \<Rightarrow> u64) \<Rightarrow> u64 \<Rightarrow> u64 \<Rightarrow> u64 list \<Rightarrow> u64 list option" where
  "walk_from nxt head pos acc =
     (if pos = head then Some (rev acc) else walk_from nxt head (nxt pos) (pos # acc))"

lemma linked_append:
  "linked nxt prv (xs @ a # ys) \<longleftrightarrow> linked nxt prv (xs @ [a]) \<and> linked nxt prv (a # ys)"
proof (induction xs)
  case Nil
  show ?case by simp
next
  case (Cons x xs)
  then show ?case by (cases xs) auto
qed

lemma linked_cong:
  assumes "\<And>a. a \<in> set (butlast xs) \<Longrightarrow> nxt a = nxt' a" and "\<And>b. b \<in> set (tl xs) \<Longrightarrow> prv b = prv' b"
  shows "linked nxt prv xs \<longleftrightarrow> linked nxt' prv' xs"
  using assms
proof (induction nxt prv xs rule: linked.induct)
  case (1 nxt prv a b xs)
  have "linked nxt prv (b # xs) \<longleftrightarrow> linked nxt' prv' (b # xs)"
  proof (rule "1.IH")
    fix c assume "c \<in> set (butlast (b # xs))"
    then show "nxt c = nxt' c" using "1.prems"(1) by simp
  next
    fix c assume "c \<in> set (tl (b # xs))"
    then show "prv c = prv' c" using "1.prems"(2) by simp
  qed
  then show ?case using "1.prems"(1) [of a] "1.prems"(2) [of b] by simp
qed simp_all

lemma linked_append2:
  "linked nxt prv (xs @ a # b # ys) \<longleftrightarrow>
     linked nxt prv (xs @ [a]) \<and> nxt a = b \<and> prv b = a \<and> linked nxt prv (b # ys)"
  using linked_append [of nxt prv xs a "b # ys"] by simp

text \<open>Linking a new node between two neighbours, and unlinking one: the other pointers do not
  matter.\<close>

lemma linked_insert:
  assumes l: "linked nxt prv (pre @ a # b # post)"
    and d: "distinct (pre @ a # butlast (b # post))" "distinct (tl (pre @ a # b # post))"
    and n: "n \<notin> set (pre @ a # b # post)"
    and nx: "nxt' a = n" "nxt' n = b" "\<And>x. x \<noteq> a \<Longrightarrow> x \<noteq> n \<Longrightarrow> nxt' x = nxt x"
    and pv: "prv' b = n" "prv' n = a" "\<And>x. x \<noteq> b \<Longrightarrow> x \<noteq> n \<Longrightarrow> prv' x = prv x"
  shows "linked nxt' prv' (pre @ a # n # b # post)"
proof -
  from l have l1: "linked nxt prv (pre @ [a])" and l2: "linked nxt prv (a # b # post)"
    by (simp_all add: linked_append2)
  have "linked nxt' prv' (pre @ [a]) \<longleftrightarrow> linked nxt prv (pre @ [a])"
  proof (rule linked_cong)
    fix x assume "x \<in> set (butlast (pre @ [a]))"
    then show "nxt' x = nxt x" using d(1) n by (intro nx) auto
  next
    fix x assume "x \<in> set (tl (pre @ [a]))"
    then show "prv' x = prv x" using d(2) n by (intro pv) (cases pre; auto)+
  qed
  moreover have "linked nxt' prv' (b # post) \<longleftrightarrow> linked nxt prv (b # post)"
  proof (rule linked_cong)
    fix x assume "x \<in> set (butlast (b # post))"
    then show "nxt' x = nxt x" using d(1) n by (intro nx) (auto dest: in_set_butlastD split: if_splits)
  next
    fix x assume "x \<in> set (tl (b # post))"
    then show "prv' x = prv x" using d(2) n by (intro pv) (cases pre; auto)+
  qed
  ultimately show ?thesis
    using l1 l2 nx(1,2) pv(1,2) by (simp add: linked_append2)
qed

lemma linked_delete:
  assumes l: "linked nxt prv (pre @ a # e # b # post)"
    and d: "distinct (pre @ a # butlast (b # post))" "distinct (tl (pre @ a # b # post))"
    and e: "e \<notin> set (pre @ a # b # post)"
    and nx: "nxt' a = b" "\<And>x. x \<noteq> a \<Longrightarrow> x \<noteq> e \<Longrightarrow> nxt' x = nxt x"
    and pv: "prv' b = a" "\<And>x. x \<noteq> b \<Longrightarrow> x \<noteq> e \<Longrightarrow> prv' x = prv x"
  shows "linked nxt' prv' (pre @ a # b # post)"
proof -
  from l have l1: "linked nxt prv (pre @ [a])" and l2: "linked nxt prv (a # e # b # post)"
    by (simp_all add: linked_append2)
  have "linked nxt' prv' (pre @ [a]) \<longleftrightarrow> linked nxt prv (pre @ [a])"
  proof (rule linked_cong)
    fix x assume "x \<in> set (butlast (pre @ [a]))"
    then show "nxt' x = nxt x" using d(1) e by (intro nx) auto
  next
    fix x assume "x \<in> set (tl (pre @ [a]))"
    then show "prv' x = prv x" using d(2) e by (intro pv) (cases pre; auto)+
  qed
  moreover have "linked nxt' prv' (b # post) \<longleftrightarrow> linked nxt prv (b # post)"
  proof (rule linked_cong)
    fix x assume "x \<in> set (butlast (b # post))"
    then show "nxt' x = nxt x" using d(1) e by (intro nx) (auto dest: in_set_butlastD split: if_splits)
  next
    fix x assume "x \<in> set (tl (b # post))"
    then show "prv' x = prv x" using d(2) e by (intro pv) (cases pre; auto)+
  qed
  ultimately show ?thesis
    using l1 l2 nx(1) pv(1) by (simp add: linked_append2)
qed

lemma walk_from_linked:
  "linked nxt prv (pos # xs @ [head]) \<Longrightarrow> head \<notin> set (pos # xs) \<Longrightarrow>
     walk_from nxt head pos acc = Some (rev acc @ pos # xs)"
proof (induction xs arbitrary: pos acc)
  case Nil
  then have "pos \<noteq> head" "nxt pos = head" by auto
  then show ?case by (simp add: walk_from.simps [of nxt head pos] walk_from.simps [of nxt head head])
next
  case (Cons x xs)
  then have "pos \<noteq> head" "nxt pos = x" by auto
  with Cons show ?case by (simp add: walk_from.simps [of nxt head pos])
qed

lemma ring_walk: "ring nxt prv head xs \<Longrightarrow> walk_from nxt head (nxt head) acc = Some (rev acc @ xs)"
proof (cases xs)
  case Nil
  moreover assume "ring nxt prv head xs"
  ultimately show ?thesis by (simp add: ring_def walk_from.simps [of nxt head head])
next
  case (Cons x ys)
  moreover assume "ring nxt prv head xs"
  ultimately have l: "linked nxt prv (x # ys @ [head])" "head \<notin> set (x # ys)" "nxt head = x"
    by (auto simp: ring_def)
  from walk_from_linked [OF l(1,2)] show ?thesis by (simp add: l(3) Cons)
qed

section \<open>include/list.h\<close>

record list_head =
  lh_next :: u64
  lh_prev :: u64

type_synonym lheap = "u64 \<Rightarrow> list_head"

definition LIST_POISON1 :: u64 where "LIST_POISON1 = 0x00100100 + 0xdead000000000000"
definition LIST_POISON2 :: u64 where "LIST_POISON2 = 0x00200200 + 0xdead000000000000"

definition INIT_LIST_HEAD :: "u64 \<Rightarrow> lheap \<Rightarrow> lheap" where
  "INIT_LIST_HEAD list h =
     (let h = h(list := (h list)\<lparr>lh_next := list\<rparr>);
          h = h(list := (h list)\<lparr>lh_prev := list\<rparr>)
      in h)"

definition list_add_between :: "u64 \<Rightarrow> u64 \<Rightarrow> u64 \<Rightarrow> lheap \<Rightarrow> lheap res" where
  "list_add_between new prev nxt h =
     (if nxt = 0 \<or> new = 0 \<or> prev = 0 then Inl Null_deref
      else
        let h = h(nxt := (h nxt)\<lparr>lh_prev := new\<rparr>);
            h = h(new := (h new)\<lparr>lh_next := nxt\<rparr>);
            h = h(new := (h new)\<lparr>lh_prev := prev\<rparr>);
            h = h(prev := (h prev)\<lparr>lh_next := new\<rparr>)
        in Inr h)"

definition list_add :: "u64 \<Rightarrow> u64 \<Rightarrow> lheap \<Rightarrow> lheap res" where
  "list_add new head h = list_add_between new head (lh_next (h head)) h"

definition list_add_tail :: "u64 \<Rightarrow> u64 \<Rightarrow> lheap \<Rightarrow> lheap res" where
  "list_add_tail new head h = list_add_between new (lh_prev (h head)) head h"

definition list_del_between :: "u64 \<Rightarrow> u64 \<Rightarrow> lheap \<Rightarrow> lheap res" where
  "list_del_between prev nxt h =
     (if nxt = 0 \<or> prev = 0 then Inl Null_deref
      else
        let h = h(nxt := (h nxt)\<lparr>lh_prev := prev\<rparr>);
            h = h(prev := (h prev)\<lparr>lh_next := nxt\<rparr>)
        in Inr h)"

definition list_del :: "u64 \<Rightarrow> lheap \<Rightarrow> lheap res" where
  "list_del entry h =
     bindr (list_del_between (lh_prev (h entry)) (lh_next (h entry)) h) (\<lambda>h.
       let h = h(entry := (h entry)\<lparr>lh_next := LIST_POISON1\<rparr>);
           h = h(entry := (h entry)\<lparr>lh_prev := LIST_POISON2\<rparr>)
       in Inr h)"

definition list_empty :: "u64 \<Rightarrow> lheap \<Rightarrow> bool" where
  "list_empty head h \<longleftrightarrow> lh_next (h head) = head"

definition list_nodes :: "u64 \<Rightarrow> lheap \<Rightarrow> u64 list option" where
  "list_nodes head h = walk_from (\<lambda>a. lh_next (h a)) head (lh_next (h head)) []"

definition list_rep :: "lheap \<Rightarrow> u64 \<Rightarrow> u64 list \<Rightarrow> bool" where
  "list_rep h head xs \<longleftrightarrow>
     ring (\<lambda>a. lh_next (h a)) (\<lambda>a. lh_prev (h a)) head xs \<and> 0 \<notin> set (head # xs)"

section \<open>Correctness of the operations\<close>

lemma ring_last:
  assumes "ring nxt prv head xs"
  shows "prv head = last (head # xs)"
proof -
  show ?thesis
  proof (cases xs rule: rev_cases)
    case Nil
    with assms show ?thesis by (simp add: ring_def)
  next
    case (snoc ys y)
    with assms have "linked nxt prv ((head # ys) @ y # head # [])" by (simp add: ring_def)
    then have "prv head = y" by (simp only: linked_append2)
    with snoc show ?thesis by simp
  qed
qed

lemma list_rep_init: "list_rep (INIT_LIST_HEAD l h) l []" if "l \<noteq> 0"
  using that by (simp add: list_rep_def ring_def INIT_LIST_HEAD_def)

lemma list_rep_add_between:
  assumes cyc: "head # xs @ [head] = pre @ a # b # post"
    and rep: "list_rep h head xs" and n: "new \<notin> set (head # xs)" "new \<noteq> 0"
  shows "\<exists>h'. list_add_between new a b h = Inr h' \<and>
     linked (\<lambda>x. lh_next (h' x)) (\<lambda>x. lh_prev (h' x)) (pre @ a # new # b # post) \<and>
     (\<forall>x. x \<notin> set (new # head # xs) \<longrightarrow> h' x = h x)"
proof -
  have mem: "set (head # xs) = set (pre @ a # b # post)"
    using arg_cong [OF cyc, of set] by auto
  have "0 \<notin> set (pre @ a # b # post)" "new \<notin> set (pre @ a # b # post)"
    using rep n unfolding list_rep_def mem by simp_all
  then have ab: "a \<noteq> 0" "b \<noteq> 0" "a \<noteq> new" "b \<noteq> new" by auto
  obtain h' where h': "list_add_between new a b h = Inr h'"
    "lh_next (h' a) = new" "lh_next (h' new) = b" "\<And>x. x \<noteq> a \<Longrightarrow> x \<noteq> new \<Longrightarrow> lh_next (h' x) = lh_next (h x)"
    "lh_prev (h' b) = new" "lh_prev (h' new) = a" "\<And>x. x \<noteq> b \<Longrightarrow> x \<noteq> new \<Longrightarrow> lh_prev (h' x) = lh_prev (h x)"
    "\<And>x. x \<noteq> a \<Longrightarrow> x \<noteq> b \<Longrightarrow> x \<noteq> new \<Longrightarrow> h' x = h x"
    using ab n by (auto simp: list_add_between_def Let_def)
  from rep have l: "linked (\<lambda>x. lh_next (h x)) (\<lambda>x. lh_prev (h x)) (pre @ a # b # post)"
    by (simp add: list_rep_def ring_def flip: cyc)
  have "butlast (pre @ a # b # post) = head # xs" "tl (pre @ a # b # post) = xs @ [head]"
    by (simp_all flip: cyc)
  then have d: "distinct (pre @ a # butlast (b # post))" "distinct (tl (pre @ a # b # post))"
    using rep by (auto simp: list_rep_def ring_def butlast_append)
  have "linked (\<lambda>x. lh_next (h' x)) (\<lambda>x. lh_prev (h' x)) (pre @ a # new # b # post)"
    using n mem by (intro linked_insert [OF l d _ h'(2-7)]) auto
  with h' mem show ?thesis by auto
qed

lemma list_rep_add:
  assumes rep: "list_rep h head xs" and n: "new \<notin> set (head # xs)" "new \<noteq> 0"
  shows "\<exists>h'. list_add new head h = Inr h' \<and> list_rep h' head (new # xs) \<and>
     (\<forall>x. x \<notin> set (new # head # xs) \<longrightarrow> h' x = h x)"
proof -
  obtain b post where b: "xs @ [head] = b # post" by (cases xs) auto
  with rep have "lh_next (h head) = b" by (simp add: list_rep_def ring_def)
  with list_rep_add_between [of head xs "[]" head b post, OF _ rep n] b rep n
  show ?thesis by (auto simp: list_add_def list_rep_def ring_def)
qed

lemma list_rep_add_tail:
  assumes rep: "list_rep h head xs" and n: "new \<notin> set (head # xs)" "new \<noteq> 0"
  shows "\<exists>h'. list_add_tail new head h = Inr h' \<and> list_rep h' head (xs @ [new]) \<and>
     (\<forall>x. x \<notin> set (new # head # xs) \<longrightarrow> h' x = h x)"
proof -
  define pre a where "pre = butlast (head # xs)" and "a = last (head # xs)"
  have cyc: "head # xs = pre @ [a]" unfolding pre_def a_def by (metis append_butlast_last_id list.distinct(1))
  from rep have r: "ring (\<lambda>a. lh_next (h a)) (\<lambda>a. lh_prev (h a)) head xs" by (simp add: list_rep_def)
  have pv: "lh_prev (h head) = a" using ring_last [OF r] by (simp add: a_def)
  have c: "head # xs @ [head] = pre @ a # head # []" using arg_cong [OF cyc, of "\<lambda>l. l @ [head]"] by simp
  from list_rep_add_between [OF c rep n] obtain h' where h': "list_add_between new a head h = Inr h'"
    "linked (\<lambda>x. lh_next (h' x)) (\<lambda>x. lh_prev (h' x)) (pre @ a # new # head # [])"
    "\<forall>x. x \<notin> set (new # head # xs) \<longrightarrow> h' x = h x" by blast
  have "pre @ a # new # head # [] = head # (xs @ [new]) @ [head]"
    using arg_cong [OF cyc, of "\<lambda>l. l @ [new, head]"] by simp
  with h'(2) have "list_rep h' head (xs @ [new])"
    using rep n by (auto simp: list_rep_def ring_def)
  with h' show ?thesis by (auto simp: list_add_tail_def pv)
qed

lemma list_rep_del:
  assumes rep: "list_rep h head (xs @ e # ys)"
  shows "\<exists>h'. list_del e h = Inr h' \<and> list_rep h' head (xs @ ys) \<and>
     h' e = \<lparr>lh_next = LIST_POISON1, lh_prev = LIST_POISON2\<rparr> \<and>
     (\<forall>x. x \<notin> set (head # xs @ e # ys) \<longrightarrow> h' x = h x)"
proof -
  define pre a where "pre = butlast (head # xs)" and "a = last (head # xs)"
  have cyc1: "head # xs = pre @ [a]" unfolding pre_def a_def by (metis append_butlast_last_id list.distinct(1))
  obtain b post where cyc2: "ys @ [head] = b # post" by (cases ys) auto
  have full: "head # (xs @ e # ys) @ [head] = pre @ a # e # b # post"
    using cyc1 cyc2 by (metis append.assoc append_Cons append_Nil)
  have short: "head # (xs @ ys) @ [head] = pre @ a # b # post"
    using cyc1 cyc2 by (metis append.assoc append_Cons append_Nil)
  from rep full have l: "linked (\<lambda>x. lh_next (h x)) (\<lambda>x. lh_prev (h x)) (pre @ a # e # b # post)"
    by (simp add: list_rep_def ring_def)
  then have nb: "lh_prev (h e) = a" "lh_next (h e) = b"
    by (simp_all add: linked_append2)
  have mem: "set (pre @ a # b # post) = set (head # xs @ ys)"
    using arg_cong [OF short, of set] by auto
  have e: "0 \<notin> set (pre @ a # b # post)" "e \<notin> set (pre @ a # b # post)"
    using rep unfolding list_rep_def ring_def mem by auto
  then have ab: "a \<noteq> 0" "b \<noteq> 0" "a \<noteq> e" "b \<noteq> e" by auto
  obtain h' where h': "list_del e h = Inr h'" "lh_next (h' a) = b"
    "\<And>x. x \<noteq> a \<Longrightarrow> x \<noteq> e \<Longrightarrow> lh_next (h' x) = lh_next (h x)" "lh_prev (h' b) = a"
    "\<And>x. x \<noteq> b \<Longrightarrow> x \<noteq> e \<Longrightarrow> lh_prev (h' x) = lh_prev (h x)"
    "h' e = \<lparr>lh_next = LIST_POISON1, lh_prev = LIST_POISON2\<rparr>"
    "\<And>x. x \<noteq> a \<Longrightarrow> x \<noteq> b \<Longrightarrow> x \<noteq> e \<Longrightarrow> h' x = h x"
    using ab by (auto simp: list_del_def list_del_between_def Let_def nb)
  have "butlast (pre @ a # b # post) = head # xs @ ys" "tl (pre @ a # b # post) = xs @ ys @ [head]"
    using butlast_snoc [of "head # xs @ ys" head] by (simp_all flip: short)
  then have d: "distinct (pre @ a # butlast (b # post))" "distinct (tl (pre @ a # b # post))"
    using rep by (auto simp: list_rep_def ring_def butlast_append)
  from e(2) have "linked (\<lambda>x. lh_next (h' x)) (\<lambda>x. lh_prev (h' x)) (pre @ a # b # post)"
    by (rule linked_delete [OF l d _ h'(2-5)])
  with short have "linked (\<lambda>x. lh_next (h' x)) (\<lambda>x. lh_prev (h' x)) (head # (xs @ ys) @ [head])"
    by simp
  with h' mem rep show ?thesis by (auto simp: list_rep_def ring_def)
qed

lemma list_rep_empty: "list_rep h head xs \<Longrightarrow> list_empty head h \<longleftrightarrow> xs = []"
  by (cases xs) (auto simp: list_rep_def ring_def list_empty_def)

lemma list_rep_neighbours:
  assumes "list_rep h head (xs @ ys)"
  shows "lh_next (h (last (head # xs))) = hd (ys @ [head]) \<and> lh_prev (h (hd (ys @ [head]))) = last (head # xs)"
proof -
  have "head # xs = butlast (head # xs) @ [last (head # xs)]" by (rule append_butlast_last_id [symmetric]) simp
  moreover obtain b post where b: "ys @ [head] = b # post" by (cases ys) auto
  ultimately have eq: "head # (xs @ ys) @ [head] = butlast (head # xs) @ last (head # xs) # b # post"
    by (metis append.assoc append_Cons append_Nil)
  have "linked (\<lambda>a. lh_next (h a)) (\<lambda>a. lh_prev (h a)) (head # (xs @ ys) @ [head])"
    using assms by (simp add: list_rep_def ring_def)
  then show ?thesis unfolding eq b by (simp only: linked_append2 list.sel)
qed

lemma list_rep_nodes: "list_rep h head xs \<Longrightarrow> list_nodes head h = Some xs"
  using ring_walk [of "\<lambda>a. lh_next (h a)" "\<lambda>a. lh_prev (h a)" head xs "[]"]
  by (simp add: list_rep_def list_nodes_def)

section \<open>The contract of the list\<close>

primrec add_all :: "(u64 \<Rightarrow> u64 \<Rightarrow> 'h \<Rightarrow> 'h res) \<Rightarrow> u64 \<Rightarrow> u64 list \<Rightarrow> 'h \<Rightarrow> 'h res" where
  "add_all add head [] h = Inr h"
| "add_all add head (n # ns) h = bindr (add n head h) (add_all add head ns)"

text \<open>What the clients of the list rely on: \<open>rep h head xs\<close> says that the list at \<open>head\<close> holds the
  nodes \<open>xs\<close> in order.\<close>

locale kernel_list =
  fixes rep :: "'h \<Rightarrow> u64 \<Rightarrow> u64 list \<Rightarrow> bool"
    and init :: "u64 \<Rightarrow> 'h \<Rightarrow> 'h"
    and add :: "u64 \<Rightarrow> u64 \<Rightarrow> 'h \<Rightarrow> 'h res"
    and add_tail :: "u64 \<Rightarrow> u64 \<Rightarrow> 'h \<Rightarrow> 'h res"
    and del :: "u64 \<Rightarrow> 'h \<Rightarrow> 'h res"
    and nodes :: "u64 \<Rightarrow> 'h \<Rightarrow> u64 list option"
  assumes rep_init: "head \<noteq> 0 \<Longrightarrow> rep (init head h) head []"
    and rep_add: "rep h head xs \<Longrightarrow> n \<notin> set (head # xs) \<Longrightarrow> n \<noteq> 0 \<Longrightarrow>
      \<exists>h'. add n head h = Inr h' \<and> rep h' head (n # xs)"
    and rep_add_tail: "rep h head xs \<Longrightarrow> n \<notin> set (head # xs) \<Longrightarrow> n \<noteq> 0 \<Longrightarrow>
      \<exists>h'. add_tail n head h = Inr h' \<and> rep h' head (xs @ [n])"
    and rep_del: "rep h head (xs @ e # ys) \<Longrightarrow> \<exists>h'. del e h = Inr h' \<and> rep h' head (xs @ ys)"
    and rep_nodes: "rep h head xs \<Longrightarrow> nodes head h = Some xs"
    and rep_distinct: "rep h head xs \<Longrightarrow> distinct (head # xs)"
begin

lemma add_del:
  assumes "rep h head xs" and "n \<notin> set (head # xs)" and "n \<noteq> 0"
  shows "\<exists>h'. bindr (add n head h) (del n) = Inr h' \<and> nodes head h' = Some xs"
proof -
  from rep_add [OF assms] obtain h' where "add n head h = Inr h'" "rep h' head ([] @ n # xs)" by auto
  with rep_del [of h' head "[]" n xs] rep_nodes show ?thesis by fastforce
qed

lemma del_nodes:
  assumes "rep h head xs" and "e \<in> set xs"
  shows "\<exists>h'. del e h = Inr h' \<and> rep h' head (remove1 e xs)"
proof -
  from assms(2) obtain ys zs where yz: "xs = ys @ e # zs" "e \<notin> set ys" by (meson split_list_first)
  then have "remove1 e xs = ys @ zs" by (simp add: remove1_append)
  with rep_del [of h head ys e zs] assms yz show ?thesis by simp
qed

lemma add_all_lifo:
  "rep h head xs \<Longrightarrow> distinct (ns @ head # xs) \<Longrightarrow> 0 \<notin> set ns \<Longrightarrow>
     \<exists>h'. add_all add head ns h = Inr h' \<and> rep h' head (rev ns @ xs)"
proof (induction ns arbitrary: h xs)
  case Nil
  then show ?case by simp
next
  case (Cons n ns)
  with rep_add [of h head xs n] obtain h' where h': "add n head h = Inr h'" "rep h' head (n # xs)"
    by auto
  with Cons.IH [OF h'(2)] Cons.prems show ?case by auto
qed

lemma add_all_fifo:
  "rep h head xs \<Longrightarrow> distinct (ns @ head # xs) \<Longrightarrow> 0 \<notin> set ns \<Longrightarrow>
     \<exists>h'. add_all add_tail head ns h = Inr h' \<and> rep h' head (xs @ ns)"
proof (induction ns arbitrary: h xs)
  case Nil
  then show ?case by simp
next
  case (Cons n ns)
  with rep_add_tail [of h head xs n] obtain h' where h': "add_tail n head h = Inr h'" "rep h' head (xs @ [n])"
    by auto
  with Cons.IH [OF h'(2)] Cons.prems show ?case by auto
qed

end

interpretation kl: kernel_list list_rep INIT_LIST_HEAD list_add list_add_tail list_del list_nodes
proof
  fix h head xs and n :: u64
  assume "list_rep h head xs" "n \<notin> set (head # xs)" "n \<noteq> 0"
  then show "\<exists>h'. list_add n head h = Inr h' \<and> list_rep h' head (n # xs)"
    and "\<exists>h'. list_add_tail n head h = Inr h' \<and> list_rep h' head (xs @ [n])"
    using list_rep_add list_rep_add_tail by blast+
next
  fix h head xs e ys
  assume "list_rep h head (xs @ e # ys)"
  then show "\<exists>h'. list_del e h = Inr h' \<and> list_rep h' head (xs @ ys)"
    using list_rep_del by blast
qed (auto simp: list_rep_init list_rep_nodes, auto simp: list_rep_def ring_def)

section \<open>Properties\<close>

text \<open>From an initialised head, adding any distinct nodes with \<open>list_add\<close> returns, and traversing
  the list visits them last in first out; with \<open>list_add_tail\<close>, first in first out.\<close>

theorem list_add_order:
  assumes "distinct (head # ns)" and "0 \<notin> set (head # ns)"
  shows "bindr (add_all list_add head ns (INIT_LIST_HEAD head h)) (\<lambda>h. returns (list_nodes head h)) = Inr (rev ns)
     \<and> bindr (add_all list_add_tail head ns (INIT_LIST_HEAD head h)) (\<lambda>h. returns (list_nodes head h)) = Inr ns"
proof -
  have "list_rep (INIT_LIST_HEAD head h) head []" using assms by (intro kl.rep_init) simp
  from kl.add_all_lifo [OF this, of ns] kl.add_all_fifo [OF this, of ns] assms
  show ?thesis using kl.rep_nodes by fastforce
qed

theorem list_add_order_witness:
  "bindr (add_all list_add 8 [16, 32] (INIT_LIST_HEAD 8 (\<lambda>_. \<lparr>lh_next = 0, lh_prev = 0\<rparr>))) (\<lambda>h. returns (list_nodes 8 h)) = Inr (rev [16, 32])
     \<and> bindr (add_all list_add_tail 8 [16, 32] (INIT_LIST_HEAD 8 (\<lambda>_. \<lparr>lh_next = 0, lh_prev = 0\<rparr>))) (\<lambda>h. returns (list_nodes 8 h)) = Inr [16, 32]"
  by (rule list_add_order) simp_all

text \<open>C34. \<open>list_del\<close> unlinks the node in both directions: the list is again a ring of forward and backward links without
  the node, the neighbours of the node are each other's neighbours, the node's own links are poisoned, and no node outside the list changes.\<close>

theorem list_del_removes:
  assumes "list_rep h head (xs @ e # ys)"
  shows "\<exists>h'. list_del e h = Inr h' \<and> list_rep h' head (xs @ ys) \<and> list_nodes head h' = Some (xs @ ys) \<and>
     lh_next (h' (last (head # xs))) = hd (ys @ [head]) \<and> lh_prev (h' (hd (ys @ [head]))) = last (head # xs) \<and>
     h' e = \<lparr>lh_next = LIST_POISON1, lh_prev = LIST_POISON2\<rparr> \<and> (\<forall>x. x \<notin> set (head # xs @ e # ys) \<longrightarrow> h' x = h x)"
proof -
  obtain h' where h': "list_del e h = Inr h'" "list_rep h' head (xs @ ys)" "h' e = \<lparr>lh_next = LIST_POISON1, lh_prev = LIST_POISON2\<rparr>"
    "\<forall>x. x \<notin> set (head # xs @ e # ys) \<longrightarrow> h' x = h x" using list_rep_del [OF assms] by blast
  show ?thesis using h' list_rep_nodes [OF h'(2)] list_rep_neighbours [OF h'(2)] by blast
qed

theorem list_del_removes_witness:
  "\<exists>h'. list_del 16 ((\<lambda>_. \<lparr>lh_next = 0, lh_prev = 0\<rparr>)(8 := \<lparr>lh_next = 16, lh_prev = 24\<rparr>,
       16 := \<lparr>lh_next = 24, lh_prev = 8\<rparr>, 24 := \<lparr>lh_next = 8, lh_prev = 16\<rparr>)) = Inr h' \<and>
     list_nodes 8 h' = Some [24] \<and> lh_prev (h' 24) = 8 \<and> h' 16 = \<lparr>lh_next = LIST_POISON1, lh_prev = LIST_POISON2\<rparr>"
proof -
  have "list_rep ((\<lambda>_. \<lparr>lh_next = 0, lh_prev = 0\<rparr>)(8 := \<lparr>lh_next = 16, lh_prev = 24\<rparr>,
       16 := \<lparr>lh_next = 24, lh_prev = 8\<rparr>, 24 := \<lparr>lh_next = 8, lh_prev = 16\<rparr>)) 8 ([] @ 16 # [24])"
    by (simp add: list_rep_def ring_def)
  from list_del_removes [OF this] show ?thesis by auto
qed

end
