(* ===== verification/Sched.thy ===== *)
theory Sched
  imports Page_Alloc Klist
begin

text \<open>
  The scheduler: \<^verbatim>\<open>include/sched.h\<close>, \<^verbatim>\<open>kernel/sched.c\<close>, the scheduling class of
  \<^verbatim>\<open>kernel/sched_nop.c\<close>, \<^verbatim>\<open>asm/current.h\<close> and the context switch of \<^verbatim>\<open>arch/arm64/kernel/entry.S\<close>.

  A task structure is a record at its address in \<open>tasks\<close>; its embedded \<open>run_list\<close> is the node of
  the list store at the address plus the field's offset, so that \<open>list_entry\<close> is the subtraction the
  macro makes. The CPU's callee-saved registers, stack pointer and link register are a
  \<open>cpu_context\<close>, the very record \<open>cpu_switch_to\<close> saves and loads, and \<open>current\<close> masks the stack
  pointer. Addresses the linker assigns are the fields of \<open>syms\<close>, which no operation writes.

  A call of \<open>schedule\<close> that switches continues on the stack of another task. The frame that
  \<open>__schedule\<close> returns to is on that stack; \<open>frames\<close> keeps it for every suspended task, and the
  loaded link register says whether the task was suspended in \<open>switch_to\<close> or starts at
  \<open>ret_from_fork\<close>. The outcome says who runs when the call is over.
\<close>

section \<open>Data\<close>

record cpu_context =
  cc_x19 :: u64
  cc_x20 :: u64
  cc_x21 :: u64
  cc_x22 :: u64
  cc_x23 :: u64
  cc_x24 :: u64
  cc_x25 :: u64
  cc_x26 :: u64
  cc_x27 :: u64
  cc_x28 :: u64
  cc_fp :: u64
  cc_sp :: u64
  cc_pc :: u64

definition cpu_context_0 :: cpu_context where
  "cpu_context_0 = \<lparr>cc_x19 = 0, cc_x20 = 0, cc_x21 = 0, cc_x22 = 0, cc_x23 = 0, cc_x24 = 0, cc_x25 = 0,
     cc_x26 = 0, cc_x27 = 0, cc_x28 = 0, cc_fp = 0, cc_sp = 0, cc_pc = 0\<rparr>"

datatype task_state =
    TASK_RUNNING | TASK_INTERRUPTIBLE | TASK_UNINTERRUPTIBLE | TASK_ZOMBIE | TASK_STOPPED

record task_struct =
  t_state :: task_state
  t_flags :: u32
  t_pid :: s32
  t_cpu_context :: cpu_context
  t_counter :: s32
  t_priority :: s32
  t_need_resched :: s32
  t_preempt_count :: s32
  t_next_task :: u64
  t_prev_task :: u64

text \<open>A task structure of null bytes, as \<open>memset(p, 0, sizeof(*p))\<close> leaves it.\<close>

definition task_0 :: task_struct where
  "task_0 = \<lparr>t_state = TASK_RUNNING, t_flags = 0, t_pid = 0, t_cpu_context = cpu_context_0, t_counter = 0,
     t_priority = 0, t_need_resched = 0, t_preempt_count = 0, t_next_task = 0, t_prev_task = 0\<rparr>"

record run_queue =
  nr_running :: u32
  nr_switches :: u64
  rq_curr :: u64

record symbols =
  sym_init_task :: u64
  sym_rq_head :: u64
  sym_ret_from_fork :: u64
  sym_switch_to_ret :: u64

datatype sched_caller = By_schedule | By_preempt_schedule_irq

datatype outcome = Returned sched_caller | Starts u64 u64 | Returns_to_user

record sched_state = page_state +
  tasks :: "u64 \<Rightarrow> task_struct"
  lists :: lheap
  rq :: run_queue
  cpu :: cpu_context
  frames :: "u64 \<Rightarrow> sched_caller"
  syms :: symbols

section \<open>Constants and addresses\<close>

definition HZ :: s32 where "HZ = 250"
definition DEF_COUNTER :: s32 where "DEF_COUNTER = HZ div 10"
definition PF_KTHREAD :: u64 where "PF_KTHREAD = push_bit 0 1"
definition HARDIRQ_OFFSET :: s32 where "HARDIRQ_OFFSET = push_bit 8 1"

lemma sched_consts [simp]: "DEF_COUNTER = 25" "PF_KTHREAD = 1" "HARDIRQ_OFFSET = 256"
  by (simp_all add: DEF_COUNTER_def HZ_def PF_KTHREAD_def HARDIRQ_OFFSET_def)

definition run_list_offset :: u64 where "run_list_offset = 120"

definition run_list_of :: "u64 \<Rightarrow> u64" where "run_list_of p = p + run_list_offset"

definition list_entry_task :: "u64 \<Rightarrow> u64" where "list_entry_task n = n - run_list_offset"

definition current :: "'a sched_state_scheme \<Rightarrow> u64" where
  "current s = cc_sp (cpu s) AND NOT (scast (THREAD_SIZE - 1))"

definition upd_task :: "u64 \<Rightarrow> (task_struct \<Rightarrow> task_struct) \<Rightarrow> 'a sched_state_scheme \<Rightarrow> 'a sched_state_scheme" where
  "upd_task p f s = s\<lparr>tasks := (tasks s)(p := f (tasks s p))\<rparr>"

section \<open>kernel/sched_nop.c\<close>

definition dequeue_task_nop :: "u64 \<Rightarrow> 'a sched_state_scheme \<Rightarrow> 'a sched_state_scheme res" where
  "dequeue_task_nop p s =
     (let s = s\<lparr>rq := (rq s)\<lparr>nr_running := nr_running (rq s) - 1\<rparr>\<rparr>
      in bindr (list_del (run_list_of p) (lists s)) (\<lambda>h. Inr (s\<lparr>lists := h\<rparr>)))"

definition enqueue_task_nop :: "u64 \<Rightarrow> 'a sched_state_scheme \<Rightarrow> 'a sched_state_scheme res" where
  "enqueue_task_nop p s =
     bindr (list_add (run_list_of p) (sym_rq_head (syms s)) (lists s)) (\<lambda>h.
       let s = s\<lparr>lists := h\<rparr>
       in Inr (s\<lparr>rq := (rq s)\<lparr>nr_running := nr_running (rq s) + 1\<rparr>\<rparr>))"

definition task_tick_nop :: "u64 \<Rightarrow> 'a sched_state_scheme \<Rightarrow> 'a sched_state_scheme" where
  "task_tick_nop p s =
     (let s = upd_task p (\<lambda>t. t\<lparr>t_counter := t_counter t - 1\<rparr>) s
      in if sint (t_counter (tasks s p)) \<le> 0 then
           let s = upd_task p (\<lambda>t. t\<lparr>t_counter := 0\<rparr>) s;
               s = upd_task p (\<lambda>t. t\<lparr>t_need_resched := 1\<rparr>) s
           in printk_call ''pid %d need_resched\<newline>'' [Arg_word (scast (t_pid (tasks s p)))] s
         else s)"

definition goodness :: "u64 \<Rightarrow> 'a sched_state_scheme \<Rightarrow> s32" where
  "goodness p s = t_counter (tasks s p)"

text \<open>\<open>for_each_task\<close> starts after the init task and stops when it is met again.\<close>

partial_function (option) reset_score_from :: "u64 \<Rightarrow> 'a sched_state_scheme \<Rightarrow> 'a sched_state_scheme option" where
  "reset_score_from p s =
     (let p = t_next_task (tasks s p)
      in if p = sym_init_task (syms s) then Some s
         else reset_score_from p
                (upd_task p (\<lambda>t. t\<lparr>t_counter := DEF_COUNTER + t_priority t\<rparr>) s))"

definition reset_score :: "'a sched_state_scheme \<Rightarrow> 'a sched_state_scheme option" where
  "reset_score s = reset_score_from (sym_init_task (syms s)) s"

text \<open>The scan of the queue; \<open>next\<close> is a local the code does not initialise.\<close>

partial_function (option) pick_scan ::
    "'a sched_state_scheme \<Rightarrow> u64 \<Rightarrow> s32 \<Rightarrow> u64 option \<Rightarrow> (s32 \<times> u64 option) option" where
  "pick_scan s tmp c next =
     (if tmp = sym_rq_head (syms s) then Some (c, next)
      else
        let p = list_entry_task tmp;
            weight = goodness p s
        in if sint weight > sint c then pick_scan s (lh_next (lists s tmp)) weight (Some p)
           else pick_scan s (lh_next (lists s tmp)) c next)"

partial_function (option) pick_repeat ::
    "'a sched_state_scheme \<Rightarrow> (u64 option \<times> 'a sched_state_scheme) option" where
  "pick_repeat s =
     Option.bind (pick_scan s (lh_next (lists s (sym_rq_head (syms s)))) (- 1000) None) (\<lambda>(c, next).
       if c = 0 then Option.bind (reset_score s) pick_repeat
       else Some (next, s))"

definition pick_next_task_nop :: "u64 \<Rightarrow> 'a sched_state_scheme \<Rightarrow> (u64 \<times> 'a sched_state_scheme) res" where
  "pick_next_task_nop prev s =
     bindr (returns (pick_repeat s)) (\<lambda>(next, s).
       case next of None \<Rightarrow> Inl Uninit_read | Some n \<Rightarrow> Inr (n, s))"

record 's sched_class =
  sc_enqueue_task :: "u64 \<Rightarrow> 's \<Rightarrow> 's res"
  sc_dequeue_task :: "u64 \<Rightarrow> 's \<Rightarrow> 's res"
  sc_task_tick :: "u64 \<Rightarrow> 's \<Rightarrow> 's"
  sc_pick_next_task :: "u64 \<Rightarrow> 's \<Rightarrow> (u64 \<times> 's) res"

definition nop_sched_class :: "'a sched_state_scheme sched_class" where
  "nop_sched_class = \<lparr>sc_enqueue_task = enqueue_task_nop, sc_dequeue_task = dequeue_task_nop,
     sc_task_tick = task_tick_nop, sc_pick_next_task = pick_next_task_nop\<rparr>"

section \<open>kernel/sched.c\<close>

definition pick_next_task :: "u64 \<Rightarrow> 'a sched_state_scheme \<Rightarrow> (u64 \<times> 'a sched_state_scheme) res" where
  "pick_next_task prev s = sc_pick_next_task nop_sched_class prev s"

definition dequeue_task :: "u64 \<Rightarrow> 'a sched_state_scheme \<Rightarrow> 'a sched_state_scheme res" where
  "dequeue_task p s = sc_dequeue_task nop_sched_class p s"

definition enqueue_task :: "u64 \<Rightarrow> 'a sched_state_scheme \<Rightarrow> 'a sched_state_scheme res" where
  "enqueue_task p s = sc_enqueue_task nop_sched_class p s"

definition task_tick :: "u64 \<Rightarrow> 'a sched_state_scheme \<Rightarrow> 'a sched_state_scheme" where
  "task_tick p s = sc_task_tick nop_sched_class p s"

definition tick_handle_periodic :: "'a sched_state_scheme \<Rightarrow> 'a sched_state_scheme" where
  "tick_handle_periodic s = task_tick (current s) s"

definition preempt_count :: "'a sched_state_scheme \<Rightarrow> s32" where
  "preempt_count s = t_preempt_count (tasks s (current s))"

definition preempt_add :: "s32 \<Rightarrow> 'a sched_state_scheme \<Rightarrow> 'a sched_state_scheme" where
  "preempt_add val s = upd_task (current s) (\<lambda>t. t\<lparr>t_preempt_count := t_preempt_count t + val\<rparr>) s"

definition preempt_sub :: "s32 \<Rightarrow> 'a sched_state_scheme \<Rightarrow> 'a sched_state_scheme" where
  "preempt_sub val s = upd_task (current s) (\<lambda>t. t\<lparr>t_preempt_count := t_preempt_count t - val\<rparr>) s"

definition preempt_disable :: "'a sched_state_scheme \<Rightarrow> 'a sched_state_scheme" where
  "preempt_disable s = preempt_add 1 s"

definition preempt_enable :: "'a sched_state_scheme \<Rightarrow> 'a sched_state_scheme" where
  "preempt_enable s = preempt_sub 1 s"

definition schedule_debug :: "u64 \<Rightarrow> 'a sched_state_scheme \<Rightarrow> 'a sched_state_scheme" where
  "schedule_debug p s =
     (if preempt_count s \<noteq> 1 then
        printk_call ''BUG: scheduling while atomic: %d, 0x%x\<newline>''
          [Arg_word (scast (t_pid (tasks s p))), Arg_word (scast (preempt_count s))] s
      else s)"

definition clear_task_resched :: "u64 \<Rightarrow> 'a sched_state_scheme \<Rightarrow> 'a sched_state_scheme" where
  "clear_task_resched p s = upd_task p (\<lambda>t. t\<lparr>t_need_resched := 0\<rparr>) s"

text \<open>The context switch of entry.S: the registers go to the structure of \<open>prev\<close> pair by pair, then
  those of \<open>next\<close> are loaded.\<close>

definition cpu_switch_to :: "u64 \<Rightarrow> u64 \<Rightarrow> 'a sched_state_scheme \<Rightarrow> 'a sched_state_scheme" where
  "cpu_switch_to prev next s =
     (let s = upd_task prev (\<lambda>t. t\<lparr>t_cpu_context := cpu s\<rparr>) s
      in s\<lparr>cpu := t_cpu_context (tasks s next)\<rparr>)"

definition switch_to :: "u64 \<Rightarrow> u64 \<Rightarrow> 'a sched_state_scheme \<Rightarrow> 'a sched_state_scheme" where
  "switch_to prev next s =
     (if prev = next then s
      else cpu_switch_to prev next (s\<lparr>cpu := (cpu s)\<lparr>cc_pc := sym_switch_to_ret (syms s)\<rparr>\<rparr>))"

definition schedule_tail :: "'a sched_state_scheme \<Rightarrow> 'a sched_state_scheme" where
  "schedule_tail s = arch_local_irq_enable s"

text \<open>What runs after \<open>__schedule\<close> in each of its callers.\<close>

fun after_schedule :: "sched_caller \<Rightarrow> 'a sched_state_scheme \<Rightarrow> 'a sched_state_scheme" where
  "after_schedule By_schedule s = preempt_enable s"
| "after_schedule By_preempt_schedule_irq s = preempt_enable (arch_local_irq_disable s)"

text \<open>\<open>ret_from_fork\<close> of entry.S: a kernel thread calls its function, \<open>x19\<close>, with \<open>x20\<close>; a task with no
  function goes to user space.\<close>

definition ret_from_fork :: "'a sched_state_scheme \<Rightarrow> outcome \<times> 'a sched_state_scheme" where
  "ret_from_fork s =
     (let s = schedule_tail s
      in (if cc_x19 (cpu s) = 0 then Returns_to_user else Starts (cc_x19 (cpu s)) (cc_x20 (cpu s)), s))"

text \<open>The branch of \<open>__schedule\<close> that switches: after \<open>switch_to\<close> the code runs on the stack of
  \<open>next\<close>, where it was suspended.\<close>

definition schedule_switch :: "sched_caller \<Rightarrow> u64 \<Rightarrow> u64 \<Rightarrow> 'a sched_state_scheme \<Rightarrow> outcome \<times> 'a sched_state_scheme" where
  "schedule_switch caller prev next s =
     (let s = switch_to prev next (s\<lparr>frames := (frames s)(prev := caller)\<rparr>)
      in if cc_pc (cpu s) = sym_ret_from_fork (syms s) then ret_from_fork s
         else
           let s = s\<lparr>rq := (rq s)\<lparr>nr_switches := nr_switches (rq s) + 1\<rparr>\<rparr>;
               s = s\<lparr>rq := (rq s)\<lparr>rq_curr := current s\<rparr>\<rparr>;
               s = schedule_tail s;
               caller = frames s (current s)
           in (Returned caller, after_schedule caller s))"

definition schedule_common :: "sched_caller \<Rightarrow> 'a sched_state_scheme \<Rightarrow> (outcome \<times> 'a sched_state_scheme) res" where
  "schedule_common caller s =
     (let prev = current s;
          s = schedule_debug prev s;
          s = arch_local_irq_disable s
      in bindr (if t_state (tasks s prev) \<noteq> TASK_RUNNING then dequeue_task prev s else Inr s) (\<lambda>s.
         bindr (pick_next_task prev s) (\<lambda>(next, s).
           let s = clear_task_resched prev s
           in Inr (if next \<noteq> prev then schedule_switch caller prev next s
                   else (Returned caller, after_schedule caller (schedule_tail s))))))"

definition schedule :: "'a sched_state_scheme \<Rightarrow> (outcome \<times> 'a sched_state_scheme) res" where
  "schedule s = schedule_common By_schedule (preempt_disable s)"

definition preempt_schedule_irq :: "'a sched_state_scheme \<Rightarrow> (outcome \<times> 'a sched_state_scheme) res" where
  "preempt_schedule_irq s =
     (let s = (if preempt_count s \<noteq> 0 then
                 printk_call ''BUG: %s incorrect preempt count: 0x%x\<newline>''
                   [Arg_str ''preempt_schedule_irq'', Arg_word (scast (preempt_count s))] s
               else s);
          s = preempt_disable s;
          s = arch_local_irq_enable s
      in schedule_common By_preempt_schedule_irq s)"

definition wake_up_process :: "u64 \<Rightarrow> 'a sched_state_scheme \<Rightarrow> 'a sched_state_scheme res" where
  "wake_up_process p s = enqueue_task p (upd_task p (\<lambda>t. t\<lparr>t_state := TASK_RUNNING\<rparr>) s)"

definition sched_init :: "'a sched_state_scheme \<Rightarrow> 'a sched_state_scheme" where
  "sched_init s =
     (let s = s\<lparr>lists := INIT_LIST_HEAD (sym_rq_head (syms s)) (lists s)\<rparr>
      in s\<lparr>rq := (rq s)\<lparr>nr_running := 0, nr_switches := 0, rq_curr := 0\<rparr>\<rparr>)"

section \<open>Representation of the process table and of the ready queue\<close>

lemma list_entry_run_list [simp]: "list_entry_task (run_list_of p) = p"
  by (simp add: list_entry_task_def run_list_of_def)

lemma run_list_of_inj [simp]: "run_list_of p = run_list_of q \<longleftrightarrow> p = q"
  by (simp add: run_list_of_def)

lemma inj_run_list_of: "inj run_list_of"
  by (simp add: inj_def)

abbreviation init_task :: "'a sched_state_scheme \<Rightarrow> u64" where
  "init_task s \<equiv> sym_init_task (syms s)"

abbreviation rq_head :: "'a sched_state_scheme \<Rightarrow> u64" where
  "rq_head s \<equiv> sym_rq_head (syms s)"

definition task_ring :: "'a sched_state_scheme \<Rightarrow> u64 list \<Rightarrow> bool" where
  "task_ring s ts \<longleftrightarrow>
     ring (\<lambda>p. t_next_task (tasks s p)) (\<lambda>p. t_prev_task (tasks s p)) (init_task s) ts"

definition sched_rep :: "'a sched_state_scheme \<Rightarrow> u64 list \<Rightarrow> u64 list \<Rightarrow> bool" where
  "sched_rep s ts qs \<longleftrightarrow>
     task_ring s ts \<and> list_rep (lists s) (rq_head s) (map run_list_of qs) \<and> set qs \<subseteq> set ts \<and>
     nr_running (rq s) = word_of_nat (length qs) \<and>
     (\<forall>p \<in> set ts. run_list_of p \<noteq> 0 \<and> run_list_of p \<noteq> rq_head s)"

text \<open>The scheduler follows the forward links only. \<open>walk_rep\<close> is what it needs of the two rings: it holds
  also between two writes of an insertion, when the backward links are out of date.\<close>

definition walk_rep :: "'a sched_state_scheme \<Rightarrow> u64 list \<Rightarrow> u64 list \<Rightarrow> bool" where
  "walk_rep s ts qs \<longleftrightarrow>
     (\<exists>prv. ring (\<lambda>p. t_next_task (tasks s p)) prv (init_task s) ts) \<and>
     (\<exists>prv. ring (\<lambda>a. lh_next (lists s a)) prv (rq_head s) (map run_list_of qs)) \<and> set qs \<subseteq> set ts"

lemma sched_rep_walk: "sched_rep s ts qs \<Longrightarrow> walk_rep s ts qs"
  by (auto simp: sched_rep_def walk_rep_def task_ring_def list_rep_def)

lemma walk_rep_cong:
  assumes "lists s' = lists s" and "syms s' = syms s" and "\<And>p. t_next_task (tasks s' p) = t_next_task (tasks s p)"
  shows "walk_rep s' ts qs \<longleftrightarrow> walk_rep s ts qs"
  by (simp add: walk_rep_def assms)

definition counters_ok :: "'a sched_state_scheme \<Rightarrow> u64 list \<Rightarrow> bool" where
  "counters_ok s ts \<longleftrightarrow>
     (\<forall>p \<in> insert (init_task s) (set ts).
        0 \<le> sint (t_counter (tasks s p)) \<and> sint (t_counter (tasks s p)) \<le> 45 \<and>
        0 \<le> sint (t_priority (tasks s p)) \<and> sint (t_priority (tasks s p)) \<le> 20)"

section \<open>The scan and the recharge\<close>

primrec best_scan :: "(u64 \<Rightarrow> s32) \<Rightarrow> u64 list \<Rightarrow> s32 \<Rightarrow> u64 option \<Rightarrow> s32 \<times> u64 option" where
  "best_scan w [] c next = (c, next)"
| "best_scan w (p # ps) c next =
     (if sint c < sint (w p) then best_scan w ps (w p) (Some p) else best_scan w ps c next)"

lemma pick_scan_linked:
  "linked (\<lambda>a. lh_next (lists s a)) prv (x # map run_list_of qs @ [rq_head s]) \<Longrightarrow>
   rq_head s \<notin> set (map run_list_of qs) \<Longrightarrow>
     pick_scan s (lh_next (lists s x)) c next = Some (best_scan (\<lambda>p. goodness p s) qs c next)"
proof (induction qs arbitrary: x c "next")
  case Nil
  then show ?case by (simp add: pick_scan.simps [of s "rq_head s"])
next
  case (Cons q qs)
  then have nx: "lh_next (lists s x) = run_list_of q" "run_list_of q \<noteq> rq_head s"
    and l: "linked (\<lambda>a. lh_next (lists s a)) prv (run_list_of q # map run_list_of qs @ [rq_head s])"
    and h: "rq_head s \<notin> set (map run_list_of qs)" by auto
  show ?case
    using Cons.IH [OF l h]
    by (simp add: nx pick_scan.simps [of s "run_list_of q"] Let_def)
qed

lemma pick_scan_rep:
  assumes "walk_rep s ts qs"
  shows "pick_scan s (lh_next (lists s (rq_head s))) c next
           = Some (best_scan (\<lambda>p. goodness p s) qs c next)"
proof -
  obtain prv where "ring (\<lambda>a. lh_next (lists s a)) prv (rq_head s) (map run_list_of qs)" using assms by (auto simp: walk_rep_def)
  then show ?thesis by (intro pick_scan_linked) (auto simp: ring_def)
qed

lemma best_scan_cases:
  "(\<forall>q \<in> set qs. sint (w q) \<le> sint c) \<and> best_scan w qs c next = (c, next) \<or>
   (\<exists>pre n post. qs = pre @ n # post \<and> best_scan w qs c next = (w n, Some n) \<and> sint c < sint (w n) \<and>
      (\<forall>q \<in> set pre. sint (w q) < sint (w n)) \<and> (\<forall>q \<in> set post. sint (w q) \<le> sint (w n)))"
proof (induction qs arbitrary: c "next")
  case Nil
  then show ?case by simp
next
  case (Cons p ps)
  show ?case
  proof (cases "sint c < sint (w p)")
    case True
    from Cons.IH [of "w p" "Some p"] consider
      (stay) "\<forall>q \<in> set ps. sint (w q) \<le> sint (w p)" "best_scan w ps (w p) (Some p) = (w p, Some p)"
    | (move) pre n post where "ps = pre @ n # post" "best_scan w ps (w p) (Some p) = (w n, Some n)"
        "sint (w p) < sint (w n)" "\<forall>q \<in> set pre. sint (w q) < sint (w n)"
        "\<forall>q \<in> set post. sint (w q) \<le> sint (w n)" by blast
    then show ?thesis
    proof cases
      case stay
      with True show ?thesis by (intro disjI2 exI [of _ "[]"] exI [of _ p] exI [of _ ps]) simp
    next
      case move
      with True show ?thesis
        by (intro disjI2 exI [of _ "p # pre"] exI [of _ n] exI [of _ post]) simp
    qed
  next
    case False
    from Cons.IH [of c "next"] consider
      (stay) "\<forall>q \<in> set ps. sint (w q) \<le> sint c" "best_scan w ps c next = (c, next)"
    | (move) pre n post where "ps = pre @ n # post" "best_scan w ps c next = (w n, Some n)"
        "sint c < sint (w n)" "\<forall>q \<in> set pre. sint (w q) < sint (w n)"
        "\<forall>q \<in> set post. sint (w q) \<le> sint (w n)" by blast
    then show ?thesis
    proof cases
      case stay
      with False show ?thesis by simp
    next
      case move
      with False show ?thesis
        by (intro disjI2 exI [of _ "p # pre"] exI [of _ n] exI [of _ post]) simp
    qed
  qed
qed

definition recharge :: "u64 list \<Rightarrow> 'a sched_state_scheme \<Rightarrow> 'a sched_state_scheme" where
  "recharge ts s = s\<lparr>tasks := (\<lambda>p. if p \<in> set ts
     then (tasks s p)\<lparr>t_counter := DEF_COUNTER + t_priority (tasks s p)\<rparr> else tasks s p)\<rparr>"

lemma recharge_simps [simp]:
  "tasks (recharge ts s) p = (if p \<in> set ts
     then (tasks s p)\<lparr>t_counter := 25 + t_priority (tasks s p)\<rparr> else tasks s p)"
  "lists (recharge ts s) = lists s" "rq (recharge ts s) = rq s" "syms (recharge ts s) = syms s"
  "cpu (recharge ts s) = cpu s" "frames (recharge ts s) = frames s" "mem_map (recharge ts s) = mem_map s"
  "irq_masked (recharge ts s) = irq_masked s" "klog (recharge ts s) = klog s"
  by (simp_all add: recharge_def)

lemma reset_score_from_linked:
  "linked (\<lambda>p. t_next_task (tasks s p)) prv (x # ts @ [init_task s]) \<Longrightarrow> init_task s \<notin> set ts \<Longrightarrow>
   distinct (x # ts) \<Longrightarrow> reset_score_from x s = Some (recharge ts s)"
proof (induction ts arbitrary: x s)
  case Nil
  then show ?case by (simp add: reset_score_from.simps [of x] recharge_def)
next
  case (Cons t ts)
  let ?s = "upd_task t (\<lambda>t. t\<lparr>t_counter := DEF_COUNTER + t_priority t\<rparr>) s"
  have nx: "t_next_task (tasks s x) = t" "t \<noteq> init_task s" using Cons.prems by auto
  have sm: "t_next_task (tasks ?s p) = t_next_task (tasks s p)" for p
    by (simp add: upd_task_def)
  have "reset_score_from t ?s = Some (recharge ts ?s)"
    using Cons.prems by (intro Cons.IH) (simp_all only: sm, auto simp: upd_task_def)
  moreover have "recharge ts ?s = recharge (t # ts) s"
    using Cons.prems by (auto simp: recharge_def upd_task_def fun_eq_iff)
  ultimately show ?case by (simp add: nx reset_score_from.simps [of x])
qed

lemma reset_score_rep:
  assumes "walk_rep s ts qs"
  shows "reset_score s = Some (recharge ts s)"
proof -
  obtain prv where "ring (\<lambda>p. t_next_task (tasks s p)) prv (init_task s) ts" using assms by (auto simp: walk_rep_def)
  then show ?thesis unfolding reset_score_def by (intro reset_score_from_linked) (auto simp: ring_def)
qed

lemma sint_recharged:
  fixes x :: s32
  assumes "0 \<le> sint x" and "sint x \<le> 20"
  shows "sint (25 + x) = 25 + sint x"
  using assms sint_add32 [of 25 x] by simp

section \<open>Choosing the next task\<close>

text \<open>The first task of the queue whose counter is the largest.\<close>

definition is_best :: "(u64 \<Rightarrow> s32) \<Rightarrow> u64 list \<Rightarrow> u64 \<Rightarrow> bool" where
  "is_best w qs n \<longleftrightarrow> (\<exists>pre post. qs = pre @ n # post \<and>
     (\<forall>q \<in> set pre. sint (w q) < sint (w n)) \<and> (\<forall>q \<in> set post. sint (w q) \<le> sint (w n)))"

lemma is_best_max: "is_best w qs n \<Longrightarrow> n \<in> set qs \<and> (\<forall>q \<in> set qs. sint (w q) \<le> sint (w n))"
  by (fastforce simp: is_best_def)

lemma best_scan_best:
  assumes "qs \<noteq> []" and "\<forall>q \<in> set qs. 0 \<le> sint (w q)"
  shows "\<exists>n. best_scan w qs (- 1000) None = (w n, Some n) \<and> is_best w qs n"
proof -
  have "\<not> (\<forall>q \<in> set qs. sint (w q) \<le> sint (- 1000 :: s32))"
    using assms by (cases qs) fastforce+
  with best_scan_cases [of qs w "- 1000" None] show ?thesis
    unfolding is_best_def by blast
qed

lemma sched_rep_recharge: "sched_rep (recharge ts s) ts' qs \<longleftrightarrow> sched_rep s ts' qs"
proof -
  have "t_next_task (tasks (recharge ts s) p) = t_next_task (tasks s p)"
    "t_prev_task (tasks (recharge ts s) p) = t_prev_task (tasks s p)" for p by simp_all
  then show ?thesis by (simp only: sched_rep_def task_ring_def recharge_simps)
qed

lemma walk_rep_recharge: "walk_rep (recharge ts s) ts' qs \<longleftrightarrow> walk_rep s ts' qs"
  by (rule walk_rep_cong) simp_all

lemma counters_ok_recharge:
  assumes "counters_ok s ts"
  shows "counters_ok (recharge ts s) ts"
  using assms by (auto simp: counters_ok_def sint_recharged)

lemma pick_scan_best:
  assumes "walk_rep s ts qs" and "counters_ok s ts" and "qs \<noteq> []"
  shows "\<exists>n. pick_scan s (lh_next (lists s (rq_head s))) (- 1000) None = Some (goodness n s, Some n) \<and>
     is_best (\<lambda>p. goodness p s) qs n"
proof -
  have "\<forall>q \<in> set qs. 0 \<le> sint (goodness q s)"
    using assms by (auto simp: walk_rep_def counters_ok_def goodness_def)
  from best_scan_best [OF assms(3) this] pick_scan_rep [OF assms(1)] show ?thesis by simp
qed

lemma pick_next_task_rep:
  assumes rep: "walk_rep s ts qs" and ok: "counters_ok s ts" and ne: "qs \<noteq> []"
  shows "\<exists>n s'. pick_next_task prev s = Inr (n, s') \<and> is_best (\<lambda>p. goodness p s') qs n \<and>
     0 < sint (goodness n s') \<and>
     ((\<exists>q \<in> set qs. goodness q s \<noteq> 0) \<and> s' = s \<or> (\<forall>q \<in> set qs. goodness q s = 0) \<and> s' = recharge ts s)"
proof -
  obtain n where n: "pick_scan s (lh_next (lists s (rq_head s))) (- 1000) None = Some (goodness n s, Some n)"
    "is_best (\<lambda>p. goodness p s) qs n" using pick_scan_best [OF rep ok ne] by blast
  note nq = is_best_max [OF n(2)]
  have sub: "set qs \<subseteq> set ts" using rep by (simp add: walk_rep_def)
  with nq ok have pos: "\<forall>q \<in> set qs. 0 \<le> sint (goodness q s)"
    by (auto simp: counters_ok_def goodness_def)
  show ?thesis
  proof (cases "goodness n s = 0")
    case False
    then have "sint (goodness n s) \<noteq> 0" by (simp add: signed_eq_0_iff)
    with nq pos have "0 < sint (goodness n s)" by (simp add: order_less_le)
    moreover have "pick_next_task prev s = Inr (n, s)"
      by (simp add: pick_next_task_def nop_sched_class_def pick_next_task_nop_def
          pick_repeat.simps [of s] n(1) False)
    ultimately show ?thesis using n(2) nq False by blast
  next
    case True
    let ?r = "recharge ts s"
    have all0: "\<forall>q \<in> set qs. goodness q s = 0"
    proof
      fix q assume "q \<in> set qs"
      with nq pos True have "sint (goodness q s) = 0" by fastforce
      then show "goodness q s = 0" by (simp add: signed_eq_0_iff)
    qed
    obtain m where m: "pick_scan ?r (lh_next (lists ?r (rq_head ?r))) (- 1000) None = Some (goodness m ?r, Some m)"
      "is_best (\<lambda>p. goodness p ?r) qs m"
      using pick_scan_best [of ?r ts qs] rep counters_ok_recharge [OF ok] ne
      by (auto simp: walk_rep_recharge)
    then have mq: "m \<in> set ts" using is_best_max [OF m(2)] sub by auto
    then have "0 < sint (goodness m ?r)"
      using ok by (fastforce simp: goodness_def counters_ok_def sint_recharged)
    moreover from this have "goodness m ?r \<noteq> 0" by auto
    then have "pick_next_task prev s = Inr (m, ?r)"
      using reset_score_rep [OF rep] m(1)
      by (simp add: pick_next_task_def nop_sched_class_def pick_next_task_nop_def pick_repeat.simps [of s] n(1) True pick_repeat.simps [of ?r])
    ultimately show ?thesis using m(2) all0 by blast
  qed
qed

lemma pick_next_task_empty:
  assumes "walk_rep s ts []"
  shows "pick_next_task prev s = Inl Uninit_read"
  using pick_scan_rep [OF assms, of "- 1000" None]
  by (simp add: pick_next_task_def nop_sched_class_def pick_next_task_nop_def pick_repeat.simps [of s])


section \<open>The invariant of the scheduler\<close>

definition page_of :: "u64 \<Rightarrow> u64" where
  "page_of a = a AND NOT 4095"

lemma current_page_of: "current s = page_of (cc_sp (cpu s))"
  by (simp add: current_def page_of_def)

text \<open>A task that is not running is either new or suspended in \<open>switch_to\<close>, called with
  preemption disabled.\<close>

definition suspended :: "'a sched_state_scheme \<Rightarrow> u64 \<Rightarrow> bool" where
  "suspended s p \<longleftrightarrow>
     page_of (cc_sp (t_cpu_context (tasks s p))) = p \<and>
     (cc_pc (t_cpu_context (tasks s p)) = sym_ret_from_fork (syms s) \<and> t_preempt_count (tasks s p) = 0 \<or>
      cc_pc (t_cpu_context (tasks s p)) = sym_switch_to_ret (syms s) \<and> t_preempt_count (tasks s p) = 1)"

definition sched_inv :: "s32 \<Rightarrow> 'a sched_state_scheme \<Rightarrow> u64 list \<Rightarrow> u64 list \<Rightarrow> bool" where
  "sched_inv k s ts qs \<longleftrightarrow>
     sched_rep s ts qs \<and> counters_ok s ts \<and> set qs = set ts \<and>
     current s \<in> insert (init_task s) (set ts) \<and> preempt_count s = k \<and>
     (\<forall>p \<in> insert (init_task s) (set ts) - {current s}. suspended s p) \<and>
     (\<forall>p \<in> insert (init_task s) (set ts). t_state (tasks s p) = TASK_RUNNING) \<and>
     sym_ret_from_fork (syms s) \<noteq> sym_switch_to_ret (syms s)"

lemma sched_rep_cong:
  assumes "lists s' = lists s" and "syms s' = syms s" and "nr_running (rq s') = nr_running (rq s)"
    and "\<And>p. t_next_task (tasks s' p) = t_next_task (tasks s p)"
    and "\<And>p. t_prev_task (tasks s' p) = t_prev_task (tasks s p)"
  shows "sched_rep s' ts qs \<longleftrightarrow> sched_rep s ts qs"
  by (simp add: sched_rep_def task_ring_def assms)

text \<open>The part of the invariant that only the choice of the next task can change.\<close>

definition table_ok :: "'a sched_state_scheme \<Rightarrow> u64 list \<Rightarrow> u64 list \<Rightarrow> bool" where
  "table_ok s ts qs \<longleftrightarrow> walk_rep s ts qs \<and> counters_ok s ts \<and>
     (\<forall>p \<in> insert (init_task s) (set ts). t_state (tasks s p) = TASK_RUNNING) \<and>
     sym_ret_from_fork (syms s) \<noteq> sym_switch_to_ret (syms s)"

text \<open>What the scheduler needs to run, and keeps; the invariant adds the links it never writes. Nor does it write a structure that is not in the process table.\<close>

definition run_inv :: "s32 \<Rightarrow> 'a sched_state_scheme \<Rightarrow> u64 list \<Rightarrow> u64 list \<Rightarrow> bool" where
  "run_inv k s ts qs \<longleftrightarrow> table_ok s ts qs \<and> current s \<in> insert (init_task s) (set ts) \<and>
     preempt_count s = k \<and> (\<forall>p \<in> insert (init_task s) (set ts) - {current s}. suspended s p)"

definition same_links :: "u64 list \<Rightarrow> 'a sched_state_scheme \<Rightarrow> 'a sched_state_scheme \<Rightarrow> bool" where
  "same_links ts s s' \<longleftrightarrow> lists s' = lists s \<and> syms s' = syms s \<and> nr_running (rq s') = nr_running (rq s) \<and>
     (\<forall>p. t_next_task (tasks s' p) = t_next_task (tasks s p) \<and> t_prev_task (tasks s' p) = t_prev_task (tasks s p)) \<and>
     (\<forall>p. p \<notin> insert (init_task s) (set ts) \<longrightarrow> tasks s' p = tasks s p)"

lemma same_links_refl [simp]: "same_links ts s s"
  and same_links_trans [trans]: "same_links ts s t \<Longrightarrow> same_links ts t u \<Longrightarrow> same_links ts s u"
  and same_links_left: "same_links ts s t \<Longrightarrow> same_links ts t u = same_links ts s u"
  by (auto simp: same_links_def)

lemma sched_inv_run:
  "sched_inv k s ts qs \<longleftrightarrow> run_inv k s ts qs \<and> sched_rep s ts qs \<and> set qs = set ts"
  using sched_rep_walk [of s ts qs] by (auto simp: sched_inv_def run_inv_def table_ok_def)

lemma sched_inv_same:
  "sched_inv k s ts qs \<Longrightarrow> run_inv k' s' ts qs \<Longrightarrow> same_links ts s s' \<Longrightarrow> sched_inv k' s' ts qs"
  using sched_rep_cong [of s' s ts qs] by (simp add: sched_inv_run same_links_def)

lemma table_ok_cong:
  assumes "lists s' = lists s" and "syms s' = syms s"
    and "\<And>p. t_next_task (tasks s' p) = t_next_task (tasks s p)"
    and "\<And>p. t_counter (tasks s' p) = t_counter (tasks s p)"
    and "\<And>p. t_priority (tasks s' p) = t_priority (tasks s p)"
    and "\<And>p. t_state (tasks s' p) = t_state (tasks s p)"
  shows "table_ok s' ts qs \<longleftrightarrow> table_ok s ts qs"
  using walk_rep_cong [OF assms(1-3)] by (simp add: table_ok_def counters_ok_def assms)

lemma table_ok_recharge: "table_ok s ts qs \<Longrightarrow> table_ok (recharge ts s) ts qs"
  by (auto simp: table_ok_def walk_rep_recharge counters_ok_recharge)

text \<open>The scheduling step, from the point where preemption is disabled: the choice, the switch, and
  what the chosen task does before it leaves the scheduler.\<close>

lemma schedule_common_switched:
  assumes "preempt_count s = 1" and "t_state (tasks s (current s)) = TASK_RUNNING"
  shows "schedule_common caller s =
     bindr (pick_next_task (current s) (s\<lparr>irq_masked := True\<rparr>)) (\<lambda>(next, s').
       let s' = clear_task_resched (current s) s'
       in Inr (if next \<noteq> current s then schedule_switch caller (current s) next s'
               else (Returned caller, after_schedule caller (schedule_tail s'))))"
  using assms
  by (simp add: schedule_common_def schedule_debug_def arch_local_irq_disable_def Let_def)

lemma current_frame [simp]:
  "current (upd_task p f s) = current s"
  "current (s\<lparr>irq_masked := b\<rparr>) = current s"
  "current (s\<lparr>rq := r\<rparr>) = current s"
  "current (s\<lparr>frames := fr\<rparr>) = current s"
  "current (recharge ts s) = current s"
  by (simp_all add: current_def upd_task_def)

lemma upd_task_simps [simp]:
  "tasks (upd_task p f s) = (tasks s)(p := f (tasks s p))"
  "lists (upd_task p f s) = lists s" "rq (upd_task p f s) = rq s" "syms (upd_task p f s) = syms s"
  "cpu (upd_task p f s) = cpu s" "frames (upd_task p f s) = frames s" "mem_map (upd_task p f s) = mem_map s"
  "irq_masked (upd_task p f s) = irq_masked s" "klog (upd_task p f s) = klog s"
  by (simp_all add: upd_task_def)

lemma switch_to_simps:
  assumes "prev \<noteq> next"
  shows "tasks (switch_to prev next s) = (tasks s)(prev := (tasks s prev)\<lparr>t_cpu_context :=
           (cpu s)\<lparr>cc_pc := sym_switch_to_ret (syms s)\<rparr>\<rparr>)"
    "cpu (switch_to prev next s) = t_cpu_context (tasks s next)"
    "lists (switch_to prev next s) = lists s" "rq (switch_to prev next s) = rq s"
    "syms (switch_to prev next s) = syms s" "frames (switch_to prev next s) = frames s"
    "klog (switch_to prev next s) = klog s"
  using assms by (simp_all add: switch_to_def cpu_switch_to_def Let_def)

text \<open>A switch from a task with preemption disabled to a suspended one establishes the invariant, the
  chosen task running with its preemption count restored.\<close>

lemma schedule_switch_run:
  assumes tab: "table_ok s ts qs" and prev: "prev = current s" "prev \<in> insert (init_task s) (set ts)"
    and pc: "preempt_count s = 1"
    and sus: "\<forall>p \<in> insert (init_task s) (set ts) - {prev}. suspended s p"
    and nxt: "next \<in> set ts" "next \<noteq> prev"
    and res: "schedule_switch caller prev next s = (out, s')"
  shows "run_inv 0 s' ts qs \<and> same_links ts s s' \<and> current s' = next \<and>
     (\<forall>p. t_counter (tasks s' p) = t_counter (tasks s p) \<and> t_need_resched (tasks s' p) = t_need_resched (tasks s p)) \<and>
     irq_masked s' = (out = Returned By_preempt_schedule_irq) \<and> klog s' = klog s"
proof -
  define s1 where "s1 = switch_to prev next (s\<lparr>frames := (frames s)(prev := caller)\<rparr>)"
  have sn: "suspended s next" using sus nxt by auto
  have nsym: "sym_ret_from_fork (syms s) \<noteq> sym_switch_to_ret (syms s)" using tab by (simp add: table_ok_def)
  have s1: "tasks s1 = (tasks s)(prev := (tasks s prev)\<lparr>t_cpu_context :=
        (cpu s)\<lparr>cc_pc := sym_switch_to_ret (syms s)\<rparr>\<rparr>)"
    "cpu s1 = t_cpu_context (tasks s next)" "lists s1 = lists s" "rq s1 = rq s" "syms s1 = syms s"
    "klog s1 = klog s"
    by (simp_all add: s1_def switch_to_simps nxt(2) [symmetric])
  have c1: "current s1 = next"
    using sn by (simp add: current_page_of s1 suspended_def)
  have tab1: "table_ok s1 ts qs" using tab by (subst table_ok_cong [where s = s]) (simp_all add: s1)
  have susp: "suspended s1 p" if "p \<in> insert (init_task s) (set ts) - {next}" for p
    using that sus pc prev(1) by (auto simp: suspended_def s1 preempt_count_def current_page_of)
  show ?thesis
  proof (cases "cc_pc (cpu s1) = sym_ret_from_fork (syms s)")
    case True
    then have s': "s' = s1\<lparr>irq_masked := False\<rparr>" "\<exists>f a. out = Starts f a \<or> out = Returns_to_user"
      using res s1 by (auto simp: schedule_switch_def Let_def ret_from_fork_def schedule_tail_def
          arch_local_irq_enable_def simp flip: s1_def split: if_splits)
    have "preempt_count s' = 0"
      using True sn nsym nxt c1 by (auto simp: s' preempt_count_def suspended_def s1)
    moreover have "table_ok s' ts qs" using tab1 by (subst table_ok_cong [where s = s1]) (simp_all add: s')
    moreover have "same_links ts s s'" using prev by (auto simp: same_links_def s' s1)
    ultimately show ?thesis
      using s' susp nxt c1 by (auto simp: run_inv_def s1 suspended_def)
  next
    case False
    define s2 where "s2 = (s1\<lparr>rq := (rq s1)\<lparr>nr_switches := nr_switches (rq s1) + 1, rq_curr := next\<rparr>,
       irq_masked := False\<rparr>)"
    define c where "c = frames s2 next"
    have s': "out = Returned c" "s' = after_schedule c s2"
      using res s1 False c1 by (auto simp: schedule_switch_def Let_def schedule_tail_def
          arch_local_irq_enable_def s2_def c_def simp flip: s1_def)
    have c2: "current s2 = next" using c1 by (simp add: s2_def current_page_of)
    have "s' = upd_task next (\<lambda>t. t\<lparr>t_preempt_count := t_preempt_count t - 1\<rparr>)
        (s2\<lparr>irq_masked := c = By_preempt_schedule_irq\<rparr>)"
      using c2 by (cases c) (simp_all add: s' preempt_enable_def preempt_sub_def
          arch_local_irq_disable_def s2_def upd_task_def)
    then have t': "tasks s' = (tasks s1)(next := (tasks s1 next)\<lparr>t_preempt_count := t_preempt_count (tasks s1 next) - 1\<rparr>)"
      "cpu s' = cpu s1" "lists s' = lists s1" "syms s' = syms s1" "nr_running (rq s') = nr_running (rq s1)"
      "klog s' = klog s1" "irq_masked s' = (c = By_preempt_schedule_irq)"
      by (simp_all add: s2_def)
    have c': "current s' = next" using c1 by (simp add: current_page_of t')
    have "preempt_count s' = 0"
      using False sn nxt by (simp add: preempt_count_def c' t' s1 suspended_def)
    moreover have "table_ok s' ts qs" using tab1 by (subst table_ok_cong [where s = s1]) (simp_all add: t')
    moreover have "same_links ts s s'" using prev nxt by (auto simp: same_links_def t' s1)
    ultimately show ?thesis
      using susp nxt c' s'(1) by (auto simp: run_inv_def s1 t' suspended_def)
  qed
qed


lemma schedule_common_run:
  assumes inv: "run_inv 1 s ts qs" and ne: "qs \<noteq> []"
  shows "\<exists>out s'. schedule_common caller s = Inr (out, s') \<and> run_inv 0 s' ts qs \<and> same_links ts s s' \<and>
     is_best (\<lambda>p. goodness p s') qs (current s') \<and> 0 < sint (goodness (current s') s') \<and>
     t_need_resched (tasks s' (current s)) = 0 \<and>
     ((\<exists>q \<in> set qs. goodness q s \<noteq> 0) \<and> (\<forall>p. goodness p s' = goodness p s) \<or>
      (\<forall>q \<in> set qs. goodness q s = 0 \<and> goodness q s' = DEF_COUNTER + t_priority (tasks s q))) \<and>
     irq_masked s' = (out = Returned By_preempt_schedule_irq) \<and> klog s' = klog s"
proof -
  let ?i = "s\<lparr>irq_masked := True\<rparr>"
  from inv have tab: "table_ok s ts qs" and cur: "current s \<in> insert (init_task s) (set ts)"
    and pc: "preempt_count s = 1" and run: "t_state (tasks s (current s)) = TASK_RUNNING"
    and sus: "\<forall>p \<in> insert (init_task s) (set ts) - {current s}. suspended s p"
    by (auto simp: run_inv_def table_ok_def)
  have tabi: "table_ok ?i ts qs" using tab by (subst table_ok_cong [where s = s]) simp_all
  then obtain n s1 where pick: "pick_next_task (current s) ?i = Inr (n, s1)"
    and best: "is_best (\<lambda>p. goodness p s1) qs n" and pos: "0 < sint (goodness n s1)"
    and dis: "(\<exists>q \<in> set qs. goodness q ?i \<noteq> 0) \<and> s1 = ?i \<or> (\<forall>q \<in> set qs. goodness q ?i = 0) \<and> s1 = recharge ts ?i"
    using pick_next_task_rep [of ?i ts qs "current s"] ne unfolding table_ok_def by blast
  have nts: "n \<in> set ts" using is_best_max [OF best] tab by (auto simp: table_ok_def walk_rep_def)
  have tab1: "table_ok s1 ts qs" using dis tabi table_ok_recharge by blast
  have s1: "current s1 = current s" "syms s1 = syms s" "klog s1 = klog s"
    "t_preempt_count (tasks s1 p) = t_preempt_count (tasks s p)"
    "t_cpu_context (tasks s1 p) = t_cpu_context (tasks s p)" "cpu s1 = cpu s" "same_links ts s s1" for p
    using dis by (auto simp: same_links_def)
  have cnt: "(\<exists>q \<in> set qs. goodness q s \<noteq> 0) \<and> (\<forall>p. goodness p s1 = goodness p s) \<or>
      (\<forall>q \<in> set qs. goodness q s = 0 \<and> goodness q s1 = DEF_COUNTER + t_priority (tasks s q))"
    using dis tab by (auto simp: goodness_def table_ok_def walk_rep_def)
  define s2 where "s2 = clear_task_resched (current s) s1"
  have s2: "current s2 = current s" "syms s2 = syms s" "klog s2 = klog s" "goodness p s2 = goodness p s1"
    "t_preempt_count (tasks s2 p) = t_preempt_count (tasks s p)"
    "t_cpu_context (tasks s2 p) = t_cpu_context (tasks s p)"
    "t_need_resched (tasks s2 (current s)) = 0" "preempt_count s2 = 1" "same_links ts s s2" for p
    using s1 pc cur by (auto simp: s2_def clear_task_resched_def goodness_def preempt_count_def same_links_def)
  have tab2: "table_ok s2 ts qs"
    using tab1 by (subst table_ok_cong [where s = s1]) (simp_all add: s2_def clear_task_resched_def)
  have sus2: "\<forall>p \<in> insert (init_task s2) (set ts) - {current s}. suspended s2 p"
    using sus by (auto simp: suspended_def s2)
  note eq = schedule_common_switched [OF pc run, of caller]
  show ?thesis
  proof (cases "n = current s")
    case True
    define s3 where "s3 = after_schedule caller (schedule_tail s2)"
    have ret: "schedule_common caller s = Inr (Returned caller, s3)"
      using True by (simp add: eq pick s2_def s3_def)
    have "s3 = upd_task (current s) (\<lambda>t. t\<lparr>t_preempt_count := t_preempt_count t - 1\<rparr>)
        (s2\<lparr>irq_masked := caller = By_preempt_schedule_irq\<rparr>)"
      using s2(1) by (cases caller) (simp_all add: s3_def schedule_tail_def arch_local_irq_enable_def
          arch_local_irq_disable_def preempt_enable_def preempt_sub_def upd_task_def)
    then have t3: "tasks s3 = (tasks s2)(current s := (tasks s2 (current s))\<lparr>t_preempt_count :=
          t_preempt_count (tasks s2 (current s)) - 1\<rparr>)"
      "cpu s3 = cpu s2" "lists s3 = lists s2" "syms s3 = syms s2" "rq s3 = rq s2"
      "klog s3 = klog s2" "irq_masked s3 = (caller = By_preempt_schedule_irq)"
      by simp_all
    have c3: "current s3 = current s" using s2(1) by (simp add: current_page_of t3)
    have "preempt_count s3 = 0"
      using s2(8) by (simp add: preempt_count_def c3 t3 s2(1))
    moreover have "table_ok s3 ts qs" using tab2 by (subst table_ok_cong [where s = s2]) (simp_all add: t3)
    moreover have "\<forall>p \<in> insert (init_task s) (set ts) - {current s}. suspended s3 p"
      using sus2 by (auto simp: suspended_def t3 s2)
    moreover have g: "goodness p s3 = goodness p s1" for p by (simp add: goodness_def t3 s2_def clear_task_resched_def)
    ultimately show ?thesis
      using ret c3 cur best pos cnt True s2 t3
      by (intro exI [of _ "Returned caller"] exI [of _ s3]) (auto simp: run_inv_def same_links_def)
  next
    case False
    obtain out s3 where sw: "schedule_switch caller (current s) n s2 = (out, s3)" by fastforce
    then have ret: "schedule_common caller s = Inr (out, s3)"
      using False by (simp add: eq pick s2_def)
    have cur2: "current s \<in> insert (init_task s2) (set ts)" using cur by (simp add: s2)
    from schedule_switch_run [OF tab2 s2(1) [symmetric] cur2 s2(8) sus2 nts False sw]
    have r: "run_inv 0 s3 ts qs" "same_links ts s2 s3" "current s3 = n" "\<And>p. goodness p s3 = goodness p s1"
      "t_need_resched (tasks s3 (current s)) = 0" "irq_masked s3 = (out = Returned By_preempt_schedule_irq)"
      "klog s3 = klog s"
      by (simp_all add: s2 goodness_def) (simp add: s2_def clear_task_resched_def)
    moreover have "same_links ts s s3" using s2(9) r(2) by (rule same_links_trans)
    ultimately show ?thesis
      using ret best pos cnt by (intro exI [of _ out] exI [of _ s3]) auto
  qed
qed

lemma same_links_ops [simp]:
  "same_links ts s (s\<lparr>irq_masked := b\<rparr>)" "same_links ts s (arch_local_irq_enable s)"
  "current s \<in> insert (init_task s) (set ts) \<Longrightarrow> same_links ts s (preempt_disable s)"
  by (auto simp: same_links_def preempt_disable_def preempt_add_def arch_local_irq_enable_def)

lemma run_inv_preempt_disable:
  assumes "run_inv k s ts qs"
  shows "run_inv (k + 1) (preempt_disable s) ts qs"
proof -
  have "table_ok (preempt_disable s) ts qs"
    using assms by (subst table_ok_cong [where s = s])
      (simp_all add: run_inv_def preempt_disable_def preempt_add_def)
  with assms show ?thesis
    by (auto simp: run_inv_def preempt_disable_def preempt_add_def suspended_def preempt_count_def)
qed

lemma run_inv_irq [simp]: "run_inv k (s\<lparr>irq_masked := b\<rparr>) ts qs \<longleftrightarrow> run_inv k s ts qs"
proof -
  have "table_ok (s\<lparr>irq_masked := b\<rparr>) ts qs \<longleftrightarrow> table_ok s ts qs"
    by (rule table_ok_cong) simp_all
  then show ?thesis by (simp add: run_inv_def suspended_def preempt_count_def)
qed

lemma sched_inv_irq [simp]: "sched_inv k (s\<lparr>irq_masked := b\<rparr>) ts qs \<longleftrightarrow> sched_inv k s ts qs"
  using sched_rep_cong [of "s\<lparr>irq_masked := b\<rparr>" s ts qs] by (simp add: sched_inv_run)

section \<open>The contract of a scheduling class\<close>

lemma enqueue_task_rep:
  assumes "sched_rep s ts qs" and "p \<in> set ts" and "p \<notin> set qs"
  shows "\<exists>s'. enqueue_task p s = Inr s' \<and> sched_rep s' ts (p # qs) \<and> tasks s' = tasks s \<and>
     syms s' = syms s \<and> cpu s' = cpu s \<and> mem_map s' = mem_map s \<and> klog s' = klog s"
proof -
  have "run_list_of p \<notin> set (rq_head s # map run_list_of qs)" "run_list_of p \<noteq> 0"
    using assms by (auto simp: sched_rep_def)
  then obtain h where h: "list_add (run_list_of p) (rq_head s) (lists s) = Inr h"
    "list_rep h (rq_head s) (run_list_of p # map run_list_of qs)"
    using kl.rep_add [of "lists s" "rq_head s" "map run_list_of qs" "run_list_of p"] assms(1)
    by (auto simp: sched_rep_def)
  then show ?thesis
    using assms by (auto simp: enqueue_task_def nop_sched_class_def enqueue_task_nop_def sched_rep_def
        task_ring_def Let_def)
qed

lemma dequeue_task_rep:
  assumes "sched_rep s ts (xs @ p # ys)"
  shows "\<exists>s'. dequeue_task p s = Inr s' \<and> sched_rep s' ts (xs @ ys) \<and> tasks s' = tasks s \<and>
     syms s' = syms s \<and> cpu s' = cpu s \<and> mem_map s' = mem_map s \<and> klog s' = klog s"
proof -
  have "list_rep (lists s) (rq_head s) (map run_list_of xs @ run_list_of p # map run_list_of ys)"
    using assms by (simp add: sched_rep_def)
  from kl.rep_del [OF this] obtain h where h: "list_del (run_list_of p) (lists s) = Inr h"
    "list_rep h (rq_head s) (map run_list_of xs @ map run_list_of ys)" by auto
  then show ?thesis
    using assms by (auto simp: dequeue_task_def nop_sched_class_def dequeue_task_nop_def sched_rep_def
        task_ring_def Let_def)
qed

text \<open>The operations the core of the scheduler calls through a \<open>sched_class\<close>, and what it relies on:
  \<open>rep s ts qs\<close> says that \<open>ts\<close> is the process table and \<open>qs\<close> the ready queue.\<close>

locale scheduling_class =
  fixes cls :: "'s sched_class"
    and rep :: "'s \<Rightarrow> u64 list \<Rightarrow> u64 list \<Rightarrow> bool"
    and weight :: "u64 \<Rightarrow> 's \<Rightarrow> int"
  assumes enqueue: "rep s ts qs \<Longrightarrow> p \<in> set ts \<Longrightarrow> p \<notin> set qs \<Longrightarrow>
      \<exists>s'. sc_enqueue_task cls p s = Inr s' \<and> rep s' ts (p # qs)"
    and dequeue: "rep s ts (xs @ p # ys) \<Longrightarrow>
      \<exists>s'. sc_dequeue_task cls p s = Inr s' \<and> rep s' ts (xs @ ys)"
    and pick: "rep s ts qs \<Longrightarrow> qs \<noteq> [] \<Longrightarrow>
      \<exists>n s'. sc_pick_next_task cls prev s = Inr (n, s') \<and> rep s' ts qs \<and> n \<in> set qs \<and>
        (\<forall>q \<in> set qs. weight q s' \<le> weight n s')"
    and rep_distinct: "rep s ts qs \<Longrightarrow> distinct qs"
begin

lemma enqueue_then_pick:
  assumes "rep s ts qs" and "p \<in> set ts" and "p \<notin> set qs"
  shows "\<exists>n s'. bindr (sc_enqueue_task cls p s) (sc_pick_next_task cls prev) = Inr (n, s') \<and>
     n \<in> set (p # qs) \<and> weight p s' \<le> weight n s'"
proof -
  obtain s' where s': "sc_enqueue_task cls p s = Inr s'" "rep s' ts (p # qs)"
    using enqueue [OF assms] by blast
  with pick [OF s'(2), of prev] show ?thesis by auto
qed

lemma dequeued_not_picked:
  assumes "rep s ts (xs @ p # ys)" and "xs @ ys \<noteq> []"
  shows "\<exists>n s'. bindr (sc_dequeue_task cls p s) (sc_pick_next_task cls prev) = Inr (n, s') \<and> n \<noteq> p"
proof -
  obtain s' where s': "sc_dequeue_task cls p s = Inr s'" "rep s' ts (xs @ ys)"
    using dequeue [OF assms(1)] by blast
  have "p \<notin> set (xs @ ys)" using rep_distinct [OF assms(1)] by simp
  with pick [OF s'(2) assms(2), of prev] s'(1) show ?thesis by auto
qed

end

interpretation nop: scheduling_class nop_sched_class
  "\<lambda>s ts qs. sched_rep s ts qs \<and> counters_ok s ts" "\<lambda>p s. sint (goodness p s)"
proof
  fix s :: "'a sched_state_scheme" and ts qs p
  assume a: "sched_rep s ts qs \<and> counters_ok s ts" "p \<in> set ts" "p \<notin> set qs"
  from enqueue_task_rep [of s ts qs p] a obtain s' where
    "enqueue_task p s = Inr s'" "sched_rep s' ts (p # qs)" "tasks s' = tasks s" "syms s' = syms s" by blast
  with a show "\<exists>s'. sc_enqueue_task nop_sched_class p s = Inr s' \<and> sched_rep s' ts (p # qs) \<and> counters_ok s' ts"
    by (auto simp: enqueue_task_def counters_ok_def)
next
  fix s :: "'a sched_state_scheme" and ts xs p ys
  assume a: "sched_rep s ts (xs @ p # ys) \<and> counters_ok s ts"
  from dequeue_task_rep [of s ts xs p ys] a obtain s' where
    "dequeue_task p s = Inr s'" "sched_rep s' ts (xs @ ys)" "tasks s' = tasks s" "syms s' = syms s" by blast
  with a show "\<exists>s'. sc_dequeue_task nop_sched_class p s = Inr s' \<and> sched_rep s' ts (xs @ ys) \<and> counters_ok s' ts"
    by (auto simp: dequeue_task_def counters_ok_def)
next
  fix s :: "'a sched_state_scheme" and ts qs prev
  assume a: "sched_rep s ts qs \<and> counters_ok s ts" "qs \<noteq> []"
  from pick_next_task_rep [of s ts qs prev] a sched_rep_walk obtain n s' where
    n: "pick_next_task prev s = Inr (n, s')" "is_best (\<lambda>p. goodness p s') qs n"
      "s' = s \<or> s' = recharge ts s" by blast
  then have "sched_rep s' ts qs \<and> counters_ok s' ts"
    using a by (auto simp: sched_rep_recharge counters_ok_recharge)
  with n is_best_max [OF n(2)] show "\<exists>n s'. sc_pick_next_task nop_sched_class prev s = Inr (n, s') \<and>
      (sched_rep s' ts qs \<and> counters_ok s' ts) \<and> n \<in> set qs \<and>
      (\<forall>q \<in> set qs. sint (goodness q s') \<le> sint (goodness n s'))"
    by (auto simp: pick_next_task_def)
next
  fix s :: "'a sched_state_scheme" and ts qs
  assume "sched_rep s ts qs \<and> counters_ok s ts"
  then show "distinct qs"
    by (auto simp: sched_rep_def list_rep_def ring_def distinct_map)
qed

lemma sched_rep_init:
  assumes "task_ring s ts" and "rq_head s \<noteq> 0"
    and "\<forall>p \<in> set ts. run_list_of p \<noteq> 0 \<and> run_list_of p \<noteq> rq_head s"
  shows "sched_rep (sched_init s) ts []"
  using assms kl.rep_init [of "rq_head s" "lists s"]
  by (simp add: sched_rep_def sched_init_def task_ring_def Let_def)

section \<open>The tick\<close>

lemma sint_pred32:
  fixes x :: s32
  assumes "0 \<le> sint x"
  shows "sint (x - 1) = sint x - 1"
proof -
  have "sint x < 2 ^ 31" using sint_lt [of x] by simp
  with assms show ?thesis using sint_diff32 [of x 1] by simp
qed

lemma tick_step:
  assumes "0 \<le> sint (goodness p s)"
  shows "sint (goodness p (task_tick p s)) = max 0 (sint (goodness p s) - 1)"
    and "t_need_resched (tasks (task_tick p s) p)
           = (if sint (goodness p s) \<le> 1 then 1 else t_need_resched (tasks s p))"
    and "current (task_tick p s) = current s"
  using assms
  by (auto simp: task_tick_def nop_sched_class_def task_tick_nop_def goodness_def Let_def sint_pred32
      printk_call_def current_def upd_task_def)

section \<open>A call of the scheduler\<close>

lemma schedule_run:
  assumes "run_inv 0 s ts qs" and "qs \<noteq> []"
  shows "\<exists>out s'. schedule s = Inr (out, s') \<and> run_inv 0 s' ts qs \<and> same_links ts s s' \<and>
     is_best (\<lambda>p. goodness p s') qs (current s') \<and> 0 < sint (goodness (current s') s') \<and>
     t_need_resched (tasks s' (current s)) = 0 \<and>
     ((\<exists>q \<in> set qs. goodness q s \<noteq> 0) \<and> (\<forall>p. goodness p s' = goodness p s) \<or>
      (\<forall>q \<in> set qs. goodness q s = 0 \<and> goodness q s' = DEF_COUNTER + t_priority (tasks s q))) \<and>
     irq_masked s' = (out = Returned By_preempt_schedule_irq) \<and> klog s' = klog s"
proof -
  have "run_inv 1 (preempt_disable s) ts qs"
    using run_inv_preempt_disable [OF assms(1)] by simp
  moreover have "goodness p (preempt_disable s) = goodness p s" "current (preempt_disable s) = current s"
    "t_priority (tasks (preempt_disable s) p) = t_priority (tasks s p)" "klog (preempt_disable s) = klog s"
    for p by (simp_all add: goodness_def preempt_disable_def preempt_add_def)
  moreover have "same_links ts (preempt_disable s) s' = same_links ts s s'" for s'
    using assms(1) by (intro same_links_left same_links_ops(3)) (simp add: run_inv_def)
  ultimately show ?thesis
    using schedule_common_run [of "preempt_disable s" ts qs By_schedule] assms(2)
    by (simp add: schedule_def)
qed

lemma schedule_inv:
  assumes "sched_inv 0 s ts qs" and "qs \<noteq> []"
  shows "\<exists>out s'. schedule s = Inr (out, s') \<and> sched_inv 0 s' ts qs \<and>
     is_best (\<lambda>p. goodness p s') qs (current s') \<and> 0 < sint (goodness (current s') s') \<and>
     t_need_resched (tasks s' (current s)) = 0 \<and>
     ((\<exists>q \<in> set qs. goodness q s \<noteq> 0) \<and> (\<forall>p. goodness p s' = goodness p s) \<or>
      (\<forall>q \<in> set qs. goodness q s = 0 \<and> goodness q s' = DEF_COUNTER + t_priority (tasks s q))) \<and>
     irq_masked s' = (out = Returned By_preempt_schedule_irq) \<and> klog s' = klog s"
proof -
  have "run_inv 0 s ts qs" using assms(1) by (simp add: sched_inv_run)
  from schedule_run [OF this assms(2)] sched_inv_same [OF assms(1)] show ?thesis
    by (elim exE conjE) ((rule exI)+, intro conjI, assumption, blast, assumption+)
qed

section \<open>The exits of entry.S\<close>

text \<open>What \<open>el1_irq\<close> does after the handler, and \<open>ret_to_user\<close> before it restores the registers; the
  value None says that the path does not enter the scheduler.\<close>

definition el1_irq_exit :: "'a sched_state_scheme \<Rightarrow> (outcome option \<times> 'a sched_state_scheme) res" where
  "el1_irq_exit s =
     (let tsk = current s
      in if t_preempt_count (tasks s tsk) \<noteq> 0 then Inr (None, s)
         else if t_need_resched (tasks s tsk) = 0 then Inr (None, s)
         else bindr (preempt_schedule_irq s) (\<lambda>(out, s). Inr (Some out, s)))"

definition ret_to_user :: "'a sched_state_scheme \<Rightarrow> (outcome option \<times> 'a sched_state_scheme) res" where
  "ret_to_user s =
     (let s = arch_local_irq_disable s;
          tsk = current s
      in if t_need_resched (tasks s tsk) \<noteq> 0 then bindr (schedule s) (\<lambda>(out, s). Inr (Some out, s))
         else Inr (None, s))"

section \<open>Ticks and time slices\<close>

lemma tick_frame [simp]:
  "q \<noteq> p \<Longrightarrow> tasks (task_tick p s) q = tasks s q"
  "lists (task_tick p s) = lists s" "rq (task_tick p s) = rq s" "syms (task_tick p s) = syms s"
  "cpu (task_tick p s) = cpu s" "irq_masked (task_tick p s) = irq_masked s"
  "mem_map (task_tick p s) = mem_map s"
  by (auto simp: task_tick_def nop_sched_class_def task_tick_nop_def Let_def printk_call_def upd_task_def)

lemma tick_fields:
  "t_next_task (tasks (task_tick p s) q) = t_next_task (tasks s q)"
  "t_prev_task (tasks (task_tick p s) q) = t_prev_task (tasks s q)"
  "t_state (tasks (task_tick p s) q) = t_state (tasks s q)"
  "t_cpu_context (tasks (task_tick p s) q) = t_cpu_context (tasks s q)"
  "t_priority (tasks (task_tick p s) q) = t_priority (tasks s q)"
  "t_preempt_count (tasks (task_tick p s) q) = t_preempt_count (tasks s q)"
  by (auto simp: task_tick_def nop_sched_class_def task_tick_nop_def Let_def printk_call_def upd_task_def)

lemma tick_run:
  assumes "run_inv k s ts qs"
  shows "run_inv k (tick_handle_periodic s) ts qs \<and> same_links ts s (tick_handle_periodic s)"
proof -
  let ?c = "current s" and ?t = "task_tick (current s) s"
  have pos: "0 \<le> sint (goodness ?c s)" "sint (goodness ?c s) \<le> 45"
    using assms by (auto simp: run_inv_def table_ok_def counters_ok_def goodness_def)
  note cur = tick_step(3) [OF pos(1)]
  have "walk_rep ?t ts qs"
    using assms by (subst walk_rep_cong [where s = s]) (simp_all add: run_inv_def table_ok_def tick_fields)
  moreover have "0 \<le> sint (t_counter (tasks ?t p)) \<and> sint (t_counter (tasks ?t p)) \<le> 45"
    if "p \<in> insert (init_task s) (set ts)" for p
  proof (cases "p = ?c")
    case True
    with tick_step(1) [OF pos(1)] pos show ?thesis by (simp add: goodness_def)
  next
    case False
    with that assms show ?thesis by (auto simp: run_inv_def table_ok_def counters_ok_def)
  qed
  moreover have "same_links ts s ?t" using assms by (auto simp: same_links_def tick_fields run_inv_def intro!: tick_frame(1))
  ultimately show ?thesis
    using assms cur unfolding tick_handle_periodic_def
    by (simp add: run_inv_def table_ok_def counters_ok_def suspended_def preempt_count_def tick_fields)
qed

lemma tick_inv: "sched_inv k s ts qs \<Longrightarrow> sched_inv k (tick_handle_periodic s) ts qs"
  using tick_run [of k s ts qs] sched_inv_same [of k s ts qs k] by (simp add: sched_inv_run)

lemma ticks:
  assumes "0 \<le> sint (goodness (current s) s)"
  shows "current ((tick_handle_periodic ^^ n) s) = current s \<and>
     sint (goodness (current s) ((tick_handle_periodic ^^ n) s)) = max 0 (sint (goodness (current s) s) - int n) \<and>
     t_need_resched (tasks ((tick_handle_periodic ^^ n) s) (current s)) =
       (if 0 < n \<and> sint (goodness (current s) s) \<le> int n then 1 else t_need_resched (tasks s (current s))) \<and>
     (\<forall>q. q \<noteq> current s \<longrightarrow> tasks ((tick_handle_periodic ^^ n) s) q = tasks s q) \<and>
     (\<forall>q. t_priority (tasks ((tick_handle_periodic ^^ n) s) q) = t_priority (tasks s q))"
proof (induction n)
  case 0
  then show ?case using assms by simp
next
  case (Suc n)
  let ?s = "(tick_handle_periodic ^^ n) s"
  have c: "current ?s = current s" and p: "0 \<le> sint (goodness (current s) ?s)" using Suc by simp_all
  have eq: "tick_handle_periodic ?s = task_tick (current s) ?s"
    using c by (simp add: tick_handle_periodic_def [of ?s])
  note step = tick_step [OF p]
  show ?case
    using Suc step c by (auto simp: eq tick_fields)
qed

lemma ticks_inv: "sched_inv k s ts qs \<Longrightarrow> sched_inv k ((tick_handle_periodic ^^ n) s) ts qs"
  by (induction n) (auto intro: tick_inv)

text \<open>The running task uses up its counter, then the scheduler is entered.\<close>

definition run_slice :: "'a sched_state_scheme \<Rightarrow> (outcome \<times> 'a sched_state_scheme) res" where
  "run_slice s = schedule ((tick_handle_periodic ^^ nat (sint (goodness (current s) s))) s)"

primrec run_slices :: "nat \<Rightarrow> 'a sched_state_scheme \<Rightarrow> 'a sched_state_scheme res" where
  "run_slices 0 s = Inr s"
| "run_slices (Suc n) s = bindr (run_slice s) (\<lambda>(_, s). run_slices n s)"


definition charged :: "'a sched_state_scheme \<Rightarrow> u64 list \<Rightarrow> u64 set" where
  "charged s qs = {p \<in> set qs. goodness p s \<noteq> 0}"

lemma run_slice_inv:
  assumes inv: "sched_inv 0 s ts qs" and ne: "qs \<noteq> []"
  shows "\<exists>out s'. run_slice s = Inr (out, s') \<and> sched_inv 0 s' ts qs \<and> current s' \<in> charged s' qs \<and>
     charged s' qs = (if charged s qs - {current s} = {} then set qs else charged s qs - {current s})"
proof -
  let ?n = "nat (sint (goodness (current s) s))"
  define s1 where "s1 = (tick_handle_periodic ^^ ?n) s"
  have pos: "0 \<le> sint (goodness (current s) s)"
    using inv by (auto simp: sched_inv_def counters_ok_def goodness_def)
  note tk = ticks [OF pos, of ?n, folded s1_def]
  have inv1: "sched_inv 0 s1 ts qs" using ticks_inv [OF inv] by (simp add: s1_def)
  have "sint (goodness (current s) s1) = 0" using tk pos by simp
  then have "goodness (current s) s1 = 0" by (simp add: signed_eq_0_iff)
  then have "goodness q s1 = (if q = current s then 0 else goodness q s)" for q
    using tk by (simp add: goodness_def)
  then have ch: "charged s1 qs = charged s qs - {current s}"
    by (auto simp: charged_def)
  from schedule_inv [OF inv1 ne] obtain out s' where s': "schedule s1 = Inr (out, s')"
    "sched_inv 0 s' ts qs" "is_best (\<lambda>p. goodness p s') qs (current s')" "0 < sint (goodness (current s') s')"
    "(\<exists>q \<in> set qs. goodness q s1 \<noteq> 0) \<and> (\<forall>p. goodness p s' = goodness p s1) \<or>
      (\<forall>q \<in> set qs. goodness q s1 = 0 \<and> goodness q s' = DEF_COUNTER + t_priority (tasks s1 q))" by blast
  have "goodness q s' \<noteq> 0" if "goodness q s' = DEF_COUNTER + t_priority (tasks s1 q)" "q \<in> set qs" for q
  proof -
    have "0 \<le> sint (t_priority (tasks s1 q))" "sint (t_priority (tasks s1 q)) \<le> 20"
      using inv1 that(2) by (auto simp: sched_inv_def counters_ok_def)
    from sint_recharged [OF this] this have "sint (goodness q s') \<noteq> 0" by (simp add: that(1))
    then show ?thesis by auto
  qed
  with s'(5) have "charged s' qs = (if charged s1 qs = {} then set qs else charged s1 qs)"
    by (auto simp: charged_def)
  moreover have "current s' \<in> charged s' qs"
    using is_best_max [OF s'(3)] s'(4) by (auto simp: charged_def)
  ultimately show ?thesis using s'(1,2) by (auto simp: run_slice_def ch simp flip: s1_def)
qed

lemma run_slices_append:
  "run_slices (m + n) s = bindr (run_slices m s) (run_slices n)"
  by (induction m arbitrary: s) (auto simp: bindr_assoc split_def)

lemma runs_charged:
  assumes "sched_inv 0 s ts qs" and "q \<in> charged s qs - {current s}"
  shows "\<exists>k s'. 0 < k \<and> k \<le> card (charged s qs - {current s}) \<and> run_slices k s = Inr s' \<and> current s' = q"
  using assms
proof (induction "card (charged s qs - {current s})" arbitrary: s rule: less_induct)
  case less
  have fin: "finite (charged s qs)" by (simp add: charged_def)
  from less.prems have ne: "charged s qs - {current s} \<noteq> {}" by blast
  have "qs \<noteq> []" using less.prems(2) by (auto simp: charged_def)
  from run_slice_inv [OF less.prems(1) this] ne obtain out s' where s': "run_slice s = Inr (out, s')"
    "sched_inv 0 s' ts qs" "current s' \<in> charged s' qs" "charged s' qs = charged s qs - {current s}" by auto
  have one: "run_slices 1 s = Inr s'" using s'(1) by simp
  show ?case
  proof (cases "current s' = q")
    case True
    with one less.prems(2) fin show ?thesis
      by (intro exI [of _ 1] exI [of _ s']) (auto simp: Suc_le_eq card_gt_0_iff)
  next
    case False
    have lt: "card (charged s' qs - {current s'}) < card (charged s qs - {current s})"
      using s'(3) fin unfolding s'(4) by (intro psubset_card_mono) auto
    from less.hyps [OF this s'(2)] False less.prems(2) obtain k s2 where
      "k \<le> card (charged s' qs - {current s'})" "run_slices k s' = Inr s2" "current s2 = q"
      by (auto simp: s'(4))
    with lt one run_slices_append [of 1 k s] show ?thesis
      by (intro exI [of _ "Suc k"] exI [of _ s2]) auto
  qed
qed

lemma runs_ready:
  assumes "sched_inv 0 s ts qs" and "q \<in> set qs"
  shows "\<exists>k s'. 0 < k \<and> k \<le> card (charged s qs - {current s}) + length qs \<and> run_slices k s = Inr s' \<and> current s' = q"
  using assms
proof (induction "card (charged s qs - {current s})" arbitrary: s rule: less_induct)
  case less
  have fin: "finite (charged s qs)" by (simp add: charged_def)
  have ne: "qs \<noteq> []" using less.prems(2) by auto
  from run_slice_inv [OF less.prems(1) ne] obtain out s' where s': "run_slice s = Inr (out, s')"
    "sched_inv 0 s' ts qs" "current s' \<in> charged s' qs"
    "charged s' qs = (if charged s qs - {current s} = {} then set qs else charged s qs - {current s})" by blast
  have one: "run_slices 1 s = Inr s'" using s'(1) by simp
  consider (now) "current s' = q" | (full) "current s' \<noteq> q" "charged s qs - {current s} = {}"
    | (later) "current s' \<noteq> q" "charged s qs - {current s} \<noteq> {}" by blast
  then show ?case
  proof cases
    case now
    with one ne show ?thesis by (intro exI [of _ 1] exI [of _ s']) (simp add: Suc_le_eq)
  next
    case full
    with s'(4) have ch: "charged s' qs = set qs" by simp
    with runs_charged [OF s'(2), of q] full less.prems(2) obtain k s2 where
      "k \<le> card (set qs - {current s'})" "run_slices k s' = Inr s2" "current s2 = q" by auto
    moreover have "card (set qs - {current s'}) < length qs"
    proof -
      have "card (set qs - {current s'}) < card (set qs)"
        using s'(3) ch by (intro psubset_card_mono) auto
      with card_length [of qs] show ?thesis by linarith
    qed
    ultimately show ?thesis using one run_slices_append [of 1 k s]
      by (intro exI [of _ "Suc k"] exI [of _ s2]) auto
  next
    case later
    with s'(4) have ch: "charged s' qs = charged s qs - {current s}" by simp
    have lt: "card (charged s' qs - {current s'}) < card (charged s qs - {current s})"
      using s'(3) fin unfolding ch by (intro psubset_card_mono) auto
    from less.hyps [OF this s'(2) less.prems(2)] obtain k s2 where
      "k \<le> card (charged s' qs - {current s'}) + length qs" "run_slices k s' = Inr s2" "current s2 = q" by blast
    with lt one run_slices_append [of 1 k s] show ?thesis
      by (intro exI [of _ "Suc k"] exI [of _ s2]) auto
  qed
qed

section \<open>A concrete state\<close>

text \<open>The init task runs, two new kernel threads are ready: the state in which \<open>kernel_main\<close> enables
  the interrupts, at addresses a build may give.\<close>

definition demo_thread :: "s32 \<Rightarrow> u64 \<Rightarrow> u64 \<Rightarrow> u64 \<Rightarrow> task_struct" where
  "demo_thread pid p nxt prv = task_0\<lparr>t_pid := pid, t_priority := 2, t_counter := 6,
     t_next_task := nxt, t_prev_task := prv,
     t_cpu_context := cpu_context_0\<lparr>cc_x19 := 0x83000, cc_sp := p + 0xec0, cc_pc := 0x81000\<rparr>\<rparr>"

definition demo_sched :: sched_state where
  "demo_sched =
     \<lparr>klog = [], hw_trace = [], io_dev = (\<lambda>_ _. 0), sys_dev = (\<lambda>_ _. 0), mem = (\<lambda>_. 0), irq_masked = True,
      mem_map = (\<lambda>i. if i < 2 then 1 else 0), phy_start_address = 0x400000,
      tasks = (\<lambda>_. task_0)
        (0x90000 := task_0\<lparr>t_flags := 1, t_priority := 20, t_counter := 6, t_next_task := 0x400000, t_prev_task := 0x401000\<rparr>,
         0x400000 := demo_thread 1 0x400000 0x401000 0x90000,
         0x401000 := demo_thread 2 0x401000 0x90000 0x400000),
      lists = (\<lambda>_. \<lparr>lh_next = 0, lh_prev = 0\<rparr>)
        (0x98000 := \<lparr>lh_next = 0x401078, lh_prev = 0x400078\<rparr>,
         0x401078 := \<lparr>lh_next = 0x400078, lh_prev = 0x98000\<rparr>,
         0x400078 := \<lparr>lh_next = 0x98000, lh_prev = 0x401078\<rparr>),
      rq = \<lparr>nr_running = 2, nr_switches = 0, rq_curr = 0\<rparr>,
      cpu = cpu_context_0\<lparr>cc_sp := 0x90f00\<rparr>, frames = (\<lambda>_. By_schedule),
      syms = \<lparr>sym_init_task = 0x90000, sym_rq_head = 0x98000, sym_ret_from_fork = 0x81000,
              sym_switch_to_ret = 0x82000\<rparr>\<rparr>"

lemma demo_current: "current demo_sched = 0x90000"
  by (simp add: current_def demo_sched_def cpu_context_0_def)

lemma demo_rep: "sched_rep demo_sched [0x400000, 0x401000] [0x401000, 0x400000]"
  by (auto simp: sched_rep_def task_ring_def ring_def list_rep_def demo_sched_def demo_thread_def
      run_list_of_def run_list_offset_def task_0_def)

lemma demo_inv: "sched_inv 0 demo_sched [0x400000, 0x401000] [0x401000, 0x400000]"
  using demo_rep
  by (auto simp: sched_inv_def demo_current counters_ok_def preempt_count_def suspended_def page_of_def)
    (auto simp: demo_sched_def demo_thread_def task_0_def cpu_context_0_def)

lemma schedule_empty:
  assumes "sched_rep s ts []" and "t_state (tasks s (current s)) = TASK_RUNNING"
  shows "schedule_common c s = Inl Uninit_read"
proof -
  let ?s = "arch_local_irq_disable (schedule_debug (current s) s)"
  have f: "tasks ?s = tasks s" "lists ?s = lists s" "rq ?s = rq s" "syms ?s = syms s"
    by (simp_all add: arch_local_irq_disable_def schedule_debug_def printk_call_def)
  have "sched_rep ?s ts []" using assms(1) by (subst sched_rep_cong [where s = s]) (simp_all add: f)
  from pick_next_task_empty [OF sched_rep_walk [OF this]] show ?thesis
    using assms(2) by (simp add: schedule_common_def Let_def f)
qed

lemma run_slices_total:
  "sched_inv 0 s ts qs \<Longrightarrow> qs \<noteq> [] \<Longrightarrow>
     \<exists>s'. run_slices n s = Inr s' \<and> sched_inv 0 s' ts qs \<and> (0 < n \<longrightarrow> current s' \<in> set qs)"
proof (induction n arbitrary: s)
  case 0
  then show ?case by simp
next
  case (Suc n)
  from run_slice_inv [OF Suc.prems] obtain out s1 where s1: "run_slice s = Inr (out, s1)"
    "sched_inv 0 s1 ts qs" "current s1 \<in> set qs" by (auto simp: charged_def)
  with Suc.IH [OF s1(2) Suc.prems(2)] show ?case by (cases n) auto
qed

lemma preempt_schedule_irq_run:
  assumes "run_inv 0 s ts qs" and "qs \<noteq> []"
  shows "\<exists>out s'. preempt_schedule_irq s = Inr (out, s') \<and> run_inv 0 s' ts qs \<and> same_links ts s s' \<and>
     is_best (\<lambda>p. goodness p s') qs (current s') \<and> t_need_resched (tasks s' (current s)) = 0 \<and>
     irq_masked s' = (out = Returned By_preempt_schedule_irq) \<and> klog s' = klog s"
proof -
  let ?s = "arch_local_irq_enable (preempt_disable s)"
  have inv: "run_inv 1 ?s ts qs"
    using run_inv_preempt_disable [OF assms(1)] by (simp add: arch_local_irq_enable_def)
  have "preempt_count s = 0" using assms(1) by (simp add: run_inv_def)
  then have "preempt_schedule_irq s = schedule_common By_preempt_schedule_irq ?s"
    by (simp add: preempt_schedule_irq_def)
  moreover have "current ?s = current s" "klog ?s = klog s"
    by (simp_all add: arch_local_irq_enable_def preempt_disable_def preempt_add_def current_def upd_task_def)
  moreover have "same_links ts s ?s"
    using assms(1) by (intro same_links_trans [OF same_links_ops(3) same_links_ops(2)]) (simp add: run_inv_def)
  then have "same_links ts ?s s' = same_links ts s s'" for s' by (rule same_links_left)
  ultimately show ?thesis
    using schedule_common_run [OF inv assms(2), of By_preempt_schedule_irq] by simp blast
qed

lemma preempt_schedule_irq_inv:
  assumes "sched_inv 0 s ts qs" and "qs \<noteq> []"
  shows "\<exists>out s'. preempt_schedule_irq s = Inr (out, s') \<and> sched_inv 0 s' ts qs \<and>
     is_best (\<lambda>p. goodness p s') qs (current s') \<and> t_need_resched (tasks s' (current s)) = 0 \<and>
     irq_masked s' = (out = Returned By_preempt_schedule_irq) \<and> klog s' = klog s"
proof -
  have "run_inv 0 s ts qs" using assms(1) by (simp add: sched_inv_run)
  from preempt_schedule_irq_run [OF this assms(2)] sched_inv_same [OF assms(1)] show ?thesis
    by (elim exE conjE) ((rule exI)+, intro conjI, assumption, blast, assumption+)
qed

section \<open>Properties\<close>

text \<open>C7. A voluntary \<open>schedule\<close> from a consistent state with a ready task always returns: the
  invariant is kept, the CPU runs the first ready task with the largest counter (all tasks are
  recharged first when every ready counter is 0), the request of the old task is cleared, and only a
  task that had been preempted in an interrupt continues with interrupts masked.\<close>

theorem schedule_correct:
  assumes "sched_inv 0 s ts qs" and "qs \<noteq> []"
  shows "\<exists>out s'. schedule s = Inr (out, s') \<and> sched_inv 0 s' ts qs \<and>
     is_best (\<lambda>p. goodness p s') qs (current s') \<and> 0 < sint (goodness (current s') s') \<and>
     t_need_resched (tasks s' (current s)) = 0 \<and>
     ((\<exists>q \<in> set qs. goodness q s \<noteq> 0) \<and> (\<forall>p. goodness p s' = goodness p s) \<or>
      (\<forall>q \<in> set qs. goodness q s = 0 \<and> goodness q s' = DEF_COUNTER + t_priority (tasks s q))) \<and>
     irq_masked s' = (out = Returned By_preempt_schedule_irq) \<and> klog s' = klog s"
  using schedule_inv [OF assms] by blast

theorem schedule_correct_witness:
  "\<exists>out s'. schedule demo_sched = Inr (out, s') \<and> sched_inv 0 s' [0x400000, 0x401000] [0x401000, 0x400000] \<and>
     is_best (\<lambda>p. goodness p s') [0x401000, 0x400000] (current s') \<and> 0 < sint (goodness (current s') s')"
  using schedule_correct [OF demo_inv] by blast

text \<open>Preemption at the end of an interrupt (\<open>preempt_schedule_irq\<close>, entered with preemption enabled)
  reports no bug, always returns, keeps the invariant, and hands the CPU to the first task with the
  largest counter; its own caller finds the interrupts masked again, and only that caller does.\<close>

theorem preempt_schedule_irq_correct:
  assumes "sched_inv 0 s ts qs" and "qs \<noteq> []"
  shows "\<exists>out s'. preempt_schedule_irq s = Inr (out, s') \<and> sched_inv 0 s' ts qs \<and>
     is_best (\<lambda>p. goodness p s') qs (current s') \<and> t_need_resched (tasks s' (current s)) = 0 \<and>
     irq_masked s' = (out = Returned By_preempt_schedule_irq) \<and> klog s' = klog s"
  using preempt_schedule_irq_inv [OF assms] by blast

theorem preempt_schedule_irq_correct_witness:
  "\<exists>out s'. preempt_schedule_irq demo_sched = Inr (out, s') \<and>
     sched_inv 0 s' [0x400000, 0x401000] [0x401000, 0x400000] \<and> klog s' = []"
  using preempt_schedule_irq_correct [OF demo_inv] by (auto simp: demo_sched_def)

text \<open>C35. A task with counter \<open>c\<close> runs for exactly \<open>c\<close> ticks: the counter goes down by one per tick
  and stays at 0, and the request to reschedule appears with the tick that exhausts it, not before.\<close>

theorem time_slice:
  assumes "0 \<le> sint (goodness (current s) s)" and "t_need_resched (tasks s (current s)) = 0"
  shows "sint (goodness (current s) ((tick_handle_periodic ^^ n) s)) = max 0 (sint (goodness (current s) s) - int n) \<and>
     (t_need_resched (tasks ((tick_handle_periodic ^^ n) s) (current s)) \<noteq> 0 \<longleftrightarrow>
        0 < n \<and> sint (goodness (current s) s) \<le> int n) \<and>
     {q. q \<noteq> current s \<and> tasks ((tick_handle_periodic ^^ n) s) q \<noteq> tasks s q} = {}"
  using ticks [OF assms(1), of n] assms(2) by auto

theorem time_slice_witness:
  "sint (goodness 0x90000 ((tick_handle_periodic ^^ 4) demo_sched)) = 2 \<and>
     t_need_resched (tasks ((tick_handle_periodic ^^ 4) demo_sched) 0x90000) = 0"
proof -
  have "goodness (current demo_sched) demo_sched = 6" "t_need_resched (tasks demo_sched (current demo_sched)) = 0"
    by (simp_all add: goodness_def demo_current) (simp_all add: demo_sched_def task_0_def)
  then show ?thesis using time_slice [of demo_sched 4] by (simp add: demo_current)
qed

text \<open>C9. No ready task starves: when every task in turn uses up its counter and the scheduler is
  entered, each ready task has become the running one after at most two rounds of the queue. The
  scan, the recharge and the switch all return on the way.\<close>

theorem every_ready_task_runs:
  assumes "sched_inv 0 s ts qs" and "q \<in> set qs"
  shows "\<exists>k s'. 0 < k \<and> k \<le> 2 * length qs \<and> run_slices k s = Inr s' \<and> current s' = q"
proof -
  have "card (charged s qs - {current s}) \<le> card (set qs)"
    by (intro card_mono) (auto simp: charged_def)
  also have "\<dots> \<le> length qs" by (rule card_length)
  finally have le: "card (charged s qs - {current s}) + length qs \<le> 2 * length qs" by simp
  from runs_ready [OF assms] obtain k s' where "0 < k" "k \<le> card (charged s qs - {current s}) + length qs"
    "run_slices k s = Inr s'" "current s' = q" by blast
  with le show ?thesis by (intro exI [of _ k] exI [of _ s']) simp
qed

theorem every_ready_task_runs_witness:
  "\<exists>k s'. 0 < k \<and> k \<le> 4 \<and> run_slices k demo_sched = Inr s' \<and> current s' = 0x400000"
  using every_ready_task_runs [OF demo_inv, of "0x400000"] by simp

text \<open>With an empty ready queue the scheduler uses its uninitialised local \<open>next\<close>.\<close>

theorem schedule_empty_queue:
  assumes "sched_rep s ts []" and "t_state (tasks s (current s)) = TASK_RUNNING"
  shows "schedule s = Inl Uninit_read"
proof -
  have "sched_rep (preempt_disable s) ts []"
    using assms(1) by (subst sched_rep_cong [where s = s]) (simp_all add: preempt_disable_def preempt_add_def)
  moreover have "t_state (tasks (preempt_disable s) (current (preempt_disable s))) = TASK_RUNNING"
    using assms(2) by (simp add: preempt_disable_def preempt_add_def)
  ultimately show ?thesis unfolding schedule_def by (rule schedule_empty)
qed

theorem schedule_empty_queue_witness: "schedule (sched_init demo_sched) = Inl Uninit_read"
proof (rule schedule_empty_queue)
  show "sched_rep (sched_init demo_sched) [0x400000, 0x401000] []"
    using demo_rep by (intro sched_rep_init) (auto simp: sched_rep_def demo_sched_def)
  show "t_state (tasks (sched_init demo_sched) (current (sched_init demo_sched))) = TASK_RUNNING"
    by (simp add: sched_init_def current_def Let_def demo_sched_def task_0_def demo_thread_def)
qed

text \<open>The end of an interrupt taken in the kernel enters the scheduler exactly when the
  interrupted task is preemptible and its reschedule flag is set.\<close>

theorem el1_irq_exit_preempts:
  assumes "sched_inv k s ts qs" and "qs \<noteq> []"
  shows "\<exists>out s'. el1_irq_exit s = Inr (out, s') \<and>
     (if k = 0 \<and> t_need_resched (tasks s (current s)) \<noteq> 0
      then out \<noteq> None \<and> sched_inv 0 s' ts qs \<and> t_need_resched (tasks s' (current s)) = 0
      else out = None \<and> s' = s)"
proof (cases "k = 0 \<and> t_need_resched (tasks s (current s)) \<noteq> 0")
  case True
  then obtain out s' where "preempt_schedule_irq s = Inr (out, s')" "sched_inv 0 s' ts qs"
    "t_need_resched (tasks s' (current s)) = 0"
    using preempt_schedule_irq_inv [of s ts qs] assms by auto
  with True assms(1) show ?thesis by (auto simp: el1_irq_exit_def sched_inv_def preempt_count_def)
next
  case False
  with assms(1) show ?thesis by (auto simp: el1_irq_exit_def sched_inv_def preempt_count_def)
qed

theorem el1_irq_exit_preempts_witness:
  "\<exists>out s'. el1_irq_exit demo_sched = Inr (out, s') \<and> out = None"
  using el1_irq_exit_preempts [OF demo_inv]
  by (simp add: demo_current) (simp add: demo_sched_def task_0_def)

text \<open>The return to user space with a pending reschedule masks the interrupts before the call of
  \<open>schedule\<close> and not after it: when \<open>schedule\<close> returns, the saved state of the exception is restored
  with interrupts enabled; without a pending reschedule it is restored with interrupts masked.\<close>

theorem ret_to_user_interrupts:
  assumes "sched_inv 0 s ts qs" and "qs \<noteq> []"
  shows "\<exists>out s'. ret_to_user s = Inr (out, s') \<and> sched_inv 0 s' ts qs \<and>
     (out = None \<longleftrightarrow> t_need_resched (tasks s (current s)) = 0) \<and>
     (out = None \<longrightarrow> irq_masked s') \<and> (out = Some (Returned By_schedule) \<longrightarrow> \<not> irq_masked s')"
proof -
  let ?s = "arch_local_irq_disable s"
  have f: "current ?s = current s" "tasks ?s = tasks s"
    by (simp_all add: arch_local_irq_disable_def current_def)
  have inv: "sched_inv 0 ?s ts qs" using assms(1) by (simp add: arch_local_irq_disable_def)
  show ?thesis
  proof (cases "t_need_resched (tasks s (current s)) = 0")
    case True
    with inv show ?thesis
      by (simp add: ret_to_user_def Let_def f) (simp add: arch_local_irq_disable_def)
  next
    case False
    from schedule_inv [OF inv assms(2)] obtain out s' where
      "schedule ?s = Inr (out, s')" "sched_inv 0 s' ts qs" "irq_masked s' = (out = Returned By_preempt_schedule_irq)"
      by blast
    with False show ?thesis by (auto simp: ret_to_user_def Let_def f)
  qed
qed

theorem ret_to_user_interrupts_witness:
  "\<exists>out s'. ret_to_user demo_sched = Inr (out, s') \<and> irq_masked s'"
proof -
  have "t_need_resched (tasks demo_sched (current demo_sched)) = 0"
    by (simp add: demo_current) (simp add: demo_sched_def task_0_def)
  with ret_to_user_interrupts [OF demo_inv] show ?thesis by auto
qed

text \<open>A task put in the ready queue is a candidate of the next choice, and the chosen task's counter
  is at least the new task's; a task taken off the queue is not chosen.\<close>

theorem enqueue_dequeue_pick:
  assumes "sched_rep s ts qs" and "counters_ok s ts" and "p \<in> set ts"
  shows "\<exists>n s'. (if p \<notin> set qs
       then bindr (enqueue_task p s) (pick_next_task prev) = Inr (n, s') \<and> n \<in> set (p # qs) \<and>
            sint (goodness p s') \<le> sint (goodness n s')
       else remove1 p qs = [] \<or> bindr (dequeue_task p s) (pick_next_task prev) = Inr (n, s') \<and> n \<noteq> p)"
proof (cases "p \<in> set qs")
  case False
  with nop.enqueue_then_pick [of s ts qs p prev] assms show ?thesis
    by (auto simp: enqueue_task_def pick_next_task_def [abs_def])
next
  case True
  then obtain xs ys where q: "qs = xs @ p # ys" "p \<notin> set xs" by (meson split_list_first)
  then have "remove1 p qs = xs @ ys" by (simp add: remove1_append)
  with True q nop.dequeued_not_picked [of s ts xs p ys prev] assms show ?thesis
    by (cases "xs @ ys = []") (auto simp: dequeue_task_def pick_next_task_def [abs_def])
qed

theorem enqueue_dequeue_pick_witness:
  "\<exists>n s'. bindr (dequeue_task 0x401000 demo_sched) (pick_next_task 0x90000) = Inr (n, s') \<and> n \<noteq> 0x401000"
  using enqueue_dequeue_pick [OF demo_rep, of "0x401000" "0x90000"] demo_inv by (simp add: sched_inv_def)

end
