(* ===== verification/Byte_Memory.thy ===== *)
theory Byte_Memory
  imports Machine
begin

text \<open>
  The string routines of \<^verbatim>\<open>lib/string.c\<close> on the byte-addressed memory, and the little-endian
  64-bit accesses the page tables and \<open>memset\<close> make. \<open>memset\<close> is modelled with its three phases
  (the bytes up to an alignment, the 16-byte stores of the inline assembly, the tail), every
  variable at its width.
\<close>

type_synonym bmem = "u64 \<Rightarrow> u8"

section \<open>64-bit accesses\<close>

definition byte_of :: "u64 \<Rightarrow> nat \<Rightarrow> u8" where
  "byte_of v k = ucast (drop_bit (8 * k) v)"

definition store64 :: "u64 \<Rightarrow> u64 \<Rightarrow> bmem \<Rightarrow> bmem" where
  "store64 a v m = (\<lambda>x. if x - a < 8 then byte_of v (unat (x - a)) else m x)"

definition load64 :: "u64 \<Rightarrow> bmem \<Rightarrow> u64" where
  "load64 a m = foldr (\<lambda>k v. push_bit 8 v OR ucast (m (a + word_of_nat k))) [0..<8] 0"

section \<open>lib/string.c\<close>

partial_function (option) strlen_from :: "bmem \<Rightarrow> u64 \<Rightarrow> u64 option" where
  "strlen_from m sc = (if m sc \<noteq> 0 then strlen_from m (sc + 1) else Some sc)"

definition strlen :: "bmem \<Rightarrow> u64 \<Rightarrow> u32 res" where
  "strlen m s = bindr (returns (strlen_from m s)) (\<lambda>sc. Inr (ucast (sc - s)))"

primrec copy_bytes :: "nat \<Rightarrow> u64 \<Rightarrow> u64 \<Rightarrow> bmem \<Rightarrow> bmem" where
  "copy_bytes 0 tmp s m = m"
| "copy_bytes (Suc n) tmp s m = copy_bytes n (tmp + 1) (s + 1) (m(tmp := m s))"

definition memcpy :: "u64 \<Rightarrow> u64 \<Rightarrow> u32 \<Rightarrow> bmem \<Rightarrow> bmem" where
  "memcpy dest src count m = copy_bytes (unat count) dest src m"

primrec fill_bytes :: "nat \<Rightarrow> u64 \<Rightarrow> u8 \<Rightarrow> bmem \<Rightarrow> bmem" where
  "fill_bytes 0 xs c m = m"
| "fill_bytes (Suc n) xs c m = fill_bytes n (xs + 1) c (m(xs := c))"

definition memset_1bytes :: "u64 \<Rightarrow> s32 \<Rightarrow> u32 \<Rightarrow> bmem \<Rightarrow> bmem" where
  "memset_1bytes s c count m = fill_bytes (unat count) s (ucast c) m"

text \<open>The inline assembly \<open>1: stp; add; cmp; bne 1b\<close>: the body runs before the first test.\<close>

partial_function (option) memset_16bytes_asm ::
    "u64 \<Rightarrow> u64 \<Rightarrow> s32 \<Rightarrow> s32 \<Rightarrow> bmem \<Rightarrow> bmem option" where
  "memset_16bytes_asm p data count i m =
     (let m = store64 (p + 8) data (store64 p data m); i = i + 16
      in if i \<noteq> count then memset_16bytes_asm (p + 16) data count i m else Some m)"

definition memset_data :: "s32 \<Rightarrow> u64" where
  "memset_data c = foldl (\<lambda>data i. data OR push_bit (i * 8) (scast c AND 0xff)) 0 [0..<8]"

definition memset :: "u64 \<Rightarrow> s32 \<Rightarrow> u32 \<Rightarrow> bmem \<Rightarrow> bmem res" where
  "memset s c count m =
     (let align = 16 :: u64;
          data = memset_data c;
          (p, left, m) =
            (if s AND (align - 1) \<noteq> 0 then
               let size = ucast (s AND (align - 1)) :: u32
               in (s + ucast size, count - size, memset_1bytes s c size m)
             else (s, count, m))
      in if ucast left > align then
           let n = ucast ((ucast left :: u64) div align) :: s32;
               left = ucast ((ucast left :: u64) mod align) :: u32
           in bindr (returns (memset_16bytes_asm p data (16 * n) 0 m)) (\<lambda>m.
                Inr (if left \<noteq> 0 then memset_1bytes (p + scast (16 * n)) c left m else m))
         else Inr m)"

section \<open>memset\<close>

lemma unat_Suc_diff:
  fixes a x :: u64
  assumes "a \<noteq> x"
  shows "unat (a - x) = Suc (unat (a - (x + 1)))"
proof -
  have eq: "1 + (a - (x + 1)) = a - x" by simp
  have "1 + (a - (x + 1)) \<noteq> 0" unfolding eq using assms by simp
  from unatSuc [OF this] show ?thesis by (simp only: eq)
qed

lemma fill_bytes_eq:
  "n < 2 ^ 64 \<Longrightarrow> fill_bytes n xs c m = (\<lambda>a. if unat (a - xs) < n then c else m a)"
proof (induction n arbitrary: xs m)
  case 0
  then show ?case by simp
next
  case (Suc n)
  have "fill_bytes n (xs + 1) c (m(xs := c)) =
      (\<lambda>a. if unat (a - (xs + 1)) < n then c else (m(xs := c)) a)"
    using Suc by simp
  also have "\<dots> = (\<lambda>a. if unat (a - xs) < Suc n then c else m a)"
  proof
    fix a
    show "(if unat (a - (xs + 1)) < n then c else (m(xs := c)) a) =
        (if unat (a - xs) < Suc n then c else m a)"
      by (cases "a = xs") (simp_all add: unat_Suc_diff)
  qed
  finally show ?case by simp
qed

lemma fill_bytes_add:
  "fill_bytes (n + k) xs c m = fill_bytes k (xs + word_of_nat n) c (fill_bytes n xs c m)"
  by (induction n arbitrary: xs m) (simp_all add: algebra_simps)

lemma bit_foldl_or:
  fixes w d :: u64
  shows "bit (foldl (\<lambda>d i. d OR push_bit (i * 8) w) d xs) n \<longleftrightarrow>
     bit d n \<or> (\<exists>i \<in> set xs. bit (push_bit (i * 8) w) n)"
  by (induction xs arbitrary: d) (auto simp: bit_simps)

lemma byte_of_memset_data:
  assumes "k < 8"
  shows "byte_of (memset_data c) k = ucast c"
proof (rule bit_word_eqI)
  fix n assume n: "n < LENGTH(8)"
  have low: "(0xff :: u64) = mask 8" by (simp add: mask_eq_exp_minus_1)
  have "bit (byte_of (memset_data c) k) n \<longleftrightarrow> bit (memset_data c) (8 * k + n)"
    using n by (simp add: byte_of_def bit_simps)
  also have "\<dots> \<longleftrightarrow> (\<exists>i < 8. bit (push_bit (i * 8) (scast c AND 0xff :: u64)) (8 * k + n))"
    unfolding memset_data_def bit_foldl_or by auto
  also have "\<dots> \<longleftrightarrow> bit c n"
  proof
    assume "\<exists>i < 8. bit (push_bit (i * 8) (scast c AND 0xff :: u64)) (8 * k + n)"
    then obtain i where i: "i * 8 \<le> 8 * k + n" "8 * k + n - i * 8 < 8" "bit c (8 * k + n - i * 8)"
      unfolding low by (auto simp: bit_simps split: if_splits)
    with n have "i = k" by simp
    with i show "bit c n" by simp
  next
    assume "bit c n"
    with n assms show "\<exists>i < 8. bit (push_bit (i * 8) (scast c AND 0xff :: u64)) (8 * k + n)"
      unfolding low by (intro exI [of _ k]) (simp add: bit_simps)
  qed
  also have "\<dots> \<longleftrightarrow> bit (ucast c :: u8) n" using n by (simp add: bit_simps)
  finally show "bit (byte_of (memset_data c) k) n = bit (ucast c :: u8) n" .
qed

lemma store64_memset_data:
  "store64 p (memset_data c) m = fill_bytes 8 p (ucast c) m"
proof
  fix x
  show "store64 p (memset_data c) m x = fill_bytes 8 p (ucast c) m x"
    by (auto simp: store64_def fill_bytes_eq word_less_nat_alt byte_of_memset_data)
qed

lemma memset_16bytes_asm_fill:
  assumes "unat (count - i) = 16 * Suc n"
  shows "memset_16bytes_asm p (memset_data c) count i m = Some (fill_bytes (16 * Suc n) p (ucast c) m)"
  using assms
proof (induction n arbitrary: p i m)
  case 0
  then have "count - i = 16" by (simp add: word_unat_eq_iff)
  then have "count = i + 16" by (simp add: algebra_simps)
  then show ?case
    by (simp add: memset_16bytes_asm.simps [of p] store64_memset_data Let_def
        fill_bytes_add [of 8 8, simplified])
next
  case (Suc n)
  have ne: "i + 16 \<noteq> count"
  proof
    assume "i + 16 = count"
    then have "count - i = 16" by auto
    with Suc.prems show False by simp
  qed
  have "unat (count - (i + 16)) = unat (count - i - 16)" by (simp add: algebra_simps)
  also have "\<dots> = unat (count - i) - 16"
    using Suc.prems by (simp add: unat_sub word_le_nat_alt)
  finally have "unat (count - (i + 16)) = 16 * Suc n" using Suc.prems by simp
  from Suc.IH [OF this] ne show ?case
    by (simp add: memset_16bytes_asm.simps [of p] store64_memset_data Let_def
        fill_bytes_add [of 8 8, simplified] fill_bytes_add [of 16 "16 * Suc n", simplified])
qed

definition memset_bulk :: "u64 \<Rightarrow> s32 \<Rightarrow> u32 \<Rightarrow> bmem \<Rightarrow> bmem" where
  "memset_bulk p c left m =
     (let n = unat left div 16 in
      fill_bytes (unat left mod 16) (p + scast (word_of_nat (16 * n) :: s32)) (ucast c)
        (fill_bytes (16 * n) p (ucast c) m))"

lemma memset_bulk_asm:
  assumes "unat left > 16"
  shows "bindr (returns (memset_16bytes_asm p (memset_data c)
        (16 * (ucast ((ucast left :: u64) div 16) :: s32)) 0 m))
      (\<lambda>m. Inr (if (ucast ((ucast left :: u64) mod 16) :: u32) \<noteq> 0
        then memset_1bytes (p + scast (16 * (ucast ((ucast left :: u64) div 16) :: s32))) c
          (ucast ((ucast left :: u64) mod 16)) m else m)) = Inr (memset_bulk p c left m)"
proof -
  define n where "n = unat left div 16"
  have n: "16 * n \<le> unat left" "0 < n" using assms by (simp_all add: n_def)
  have b: "unat left < 2 ^ 32" using unsigned_less [of left, where 'a = nat] by simp
  have q: "16 * (ucast ((ucast left :: u64) div 16) :: s32) = word_of_nat (16 * n)"
    using n b by (simp add: word_unat_eq_iff unat_word_ariths unsigned_of_nat take_bit_nat_eq_self
        unat_div unsigned_ucast_eq n_def)
  have r: "unat (ucast ((ucast left :: u64) mod 16) :: u32) = unat left mod 16"
    using b by (simp add: unat_mod unsigned_ucast_eq take_bit_nat_eq_self)
  have u: "unat (word_of_nat (16 * n) - 0 :: s32) = 16 * Suc (n - 1)"
    using n b by (simp add: unat_word_ariths unsigned_of_nat take_bit_nat_eq_self)
  show ?thesis
    using memset_16bytes_asm_fill [OF u] n r
    by (simp add: q memset_bulk_def memset_1bytes_def Let_def flip: n_def)
      (auto simp: word_unat_eq_iff)
qed

lemma unat_ucast_u32_u64 [simp]: "unat (ucast (l :: u32) :: u64) = unat l"
proof -
  have "unat l < 2 ^ 32" using unsigned_less [of l, where 'a = nat] by simp
  then show ?thesis by (simp add: unsigned_ucast_eq take_bit_nat_eq_self)
qed

lemma memset_unfold:
  "memset s c count m =
     (let k = s AND 15;
          left = (if k = 0 then count else count - ucast k);
          m = fill_bytes (unat k) s (ucast c) m
      in if unat left > 16 then Inr (memset_bulk (s + k) c left m) else Inr m)"
proof -
  define k where "k = s AND 15"
  have k: "unat k < 16"
    using unat_and_mask [of s 4] by (simp add: k_def mask_eq_exp_minus_1)
  then have k32: "unat (ucast k :: u32) = unat k" "(ucast (ucast k :: u32) :: u64) = k"
    by (simp_all add: unsigned_ucast_eq unsigned_take_bit_eq word_unat_eq_iff take_bit_nat_eq_self)
  have w: "(16 :: u64) < ucast (l :: u32) \<longleftrightarrow> 16 < unat l" for l
    by (simp add: word_less_nat_alt)
  show ?thesis
  proof (cases "k = 0")
    case True
    then show ?thesis
      by (simp add: memset_def Let_def memset_bulk_asm w flip: k_def)
  next
    case False
    then show ?thesis
      using k32 by (simp add: memset_def Let_def memset_bulk_asm w memset_1bytes_def flip: k_def)
  qed
qed

lemma memset_bulk_fill:
  assumes "unat left < 2 ^ 31"
  shows "memset_bulk p c left m = fill_bytes (unat left) p (ucast c) m"
proof -
  have "scast (word_of_nat (16 * (unat left div 16)) :: s32) =
      (word_of_nat (16 * (unat left div 16)) :: u64)"
    using assms by (intro scast_nonneg) simp
  then show ?thesis
    using fill_bytes_add [of "16 * (unat left div 16)" "unat left mod 16" p "ucast c" m]
    by (simp add: memset_bulk_def Let_def)
qed

lemma memset_fill:
  assumes "unat (s AND 15) + 16 < unat count" and "unat count < 2 ^ 31"
  shows "memset s c count m = Inr (\<lambda>a. if a - s < ucast count then ucast c else m a)"
proof -
  define k where "k = s AND 15"
  define left where "left = (if k = 0 then count else count - ucast k)"
  have k: "unat (ucast k :: u32) = unat k"
    using assms by (simp add: unsigned_ucast_eq k_def take_bit_nat_eq_self)
  then have left: "unat left = unat count - unat k"
    using assms by (simp add: left_def unat_sub word_le_nat_alt k_def)
  then have "memset s c count m = Inr (fill_bytes (unat count - unat k) (s + k) (ucast c)
      (fill_bytes (unat k) s (ucast c) m))"
    using assms by (simp add: memset_unfold Let_def memset_bulk_fill flip: k_def left_def)
  also have "\<dots> = Inr (fill_bytes (unat count) s (ucast c) m)"
    using fill_bytes_add [of "unat k" "unat count - unat k" s "ucast c" m] assms
    by (simp add: k_def)
  finally show ?thesis
    using assms by (simp add: fill_bytes_eq word_less_nat_alt)
qed

text \<open>C37. \<open>memset\<close> sets exactly the \<open>count\<close> bytes from \<open>s\<close> to the low byte of \<open>c\<close> and returns, whatever
  the alignment of \<open>s\<close>, when \<open>count\<close> exceeds the misalignment of \<open>s\<close> by more than 16 and is below
  \<open>2^31\<close>. (Every call of the kernel is of this kind.)\<close>

theorem memset_fills:
  assumes "unat (s AND 15) + 16 < unat count" and "unat count < 2 ^ 31"
  shows "memset s c count m = Inr (\<lambda>a. if a - s < ucast count then ucast c else m a)"
  using memset_fill [OF assms] by simp

theorem memset_fills_witness:
  "memset 0x1000 0 32 (\<lambda>_. 7) = Inr (\<lambda>a. if a - 0x1000 < 32 then 0 else 7)"
  using memset_fills [of "0x1000" 32 0 "\<lambda>_. 7"] by (simp cong: if_cong)

text \<open>When at most 16 bytes remain after the bytes up to the misalignment of \<open>s\<close>, \<open>memset\<close> writes
  those first \<open>s & 15\<close> bytes only: an aligned area of up to 16 bytes is left as it was.\<close>

theorem memset_short:
  assumes "unat (s AND 15) \<le> unat count" and "unat count \<le> unat (s AND 15) + 16"
  shows "memset s c count m = Inr (\<lambda>a. if a - s < s AND 15 then ucast c else m a)"
proof -
  define k where "k = s AND 15"
  define left where "left = (if k = 0 then count else count - ucast k)"
  have k16: "unat k < 16"
    using unat_and_mask [of s 4] by (simp add: k_def mask_eq_exp_minus_1)
  then have k: "unat (ucast k :: u32) = unat k"
    by (simp add: unsigned_ucast_eq take_bit_nat_eq_self)
  then have left: "unat left = unat count - unat k"
    using assms by (simp add: left_def unat_sub word_le_nat_alt k_def)
  then have "\<not> 16 < unat left" using assms by (simp flip: k_def)
  then have "memset s c count m = Inr (fill_bytes (unat k) s (ucast c) m)"
    using assms by (simp add: memset_unfold Let_def flip: k_def left_def)
  then show ?thesis
    using k16 by (simp add: fill_bytes_eq word_less_nat_alt flip: k_def)
qed

theorem memset_short_witness:
  "memset 0x1008 1 12 (\<lambda>_. 7) = Inr (\<lambda>a. if a - 0x1008 < 8 then 1 else 7)"
  using memset_short [of "0x1008" 12 1 "\<lambda>_. 7"] by (simp cong: if_cong)

text \<open>When \<open>count\<close> is smaller than the misalignment of \<open>s\<close>, \<open>left = count - size\<close> wraps around and
  \<open>memset\<close> overwrites almost four gigabytes after \<open>s\<close>.\<close>

theorem memset_underflow:
  assumes "unat count < unat (s AND 15)" and "s AND 15 \<le> d" and "d < 0xFFFFFFF0"
  shows "\<exists>m'. memset s c count m = Inr m' \<and> m' (s + d) = ucast c"
proof -
  define k where "k = s AND 15"
  define left where "left = count - ucast k"
  have k16: "unat k < 16"
    using unat_and_mask [of s 4] by (simp add: k_def mask_eq_exp_minus_1)
  have k0: "k \<noteq> 0" using assms(1) by (auto simp: k_def)
  from k16 have k: "unat (ucast k :: u32) = unat k"
    by (simp add: unsigned_ucast_eq take_bit_nat_eq_self)
  have left: "unat left = 2 ^ 32 + unat count - unat k" "16 < unat left"
    using assms k k16 by (simp_all add: left_def unat_sub_if' flip: k_def)
  have n: "unat left div 16 = 2 ^ 28 - 1"
    using left assms k16 by (simp add: k_def [symmetric]) 
  let ?m = "fill_bytes (unat k) s (ucast c) m"
  have "memset s c count m = Inr (memset_bulk (s + k) c left ?m)"
    using left k0 k16 by (simp add: memset_unfold Let_def flip: k_def left_def) 
  moreover have "memset_bulk (s + k) c left ?m (s + d) = ucast c"
  proof -
    have "unat (d - k) = unat d - unat k"
      using assms by (simp add: unat_sub k_def)
    then have "unat (s + d - (s + k)) < 16 * (2 ^ 28 - 1)"
      using assms by (simp add: word_less_nat_alt)
    moreover have "unat left mod 16 < 2 ^ 64" by simp
    ultimately show ?thesis
      by (simp only: memset_bulk_def Let_def n) (simp add: fill_bytes_eq)
  qed
  ultimately show ?thesis by blast
qed

theorem memset_underflow_witness:
  "\<exists>m'. memset 0x1008 1 4 (\<lambda>_. 7) = Inr m' \<and> m' (0x1008 + 0x10000000) = 1"
  using memset_underflow [of 4 "0x1008" "0x10000000" 1 "\<lambda>_. 7"] by simp

section \<open>memcpy and strlen\<close>

lemma copy_bytes_frame:
  "(\<And>i. i < n \<Longrightarrow> a \<noteq> d + word_of_nat i) \<Longrightarrow> copy_bytes n d s m a = m a"
proof (induction n arbitrary: d s m)
  case 0
  then show ?case by simp
next
  case (Suc n)
  have "a \<noteq> d + 1 + word_of_nat i" if "i < n" for i
    using Suc.prems [of "Suc i"] that by (simp add: algebra_simps)
  moreover have "a \<noteq> d" using Suc.prems [of 0] by simp
  ultimately show ?case using Suc.IH by simp
qed

lemma copy_bytes_eq:
  assumes "n < 2 ^ 64"
    and "\<And>i j. i < n \<Longrightarrow> j < n \<Longrightarrow> d + word_of_nat i \<noteq> s + word_of_nat j"
  shows "i < n \<Longrightarrow> copy_bytes n d s m (d + word_of_nat i) = m (s + word_of_nat i)"
  using assms
proof (induction n arbitrary: d s m i)
  case 0
  then show ?case by simp
next
  case (Suc n)
  have IHp: "d + 1 + word_of_nat i \<noteq> s + 1 + word_of_nat j" if "i < n" "j < n" for i j
    using Suc.prems(3) [of "Suc i" "Suc j"] that by (simp add: algebra_simps)
  show ?case
  proof (cases i)
    case 0
    have "d \<noteq> d + 1 + word_of_nat k" if "k < n" for k
    proof
      assume "d = d + 1 + word_of_nat k"
      then have "word_of_nat (Suc k) = (0 :: u64)" by (simp add: algebra_simps)
      then have "unat (word_of_nat (Suc k) :: u64) = 0" by simp
      moreover have "unat (word_of_nat (Suc k) :: u64) = Suc k"
        using that Suc.prems(2) by (simp only: unsigned_of_nat take_bit_nat_eq_self)
          (simp add: take_bit_nat_eq_self)
      ultimately show False by simp
    qed
    with 0 show ?thesis by (simp add: copy_bytes_frame)
  next
    case (Suc k)
    with Suc.prems have k: "k < n" by simp
    have "copy_bytes n (d + 1) (s + 1) (m(d := m s)) (d + 1 + word_of_nat k)
        = (m(d := m s)) (s + 1 + word_of_nat k)"
      using Suc.IH [OF k _ IHp] Suc.prems by simp
    moreover have "s + 1 + word_of_nat k \<noteq> d"
      using Suc.prems(3) [of 0 "Suc k"] k by (simp add: algebra_simps)
    ultimately show ?thesis using Suc by (simp add: algebra_simps)
  qed
qed

text \<open>\<open>memcpy\<close> between areas that do not overlap copies every byte and changes nothing outside the
  destination.\<close>

theorem memcpy_copies:
  assumes "\<And>i j. i < unat count \<Longrightarrow> j < unat count \<Longrightarrow> dest + word_of_nat i \<noteq> src + word_of_nat j"
  shows "(\<forall>i < unat count. memcpy dest src count m (dest + word_of_nat i) = m (src + word_of_nat i)) \<and>
     (\<forall>a. unat (a - dest) < unat count \<or> memcpy dest src count m a = m a)"
proof (intro conjI allI impI)
  fix i assume "i < unat count"
  moreover have "unat count < 2 ^ 64" using unsigned_less [of count, where 'a = nat] by simp
  ultimately show "memcpy dest src count m (dest + word_of_nat i) = m (src + word_of_nat i)"
    unfolding memcpy_def using assms by (intro copy_bytes_eq) auto
next
  fix a
  have "unat count < 2 ^ 64" using unsigned_less [of count, where 'a = nat] by simp
  then have "\<not> unat (a - dest) < unat count \<Longrightarrow> i < unat count \<Longrightarrow> a \<noteq> dest + word_of_nat i" for i
    by (auto simp: unsigned_of_nat take_bit_nat_eq_self)
  then show "unat (a - dest) < unat count \<or> memcpy dest src count m a = m a"
    unfolding memcpy_def by (metis copy_bytes_frame)
qed

theorem memcpy_copies_witness:
  "memcpy 0 0x100 2 (\<lambda>a. ucast a) 1 = 1 \<and> memcpy 0 0x100 2 (\<lambda>a. ucast a) 7 = 7"
proof -
  have "0 + word_of_nat i \<noteq> (0x100 :: u64) + word_of_nat j" if "i < unat (2 :: u32)" "j < unat (2 :: u32)" for i j
    using that by (auto simp: less_2_cases_iff)
  from memcpy_copies [of 2 0 "0x100" "\<lambda>a. ucast a", OF this]
  have "\<forall>i < 2. memcpy 0 0x100 2 (\<lambda>a. ucast a) (word_of_nat i) = (ucast (0x100 + word_of_nat i :: u64) :: u8)"
    "\<forall>a. unat (a - 0) < 2 \<or> memcpy 0 0x100 2 (\<lambda>a. ucast a) a = (ucast a :: u8)" by simp_all
  from this(1) [rule_format, of 1] this(2) [rule_format, of 7] show ?thesis by simp
qed

lemma strlen_from_run:
  "m (s + word_of_nat n) = 0 \<Longrightarrow> (\<And>i. i < n \<Longrightarrow> m (s + word_of_nat i) \<noteq> 0) \<Longrightarrow>
   strlen_from m s = Some (s + word_of_nat n)"
proof (induction n arbitrary: s)
  case 0
  then show ?case by (simp add: strlen_from.simps [of m s])
next
  case (Suc n)
  have "strlen_from m (s + 1) = Some (s + 1 + word_of_nat n)"
  proof (rule Suc.IH)
    show "m (s + 1 + word_of_nat n) = 0" using Suc.prems(1) by (simp add: algebra_simps)
    fix i assume "i < n"
    then show "m (s + 1 + word_of_nat i) \<noteq> 0"
      using Suc.prems(2) [of "Suc i"] by (simp add: algebra_simps)
  qed
  moreover have "m s \<noteq> 0" using Suc.prems(2) [of 0] by simp
  ultimately show ?case by (simp add: strlen_from.simps [of m s] algebra_simps)
qed

text \<open>\<open>strlen\<close> returns, and its result is the offset of the first null byte, as the 32-bit
  \<open>size_t\<close> of the header.\<close>

theorem strlen_first_nul:
  assumes "m (s + word_of_nat n) = 0" and "\<And>i. i < n \<Longrightarrow> m (s + word_of_nat i) \<noteq> 0"
  shows "strlen m s = Inr (word_of_nat n)"
  using strlen_from_run [of m s n, OF assms] by (simp add: strlen_def unsigned_of_nat word_of_nat_eq_iff)

theorem strlen_first_nul_witness:
  "strlen ((\<lambda>_. 0)(8 := 65, 9 := 66)) 8 = Inr (word_of_nat 2)"
  by (rule strlen_first_nul) (auto simp: less_2_cases_iff)

section \<open>load64 and store64\<close>

lemma bit_load_foldr:
  "bit (foldr (\<lambda>k v. push_bit 8 v OR ucast (m (a + word_of_nat k))) [i ..< i + j] (0 :: u64)) n \<longleftrightarrow>
     n < 64 \<and> n < 8 * j \<and> bit (m (a + word_of_nat (i + n div 8)) :: u8) (n mod 8)"
proof (induction j arbitrary: i n)
  case 0
  then show ?case by simp
next
  case (Suc j)
  have "[i ..< i + Suc j] = i # [Suc i ..< Suc i + j]" by (simp add: upt_rec)
  then have "foldr (\<lambda>k v. push_bit 8 v OR ucast (m (a + word_of_nat k))) [i ..< i + Suc j] (0 :: u64)
     = push_bit 8 (foldr (\<lambda>k v. push_bit 8 v OR ucast (m (a + word_of_nat k))) [Suc i ..< Suc i + j] 0)
       OR ucast (m (a + word_of_nat i))" by simp
  then show ?case
    using Suc.IH [of "Suc i" "n - 8"]
    by (cases "n < 8") (auto simp: bit_simps le_div_geq le_mod_geq dest: bit_imp_le_length)
qed

lemma bit_load64:
  "bit (load64 a m) n \<longleftrightarrow> n < 64 \<and> bit (m (a + word_of_nat (n div 8))) (n mod 8)"
  using bit_load_foldr [of m a 0 8 n] by (auto simp: load64_def)

lemma load64_store64 [simp]: "load64 a (store64 a v m) = v"
proof (rule bit_word_eqI)
  fix n assume n: "n < LENGTH(64)"
  then have d: "n div 8 < 8" by simp
  then have "unat (word_of_nat (n div 8) :: u64) = n div 8"
    by (simp add: unsigned_of_nat take_bit_nat_eq_self)
  with n d show "bit (load64 a (store64 a v m)) n = bit v n"
    by (simp add: bit_load64 store64_def byte_of_def bit_simps word_less_nat_alt)
qed

lemma load64_cong: "(\<And>k. k < 8 \<Longrightarrow> m (a + word_of_nat k) = m' (a + word_of_nat k)) \<Longrightarrow> load64 a m = load64 a m'"
  by (rule bit_word_eqI) (simp add: bit_load64)

lemma aligned8_block:
  fixes a b :: u64
  assumes "a AND 7 = 0" and "b AND 7 = 0" and "k < 8" and "b + word_of_nat k - a < 8"
  shows "a = b"
proof -
  have m: "\<exists>q. unat x = 8 * q \<and> q < 2 ^ 61" if "x AND 7 = 0" for x :: u64
  proof -
    have "unat x mod 8 = 0"
      using that unat_and_mask [of x 3] by (simp add: mask_eq_exp_minus_1)
    then obtain q where "unat x = 8 * q" by (metis mod_0_imp_dvd dvd_def)
    with unsigned_less [of x, where 'a = nat] show ?thesis by auto
  qed
  obtain p where p: "unat a = 8 * p" "p < 2 ^ 61" using m [OF assms(1)] by blast
  obtain q where q: "unat b = 8 * q" "q < 2 ^ 61" using m [OF assms(2)] by blast
  define j where "j = b + word_of_nat k - a"
  have j: "unat j < 8" using assms(4) by (simp add: j_def word_less_nat_alt)
  have "unat (b + word_of_nat k) = unat (a + j)" by (simp add: j_def)
  moreover have "unat (b + word_of_nat k) = 8 * q + k"
    using q assms(3) by (simp add: unat_word_ariths unsigned_of_nat take_bit_nat_eq_self)
  moreover have "unat (a + j) = 8 * p + unat j"
    using p j by (simp add: unat_word_ariths)
  ultimately have "p = q" using j assms(3) by linarith
  with p q show ?thesis by (simp add: word_unat_eq_iff)
qed

lemma load64_store64_other:
  assumes "a AND 7 = 0" and "b AND 7 = 0" and "a \<noteq> b"
  shows "load64 b (store64 a v m) = load64 b m"
  using aligned8_block [OF assms(1,2)] assms(3)
  by (intro load64_cong) (auto simp: store64_def)

end
