(* ===== verification/Fork.thy ===== *)
theory Fork
  imports Sched Byte_Memory
begin

text \<open>
  Process creation: \<^verbatim>\<open>kernel/fork.c\<close>, with \<open>struct pt_regs\<close> of \<^verbatim>\<open>asm/system.h\<close> and the offsets of
  \<^verbatim>\<open>asm/asm-offsets.h\<close> the assembly uses. A new task occupies one page: the task structure at its
  bottom, the exception frame (\<open>task_pt_regs\<close>) at its top; frames are kept by address in \<open>pt_regs_at\<close>,
  structures in \<open>tasks\<close> and the embedded list node in \<open>lists\<close>, and \<open>memset\<close> on one of them is the
  store of its record of null fields.
\<close>

section \<open>Data\<close>

record pt_regs =
  r_regs :: "nat \<Rightarrow> u64"
  r_sp :: u64
  r_pc :: u64
  r_pstate :: u64
  r_orig_x0 :: u64
  r_syscallno :: u32

definition pt_regs_0 :: pt_regs where
  "pt_regs_0 = \<lparr>r_regs = (\<lambda>_. 0), r_sp = 0, r_pc = 0, r_pstate = 0, r_orig_x0 = 0, r_syscallno = 0\<rparr>"

record fork_state = sched_state +
  pt_regs_at :: "u64 \<Rightarrow> pt_regs"
  total_forks :: u64
  g_task :: "nat \<Rightarrow> u64"

definition NR_TASKS :: nat where "NR_TASKS = 128"
definition S_FRAME_SIZE :: u64 where "S_FRAME_SIZE = 320"
definition PSR_MODE_EL1h :: u64 where "PSR_MODE_EL1h = 5"
definition PSR_MODE_EL0t :: u64 where "PSR_MODE_EL0t = 0"

section \<open>Layout of the structures\<close>

text \<open>The fields of \<open>task_struct\<close> and \<open>pt_regs\<close> with their sizes and alignments in the order of the
  declarations, and the offset the C rules give each: the next multiple of its alignment.\<close>

definition task_struct_fields :: "(string \<times> nat \<times> nat) list" where
  "task_struct_fields = [(''state'', 4, 4), (''flags'', 4, 4), (''pid'', 4, 4), (''cpu_context'', 104, 8),
     (''run_list'', 16, 8), (''counter'', 4, 4), (''priority'', 4, 4), (''need_resched'', 4, 4),
     (''preempt_count'', 4, 4), (''next_task'', 8, 8), (''prev_task'', 8, 8)]"

definition pt_regs_fields :: "(string \<times> nat \<times> nat) list" where
  "pt_regs_fields = [(''regs'', 31 * 8, 8), (''sp'', 8, 8), (''pc'', 8, 8), (''pstate'', 8, 8), (''orig_x0'', 8, 8),
     (''syscallno'', 4, 4), (''unused2'', 4, 4), (''orig_addr_limit'', 8, 8), (''unused'', 8, 8), (''stackframe'', 16, 8)]"

definition align_to :: "nat \<Rightarrow> nat \<Rightarrow> nat" where
  "align_to a off = (off + a - 1) div a * a"

fun offsets_from :: "nat \<Rightarrow> (string \<times> nat \<times> nat) list \<Rightarrow> (string \<times> nat) list" where
  "offsets_from off [] = []"
| "offsets_from off ((n, sz, al) # fs) = (n, align_to al off) # offsets_from (align_to al off + sz) fs"

definition offset_of :: "(string \<times> nat \<times> nat) list \<Rightarrow> string \<Rightarrow> nat option" where
  "offset_of fs n = map_of (offsets_from 0 fs) n"

fun end_of :: "nat \<Rightarrow> (string \<times> nat \<times> nat) list \<Rightarrow> nat" where
  "end_of off [] = off"
| "end_of off ((n, sz, al) # fs) = end_of (align_to al off + sz) fs"

definition sizeof_struct :: "(string \<times> nat \<times> nat) list \<Rightarrow> nat" where
  "sizeof_struct fs = align_to 8 (end_of 0 fs)"

section \<open>kernel/fork.c\<close>

definition set_regs :: "u64 \<Rightarrow> (pt_regs \<Rightarrow> pt_regs) \<Rightarrow> 'a fork_state_scheme \<Rightarrow> 'a fork_state_scheme" where
  "set_regs r f s = s\<lparr>pt_regs_at := (pt_regs_at s)(r := f (pt_regs_at s r))\<rparr>"

definition SET_LINKS :: "u64 \<Rightarrow> 'a sched_state_scheme \<Rightarrow> 'a sched_state_scheme" where
  "SET_LINKS p s =
     (let init = sym_init_task (syms s);
          s = upd_task p (\<lambda>t. t\<lparr>t_next_task := init\<rparr>) s;
          s = upd_task p (\<lambda>t. t\<lparr>t_prev_task := t_prev_task (tasks s init)\<rparr>) s;
          s = upd_task (t_prev_task (tasks s init)) (\<lambda>t. t\<lparr>t_next_task := p\<rparr>) s
      in upd_task init (\<lambda>t. t\<lparr>t_prev_task := p\<rparr>) s)"

fun find_empty_task_from :: "nat \<Rightarrow> nat \<Rightarrow> 'a fork_state_scheme \<Rightarrow> s32" where
  "find_empty_task_from 0 i s = - 1"
| "find_empty_task_from (Suc left) i s =
     (if g_task s i = 0 then word_of_nat i else find_empty_task_from left (Suc i) s)"

definition find_empty_task :: "'a fork_state_scheme \<Rightarrow> s32" where
  "find_empty_task s = find_empty_task_from NR_TASKS 0 s"

definition task_pt_regs :: "u64 \<Rightarrow> u64" where
  "task_pt_regs tsk = tsk + scast THREAD_SIZE - S_FRAME_SIZE"

definition copy_thread :: "u64 \<Rightarrow> u64 \<Rightarrow> u64 \<Rightarrow> u64 \<Rightarrow> 'a fork_state_scheme \<Rightarrow> s32 \<times> 'a fork_state_scheme" where
  "copy_thread clone_flags p stack arg s =
     (let childregs = task_pt_regs p;
          s = set_regs childregs (\<lambda>_. pt_regs_0) s;
          s = upd_task p (\<lambda>t. t\<lparr>t_cpu_context := cpu_context_0\<rparr>) s;
          (bad, s) =
            (if clone_flags AND PF_KTHREAD \<noteq> 0 then
               let s = set_regs childregs (\<lambda>r. r\<lparr>r_pstate := PSR_MODE_EL1h\<rparr>) s;
                   s = upd_task p (\<lambda>t. t\<lparr>t_cpu_context := (t_cpu_context t)\<lparr>cc_x19 := stack\<rparr>\<rparr>) s;
                   s = upd_task p (\<lambda>t. t\<lparr>t_cpu_context := (t_cpu_context t)\<lparr>cc_x20 := arg\<rparr>\<rparr>) s
               in (False, s)
             else
               let s = set_regs childregs (\<lambda>_. pt_regs_at s (task_pt_regs (current s))) s;
                   s = set_regs childregs (\<lambda>r. r\<lparr>r_regs := (r_regs r)(0 := 0)\<rparr>) s
               in if stack \<noteq> 0 then
                    if stack AND 15 \<noteq> 0 then (True, s)
                    else (False, set_regs childregs (\<lambda>r. r\<lparr>r_sp := stack\<rparr>) s)
                  else (False, s))
      in if bad then (- 1, s)
         else
           let s = upd_task p (\<lambda>t. t\<lparr>t_cpu_context := (t_cpu_context t)\<lparr>cc_pc := sym_ret_from_fork (syms s)\<rparr>\<rparr>) s;
               s = upd_task p (\<lambda>t. t\<lparr>t_cpu_context := (t_cpu_context t)\<lparr>cc_sp := childregs\<rparr>\<rparr>) s
           in (0, s))"

definition do_fork :: "u64 \<Rightarrow> u64 \<Rightarrow> u64 \<Rightarrow> 'a fork_state_scheme \<Rightarrow> (s32 \<times> 'a fork_state_scheme) res" where
  "do_fork clone_flags stack arg s =
     (let (p, s) = get_free_page s
      in if p = 0 then Inr (- 1, s)
         else
           let s = upd_task p (\<lambda>_. task_0) s;
               s = s\<lparr>lists := (lists s)(run_list_of p := \<lparr>lh_next = 0, lh_prev = 0\<rparr>)\<rparr>;
               pid = find_empty_task s
           in if sint pid < 0 then bindr (free_page p s) (\<lambda>s. Inr (- 1, s))
              else
                let (err, s) = copy_thread clone_flags p stack arg s
                in if err \<noteq> 0 then bindr (free_page p s) (\<lambda>s. Inr (- 1, s))
                   else
                     let s = upd_task p (\<lambda>t. t\<lparr>t_state := TASK_RUNNING\<rparr>) s;
                         s = upd_task p (\<lambda>t. t\<lparr>t_pid := pid\<rparr>) s;
                         s = upd_task p (\<lambda>t. t\<lparr>t_counter := signed_drop_bit 1 (t_counter (tasks s (current s)) + 1)\<rparr>) s;
                         s = upd_task (current s) (\<lambda>t. t\<lparr>t_counter := signed_drop_bit 1 (t_counter t)\<rparr>) s;
                         s = upd_task p (\<lambda>t. t\<lparr>t_need_resched := 0\<rparr>) s;
                         s = upd_task p (\<lambda>t. t\<lparr>t_preempt_count := 0\<rparr>) s;
                         s = upd_task p (\<lambda>t. t\<lparr>t_priority := 2\<rparr>) s;
                         s = s\<lparr>total_forks := total_forks s + 1\<rparr>;
                         s = s\<lparr>g_task := (g_task s)(unat pid := p)\<rparr>;
                         s = SET_LINKS p s
                     in bindr (wake_up_process p s) (\<lambda>s. Inr (pid, s)))"

definition kernel_thread :: "u64 \<Rightarrow> u64 \<Rightarrow> u64 \<Rightarrow> 'a fork_state_scheme \<Rightarrow> (s32 \<times> 'a fork_state_scheme) res" where
  "kernel_thread fn arg flags s = do_fork (flags OR PF_KTHREAD) fn arg s"

definition start_user_thread :: "u64 \<Rightarrow> u64 \<Rightarrow> u64 \<Rightarrow> 'a fork_state_scheme \<Rightarrow> 'a fork_state_scheme" where
  "start_user_thread regs pc sp s =
     (let s = set_regs regs (\<lambda>_. pt_regs_0) s;
          s = set_regs regs (\<lambda>r. r\<lparr>r_pc := pc\<rparr>) s;
          s = set_regs regs (\<lambda>r. r\<lparr>r_pstate := PSR_MODE_EL0t\<rparr>) s
      in set_regs regs (\<lambda>r. r\<lparr>r_sp := sp\<rparr>) s)"

definition move_to_user_space :: "u64 \<Rightarrow> 'a fork_state_scheme \<Rightarrow> (s32 \<times> 'a fork_state_scheme) res" where
  "move_to_user_space pc s =
     (let regs = task_pt_regs (current s);
          (stack, s) = get_free_page s
      in if stack = 0 then Inr (- 1, s)
         else bindr (memset stack 0 PAGE_SIZE (mem s)) (\<lambda>m.
           let s = s\<lparr>mem := m\<rparr>
           in Inr (0, start_user_thread regs pc (stack + scast PAGE_SIZE) s)))"

section \<open>The steps of do_fork\<close>

declare find_empty_task_from.simps [simp del]

lemma pid_unat: "j < 128 \<Longrightarrow> unat (word_of_nat j :: s32) = j"
  by (simp add: unsigned_of_nat take_bit_nat_eq_self)

lemma pid_not_error:
  assumes "j < 128"
  shows "word_of_nat j \<noteq> (- 1 :: s32)"
proof
  assume "word_of_nat j = (- 1 :: s32)"
  then have "unat (word_of_nat j :: s32) = unat (- 1 :: s32)" by simp
  then show False using pid_unat [OF assms] assms by (simp add: unsigned_minus_1_eq_mask mask_eq_exp_minus_1)
qed

lemma find_empty_task_from_cases:
  "i + left = 128 \<Longrightarrow>
     (\<exists>j. i \<le> j \<and> j < 128 \<and> g_task s j = 0 \<and> (\<forall>k. i \<le> k \<and> k < j \<longrightarrow> g_task s k \<noteq> 0) \<and>
        find_empty_task_from left i s = word_of_nat j)
   \<or> (\<forall>k. i \<le> k \<and> k < 128 \<longrightarrow> g_task s k \<noteq> 0) \<and> find_empty_task_from left i s = - 1"
proof (induction left arbitrary: i)
  case 0
  then show ?case by (auto simp: find_empty_task_from.simps)
next
  case (Suc left)
  show ?case
  proof (cases "g_task s i = 0")
    case True
    with Suc.prems show ?thesis
      by (intro disjI1 exI [of _ i]) (auto simp: find_empty_task_from.simps)
  next
    case False
    then have eq: "find_empty_task_from (Suc left) i s = find_empty_task_from left (Suc i) s"
      by (simp add: find_empty_task_from.simps)
    have le: "i \<le> k \<longleftrightarrow> i = k \<or> Suc i \<le> k" for k by linarith
    from Suc.IH [of "Suc i"] Suc.prems False show ?thesis unfolding eq by (auto simp: le)
  qed
qed

lemma find_empty_task_cases:
  obtains (slot) j where "j < 128" "g_task s j = 0" "\<And>k. k < j \<Longrightarrow> g_task s k \<noteq> 0"
      "find_empty_task s = word_of_nat j" "sint (find_empty_task s) = int j" "unat (find_empty_task s) = j"
  | (full) "\<And>k. k < 128 \<Longrightarrow> g_task s k \<noteq> 0" "find_empty_task s = - 1"
proof -
  from find_empty_task_from_cases [of 0 128 s] consider
    (a) j where "j < 128" "g_task s j = 0" "\<And>k. k < j \<Longrightarrow> g_task s k \<noteq> 0" "find_empty_task s = word_of_nat j"
  | (b) "\<And>k. k < 128 \<Longrightarrow> g_task s k \<noteq> 0" "find_empty_task s = - 1"
    by (auto simp: find_empty_task_def NR_TASKS_def)
  then show thesis
  proof cases
    case a
    have "sint (word_of_nat j :: s32) = int j"
      using a(1) sint_word_of_int32 [of "int j"] by simp
    moreover have "unat (word_of_nat j :: s32) = j"
      using a(1) by (simp add: unsigned_of_nat take_bit_nat_eq_self)
    ultimately show ?thesis using slot [OF a] a(4) by simp
  qed (use full in blast)
qed

definition copy_fails :: "u64 \<Rightarrow> u64 \<Rightarrow> bool" where
  "copy_fails clone_flags stack \<longleftrightarrow> clone_flags AND 1 = 0 \<and> stack AND 15 \<noteq> 0"

definition child_regs :: "u64 \<Rightarrow> u64 \<Rightarrow> pt_regs \<Rightarrow> pt_regs" where
  "child_regs clone_flags stack parent =
     (if clone_flags AND 1 \<noteq> 0 then pt_regs_0\<lparr>r_pstate := 5\<rparr>
      else let r = parent\<lparr>r_regs := (r_regs parent)(0 := 0)\<rparr>
           in if stack \<noteq> 0 \<and> stack AND 15 = 0 then r\<lparr>r_sp := stack\<rparr> else r)"

definition child_context :: "u64 \<Rightarrow> u64 \<Rightarrow> u64 \<Rightarrow> u64 \<Rightarrow> u64 \<Rightarrow> cpu_context" where
  "child_context clone_flags stack arg p ret =
     (if copy_fails clone_flags stack then cpu_context_0
      else if clone_flags AND 1 \<noteq> 0
        then cpu_context_0\<lparr>cc_x19 := stack, cc_x20 := arg, cc_sp := task_pt_regs p, cc_pc := ret\<rparr>
        else cpu_context_0\<lparr>cc_sp := task_pt_regs p, cc_pc := ret\<rparr>)"

lemma task_pt_regs_inj [simp]: "task_pt_regs p = task_pt_regs q \<longleftrightarrow> p = q"
  by (simp add: task_pt_regs_def)

lemma current_upd [simp]:
  "current (set_regs r f s) = current s" "current (upd_task p g s) = current s"
  by (simp_all add: current_def set_regs_def upd_task_def)

lemma copy_thread_eq:
  assumes "current s \<noteq> p"
  shows "copy_thread clone_flags p stack arg s =
     (if copy_fails clone_flags stack then - 1 else 0,
      s\<lparr>tasks := (tasks s)(p := (tasks s p)\<lparr>t_cpu_context :=
            child_context clone_flags stack arg p (sym_ret_from_fork (syms s))\<rparr>),
        pt_regs_at := (pt_regs_at s)(task_pt_regs p :=
            child_regs clone_flags stack (pt_regs_at s (task_pt_regs (current s))))\<rparr>)"
  using assms
  by (cases s) (auto simp: copy_thread_def Let_def set_regs_def upd_task_def child_regs_def child_context_def
      copy_fails_def PSR_MODE_EL1h_def current_def)


definition links :: "'a sched_state_scheme \<Rightarrow> lheap" where
  "links s = (\<lambda>q. \<lparr>lh_next = t_next_task (tasks s q), lh_prev = t_prev_task (tasks s q)\<rparr>)"

lemma task_ring_links: "task_ring s ts \<longleftrightarrow> ring (\<lambda>a. lh_next (links s a)) (\<lambda>a. lh_prev (links s a)) (init_task s) ts"
  by (simp add: task_ring_def links_def)

lemma SET_LINKS_frame [simp]:
  "lists (SET_LINKS p s) = lists s" "rq (SET_LINKS p s) = rq s" "cpu (SET_LINKS p s) = cpu s"
  "syms (SET_LINKS p s) = syms s" "mem_map (SET_LINKS p s) = mem_map s" "klog (SET_LINKS p s) = klog s"
  "current (SET_LINKS p s) = current s" "used_pages (SET_LINKS p s) = used_pages s"
  "irq_masked (SET_LINKS p s) = irq_masked s"
  by (simp_all add: SET_LINKS_def Let_def current_def upd_task_def used_pages_def)

lemma SET_LINKS_fork [simp]:
  "g_task (SET_LINKS p s) = g_task s" "total_forks (SET_LINKS p s) = total_forks s"
  "pt_regs_at (SET_LINKS p s) = pt_regs_at s"
  by (simp_all add: SET_LINKS_def Let_def upd_task_def)

lemma SET_LINKS_fields [simp]:
  "t_state (tasks (SET_LINKS p s) q) = t_state (tasks s q)"
  "t_pid (tasks (SET_LINKS p s) q) = t_pid (tasks s q)"
  "t_counter (tasks (SET_LINKS p s) q) = t_counter (tasks s q)"
  "t_priority (tasks (SET_LINKS p s) q) = t_priority (tasks s q)"
  "t_need_resched (tasks (SET_LINKS p s) q) = t_need_resched (tasks s q)"
  "t_preempt_count (tasks (SET_LINKS p s) q) = t_preempt_count (tasks s q)"
  "t_cpu_context (tasks (SET_LINKS p s) q) = t_cpu_context (tasks s q)"
  by (simp_all add: SET_LINKS_def Let_def upd_task_def)

lemma SET_LINKS_ring:
  assumes r: "task_ring s ts" and p: "p \<notin> set (init_task s # ts)" "p \<noteq> 0" and z: "0 \<notin> set (init_task s # ts)"
  shows "task_ring (SET_LINKS p s) (ts @ [p])"
proof -
  let ?i = "init_task s"
  have rep: "list_rep (links s) ?i ts" using r z by (simp add: list_rep_def task_ring_links)
  from list_rep_add_tail [OF rep p] obtain h' where h': "list_add_tail p ?i (links s) = Inr h'"
    "list_rep h' ?i (ts @ [p])" by blast
  have "t_prev_task (tasks s ?i) = last (?i # ts)"
    using r ring_last by (simp add: task_ring_def)
  moreover have "last (?i # ts) \<in> set (?i # ts)" using last_in_set [of "?i # ts"] by simp
  ultimately have pv: "t_prev_task (tasks s ?i) \<noteq> p" "t_prev_task (tasks s ?i) \<noteq> 0" using p z by metis+
  have "list_add_tail p ?i (links s) = Inr (links (SET_LINKS p s))"
    using p pv z by (auto simp: list_add_tail_def list_add_between_def links_def SET_LINKS_def Let_def upd_task_def fun_eq_iff)
  with h' have "list_rep (links (SET_LINKS p s)) ?i (ts @ [p])" by simp
  then show ?thesis by (simp add: task_ring_links list_rep_def)
qed

lemma do_fork_no_page:
  "get_free_page s = (0, s1) \<Longrightarrow> do_fork clone_flags stack arg s = Inr (- 1, s)"
  using pa.alloc_fail [of s s1] by (simp add: do_fork_def)

definition new_task :: "s32 \<Rightarrow> u64 \<Rightarrow> u64 \<Rightarrow> u64 \<Rightarrow> u64 \<Rightarrow> 'a sched_state_scheme \<Rightarrow> task_struct" where
  "new_task pid clone_flags stack arg p s = task_0\<lparr>t_pid := pid,
     t_counter := signed_drop_bit 1 (t_counter (tasks s (current s)) + 1), t_priority := 2,
     t_cpu_context := child_context clone_flags stack arg p (sym_ret_from_fork (syms s))\<rparr>"

definition forked :: "s32 \<Rightarrow> u64 \<Rightarrow> u64 \<Rightarrow> u64 \<Rightarrow> u64 \<Rightarrow> 'a fork_state_scheme \<Rightarrow> 'a fork_state_scheme" where
  "forked pid clone_flags stack arg p s = s\<lparr>
     tasks := (tasks s)(p := new_task pid clone_flags stack arg p s,
       current s := (tasks s (current s))\<lparr>t_counter := signed_drop_bit 1 (t_counter (tasks s (current s)))\<rparr>),
     lists := (lists s)(run_list_of p := \<lparr>lh_next = 0, lh_prev = 0\<rparr>),
     pt_regs_at := (pt_regs_at s)(task_pt_regs p :=
       child_regs clone_flags stack (pt_regs_at s (task_pt_regs (current s)))),
     total_forks := total_forks s + 1, g_task := (g_task s)(unat pid := p)\<rparr>"

lemma do_fork_forked:
  assumes a: "get_free_page s = (p, s1)" "p \<noteq> 0" and c: "current s1 \<noteq> p"
    and f: "\<not> copy_fails clone_flags stack" and pid: "pid = find_empty_task s1" "0 \<le> sint pid"
  shows "do_fork clone_flags stack arg s =
    bindr (wake_up_process p (SET_LINKS p (forked pid clone_flags stack arg p s1))) (\<lambda>s. Inr (pid, s))"
proof -
  let ?s2 = "s1\<lparr>tasks := (tasks s1)(p := task_0), lists := (lists s1)(run_list_of p := \<lparr>lh_next = 0, lh_prev = 0\<rparr>)\<rparr>"
  have c2: "current ?s2 \<noteq> p" using c by (simp add: current_def)
  have g: "find_empty_task (s1\<lparr>tasks := t, lists := l\<rparr>) = find_empty_task s1" for t l
  proof -
    have "find_empty_task_from n i (s1\<lparr>tasks := t, lists := l\<rparr>) = find_empty_task_from n i s1" for n i
      by (induction n arbitrary: i) (auto simp: find_empty_task_from.simps)
    then show ?thesis by (simp add: find_empty_task_def)
  qed
  show ?thesis
    using a c f pid
    apply (simp add: do_fork_def upd_task_def copy_thread_eq [OF c2] g not_less)
    apply (simp add: Let_def upd_task_def forked_def new_task_def current_def)
    apply (rule arg_cong [where f = "\<lambda>x. bindr (wake_up_process p (SET_LINKS p x)) f" for f])
    apply (cases s1)
    apply (simp add: task_0_def fun_eq_iff)
    done
qed


section \<open>The invariant of the process table\<close>

text \<open>Every task but the init task occupies a used page of the allocator; \<open>g_task\<close> and the pids are
  inverse to each other; the kernel's own data lies below the pages.\<close>

definition fork_inv :: "s32 \<Rightarrow> 'a fork_state_scheme \<Rightarrow> u64 list \<Rightarrow> u64 list \<Rightarrow> bool" where
  "fork_inv k s ts qs \<longleftrightarrow>
     sched_inv k s ts qs \<and> set ts \<subseteq> used_pages s \<and> init_task s \<noteq> 0 \<and>
     unat (init_task s) < 4194304 \<and> unat (rq_head s) < 4194304 \<and> g_task s 0 = init_task s \<and>
     (\<forall>i < 128. i \<noteq> 0 \<longrightarrow> g_task s i \<noteq> 0 \<longrightarrow> g_task s i \<in> set ts \<and> unat (t_pid (tasks s (g_task s i))) = i) \<and>
     (\<forall>p \<in> set ts. let i = unat (t_pid (tasks s p)) in 0 < i \<and> i < 128 \<and> g_task s i = p)"

lemma used_page_bounds:
  "p \<in> used_pages s \<Longrightarrow> 4194304 \<le> unat p \<and> unat p < 541065216 \<and> page_aligned p"
  by (auto simp: used_pages_def unat_page_addr) (simp add: NR_PAGES_val)

text \<open>The part of the invariant that the scheduler never touches.\<close>

definition registered :: "'a fork_state_scheme \<Rightarrow> u64 list \<Rightarrow> u64 list \<Rightarrow> bool" where
  "registered s ts qs \<longleftrightarrow>
     sched_rep s ts qs \<and> set qs = set ts \<and> set ts \<subseteq> used_pages s \<and> init_task s \<noteq> 0 \<and>
     unat (init_task s) < 4194304 \<and> unat (rq_head s) < 4194304 \<and> g_task s 0 = init_task s \<and>
     (\<forall>i < 128. i \<noteq> 0 \<longrightarrow> g_task s i \<noteq> 0 \<longrightarrow> g_task s i \<in> set ts \<and> unat (t_pid (tasks s (g_task s i))) = i) \<and>
     (\<forall>p \<in> set ts. let i = unat (t_pid (tasks s p)) in 0 < i \<and> i < 128 \<and> g_task s i = p)"

lemma fork_inv_registered: "fork_inv k s ts qs \<longleftrightarrow> run_inv k s ts qs \<and> registered s ts qs"
  unfolding fork_inv_def registered_def sched_inv_run by blast

lemma registered_new:
  assumes inv: "fork_inv k s ts qs" and p: "p \<notin> set (init_task s # ts)" and j: "j < 128" "g_task s j = 0"
    and e: "sched_rep e (ts @ [p]) (p # qs)" "syms e = syms s" "g_task e = (g_task s)(j := p)"
    and u: "insert p (used_pages s) \<subseteq> used_pages e"
    and tpid: "\<And>q. t_pid (tasks e q) = (if q = p then word_of_nat j else t_pid (tasks s q))"
  shows "registered e (ts @ [p]) (p # qs)"
proof -
  have j0: "j \<noteq> 0" using j(2) inv by (auto simp: fork_inv_def intro!: Nat.gr0I)
  have pid: "unat (word_of_nat j :: s32) = j"
    using j(1) by (simp add: unsigned_of_nat take_bit_nat_eq_self)
  have pids: "0 < unat (t_pid (tasks s q)) \<and> unat (t_pid (tasks s q)) < 128 \<and> g_task s (unat (t_pid (tasks s q))) = q"
    if "q \<in> set ts" for q
    using inv that by (simp add: fork_inv_def Let_def)
  have "0 \<notin> set ts" using inv used_page_bounds [of 0 s] by (auto simp: fork_inv_def)
  then have "unat (t_pid (tasks s q)) \<noteq> j" if "q \<in> set ts" for q
    using pids [OF that] j(2) that by auto
  with pids have "\<forall>q \<in> set (ts @ [p]). let i = unat (t_pid (tasks e q)) in 0 < i \<and> i < 128 \<and> g_task e i = q"
    using p j(1) j0 pid by (auto simp: tpid e(3))
  moreover have "\<forall>i < 128. i \<noteq> 0 \<longrightarrow> g_task e i \<noteq> 0 \<longrightarrow>
      g_task e i \<in> set (ts @ [p]) \<and> unat (t_pid (tasks e (g_task e i))) = i"
    using inv p pid by (auto simp: tpid e(3) fork_inv_def)
  moreover have "set (ts @ [p]) \<subseteq> used_pages e" "set (p # qs) = set (ts @ [p])" "init_task e \<noteq> 0"
    "unat (init_task e) < 4194304" "unat (rq_head e) < 4194304" "g_task e 0 = init_task e"
    using inv u j0 by (auto simp: fork_inv_def sched_inv_def e(2,3))
  ultimately show ?thesis using e(1) unfolding registered_def by blast
qed

lemma page_of_top:
  assumes "page_aligned p" and "unat p < 541065216"
  shows "page_of (task_pt_regs p) = p"
proof -
  have "task_pt_regs p = p + 3776" by (simp add: task_pt_regs_def S_FRAME_SIZE_def)
  moreover have "unat (p + 3776) = unat p + 3776" using assms(2) by (simp add: unat_word_ariths)
  moreover have "unat p mod 4096 = 0" using assms(1) by (simp add: page_aligned_iff)
  ultimately have "unat (task_pt_regs p) div 4096 * 4096 = unat p" by (simp add: mod_eq_0_iff_dvd) (elim dvdE, simp)
  then have "unat (page_of (task_pt_regs p)) = unat p"
    using unat_and_not_mask [of "task_pt_regs p" 12] by (simp add: page_of_def mask12)
  then show ?thesis by (simp add: word_unat_eq_iff)
qed

lemma run_list_of_page:
  assumes "p \<in> used_pages s" and "unat h < 4194304"
  shows "run_list_of p \<noteq> 0 \<and> run_list_of p \<noteq> h"
proof -
  have "unat (run_list_of p) = unat p + 120"
    using used_page_bounds [OF assms(1)] by (simp add: run_list_of_def run_list_offset_def unat_word_ariths)
  then show ?thesis using used_page_bounds [OF assms(1)] assms(2) by auto
qed

lemma sint_half:
  fixes x :: s32
  shows "sint (signed_drop_bit 1 x) = sint x div 2"
  by (simp add: sint_signed_drop_bit_eq drop_bit_eq_div)


lemma ring_cong:
  assumes "\<And>a. a \<in> set (h # xs) \<Longrightarrow> nxt a = nxt' a \<and> prv a = prv' a"
  shows "ring nxt prv h xs \<longleftrightarrow> ring nxt' prv' h xs"
proof -
  have "linked nxt prv (h # xs @ [h]) \<longleftrightarrow> linked nxt' prv' (h # xs @ [h])"
    using assms by (intro linked_cong) (auto dest: in_set_butlastD)
  then show ?thesis by (simp add: ring_def)
qed

lemma enqueue_task_frame:
  "enqueue_task p s = Inr s' \<Longrightarrow> \<exists>h r. s' = s\<lparr>lists := h, rq := r\<rparr>"
  by (auto simp: enqueue_task_def nop_sched_class_def enqueue_task_nop_def Let_def bindr_eq_Inr)

lemma forked_frame [simp]:
  "rq (forked pid cf st arg p s) = rq s" "cpu (forked pid cf st arg p s) = cpu s"
  "syms (forked pid cf st arg p s) = syms s" "mem_map (forked pid cf st arg p s) = mem_map s"
  "klog (forked pid cf st arg p s) = klog s" "current (forked pid cf st arg p s) = current s"
  "used_pages (forked pid cf st arg p s) = used_pages s"
  "total_forks (forked pid cf st arg p s) = total_forks s + 1"
  "g_task (forked pid cf st arg p s) = (g_task s)(unat pid := p)"
  by (simp_all add: forked_def current_def used_pages_def)

lemma forked_tasks:
  assumes "current s \<noteq> p"
  shows "tasks (forked pid cf st arg p s) q =
    (if q = p then new_task pid cf st arg p s
     else if q = current s then (tasks s q)\<lparr>t_counter := signed_drop_bit 1 (t_counter (tasks s q))\<rparr>
     else tasks s q)"
  using assms by (simp add: forked_def)

lemma forked_rep:
  assumes rep: "sched_rep s ts qs" and p: "p \<notin> set (init_task s # ts)" "p \<noteq> 0" "0 \<notin> set (init_task s # ts)"
    and c: "current s \<noteq> p" and rl: "run_list_of p \<noteq> 0" "run_list_of p \<noteq> rq_head s"
  shows "sched_rep (SET_LINKS p (forked pid cf st arg p s)) (ts @ [p]) qs"
proof -
  let ?f = "forked pid cf st arg p s"
  have "task_ring ?f ts"
    using rep p c unfolding sched_rep_def task_ring_def
    by (subst ring_cong [where nxt' = "\<lambda>p. t_next_task (tasks s p)" and prv' = "\<lambda>p. t_prev_task (tasks s p)"])
      (auto simp: forked_tasks)
  then have r: "task_ring (SET_LINKS p ?f) (ts @ [p])"
    using p by (intro SET_LINKS_ring) simp_all
  have "run_list_of p \<notin> set (rq_head s # map run_list_of qs)"
    using rep p(1) rl by (auto simp: sched_rep_def)
  then have "list_rep (lists ?f) (rq_head s) (map run_list_of qs)"
    using rep unfolding sched_rep_def list_rep_def
    by (subst ring_cong [where nxt' = "\<lambda>a. lh_next (lists s a)" and prv' = "\<lambda>a. lh_prev (lists s a)"])
      (auto simp: forked_def)
  with r rep rl show ?thesis by (auto simp: sched_rep_def)
qed

lemma new_task_fields:
  "t_state (new_task pid cf st arg p s) = TASK_RUNNING" "t_pid (new_task pid cf st arg p s) = pid"
  "t_counter (new_task pid cf st arg p s) = signed_drop_bit 1 (t_counter (tasks s (current s)) + 1)"
  "t_priority (new_task pid cf st arg p s) = 2" "t_preempt_count (new_task pid cf st arg p s) = 0"
  "t_cpu_context (new_task pid cf st arg p s) = child_context cf st arg p (sym_ret_from_fork (syms s))"
  by (simp_all add: new_task_def task_0_def)

lemma find_empty_task_page: "find_empty_task (s\<lparr>mem_map := m\<rparr>) = find_empty_task s"
proof -
  have "find_empty_task_from n i (s\<lparr>mem_map := m\<rparr>) = find_empty_task_from n i s" for n i
    by (induction n arbitrary: i) (auto simp: find_empty_task_from.simps)
  then show ?thesis by (simp only: find_empty_task_def)
qed

lemma fork_inv_fresh:
  assumes inv: "fork_inv k s ts qs" and page: "get_free_page s = (p, s1)" "p \<noteq> 0"
  shows "p \<notin> set (init_task s # ts)" and "0 \<notin> set (init_task s # ts)" and "current s \<noteq> p"
    and "run_list_of p \<noteq> 0 \<and> run_list_of p \<noteq> rq_head s" and "p \<notin> set qs"
    and "unat p < 541065216" and "page_aligned p"
proof -
  have fresh: "p \<notin> used_pages s" "p \<in> used_pages s1" using pa.alloc_fresh [OF page] by simp_all
  have b: "4194304 \<le> unat p" "unat p < 541065216" "page_aligned p"
    using used_page_bounds [OF fresh(2)] by auto
  show pn: "p \<notin> set (init_task s # ts)" using fresh inv b by (auto simp: fork_inv_def)
  show "0 \<notin> set (init_task s # ts)"
    using inv used_page_bounds [of 0 s] by (auto simp: fork_inv_def)
  show "run_list_of p \<noteq> 0 \<and> run_list_of p \<noteq> rq_head s"
    using run_list_of_page [OF fresh(2), of "rq_head s"] inv by (simp add: fork_inv_def)
  show "current s \<noteq> p" "p \<notin> set qs" using inv pn by (auto simp: fork_inv_def sched_inv_def)
  show "unat p < 541065216" "page_aligned p" using b by simp_all
qed

definition child_of :: "u64 \<Rightarrow> s32 \<Rightarrow> cpu_context \<Rightarrow> 'a sched_state_scheme \<Rightarrow> 'b sched_state_scheme \<Rightarrow> bool" where
  "child_of p pid ctx s e \<longleftrightarrow>
     t_state (tasks e p) = TASK_RUNNING \<and> t_pid (tasks e p) = pid \<and> t_priority (tasks e p) = 2 \<and>
     t_preempt_count (tasks e p) = 0 \<and> t_cpu_context (tasks e p) = ctx \<and>
     t_counter (tasks e p) = signed_drop_bit 1 (t_counter (tasks s (current s)) + 1)"

definition other_of :: "u64 \<Rightarrow> 'a sched_state_scheme \<Rightarrow> 'b sched_state_scheme \<Rightarrow> bool" where
  "other_of q s e \<longleftrightarrow>
     t_state (tasks e q) = t_state (tasks s q) \<and> t_pid (tasks e q) = t_pid (tasks s q) \<and>
     t_priority (tasks e q) = t_priority (tasks s q) \<and> t_preempt_count (tasks e q) = t_preempt_count (tasks s q) \<and>
     t_cpu_context (tasks e q) = t_cpu_context (tasks s q) \<and>
     t_counter (tasks e q) =
       (if q = current s then signed_drop_bit 1 (t_counter (tasks s q)) else t_counter (tasks s q))"

lemma do_fork_effect:
  assumes inv: "fork_inv k s ts qs" and page: "get_free_page s = (p, s1)" "p \<noteq> 0"
    and ok: "\<not> copy_fails cf st" and slot: "find_empty_task s = word_of_nat j" "j < 128"
  shows "\<exists>e. do_fork cf st arg s = Inr (word_of_nat j, e) \<and> sched_rep e (ts @ [p]) (p # qs) \<and>
     syms e = syms s \<and> cpu e = cpu s \<and> g_task e = (g_task s)(j := p) \<and> total_forks e = total_forks s + 1 \<and>
     used_pages e = insert p (used_pages s) \<and>
     pt_regs_at e = (pt_regs_at s)(task_pt_regs p := child_regs cf st (pt_regs_at s (task_pt_regs (current s)))) \<and>
     child_of p (word_of_nat j) (child_context cf st arg p (sym_ret_from_fork (syms s))) s e \<and>
     (\<forall>q. q \<noteq> p \<longrightarrow> other_of q s e)"
proof -
  let ?c = "current s"
  note fresh = fork_inv_fresh [OF inv page]
  obtain m where s1: "s1 = s\<lparr>mem_map := m\<rparr>"
    using page by (cases rule: get_free_page_cases [of s]) auto
  then have c1: "current s1 = ?c" and ft: "tasks s1 = tasks s" "syms s1 = syms s"
    by (simp_all add: current_def)
  have u1: "used_pages s1 = insert p (used_pages s)" using pa.alloc_fresh [OF page] by simp
  define pid :: s32 where "pid = word_of_nat j"
  have find1: "find_empty_task s1 = pid" using slot(1) by (simp add: s1 find_empty_task_page pid_def)
  have upid: "unat pid = j" "0 \<le> sint pid"
    using slot(2) sint_word_of_int32 [of "int j"] by (simp_all add: pid_def unsigned_of_nat take_bit_nat_eq_self)
  define f where "f = SET_LINKS p (forked pid cf st arg p s1)"
  have "sched_rep s1 ts qs" using inv by (simp add: fork_inv_def sched_inv_def s1 sched_rep_def task_ring_def)
  then have repf: "sched_rep f (ts @ [p]) qs"
    unfolding f_def using fresh(1-4) page(2) by (intro forked_rep) (simp_all add: c1 ft)
  define w where "w = upd_task p (\<lambda>t. t\<lparr>t_state := TASK_RUNNING\<rparr>) f"
  have fork: "do_fork cf st arg s = bindr (enqueue_task p w) (\<lambda>s. Inr (pid, s))"
    using do_fork_forked [OF page _ ok find1 [symmetric] upid(2), of arg] fresh(3)
    by (simp add: c1 wake_up_process_def w_def f_def)
  have w: "tasks w q = (if q = p then (tasks f p)\<lparr>t_state := TASK_RUNNING\<rparr> else tasks f q)"
    "lists w = lists f" "syms w = syms s" "cpu w = cpu s" "rq w = rq f" "g_task w = (g_task s)(j := p)"
    "used_pages w = insert p (used_pages s)" "total_forks w = total_forks s + 1"
    "pt_regs_at w = (pt_regs_at s)(task_pt_regs p := child_regs cf st (pt_regs_at s (task_pt_regs ?c)))" for q
    using upid u1 c1 by (simp_all add: w_def upd_task_def f_def forked_def s1 used_pages_def)
  have "sched_rep w (ts @ [p]) qs"
    using repf by (subst sched_rep_cong [where s = f]) (simp_all add: w, simp_all add: f_def ft)
  then obtain e where e: "enqueue_task p w = Inr e" "sched_rep e (ts @ [p]) (p # qs)"
    "tasks e = tasks w" "syms e = syms w" "cpu e = cpu w" "mem_map e = mem_map w"
    using enqueue_task_rep [of w "ts @ [p]" qs p] fresh(5) by auto
  have "g_task e = g_task w" "total_forks e = total_forks w" "pt_regs_at e = pt_regs_at w"
    using enqueue_task_frame [OF e(1)] by auto
  moreover have "child_of p pid (child_context cf st arg p (sym_ret_from_fork (syms s))) s e"
    using fresh(3) by (simp add: child_of_def e(3) w(1) f_def forked_tasks c1 new_task_fields ft)
  moreover have "\<forall>q. q \<noteq> p \<longrightarrow> other_of q s e"
    using fresh(3) by (simp add: other_of_def e(3) w(1) f_def forked_tasks c1 ft)
  ultimately show ?thesis
    using e w by (intro exI [of _ e]) (simp add: fork pid_def used_pages_def)
qed

lemma fork_counter:
  fixes c :: s32
  assumes "0 \<le> sint c" and "sint c \<le> 45"
  shows "sint (signed_drop_bit 1 (c + 1)) = (sint c + 1) div 2" and "sint (signed_drop_bit 1 c) = sint c div 2"
proof -
  have "sint (c + 1) = sint c + 1" using assms sint_add32 [of c 1] by simp
  then show "sint (signed_drop_bit 1 (c + 1)) = (sint c + 1) div 2" by (simp only: sint_half)
qed (rule sint_half)

lemma do_fork_counters:
  assumes inv: "sched_inv k s ts qs" and p: "p \<notin> set (init_task s # ts)" "current s \<noteq> p" and sy: "syms e = syms s"
    and ch: "child_of p pid ctx s e" and oth: "\<And>q. q \<noteq> p \<Longrightarrow> other_of q s e"
  shows "counters_ok e (ts @ [p])"
    and "sint (goodness (current s) e) + sint (goodness p e) = sint (goodness (current s) s)"
proof -
  let ?c = "current s"
  have othc: "other_of ?c s e" using oth p(2) by simp
  have cnt: "0 \<le> sint (t_counter (tasks s ?c))" "sint (t_counter (tasks s ?c)) \<le> 45"
    using inv by (auto simp: sched_inv_def counters_ok_def)
  note half = fork_counter [OF cnt]
  have tp: "sint (t_counter (tasks e p)) = (sint (t_counter (tasks s ?c)) + 1) div 2" "t_priority (tasks e p) = 2"
    using ch half(1) unfolding child_of_def by simp_all
  have tc: "sint (t_counter (tasks e ?c)) = sint (t_counter (tasks s ?c)) div 2"
    using othc half(2) unfolding other_of_def by simp
  show "sint (goodness ?c e) + sint (goodness p e) = sint (goodness ?c s)"
    by (simp add: goodness_def tp tc)
  define okc where "okc t \<longleftrightarrow> 0 \<le> sint (t_counter t) \<and> sint (t_counter t) \<le> 45 \<and>
      0 \<le> sint (t_priority t) \<and> sint (t_priority t) \<le> 20" for t :: task_struct
  have okp: "okc (tasks e p)" using tp cnt by (simp add: okc_def)
  have okq: "okc (tasks e q)" if "okc (tasks s q)" "q \<noteq> p" for q
  proof (cases "q = ?c")
    case True
    with othc tc cnt that show ?thesis by (simp add: okc_def other_of_def)
  next
    case False
    with oth [OF that(2)] that show ?thesis by (simp add: okc_def other_of_def)
  qed
  have "\<forall>q \<in> insert (init_task s) (set ts). okc (tasks s q)"
    using inv by (simp add: sched_inv_def counters_ok_def okc_def)
  then have "\<forall>q \<in> insert (init_task s) (set (ts @ [p])). okc (tasks e q)"
    using okp okq p(1) by auto
  then show "counters_ok e (ts @ [p])" by (simp add: counters_ok_def okc_def sy)
qed

lemma do_fork_sched_inv:
  assumes inv: "sched_inv k s ts qs" and p: "p \<notin> set (init_task s # ts)" "current s \<noteq> p"
    and pg: "page_of (cc_sp ctx) = p" "cc_pc ctx = sym_ret_from_fork (syms s)"
    and e: "sched_rep e (ts @ [p]) (p # qs)" "syms e = syms s" "cpu e = cpu s"
    and ch: "child_of p pid ctx s e" and oth: "\<And>q. q \<noteq> p \<Longrightarrow> other_of q s e"
  shows "sched_inv k e (ts @ [p]) (p # qs)"
proof -
  have ce: "current e = current s" using e(3) by (simp add: current_def)
  have othc: "other_of (current s) s e" using oth p(2) by simp
  have "preempt_count e = k" using othc inv by (simp add: preempt_count_def ce other_of_def sched_inv_def)
  moreover have "suspended e q" if "q \<in> insert (init_task s) (set (ts @ [p])) - {current s}" for q
  proof (cases "q = p")
    case True
    then show ?thesis using ch pg by (simp add: suspended_def child_of_def e(2))
  next
    case False
    with that inv have "suspended s q" by (auto simp: sched_inv_def)
    then show ?thesis using oth [OF False] by (simp add: suspended_def other_of_def e(2))
  qed
  moreover have "t_state (tasks e q) = TASK_RUNNING" if "q \<in> insert (init_task s) (set (ts @ [p]))" for q
    using that inv ch oth [of q] by (cases "q = p") (auto simp: child_of_def other_of_def sched_inv_def)
  ultimately show ?thesis
    using do_fork_counters(1) [OF inv p e(2) ch oth] inv e(1)
    unfolding sched_inv_def ce e(2) by simp blast
qed

lemma child_context_new:
  "\<not> copy_fails cf st \<Longrightarrow> cc_sp (child_context cf st arg p r) = task_pt_regs p \<and> cc_pc (child_context cf st arg p r) = r"
  by (simp add: child_context_def)

lemma do_fork_inv:
  assumes inv: "fork_inv k s ts qs" and page: "get_free_page s = (p, s1)" "p \<noteq> 0"
    and ok: "\<not> copy_fails cf st" and slot: "find_empty_task s = word_of_nat j" "j < 128" "g_task s j = 0"
  shows "\<exists>e. do_fork cf st arg s = Inr (word_of_nat j, e) \<and> fork_inv k e (ts @ [p]) (p # qs) \<and>
     current e = current s \<and> syms e = syms s \<and> g_task e = (g_task s)(j := p) \<and> total_forks e = total_forks s + 1 \<and>
     used_pages e = insert p (used_pages s) \<and>
     sint (goodness (current s) e) + sint (goodness p e) = sint (goodness (current s) s) \<and>
     pt_regs_at e = (pt_regs_at s)(task_pt_regs p := child_regs cf st (pt_regs_at s (task_pt_regs (current s)))) \<and>
     t_cpu_context (tasks e p) = child_context cf st arg p (sym_ret_from_fork (syms s))"
proof -
  let ?ctx = "child_context cf st arg p (sym_ret_from_fork (syms s))"
  note fresh = fork_inv_fresh [OF inv page]
  from do_fork_effect [OF inv page ok slot(1,2)] obtain e where
    e: "do_fork cf st arg s = Inr (word_of_nat j, e)" "sched_rep e (ts @ [p]) (p # qs)"
      "syms e = syms s" "cpu e = cpu s" "g_task e = (g_task s)(j := p)" "total_forks e = total_forks s + 1"
      "used_pages e = insert p (used_pages s)"
      "pt_regs_at e = (pt_regs_at s)(task_pt_regs p := child_regs cf st (pt_regs_at s (task_pt_regs (current s))))"
    and ch: "child_of p (word_of_nat j) ?ctx s e" and oth: "\<And>q. q \<noteq> p \<Longrightarrow> other_of q s e" by blast
  have sinv: "sched_inv k s ts qs" using inv by (simp add: fork_inv_def)
  have "page_of (cc_sp ?ctx) = p" "cc_pc ?ctx = sym_ret_from_fork (syms s)"
    using child_context_new [OF ok] page_of_top fresh by simp_all
  then have sinv': "sched_inv k e (ts @ [p]) (p # qs)"
    by (rule do_fork_sched_inv [OF sinv fresh(1,3) _ _ e(2-4) ch oth])
  have "registered e (ts @ [p]) (p # qs)"
  proof (rule registered_new [OF inv fresh(1) slot(2,3) e(2,3,5)])
    show "insert p (used_pages s) \<subseteq> used_pages e" by (simp add: e(7))
    show "t_pid (tasks e q) = (if q = p then word_of_nat j else t_pid (tasks s q))" for q
      using ch oth [of q] by (simp add: child_of_def other_of_def)
  qed
  with sinv' have "fork_inv k e (ts @ [p]) (p # qs)" by (simp add: fork_inv_registered sched_inv_run)
  then show ?thesis
    using e ch do_fork_counters(2) [OF sinv fresh(1,3) e(3) ch oth]
    by (intro exI [of _ e]) (simp add: child_of_def current_def)
qed


text \<open>A failed fork wrote the new page and gave it back.\<close>

definition scribbled :: "u64 \<Rightarrow> 'a fork_state_scheme \<Rightarrow> 'a fork_state_scheme \<Rightarrow> bool" where
  "scribbled p s e \<longleftrightarrow>
     (\<exists>t r. e = s\<lparr>tasks := (tasks s)(p := t), lists := (lists s)(run_list_of p := \<lparr>lh_next = 0, lh_prev = 0\<rparr>),
        pt_regs_at := (pt_regs_at s)(task_pt_regs p := r)\<rparr>)"

lemma find_empty_task_cong:
  assumes "g_task e = g_task s"
  shows "find_empty_task e = find_empty_task s"
proof -
  have "find_empty_task_from n i e = find_empty_task_from n i s" for n i
    by (induction n arbitrary: i) (auto simp: find_empty_task_from.simps assms)
  then show ?thesis by (simp only: find_empty_task_def)
qed

lemma do_fork_fails:
  assumes page: "get_free_page s = (p, s1)" "p \<noteq> 0" and c: "current s \<noteq> p"
    and bad: "sint (find_empty_task s) < 0 \<or> copy_fails cf st"
  shows "\<exists>e. do_fork cf st arg s = Inr (- 1, e) \<and> scribbled p s e"
proof -
  obtain i where i: "i < NR_PAGES" "mem_map s i = 0" "p = page_addr i" "s1 = s\<lparr>mem_map := (mem_map s)(i := 1)\<rparr>"
    using page by (cases rule: get_free_page_cases [of s]) auto
  let ?s2 = "s\<lparr>mem_map := (mem_map s)(i := 1), tasks := (tasks s)(p := task_0),
    lists := (lists s)(run_list_of p := \<lparr>lh_next = 0, lh_prev = 0\<rparr>)\<rparr>"
  have c2: "current ?s2 \<noteq> p" using c by (simp add: current_def)
  have f: "find_empty_task ?s2 = find_empty_task s" by (rule find_empty_task_cong) simp
  have m: "(mem_map s)(i := 0) = mem_map s" using i(2) by auto
  have free: "free_page p x = Inr (x\<lparr>mem_map := (mem_map x)(i := 0)\<rparr>)" for x :: "'a fork_state_scheme"
    using free_page_addr [OF i(1)] i(3) by simp
  show ?thesis
  proof (cases "sint (find_empty_task s) < 0")
    case True
    with page f have "do_fork cf st arg s = Inr (- 1, ?s2\<lparr>mem_map := mem_map s\<rparr>)" (is "_ = Inr (_, ?e)")
      by (simp add: do_fork_def upd_task_def free i(4) m)
    moreover have "scribbled p s ?e"
      unfolding scribbled_def
      by (rule exI [of _ "tasks ?e p"], rule exI [of _ "pt_regs_at ?e (task_pt_regs p)"]) (cases s, simp)
    ultimately show ?thesis by blast
  next
    case False
    with bad have "copy_fails cf st" by simp
    with False page f have "do_fork cf st arg s = Inr (- 1, ?s2\<lparr>tasks := (tasks s)(p := task_0\<lparr>t_cpu_context :=
        child_context cf st arg p (sym_ret_from_fork (syms s))\<rparr>),
        pt_regs_at := (pt_regs_at s)(task_pt_regs p :=
          child_regs cf st (pt_regs_at s (task_pt_regs (current ?s2)))), mem_map := mem_map s\<rparr>)" (is "_ = Inr (_, ?e)")
      by (simp add: do_fork_def upd_task_def free copy_thread_eq [OF c2] i(4) m Let_def)
    moreover have "scribbled p s ?e"
      unfolding scribbled_def
      by (rule exI [of _ "tasks ?e p"], rule exI [of _ "pt_regs_at ?e (task_pt_regs p)"]) (cases s, simp)
    ultimately show ?thesis by blast
  qed
qed

lemma scribbled_inv:
  assumes inv: "fork_inv k s ts qs" and p: "p \<notin> set (init_task s # ts)" "run_list_of p \<noteq> rq_head s"
    and e: "scribbled p s e"
  shows "fork_inv k e ts qs"
proof -
  from e obtain t r where e: "e = s\<lparr>tasks := (tasks s)(p := t),
      lists := (lists s)(run_list_of p := \<lparr>lh_next = 0, lh_prev = 0\<rparr>), pt_regs_at := r\<rparr>"
    unfolding scribbled_def by blast
  have sy: "syms e = syms s" "cpu e = cpu s" "current e = current s" "g_task e = g_task s"
    "used_pages e = used_pages s" "rq e = rq s" by (simp_all add: e current_def used_pages_def)
  have tq: "tasks e q = tasks s q" if "q \<in> insert (init_task s) (set ts)" for q
    using that p(1) by (auto simp: e)
  have sinv: "sched_inv k s ts qs" using inv by (simp add: fork_inv_def)
  have "task_ring e ts"
    using sinv tq unfolding sched_inv_def sched_rep_def task_ring_def sy
    by (subst ring_cong [where nxt' = "\<lambda>p. t_next_task (tasks s p)" and prv' = "\<lambda>p. t_prev_task (tasks s p)"]) auto
  moreover have "list_rep (lists e) (rq_head s) (map run_list_of qs)"
    using sinv p unfolding sched_inv_def sched_rep_def list_rep_def
    by (subst ring_cong [where nxt' = "\<lambda>a. lh_next (lists s a)" and prv' = "\<lambda>a. lh_prev (lists s a)"])
      (auto simp: e)
  ultimately have "sched_rep e ts qs" using sinv by (simp add: sched_rep_def sched_inv_def sy)
  then have "sched_inv k e ts qs"
    using sinv tq by (simp add: sched_inv_def sy counters_ok_def preempt_count_def suspended_def)
  then show ?thesis using inv tq by (simp add: fork_inv_def sy Let_def)
qed

section \<open>The first switch to a new task\<close>

lemma switch_to_new:
  assumes "p \<noteq> current s" and "cc_pc (t_cpu_context (tasks s p)) = sym_ret_from_fork (syms s)"
  shows "\<exists>s'. schedule_switch c (current s) p s =
      (if cc_x19 (t_cpu_context (tasks s p)) = 0 then Returns_to_user
       else Starts (cc_x19 (t_cpu_context (tasks s p))) (cc_x20 (t_cpu_context (tasks s p))), s') \<and>
     cpu s' = t_cpu_context (tasks s p) \<and> \<not> irq_masked s'"
  using assms
  by (simp add: schedule_switch_def Let_def switch_to_def cpu_switch_to_def upd_task_def ret_from_fork_def
      schedule_tail_def arch_local_irq_enable_def)

lemma kernel_flag: "(flags OR 1) AND 1 \<noteq> (0 :: u64)"
  by (simp add: bit.conj_disj_distrib2)

lemma do_fork_cases:
  assumes inv: "fork_inv k s ts qs"
  obtains (made) p s1 j e where "get_free_page s = (p, s1)" "p \<noteq> 0" "\<not> copy_fails cf st" "j < 128" "g_task s j = 0"
      "{i. i < j \<and> g_task s i = 0} = {}" "do_fork cf st arg s = Inr (word_of_nat j, e)"
      "fork_inv k e (ts @ [p]) (p # qs)" "current e = current s" "syms e = syms s" "g_task e = (g_task s)(j := p)"
      "total_forks e = total_forks s + 1" "used_pages e = insert p (used_pages s)"
      "sint (goodness (current s) e) + sint (goodness p e) = sint (goodness (current s) s)"
      "pt_regs_at e = (pt_regs_at s)(task_pt_regs p := child_regs cf st (pt_regs_at s (task_pt_regs (current s))))"
      "t_cpu_context (tasks e p) = child_context cf st arg p (sym_ret_from_fork (syms s))" "current s \<noteq> p"
  | (failed) e where "fst (get_free_page s) = 0 \<or> {i. i < 128 \<and> g_task s i = 0} = {} \<or> copy_fails cf st"
      "do_fork cf st arg s = Inr (- 1, e)" "fork_inv k e ts qs" "mem_map e = mem_map s" "g_task e = g_task s"
      "total_forks e = total_forks s" "current e = current s"
      "pt_regs_at e (task_pt_regs (current s)) = pt_regs_at s (task_pt_regs (current s))"
proof -
  obtain p s1 where page: "get_free_page s = (p, s1)" by fastforce
  show thesis
  proof (cases "p = 0")
    case True
    with page do_fork_no_page [of s s1 cf st arg] inv show thesis by (intro failed [of s]) simp_all
  next
    case False
    note fresh = fork_inv_fresh [OF inv page False]
    have fail: thesis if "sint (find_empty_task s) < 0 \<or> copy_fails cf st"
      "{i. i < 128 \<and> g_task s i = 0} = {} \<or> copy_fails cf st"
    proof -
      from do_fork_fails [OF page False fresh(3) that(1)] obtain e where
        e: "do_fork cf st arg s = Inr (- 1, e)" "scribbled p s e" by blast
      moreover have "fork_inv k e ts qs" using scribbled_inv [OF inv fresh(1) _ e(2)] fresh(4) by blast
      ultimately show thesis using that(2)
        using fresh(3) by (intro failed [of e]) (auto simp: scribbled_def current_def)
    qed
    show thesis
    proof (cases rule: find_empty_task_cases [of s])
      case (slot j)
      show thesis
      proof (cases "copy_fails cf st")
        case True
        with fail show thesis by simp
      next
        case ok: False
        have "{i. i < j \<and> g_task s i = 0} = {}" using slot(3) by auto
        note m = made [OF page False ok slot(1,2) this _ _ _ _ _ _ _ _ _ _ fresh(3)]
        show thesis
          by (rule exE [OF do_fork_inv [OF inv page False ok slot(4,1,2), of arg]], elim conjE) (rule m)
      qed
    next
      case full
      then show thesis by (intro fail) auto
    qed
  qed
qed

section \<open>A concrete state\<close>

definition demo_fork :: fork_state where
  "demo_fork = sched_state.extend demo_sched
     (fork_state.fields (\<lambda>_. pt_regs_0\<lparr>r_sp := 7\<rparr>) 2 ((\<lambda>_. 0)(0 := 0x90000, 1 := 0x400000, 2 := 0x401000)))"

lemma sched_inv_extend: "sched_inv k (sched_state.extend s x) ts qs \<longleftrightarrow> sched_inv k s ts qs"
  by (simp add: sched_inv_def sched_rep_def task_ring_def counters_ok_def suspended_def preempt_count_def
      current_def sched_state.extend_def)

lemma demo_fork_simps:
  "g_task demo_fork = (\<lambda>_. 0)(0 := 0x90000, 1 := 0x400000, 2 := 0x401000)" "syms demo_fork = syms demo_sched"
  "tasks demo_fork = tasks demo_sched" "mem_map demo_fork = mem_map demo_sched" "current demo_fork = 0x90000"
  by (simp_all add: demo_fork_def sched_state.extend_def fork_state.fields_def current_def demo_sched_def
      cpu_context_0_def)

lemma demo_fork_inv: "fork_inv 0 demo_fork [0x400000, 0x401000] [0x401000, 0x400000]"
proof -
  have p: "page_addr 0 = 0x400000" "page_addr 1 = 0x401000" using page_addr_eq [of 0] page_addr_eq [of 1]
    by (simp_all add: NR_PAGES_val)
  have "page_addr i \<in> used_pages demo_fork" if "i < 2" for i
    using that by (subst page_addr_used_iff) (simp_all add: NR_PAGES_val demo_fork_simps, simp add: demo_sched_def)
  from this [of 0] this [of 1] have "set [0x400000, 0x401000] \<subseteq> used_pages demo_fork" by (simp only: p) simp
  moreover have "sched_inv 0 demo_fork [0x400000, 0x401000] [0x401000, 0x400000]"
    using demo_inv by (simp add: demo_fork_def sched_inv_extend)
  ultimately show ?thesis
    by (simp add: fork_inv_def demo_fork_simps) (auto simp: demo_sched_def demo_thread_def Let_def)
qed

lemma demo_fork_page: "fst (get_free_page demo_fork) = 0x402000"
proof (cases rule: get_free_page_cases [of demo_fork])
  case (found i)
  have "i = 2"
  proof (rule ccontr)
    assume "i \<noteq> 2"
    then consider "i < 2" | "2 < i" by linarith
    then show False
      using found(2) found(3) [of 2] by cases (simp_all add: demo_fork_simps, simp_all add: demo_sched_def)
  qed
  then show ?thesis using found(1,4) page_addr_eq [of 2] by simp
next
  case full
  from full(1) [of 2] show ?thesis by (simp add: NR_PAGES_val demo_fork_simps) (simp add: demo_sched_def)
qed

lemma demo_fork_slot: "{i. i < 128 \<and> g_task demo_fork i = 0} \<noteq> {}"
proof -
  have "3 \<in> {i. i < 128 \<and> g_task demo_fork i = 0}" by (simp add: demo_fork_simps)
  then show ?thesis by blast
qed

lemma demo_kernel_thread: "\<exists>pid e. kernel_thread 0x83000 5 0 demo_fork = Inr (pid, e) \<and> pid \<noteq> - 1"
proof (cases rule: do_fork_cases [OF demo_fork_inv, of "0 OR 1" "0x83000" 5, case_names made failed])
  case (made p s1 j e)
  have "word_of_nat j \<noteq> (- 1 :: s32)" by (rule pid_not_error [OF made(4)])
  with made show ?thesis by (simp add: kernel_thread_def)
next
  case failed
  with demo_fork_slot show ?thesis by (auto simp: demo_fork_page copy_fails_def)
qed

lemma memset_small:
  assumes "page_aligned p" and "off mod 16 = 0" and "off < 4096" and "16 < n" and "n < 2 ^ 31"
  shows "memset (p + word_of_nat off) 0 (word_of_nat n) m =
     Inr (\<lambda>a. if unat (a - (p + word_of_nat off)) < n then 0 else m a)"
proof -
  let ?q = "p + word_of_nat off"
  have "unat ?q mod 16 = 0"
  proof -
    have "unat p mod 4096 = 0" using assms(1) by (simp add: page_aligned_iff)
    then have "4096 dvd unat p" by (rule mod_0_imp_dvd)
    then have p: "16 dvd unat p" by (rule dvd_trans [rotated]) simp
    have "unat ?q = (unat p + off) mod 2 ^ 64"
      using assms(3) by (simp add: unat_word_ariths unsigned_of_nat take_bit_nat_eq_self)
    moreover have "16 dvd (unat p + off)" using p assms(2) by (simp add: mod_eq_0_iff_dvd)
    moreover have "(16 :: nat) dvd 2 ^ 64" by simp
    ultimately show ?thesis by (simp add: mod_mod_cancel)
  qed
  then have "unat (?q AND 15) = 0"
    using unat_and_mask [of ?q 4] by (simp add: mask_eq_exp_minus_1)
  moreover have n: "unat (word_of_nat n :: u32) = n"
    using assms(5) by (simp add: unsigned_of_nat take_bit_nat_eq_self)
  ultimately have "memset ?q 0 (word_of_nat n) m =
      Inr (\<lambda>a. if a - ?q < ucast (word_of_nat n :: u32) then ucast (0 :: s32) else m a)"
    using assms(4,5) by (intro memset_fill) simp_all
  then show ?thesis by (simp add: word_less_nat_alt n cong: if_cong)
qed

section \<open>Properties\<close>

text \<open>C8. Process creation. When a page and a slot of \<open>g_task\<close> are free and the requested user stack is
  acceptable, \<open>do_fork\<close> returns the lowest free pid; the new task is the last of the process table and the
  first of the ready queue, it occupies the page and the slot, the time slice of the caller is shared
  without loss, and the invariants of the scheduler, of the allocator and of the pid table hold again.\<close>

theorem do_fork_creates:
  assumes "fork_inv k s ts qs" and "fst (get_free_page s) \<noteq> 0" and "{i. i < 128 \<and> g_task s i = 0} \<noteq> {}"
    and "clone_flags AND 1 \<noteq> 0 \<or> stack AND 15 = 0"
  shows "\<exists>j e. do_fork clone_flags stack arg s = Inr (word_of_nat j, e) \<and> j < 128 \<and> g_task s j = 0 \<and>
     {i. i < j \<and> g_task s i = 0} = {} \<and>
     fork_inv k e (ts @ [fst (get_free_page s)]) (fst (get_free_page s) # qs) \<and>
     g_task e = (g_task s)(j := fst (get_free_page s)) \<and> total_forks e = total_forks s + 1 \<and>
     used_pages e = insert (fst (get_free_page s)) (used_pages s) \<and>
     sint (goodness (current s) e) + sint (goodness (fst (get_free_page s)) e) = sint (goodness (current s) s)"
proof (cases rule: do_fork_cases [OF assms(1), of clone_flags stack arg, case_names made failed])
  case (made p s1 j e)
  then show ?thesis by (intro exI [of _ j] exI [of _ e]) simp
next
  case failed
  with assms show ?thesis by (auto simp: copy_fails_def)
qed

theorem do_fork_creates_witness:
  "\<exists>j e. do_fork 1 0x83000 0 demo_fork = Inr (word_of_nat j, e) \<and>
     fork_inv 0 e [0x400000, 0x401000, 0x402000] [0x402000, 0x401000, 0x400000] \<and> g_task e j = 0x402000"
proof -
  from do_fork_creates [OF demo_fork_inv _ demo_fork_slot, of 1 "0x83000" 0] show ?thesis
    by (auto simp: demo_fork_page)
qed

text \<open>C36. A fork fails exactly when no page is free, no pid is free or a user stack is misaligned; then it
  returns -1, the page it took is free again, no pid is used and every invariant still holds.\<close>

theorem do_fork_failure:
  assumes "fork_inv k s ts qs"
  shows "\<exists>r e. do_fork clone_flags stack arg s = Inr (r, e) \<and>
     (r = - 1 \<longleftrightarrow> fst (get_free_page s) = 0 \<or> {i. i < 128 \<and> g_task s i = 0} = {} \<or>
        clone_flags AND 1 = 0 \<and> stack AND 15 \<noteq> 0) \<and>
     (r = - 1 \<longrightarrow> fork_inv k e ts qs \<and> mem_map e = mem_map s \<and> g_task e = g_task s \<and> total_forks e = total_forks s)"
proof (cases rule: do_fork_cases [OF assms, of clone_flags stack arg, case_names made failed])
  case (made p s1 j e)
  have "word_of_nat j \<noteq> (- 1 :: s32)" by (rule pid_not_error [OF made(4)])
  moreover have "{i. i < 128 \<and> g_task s i = 0} \<noteq> {}" using made(4,5) by blast
  ultimately show ?thesis using made(1-3,7) by (intro exI [of _ "word_of_nat j"] exI [of _ e]) (simp add: copy_fails_def)
next
  case (failed e)
  then show ?thesis by (intro exI [of _ "- 1"] exI [of _ e]) (simp add: copy_fails_def)
qed

theorem do_fork_failure_witness:
  "\<exists>e. do_fork 0 0x7ff8 0 demo_fork = Inr (- 1, e) \<and> mem_map e = mem_map demo_fork"
  using do_fork_failure [OF demo_fork_inv, of 0 "0x7ff8" 0] by auto

text \<open>C30. A kernel thread that was created runs its function with its argument, with interrupts enabled and
  on its own page, the first time the scheduler switches to it.\<close>

theorem kernel_thread_starts:
  assumes "fork_inv k s ts qs" and "kernel_thread fn arg flags s = Inr (pid, e)" and "pid \<noteq> - 1" and "fn \<noteq> 0"
  shows "\<exists>s'. schedule_switch c (current e) (g_task e (unat pid)) e = (Starts fn arg, s') \<and>
     current s' = g_task e (unat pid) \<and> \<not> irq_masked s'"
proof (cases rule: do_fork_cases [OF assms(1), of "flags OR 1" fn arg, case_names made failed])
  case (made p s1 j e')
  with assms(2) have [simp]: "e' = e" "pid = word_of_nat j" by (simp_all add: kernel_thread_def)
  have j: "unat (word_of_nat j :: s32) = j" by (rule pid_unat [OF made(4)])
  have ctx: "t_cpu_context (tasks e p) = cpu_context_0\<lparr>cc_x19 := fn, cc_x20 := arg,
      cc_sp := task_pt_regs p, cc_pc := sym_ret_from_fork (syms e)\<rparr>"
    using made(3,10,16) by (simp add: child_context_def kernel_flag)
  have "page_of (task_pt_regs p) = p"
    using fork_inv_fresh(6,7) [OF assms(1) made(1,2)] by (rule page_of_top [rotated])
  moreover have "p \<noteq> current e" using made(9,17) by simp
  ultimately show ?thesis
    using switch_to_new [of p e c] assms(4) made(11) j by (auto simp: ctx current_page_of)
next
  case failed
  with assms(2,3) show ?thesis by (simp add: kernel_thread_def)
qed

theorem kernel_thread_starts_witness:
  "\<exists>pid e s'. kernel_thread 0x83000 5 0 demo_fork = Inr (pid, e) \<and>
     schedule_switch By_schedule (current e) (g_task e (unat pid)) e = (Starts 0x83000 5, s') \<and>
     current s' = g_task e (unat pid)"
proof -
  from demo_kernel_thread obtain pid e where k: "kernel_thread 0x83000 5 0 demo_fork = Inr (pid, e)" "pid \<noteq> - 1" by blast
  from kernel_thread_starts [OF demo_fork_inv k, of By_schedule] k show ?thesis by auto
qed

text \<open>A cloned user task resumes at the system call of its parent: its exception frame is a copy of the
  parent's frame but for the result register, which is 0, and the stack pointer, which is the requested
  stack when there is one; the parent's frame is unchanged.\<close>

theorem clone_copies_frame:
  assumes "fork_inv k s ts qs" and "do_fork clone_flags stack arg s = Inr (pid, e)" and "pid \<noteq> - 1"
    and "clone_flags AND 1 = 0"
  shows "pt_regs_at e (task_pt_regs (g_task e (unat pid))) =
       (pt_regs_at s (task_pt_regs (current s)))
         \<lparr>r_regs := (r_regs (pt_regs_at s (task_pt_regs (current s))))(0 := 0),
          r_sp := if stack = 0 then r_sp (pt_regs_at s (task_pt_regs (current s))) else stack\<rparr> \<and>
     pt_regs_at e (task_pt_regs (current s)) = pt_regs_at s (task_pt_regs (current s))"
proof (cases rule: do_fork_cases [OF assms(1), of clone_flags stack arg, case_names made failed])
  case (made p s1 j e')
  with assms(2) have [simp]: "e' = e" "pid = word_of_nat j" by simp_all
  have j: "unat (word_of_nat j :: s32) = j" by (rule pid_unat [OF made(4)])
  have "stack AND 15 = 0" using made(3) assms(4) by (simp add: copy_fails_def)
  then show ?thesis
    using made(11,15,17) assms(4) j by (auto simp: child_regs_def Let_def)
next
  case failed
  with assms(2,3) show ?thesis by simp
qed

theorem clone_copies_frame_witness:
  "\<exists>e. do_fork 0 0x7ff0 0 demo_fork = Inr (3, e) \<and>
     r_sp (pt_regs_at e (task_pt_regs (g_task e 3))) = 0x7ff0"
proof (cases rule: do_fork_cases [OF demo_fork_inv, of 0 "0x7ff0" 0, case_names made failed])
  case (made p s1 j e)
  have "j = 3"
  proof (rule ccontr)
    assume "j \<noteq> 3"
    moreover have "3 \<notin> {i. i < j \<and> g_task demo_fork i = 0}" using made(6) by simp
    ultimately have "j = 0 \<or> j = 1 \<or> j = 2" by (simp add: demo_fork_simps) linarith
    with made(5) show False by (auto simp: demo_fork_simps)
  qed
  with made(7) have f: "do_fork 0 0x7ff0 0 demo_fork = Inr (3, e)" by simp
  from clone_copies_frame [OF demo_fork_inv f] f show ?thesis by auto
next
  case failed
  with demo_fork_slot show ?thesis by (auto simp: demo_fork_page copy_fails_def)
qed

text \<open>The calls of \<open>memset\<close> that process creation makes on the structures of a new page (the whole
  task structure, its register context, the exception frame) clear exactly the bytes of the structure.\<close>

theorem memset_clears_structures:
  assumes "page_aligned p" and "(off, n) \<in> {(0, sizeof_struct task_struct_fields), (16, 104), (3776, sizeof_struct pt_regs_fields), (0, 4096)}"
  shows "memset (p + word_of_nat off) 0 (word_of_nat n) m =
     Inr (\<lambda>a. if unat (a - (p + word_of_nat off)) < n then 0 else m a)"
proof -
  have "sizeof_struct task_struct_fields = 168" "sizeof_struct pt_regs_fields = 320"
    by (simp_all add: task_struct_fields_def pt_regs_fields_def align_to_def sizeof_struct_def)
  with assms show ?thesis by (intro memset_small) auto
qed

theorem memset_clears_structures_witness:
  "memset 0x402ec0 0 320 (\<lambda>_. 7) = Inr (\<lambda>a. if unat (a - 0x402ec0) < 320 then 0 else 7)"
proof -
  have "sizeof_struct pt_regs_fields = 320"
    by (simp add: pt_regs_fields_def align_to_def sizeof_struct_def)
  with memset_clears_structures [of "0x402000" 3776 320 "\<lambda>_. 7"] show ?thesis
    by (simp add: page_aligned_def cong: if_cong)
qed

text \<open>Moving to user space takes one fresh page as the stack, clears exactly that page, and leaves an
  exception frame that enters user mode at \<open>pc\<close> with all registers 0 and the stack pointer at the page's
  end; with no free page it fails and changes nothing.\<close>

theorem move_to_user_space_frame:
  "\<exists>r e. move_to_user_space pc s = Inr (r, e) \<and>
     (let stack = fst (get_free_page s) in
      if stack = 0 then r = - 1 \<and> e = s
      else r = 0 \<and> stack \<notin> used_pages s \<and> used_pages e = insert stack (used_pages s) \<and>
        mem e = (\<lambda>a. if unat (a - stack) < 4096 then 0 else mem s a) \<and>
        pt_regs_at e = (pt_regs_at s)(task_pt_regs (current s) := pt_regs_0\<lparr>r_pc := pc, r_sp := stack + 4096\<rparr>))"
proof -
  obtain p s1 where page: "get_free_page s = (p, s1)" by fastforce
  show ?thesis
  proof (cases "p = 0")
    case True
    with page pa.alloc_fail [of s s1] show ?thesis by (simp add: move_to_user_space_def)
  next
    case False
    obtain m where s1: "s1 = s\<lparr>mem_map := m\<rparr>"
      using page False by (cases rule: get_free_page_cases [of s]) auto
    have "memset p 0 4096 (mem s) = Inr (\<lambda>a. if unat (a - p) < 4096 then 0 else mem s a)"
      using memset_small [OF pa.alloc_aligned [OF page], of 0 4096] by simp
    with page False pa.alloc_fresh [OF page False] show ?thesis
      by (simp add: move_to_user_space_def Let_def start_user_thread_def set_regs_def s1 PSR_MODE_EL0t_def
          pt_regs_0_def) (simp add: used_pages_def)
  qed
qed

end
