(* ===== verification/Uart.thy ===== *)
theory Uart
  imports Byte_Memory
begin

text \<open>
  The console driver \<^verbatim>\<open>arch/arm64/mach-rpi/pl_uart.c\<close> over the registers of \<^verbatim>\<open>mach/pl_uart.h\<close> and
  \<^verbatim>\<open>mach/gpio.h\<close>, in the default configuration of the build (the board rpi4b). The device is the
  function \<open>io_dev\<close> of the access history; a busy wait is a loop that may not end, so that every
  operation that polls is an option, and \<open>drains\<close> says of a device when it does.
  A \<open>char\<close> of this ABI is an unsigned byte.
\<close>

section \<open>Registers\<close>

definition PBASE :: u64 where "PBASE = 0xFE000000"
definition UART_BASE :: u64 where "UART_BASE = PBASE + 0x00201000"
definition UART_DATA_REG :: u64 where "UART_DATA_REG = UART_BASE + 0x00"
definition UART_FR_REG :: u64 where "UART_FR_REG = UART_BASE + 0x18"
definition UART_IBRD_REG :: u64 where "UART_IBRD_REG = UART_BASE + 0x24"
definition UART_FBRD_REG :: u64 where "UART_FBRD_REG = UART_BASE + 0x28"
definition UART_LCRH_REG :: u64 where "UART_LCRH_REG = UART_BASE + 0x2C"
definition UART_CR_REG :: u64 where "UART_CR_REG = UART_BASE + 0x30"
definition UART_IMSC_REG :: u64 where "UART_IMSC_REG = UART_BASE + 0x38"
definition UART_ICR_REG :: u64 where "UART_ICR_REG = UART_BASE + 0x44"
definition UART_FR_RXFE :: u32 where "UART_FR_RXFE = push_bit 4 1"
definition UART_FR_TXFF :: u32 where "UART_FR_TXFF = push_bit 5 1"
definition GPFSEL1 :: u64 where "GPFSEL1 = PBASE + 0x00200004"
definition GPPUD :: u64 where "GPPUD = PBASE + 0x00200094"
definition GPPUDCLK0 :: u64 where "GPPUDCLK0 = PBASE + 0x00200098"

lemmas uart_regs = PBASE_def UART_BASE_def UART_DATA_REG_def UART_FR_REG_def UART_IBRD_REG_def
  UART_FBRD_REG_def UART_LCRH_REG_def UART_CR_REG_def UART_IMSC_REG_def UART_ICR_REG_def
  UART_FR_RXFE_def UART_FR_TXFF_def GPFSEL1_def GPPUD_def GPPUDCLK0_def

section \<open>The driver\<close>

text \<open>The counting loop of \<^verbatim>\<open>utils.S\<close> only takes time.\<close>

definition delay :: "u64 \<Rightarrow> 'a machine_scheme \<Rightarrow> 'a machine_scheme" where
  "delay loops s = s"

definition uart_init :: "'a machine_scheme \<Rightarrow> 'a machine_scheme" where
  "uart_init s =
     (let (selector, s) = readl GPFSEL1 s;
          selector = selector AND NOT (push_bit 12 7);
          selector = selector OR push_bit 12 4;
          selector = selector AND NOT (push_bit 15 7);
          selector = selector OR push_bit 15 4;
          s = writel selector GPFSEL1 s;
          s = writel 0 GPPUD s;
          s = delay 150 s;
          s = writel (push_bit 14 1 OR push_bit 15 1) GPPUDCLK0 s;
          s = delay 150 s;
          s = writel 0 GPPUDCLK0 s;
          s = writel 0 UART_CR_REG s;
          s = writel 0x7FF UART_ICR_REG s;
          s = writel 26 UART_IBRD_REG s;
          s = writel 3 UART_FBRD_REG s;
          s = writel (push_bit 4 1 OR push_bit 5 3) UART_LCRH_REG s;
          s = writel 0 UART_IMSC_REG s
      in writel (1 OR push_bit 8 1 OR push_bit 9 1) UART_CR_REG s)"

partial_function (option) wait_clear :: "u32 \<Rightarrow> 'a machine_scheme \<Rightarrow> 'a machine_scheme option" where
  "wait_clear m s =
     (let (v, s) = readl UART_FR_REG s in if v AND m \<noteq> 0 then wait_clear m s else Some s)"

definition uart_recv :: "'a machine_scheme \<Rightarrow> (u8 \<times> 'a machine_scheme) option" where
  "uart_recv s =
     Option.bind (wait_clear UART_FR_RXFE s) (\<lambda>s.
       let (v, s) = readl UART_DATA_REG s in Some (ucast (v AND 0xFF), s))"

definition uart_send :: "u8 \<Rightarrow> 'a machine_scheme \<Rightarrow> 'a machine_scheme option" where
  "uart_send c s = Option.bind (wait_clear UART_FR_TXFF s) (\<lambda>s. Some (writel (ucast c) UART_DATA_REG s))"

text \<open>The string is in memory; the loop stops at its null byte.\<close>

partial_function (option) uart_send_string_from ::
    "u64 \<Rightarrow> s32 \<Rightarrow> 'a machine_scheme \<Rightarrow> 'a machine_scheme option" where
  "uart_send_string_from str i s =
     (if mem s (str + scast i) \<noteq> 0 then
        Option.bind (uart_send (mem s (str + scast i)) s) (uart_send_string_from str (i + 1))
      else Some s)"

definition uart_send_string :: "u64 \<Rightarrow> 'a machine_scheme \<Rightarrow> 'a machine_scheme option" where
  "uart_send_string str s = uart_send_string_from str 0 s"

definition store_byte :: "u64 \<Rightarrow> u8 \<Rightarrow> 'a machine_scheme \<Rightarrow> 'a machine_scheme" where
  "store_byte a c s = s\<lparr>mem := (mem s)(a := c)\<rparr>"

partial_function (option) recv_loop ::
    "u64 \<Rightarrow> s32 \<Rightarrow> s32 \<Rightarrow> 'a machine_scheme \<Rightarrow> (s32 \<times> 'a machine_scheme) option" where
  "recv_loop buf len index s =
     (if sint index < sint len then
        Option.bind (uart_recv s) (\<lambda>(c, s).
          let s = store_byte (buf + scast index) c s; index = index + 1
          in if c = 13 \<or> c = 10 then Some (index, s) else recv_loop buf len index s)
      else Some (index, s))"

definition uart_recv_string :: "u64 \<Rightarrow> s32 \<Rightarrow> 'a machine_scheme \<Rightarrow> (s32 \<times> 'a machine_scheme) option" where
  "uart_recv_string buf len s =
     Option.bind (recv_loop buf len 0 s) (\<lambda>(index, s).
       let index = (if index = len then index - 1 else index)
       in Some (index, store_byte (buf + scast index) 0 s))"

definition putchar :: "u8 \<Rightarrow> 'a machine_scheme \<Rightarrow> 'a machine_scheme option" where
  "putchar c s = Option.bind (if c = 10 then uart_send 13 s else Some s) (uart_send c)"

section \<open>Devices that make progress\<close>

inductive drains :: "(hw_event list \<Rightarrow> u64 \<Rightarrow> u32) \<Rightarrow> u32 \<Rightarrow> hw_event list \<Rightarrow> bool" for dev m where
  clear: "dev h UART_FR_REG AND m = 0 \<Longrightarrow> drains dev m h"
| again: "drains dev m (h @ [Io_read UART_FR_REG (dev h UART_FR_REG)]) \<Longrightarrow> drains dev m h"

text \<open>The values written to the data register so far, and whether an event is a poll.\<close>

definition tx :: "'a machine_scheme \<Rightarrow> u32 list" where
  "tx s = List.map_filter (\<lambda>e. case e of Io_write a v \<Rightarrow> if a = UART_DATA_REG then Some v else None | _ \<Rightarrow> None) (hw_trace s)"

lemma wait_clear_unfold:
  "wait_clear m s = (let v = io_dev s (hw_trace s) UART_FR_REG; s' = s\<lparr>hw_trace := hw_trace s @ [Io_read UART_FR_REG v]\<rparr>
     in if v AND m \<noteq> 0 then wait_clear m s' else Some s')"
  by (subst wait_clear.simps) (simp add: readl_def hw_emit_def Let_def)

lemma wait_clear_drains:
  assumes "drains (io_dev s) m (hw_trace s)"
  shows "\<exists>polls. wait_clear m s = Some (s\<lparr>hw_trace := hw_trace s @ polls\<rparr>) \<and> polls \<noteq> [] \<and>
     set polls \<subseteq> range (Io_read UART_FR_REG)"
proof -
  have "\<exists>polls. wait_clear m (s\<lparr>hw_trace := h\<rparr>) = Some (s\<lparr>hw_trace := h @ polls\<rparr>) \<and> polls \<noteq> [] \<and>
     set polls \<subseteq> range (Io_read UART_FR_REG)" if "drains (io_dev s) m h" for h
    using that
  proof (induction rule: drains.induct)
    case (clear h)
    then show ?case
      by (intro exI [of _ "[Io_read UART_FR_REG (io_dev s h UART_FR_REG)]"])
        (simp add: wait_clear_unfold [of m "s\<lparr>hw_trace := h\<rparr>"])
  next
    case (again h)
    let ?e = "Io_read UART_FR_REG (io_dev s h UART_FR_REG)"
    from again.IH obtain polls where p: "wait_clear m (s\<lparr>hw_trace := h @ [?e]\<rparr>) = Some (s\<lparr>hw_trace := (h @ [?e]) @ polls\<rparr>)"
      "set polls \<subseteq> range (Io_read UART_FR_REG)" by blast
    show ?case
    proof (cases "io_dev s h UART_FR_REG AND m = 0")
      case True
      then show ?thesis by (intro exI [of _ "[?e]"]) (simp add: wait_clear_unfold [of m "s\<lparr>hw_trace := h\<rparr>"])
    next
      case False
      with p show ?thesis
        by (intro exI [of _ "?e # polls"]) (simp add: wait_clear_unfold [of m "s\<lparr>hw_trace := h\<rparr>"])
    qed
  qed
  from this [OF assms] show ?thesis by simp
qed

lemma wait_clear_step:
  assumes IH: "\<And>m s s'. f m s = Some s' \<Longrightarrow> drains (io_dev s) m (hw_trace s)"
    and eq: "(let (v, s) = readl UART_FR_REG s in if v AND m \<noteq> 0 then f m s else Some s) = Some s'"
  shows "drains (io_dev s) m (hw_trace s)"
proof (cases "io_dev s (hw_trace s) UART_FR_REG AND m = 0")
  case True
  then show ?thesis by (rule drains.clear)
next
  case False
  with eq have call: "f m (s\<lparr>hw_trace := hw_trace s @ [Io_read UART_FR_REG (io_dev s (hw_trace s) UART_FR_REG)]\<rparr>) = Some s'"
    by (simp add: readl_def hw_emit_def Let_def)
  show ?thesis by (rule drains.again) (use IH [OF call] in simp)
qed

lemma wait_clear_returns: "wait_clear m s = Some s' \<Longrightarrow> drains (io_dev s) m (hw_trace s)"
  by (erule wait_clear.raw_induct [where P = "\<lambda>m s s'. drains (io_dev s) m (hw_trace s)", rotated])
    (rule wait_clear_step)

lemma tx_simps [simp]:
  "tx (s\<lparr>hw_trace := hw_trace s @ es\<rparr>) = tx s @ tx (s\<lparr>hw_trace := es\<rparr>)"
  by (simp add: tx_def map_filter_def)

lemma tx_reads: "set polls \<subseteq> range (Io_read a) \<Longrightarrow> tx (s\<lparr>hw_trace := polls\<rparr>) = []"
  by (auto simp: tx_def map_filter_def filter_empty_conv)


text \<open>The bytes read from the data register.\<close>

definition rx :: "'a machine_scheme \<Rightarrow> u8 list" where
  "rx s = List.map_filter (\<lambda>e. case e of Io_read a v \<Rightarrow> if a = UART_DATA_REG then Some (ucast v) else None | _ \<Rightarrow> None) (hw_trace s)"

lemma rx_append: "rx (s\<lparr>hw_trace := hw_trace s @ es\<rparr>) = rx s @ rx (s\<lparr>hw_trace := es\<rparr>)"
  by (simp add: rx_def map_filter_def)

lemma rx_polls: "set polls \<subseteq> range (Io_read UART_FR_REG) \<Longrightarrow> rx (s\<lparr>hw_trace := polls\<rparr>) = []"
  by (auto simp: rx_def map_filter_def filter_empty_conv uart_regs)

definition uart_live :: "'a machine_scheme \<Rightarrow> bool" where
  "uart_live s \<longleftrightarrow> (\<forall>h. drains (io_dev s) UART_FR_TXFF h \<and> drains (io_dev s) UART_FR_RXFE h)"

lemma uart_send_live:
  assumes "uart_live s"
  shows "\<exists>es. uart_send c s = Some (s\<lparr>hw_trace := hw_trace s @ es\<rparr>) \<and> tx (s\<lparr>hw_trace := es\<rparr>) = [ucast c] \<and> rx (s\<lparr>hw_trace := es\<rparr>) = []"
proof -
  from assms have "drains (io_dev s) UART_FR_TXFF (hw_trace s)" by (simp add: uart_live_def)
  from wait_clear_drains [OF this] obtain polls where
    p: "wait_clear UART_FR_TXFF s = Some (s\<lparr>hw_trace := hw_trace s @ polls\<rparr>)" "set polls \<subseteq> range (Io_read UART_FR_REG)"
    by blast
  have "tx (s\<lparr>hw_trace := polls @ [Io_write UART_DATA_REG (ucast c)]\<rparr>) = [ucast c]"
    using tx_reads [OF p(2), of s] tx_simps [of "s\<lparr>hw_trace := polls\<rparr>" "[Io_write UART_DATA_REG (ucast c)]"]
    by (simp add: tx_def map_filter_def)
  moreover have "rx (s\<lparr>hw_trace := polls @ [Io_write UART_DATA_REG (ucast c)]\<rparr>) = []"
    using rx_polls [OF p(2), of s] by (simp add: rx_def map_filter_def)
  ultimately show ?thesis using p(1)
    by (intro exI [of _ "polls @ [Io_write UART_DATA_REG (ucast c)]"]) (simp add: uart_send_def writel_def hw_emit_def)
qed

text \<open>What a state differs in after sending \<open>out\<close>.\<close>

definition sent :: "u8 list \<Rightarrow> 'a machine_scheme \<Rightarrow> 'a machine_scheme \<Rightarrow> bool" where
  "sent out s s' \<longleftrightarrow> (\<exists>h. s' = s\<lparr>hw_trace := h\<rparr>) \<and> tx s' = tx s @ map ucast out \<and> rx s' = rx s"

lemma sent_Nil: "sent [] s s"
  by (auto simp: sent_def intro: exI [of _ "hw_trace s"])

lemma sent_trans: "sent xs s s' \<Longrightarrow> sent ys s' s'' \<Longrightarrow> sent (xs @ ys) s s''"
  by (auto simp: sent_def)

lemma sent_live: "sent out s s' \<Longrightarrow> uart_live s' \<longleftrightarrow> uart_live s"
  by (auto simp: sent_def uart_live_def)

lemma sent_mem: "sent out s s' \<Longrightarrow> mem s' = mem s"
  by (auto simp: sent_def)

lemma uart_send_sent: "uart_live s \<Longrightarrow> \<exists>s'. uart_send c s = Some s' \<and> sent [c] s s'"
proof -
  assume "uart_live s"
  from uart_send_live [OF this, of c] obtain es where "uart_send c s = Some (s\<lparr>hw_trace := hw_trace s @ es\<rparr>)"
    "tx (s\<lparr>hw_trace := es\<rparr>) = [ucast c]" "rx (s\<lparr>hw_trace := es\<rparr>) = []" by blast
  then show ?thesis using tx_simps [of s es] rx_append [of s es] by (auto simp: sent_def)
qed

definition crlf :: "u8 list \<Rightarrow> u8 list" where
  "crlf cs = concat (map (\<lambda>c. if c = 10 then [13, 10] else [c]) cs)"

lemma putchar_sent:
  assumes "uart_live s"
  shows "\<exists>s'. putchar c s = Some s' \<and> sent (crlf [c]) s s'"
proof (cases "c = 10")
  case True
  from uart_send_sent [OF assms, of 13] obtain s1 where s1: "uart_send 13 s = Some s1" "sent [13] s s1" by blast
  from uart_send_sent [of s1 c] sent_live [OF s1(2)] assms obtain s2 where
    s2: "uart_send c s1 = Some s2" "sent [c] s1 s2" by blast
  from sent_trans [OF s1(2) s2(2)] s1(1) s2(1) True show ?thesis by (auto simp: putchar_def crlf_def)
next
  case False
  with uart_send_sent [OF assms, of c] show ?thesis by (simp add: putchar_def crlf_def)
qed

text \<open>The bytes of a string in memory.\<close>

definition string_at :: "bmem \<Rightarrow> u64 \<Rightarrow> u8 list \<Rightarrow> bool" where
  "string_at m a cs \<longleftrightarrow> length cs < 2 ^ 31 \<and> (\<forall>i < length cs. m (a + word_of_nat i) = cs ! i) \<and> 0 \<notin> set cs \<and>
     m (a + word_of_nat (length cs)) = 0"

lemma uart_send_string_from_sent:
  assumes "string_at (mem s) a cs" and "k \<le> length cs" and "uart_live s"
  shows "\<exists>s'. uart_send_string_from a (word_of_nat k) s = Some s' \<and> sent (drop k cs) s s'"
  using assms(2,3,1)
proof (induction "length cs - k" arbitrary: k s)
  case 0
  then have k: "k = length cs" "k < 2 ^ 31" by (auto simp: string_at_def)
  with 0(4) have "mem s (a + scast (word_of_nat k :: s32)) = 0"
    using scast_nonneg [OF k(2)] by (simp add: string_at_def)
  with k show ?case by (simp add: uart_send_string_from.simps [of a "word_of_nat (length cs)"] sent_Nil)
next
  case (Suc n)
  then have k: "k < length cs" "k < 2 ^ 31" by (auto simp: string_at_def)
  have m: "mem s (a + scast (word_of_nat k :: s32)) = cs ! k"
    using scast_nonneg [OF k(2)] Suc(5) k(1) by (simp add: string_at_def)
  have nz: "cs ! k \<noteq> 0" using Suc(5) k(1) by (auto simp: string_at_def in_set_conv_nth)
  from uart_send_sent [OF Suc(4), of "cs ! k"] obtain s1 where
    s1: "uart_send (cs ! k) s = Some s1" "sent [cs ! k] s s1" by blast
  have "n = length cs - Suc k" "Suc k \<le> length cs" "uart_live s1" "string_at (mem s1) a cs"
    using Suc(2,4,5) k(1) sent_live [OF s1(2)] sent_mem [OF s1(2)] by simp_all
  from Suc.hyps(1) [OF this] obtain s2 where
    s2: "uart_send_string_from a (word_of_nat (Suc k)) s1 = Some s2" "sent (drop (Suc k) cs) s1 s2" by blast
  have "drop k cs = [cs ! k] @ drop (Suc k) cs" using k(1) by (simp add: Cons_nth_drop_Suc)
  with sent_trans [OF s1(2) s2(2)] s1(1) s2(1) nz show ?case
    by (simp add: uart_send_string_from.simps [of a "word_of_nat k"] m add.commute)
qed

section \<open>Receiving a line\<close>

definition put_bytes :: "u64 \<Rightarrow> u8 list \<Rightarrow> bmem \<Rightarrow> bmem" where
  "put_bytes a cs m = (\<lambda>x. if unat (x - a) < length cs then cs ! unat (x - a) else m x)"

lemma uart_recv_live:
  assumes "uart_live s"
  shows "\<exists>c h. uart_recv s = Some (c, s\<lparr>hw_trace := h\<rparr>) \<and> rx (s\<lparr>hw_trace := h\<rparr>) = rx s @ [c]"
proof -
  from assms have "drains (io_dev s) UART_FR_RXFE (hw_trace s)" by (simp add: uart_live_def)
  from wait_clear_drains [OF this] obtain polls where
    p: "wait_clear UART_FR_RXFE s = Some (s\<lparr>hw_trace := hw_trace s @ polls\<rparr>)" "set polls \<subseteq> range (Io_read UART_FR_REG)"
    by blast
  let ?v = "io_dev s (hw_trace s @ polls) UART_DATA_REG"
  have "(255 :: u32) = mask 8" by (simp add: mask_eq_exp_minus_1)
  then have m: "ucast (?v AND 255) = (ucast ?v :: u8)"
    unfolding \<open>(255 :: u32) = mask 8\<close> by (intro bit_word_eqI) (simp add: bit_simps)
  have "UART_FR_REG \<noteq> UART_DATA_REG" by (simp add: uart_regs)
  then have "rx (s\<lparr>hw_trace := polls @ [Io_read UART_DATA_REG ?v]\<rparr>) = [ucast ?v]"
    using p(2) by (auto simp: rx_def map_filter_def filter_empty_conv)
  with p(1) m rx_append [of s "polls @ [Io_read UART_DATA_REG ?v]"] show ?thesis
    by (intro exI [of _ "ucast ?v"] exI [of _ "hw_trace s @ polls @ [Io_read UART_DATA_REG ?v]"])
      (simp add: uart_recv_def readl_def hw_emit_def Let_def)
qed

lemma put_bytes_Cons:
  assumes "length cs < 2 ^ 31"
  shows "put_bytes (a + 1) cs (m(a := c)) = put_bytes a (c # cs) m"
proof
  fix x
  show "put_bytes (a + 1) cs (m(a := c)) x = put_bytes a (c # cs) m x"
  proof (cases "x = a")
    case True
    have "unat (a - (a + 1)) = 2 ^ 64 - 1" by (simp add: unsigned_minus_1_eq_mask mask_eq_exp_minus_1)
    with True assms show ?thesis by (simp add: put_bytes_def)
  next
    case False
    then have "unat (x - a) = Suc (unat (x - (a + 1)))" by (rule unat_Suc_diff)
    with False show ?thesis by (simp add: put_bytes_def)
  qed
qed

definition is_eol :: "u8 \<Rightarrow> bool" where "is_eol c \<longleftrightarrow> c = 13 \<or> c = 10"

lemma recv_loop_line:
  assumes "uart_live s" and "k < n" and "n < 2 ^ 31"
  shows "\<exists>cs s'. recv_loop buf (word_of_nat n) (word_of_nat k) s = Some (word_of_nat (k + length cs), s') \<and>
     cs \<noteq> [] \<and> k + length cs \<le> n \<and> {c \<in> set (butlast cs). is_eol c} = {} \<and> (is_eol (last cs) \<or> k + length cs = n) \<and>
     mem s' = put_bytes (buf + word_of_nat k) cs (mem s) \<and> rx s' = rx s @ cs"
  using assms
proof (induction "n - k" arbitrary: k s)
  case 0
  then show ?case by simp
next
  case (Suc d)
  have sw: "sint (word_of_nat i :: s32) = int i" if "i < 2 ^ 31" for i
    using that sint_word_of_int32 [of "int i"] by simp
  have sc: "scast (word_of_nat k :: s32) = (word_of_nat k :: u64)" using Suc by (intro scast_nonneg) simp
  from uart_recv_live [OF Suc(3)] obtain c h where
    c: "uart_recv s = Some (c, s\<lparr>hw_trace := h\<rparr>)" "rx (s\<lparr>hw_trace := h\<rparr>) = rx s @ [c]" by blast
  define s1 where "s1 = s\<lparr>hw_trace := h, mem := (mem s)(buf + word_of_nat k := c)\<rparr>"
  have s1: "rx s1 = rx s @ [c]" "mem s1 = (mem s)(buf + word_of_nat k := c)" "uart_live s1"
    using c(2) Suc(3) by (simp_all add: s1_def rx_def uart_live_def)
  have step: "recv_loop buf (word_of_nat n) (word_of_nat k) s =
      (if is_eol c then Some (word_of_nat (Suc k), s1)
       else recv_loop buf (word_of_nat n) (word_of_nat (Suc k)) s1)"
    using Suc(4,5) c(1) sw [of k] sw [of n] sc
    by (simp add: recv_loop.simps [of buf "word_of_nat n" "word_of_nat k"] is_eol_def store_byte_def s1_def add.commute)
  have one: "put_bytes (buf + word_of_nat k) [c] (mem s) = mem s1"
    using put_bytes_Cons [of "[]" "buf + word_of_nat k" "mem s" c] by (simp add: s1 put_bytes_def [of _ "[]"] fun_upd_def)
  show ?case
  proof (cases "is_eol c \<or> Suc k = n")
    case True
    have "recv_loop buf (word_of_nat n) (word_of_nat n) s1 = Some (word_of_nat n, s1)"
      by (simp add: recv_loop.simps [of buf "word_of_nat n" "word_of_nat n"])
    with True step s1 one Suc(4) show ?thesis
      by (intro exI [of _ "[c]"] exI [of _ s1]) (auto simp: s1_def)
  next
    case False
    with Suc have "d = n - Suc k" "Suc k < n" by simp_all
    from Suc(1) [OF this(1) s1(3) this(2) Suc(5)] obtain cs s' where
      r: "recv_loop buf (word_of_nat n) (word_of_nat (Suc k)) s1 = Some (word_of_nat (Suc k + length cs), s')"
      "cs \<noteq> []" "Suc k + length cs \<le> n" "{c \<in> set (butlast cs). is_eol c} = {}" "is_eol (last cs) \<or> Suc k + length cs = n"
      "mem s' = put_bytes (buf + word_of_nat (Suc k)) cs (mem s1)" "rx s' = rx s1 @ cs"
      by blast
    have "mem s' = put_bytes (buf + word_of_nat k) (c # cs) (mem s)"
      using put_bytes_Cons [of cs "buf + word_of_nat k" "mem s" c] r(3,6) Suc(5) by (simp add: s1 algebra_simps)
    with r s1 step False show ?thesis
      by (intro exI [of _ "c # cs"] exI [of _ s']) (auto simp: s1_def)
  qed
qed

section \<open>A concrete device\<close>

text \<open>A line that is never busy and always delivers the letter A.\<close>

text \<open>Receiving sends nothing and does not change the device.\<close>

definition only_reads :: "'a machine_scheme \<Rightarrow> 'a machine_scheme \<Rightarrow> bool" where
  "only_reads s s' \<longleftrightarrow> tx s' = tx s \<and> io_dev s' = io_dev s"

lemma only_reads_refl: "only_reads s s"
  and only_reads_trans: "only_reads s t \<Longrightarrow> only_reads t u \<Longrightarrow> only_reads s u"
  and only_reads_store: "only_reads s (store_byte a c s)"
  by (simp_all add: only_reads_def store_byte_def tx_def)

lemma only_reads_readl: "only_reads s (snd (readl a s))"
  by (simp add: only_reads_def readl_def hw_emit_def Let_def tx_def map_filter_def)

lemma wait_clear_only_reads: "wait_clear m s = Some s' \<Longrightarrow> only_reads s s'"
proof (erule wait_clear.raw_induct [where P = "\<lambda>m s s'. only_reads s s'", rotated])
  fix f :: "u32 \<Rightarrow> 'a machine_scheme \<Rightarrow> 'a machine_scheme option" and m s s'
  assume IH: "\<And>m s s'. f m s = Some s' \<Longrightarrow> only_reads s s'"
    and eq: "(let (v, s) = readl UART_FR_REG s in if v AND m \<noteq> 0 then f m s else Some s) = Some s'"
  obtain v s1 where r: "readl UART_FR_REG s = (v, s1)" by fastforce
  then have o: "only_reads s s1" using only_reads_readl [of s UART_FR_REG] by simp
  show "only_reads s s'"
  proof (cases "v AND m \<noteq> 0")
    case True
    then show ?thesis using eq r IH only_reads_trans [OF o] by simp
  next
    case False
    then show ?thesis using eq r o by simp
  qed
qed

lemma uart_recv_only_reads: "uart_recv s = Some (c, s') \<Longrightarrow> only_reads s s'"
proof -
  assume "uart_recv s = Some (c, s')"
  then obtain t where t: "wait_clear UART_FR_RXFE s = Some t" "s' = snd (readl UART_DATA_REG t)"
    by (auto simp: uart_recv_def split_beta Let_def split: bind_splits)
  show "only_reads s s'" unfolding t(2) by (rule only_reads_trans [OF wait_clear_only_reads [OF t(1)] only_reads_readl])
qed

lemma recv_loop_only_reads: "recv_loop buf len i s = Some r \<Longrightarrow> only_reads s (snd r)"
proof (erule recv_loop.raw_induct [where P = "\<lambda>buf len i s r. only_reads s (snd r)", rotated])
  fix f :: "u64 \<Rightarrow> s32 \<Rightarrow> s32 \<Rightarrow> 'a machine_scheme \<Rightarrow> (s32 \<times> 'a machine_scheme) option" and buf len i s r
  assume IH: "\<And>buf len i s r. f buf len i s = Some r \<Longrightarrow> only_reads s (snd r)"
    and eq: "(if sint i < sint len then
        Option.bind (uart_recv s) (\<lambda>(c, s).
          let s = store_byte (buf + scast i) c s; i = i + 1
          in if c = 13 \<or> c = 10 then Some (i, s) else f buf len i s)
      else Some (i, s)) = Some r"
  show "only_reads s (snd r)"
  proof (cases "sint i < sint len")
    case True
    then obtain c t where t: "uart_recv s = Some (c, t)" using eq by (auto split: bind_splits)
    let ?t = "store_byte (buf + scast i) c t"
    have o: "only_reads s ?t" by (rule only_reads_trans [OF uart_recv_only_reads [OF t] only_reads_store])
    have "r = (i + 1, ?t) \<or> f buf len (i + 1) ?t = Some r" using eq True t by (auto simp: Let_def split: if_splits)
    then show ?thesis
    proof
      assume "r = (i + 1, ?t)"
      then show ?thesis using o by simp
    next
      assume "f buf len (i + 1) ?t = Some r"
      from only_reads_trans [OF o IH [OF this]] show ?thesis .
    qed
  next
    case False
    then show ?thesis using eq only_reads_refl by auto
  qed
qed

lemma uart_recv_string_only_reads: "uart_recv_string buf len s = Some (i, s') \<Longrightarrow> only_reads s s'"
proof -
  assume "uart_recv_string buf len s = Some (i, s')"
  then obtain j t where t: "recv_loop buf len 0 s = Some (j, t)" "s' = store_byte (buf + scast i) 0 t"
    by (auto simp: uart_recv_string_def Let_def split: bind_splits)
  show "only_reads s s'" unfolding t(2) using only_reads_trans [OF recv_loop_only_reads [OF t(1)] only_reads_store] by simp
qed

text \<open>A line, in the buffer.\<close>

lemma uart_recv_string_line:
  assumes "uart_live s" and "0 < n" and "n < 2 ^ 31"
  shows "\<exists>cs i s'. uart_recv_string buf (word_of_nat n) s = Some (word_of_nat i, s') \<and> rx s' = rx s @ cs \<and>
     i = (if length cs = n then n - 1 else length cs) \<and> 0 < length cs \<and> length cs \<le> n \<and>
     {c \<in> set (butlast cs). is_eol c} = {} \<and> (is_eol (last cs) \<or> length cs = n) \<and>
     mem s' = (put_bytes buf cs (mem s))(buf + word_of_nat i := 0) \<and> i < n \<and>
     {a. n \<le> unat (a - buf) \<and> mem s' a \<noteq> mem s a} = {}"
proof -
  from recv_loop_line [OF assms(1), of 0 n buf] assms(2,3) obtain cs s1 where
    l: "recv_loop buf (word_of_nat n) 0 s = Some (word_of_nat (length cs), s1)" "cs \<noteq> []" "length cs \<le> n"
      "{c \<in> set (butlast cs). is_eol c} = {}" "is_eol (last cs) \<or> length cs = n"
      "mem s1 = put_bytes buf cs (mem s)" "rx s1 = rx s @ cs" by auto
  define i where "i = (if length cs = n then n - 1 else length cs)"
  define s' where "s' = store_byte (buf + word_of_nat i) 0 s1"
  have i: "i < n" using l(3) assms(2) by (auto simp: i_def)
  have eq: "(word_of_nat (length cs) :: s32) = word_of_nat n \<longleftrightarrow> length cs = n"
  proof -
    have u: "unat (word_of_nat j :: s32) = j" if "j < 2 ^ 31" for j
      using that by (simp add: unsigned_of_nat take_bit_nat_eq_self)
    show ?thesis using u [of "length cs"] u [of n] l(3) assms(3) by (metis order_le_less_trans)
  qed
  have sc: "scast (word_of_nat i :: s32) = (word_of_nat i :: u64)" using i assms(3) by (intro scast_nonneg) simp
  have "word_of_nat n - 1 = (word_of_nat (n - 1) :: s32)" using assms(2) by simp
  then have "uart_recv_string buf (word_of_nat n) s = Some (word_of_nat i, s')"
    using l(1) eq sc by (auto simp: uart_recv_string_def Let_def s'_def i_def)
  moreover have "mem s' = (put_bytes buf cs (mem s))(buf + word_of_nat i := 0)" "rx s' = rx s @ cs"
    using l by (simp_all add: s'_def store_byte_def rx_def)
  moreover have "unat (buf + word_of_nat i - buf) = i"
    using i assms(3) by (simp add: unsigned_of_nat take_bit_nat_eq_self)
  then have "{a. n \<le> unat (a - buf) \<and> ((put_bytes buf cs (mem s))(buf + word_of_nat i := 0)) a \<noteq> mem s a} = {}"
    using i l(3) by (auto simp: put_bytes_def)
  ultimately show ?thesis
    using l i by (intro exI [of _ cs] exI [of _ i] exI [of _ s']) (simp add: i_def)
qed

definition demo_uart :: machine where
  "demo_uart = machine0\<lparr>io_dev := (\<lambda>h a. if a = UART_DATA_REG then 65 else 0),
     mem := (\<lambda>a. if a = 0x100 then 72 else if a = 0x101 then 10 else 0)\<rparr>"

lemma demo_uart_live: "uart_live demo_uart"
  by (auto simp: uart_live_def demo_uart_def uart_regs intro: drains.clear)

lemma all_less_two: "(\<forall>i < Suc (Suc 0). P i) \<longleftrightarrow> P 0 \<and> P (Suc 0)"
  by (auto simp: less_Suc_eq)

lemma demo_uart_string: "string_at (mem demo_uart) 0x100 [72, 10]"
  by (simp add: string_at_def demo_uart_def all_less_two)

section \<open>Properties\<close>

text \<open>The busy wait of the driver ends exactly for the devices whose flag is clear after some number of
  further reads of the flag register.\<close>

theorem wait_clear_ends_iff:
  "wait_clear m s \<noteq> None \<longleftrightarrow> drains (io_dev s) m (hw_trace s)"
  using wait_clear_drains [of s m] wait_clear_returns [of m s] by auto

text \<open>Sending a string writes exactly its bytes, in order, to the data register, and stops at the null
  byte; nothing else of the state changes.\<close>

theorem uart_send_string_sends:
  assumes "string_at (mem s) a cs" and "uart_live s"
  shows "\<exists>s'. uart_send_string a s = Some s' \<and> tx s' = tx s @ map ucast cs \<and> mem s' = mem s \<and> klog s' = klog s"
  using uart_send_string_from_sent [OF assms(1) le0 assms(2)] by (auto simp: uart_send_string_def sent_def)

theorem uart_send_string_sends_witness:
  "\<exists>s'. uart_send_string 0x100 demo_uart = Some s' \<and> tx s' = tx demo_uart @ [72, 10]"
  using uart_send_string_sends [OF demo_uart_string demo_uart_live] by auto

text \<open>C39. Receiving into a buffer of \<open>n\<close> bytes returns, stores the bytes received up to and with the first end
  of line or until the buffer is full, terminates them with a null byte inside the buffer (over the last
  byte when the buffer is full) and writes nothing outside the buffer.\<close>

theorem uart_recv_string_bounded:
  assumes "uart_live s" and "0 < n" and "n < 2 ^ 31"
  shows "\<exists>cs i s'. uart_recv_string buf (word_of_nat n) s = Some (word_of_nat i, s') \<and> rx s' = rx s @ cs \<and>
     i = (if length cs = n then n - 1 else length cs) \<and> 0 < length cs \<and> length cs \<le> n \<and>
     {c \<in> set (butlast cs). is_eol c} = {} \<and> (is_eol (last cs) \<or> length cs = n) \<and>
     mem s' = (put_bytes buf cs (mem s))(buf + word_of_nat i := 0) \<and> i < n \<and>
     {a. n \<le> unat (a - buf) \<and> mem s' a \<noteq> mem s a} = {}"
  by (rule uart_recv_string_line [OF assms])

theorem uart_recv_string_bounded_witness:
  "\<exists>i s'. uart_recv_string 0x200 4 demo_uart = Some (word_of_nat i, s') \<and> i < 4"
  using uart_recv_string_bounded [OF demo_uart_live, of 4 "0x200"] by auto

end
