(* ===== verification/Irq.thy ===== *)
theory Irq
  imports Fork Uart
begin

text \<open>
  Interrupts: \<^verbatim>\<open>kernel/irq.c\<close> with \<^verbatim>\<open>include/irq.h\<close>, the GICv2 driver
  \<^verbatim>\<open>drivers/irqchip/gicv2.c\<close> with \<^verbatim>\<open>include/arm-gic.h\<close>, the generic timer \<^verbatim>\<open>mach-rpi/timer.c\<close>, and
  \<^verbatim>\<open>arm64_irq.c\<close>. A function pointer of the source is a constructor naming the function it can point to,
  with an option for null, and a \<open>call_\<close> function that runs what it points to. Interrupt
  descriptors are an array indexed by the interrupt number, domains live in their pages, and a
  pointer into \<open>gic_data\<close> is its index.
\<close>

section \<open>Data\<close>

datatype chip_fn = Gicv2_mask_irq | Gicv2_unmask_irq | Gicv2_eoi_irq
datatype map_fn = Gicv2_irq_map
datatype irq_handler_fn = Handle_timer_irq
datatype arch_handler_fn = Gic_handle_irq

record irq_chip =
  ic_name :: string
  ic_enable :: "chip_fn option"
  ic_disable :: "chip_fn option"
  ic_ack :: "chip_fn option"
  ic_mask :: "chip_fn option"
  ic_unmask :: "chip_fn option"
  ic_eoi :: "chip_fn option"

record irq_desc =
  id_name :: string
  id_hwirq :: u32
  id_chip :: "irq_chip option"
  id_domain :: u64
  id_chip_data :: nat
  id_refcount :: u32
  id_handler :: "irq_handler_fn option"
  id_param :: u64

record irq_domain =
  dm_map :: "map_fn option"
  dm_hwirq_max :: u32
  dm_host_data :: nat

record gic_chip_data_t =
  raw_dist_base :: u64
  raw_cpu_base :: u64
  gic_domain :: u64
  gic_chip :: "irq_chip option"
  gic_irqs :: u32

record irq_state = fork_state +
  irq_descs :: "nat \<Rightarrow> irq_desc"
  domains :: "u64 \<Rightarrow> irq_domain"
  arch_irq_handler :: "arch_handler_fn option"
  gic_data :: "nat \<Rightarrow> gic_chip_data_t"
  arch_timer_rate :: u32

definition NR_IRQS :: nat where "NR_IRQS = 256"
definition ARM_GIC_MAX_NR :: nat where "ARM_GIC_MAX_NR = 1"
definition HW_IRQ_START :: u32 where "HW_IRQ_START = 16"
definition GENERIC_TIMER_IRQ :: u32 where "GENERIC_TIMER_IRQ = 30"

definition GIC_CPU_CTRL :: u64 where "GIC_CPU_CTRL = 0x00"
definition GIC_CPU_PRIMASK :: u64 where "GIC_CPU_PRIMASK = 0x04"
definition GIC_CPU_INTACK :: u64 where "GIC_CPU_INTACK = 0x0c"
definition GIC_CPU_EOI :: u64 where "GIC_CPU_EOI = 0x10"
definition GICC_ENABLE :: u32 where [simp]: "GICC_ENABLE = 0x1"
definition GICC_INT_PRI_THRESHOLD :: u32 where [simp]: "GICC_INT_PRI_THRESHOLD = 0xf0"
definition GICC_IAR_INT_ID_MASK :: u32 where [simp]: "GICC_IAR_INT_ID_MASK = 0x3ff"
definition GIC_DIST_CTRL :: u64 where "GIC_DIST_CTRL = 0x000"
definition GIC_DIST_CTR :: u64 where "GIC_DIST_CTR = 0x004"
definition GIC_DIST_ENABLE_SET :: u64 where "GIC_DIST_ENABLE_SET = 0x100"
definition GIC_DIST_ENABLE_CLEAR :: u64 where "GIC_DIST_ENABLE_CLEAR = 0x180"
definition GIC_DIST_ACTIVE_CLEAR :: u64 where "GIC_DIST_ACTIVE_CLEAR = 0x380"
definition GIC_DIST_PRI :: u64 where "GIC_DIST_PRI = 0x400"
definition GIC_DIST_TARGET :: u64 where "GIC_DIST_TARGET = 0x800"
definition GIC_DIST_CONFIG :: u64 where "GIC_DIST_CONFIG = 0xc00"
definition GICD_ENABLE :: u32 where [simp]: "GICD_ENABLE = 0x1"
definition GICD_DISABLE :: u32 where [simp]: "GICD_DISABLE = 0x0"
definition GICD_INT_ACTLOW_LVLTRIG :: u32 where [simp]: "GICD_INT_ACTLOW_LVLTRIG = 0x0"
definition GICD_INT_EN_CLR_X32 :: u32 where [simp]: "GICD_INT_EN_CLR_X32 = 0xffffffff"
definition GICD_INT_EN_SET_SGI :: u32 where [simp]: "GICD_INT_EN_SET_SGI = 0x0000ffff"

lemmas gic_consts = NR_IRQS_def ARM_GIC_MAX_NR_def HW_IRQ_START_def GENERIC_TIMER_IRQ_def GIC_CPU_CTRL_def
  GIC_CPU_PRIMASK_def GIC_CPU_INTACK_def GIC_CPU_EOI_def GIC_DIST_CTRL_def GIC_DIST_CTR_def
  GIC_DIST_ENABLE_SET_def GIC_DIST_ENABLE_CLEAR_def GIC_DIST_ACTIVE_CLEAR_def GIC_DIST_PRI_def
  GIC_DIST_TARGET_def GIC_DIST_CONFIG_def

section \<open>The chip of drivers/irqchip/gicv2.c\<close>

definition gic_irq :: "irq_desc \<Rightarrow> u32" where "gic_irq d = id_hwirq d"

definition gic_get_cpu_base :: "'a irq_state_scheme \<Rightarrow> u64" where
  "gic_get_cpu_base s = raw_cpu_base (gic_data s 0)"

definition gic_get_dist_base :: "'a irq_state_scheme \<Rightarrow> u64" where
  "gic_get_dist_base s = raw_dist_base (gic_data s 0)"

definition gic_set_irq :: "irq_desc \<Rightarrow> u32 \<Rightarrow> 'a irq_state_scheme \<Rightarrow> 'a irq_state_scheme" where
  "gic_set_irq d offset s =
     (let bit = push_bit (unat (gic_irq d mod 32)) 1 :: u32
      in writel bit (gic_get_dist_base s + ucast offset + ucast ((gic_irq d div 32) * 4)) s)"

definition gicv2_eoi_irq :: "irq_desc \<Rightarrow> 'a irq_state_scheme \<Rightarrow> 'a irq_state_scheme" where
  "gicv2_eoi_irq d s = writel (gic_irq d) (gic_get_cpu_base s + GIC_CPU_EOI) s"

definition gicv2_mask_irq :: "irq_desc \<Rightarrow> 'a irq_state_scheme \<Rightarrow> 'a irq_state_scheme" where
  "gicv2_mask_irq d s = gic_set_irq d (ucast GIC_DIST_ENABLE_CLEAR) s"

definition gicv2_unmask_irq :: "irq_desc \<Rightarrow> 'a irq_state_scheme \<Rightarrow> 'a irq_state_scheme" where
  "gicv2_unmask_irq d s = gic_set_irq d (ucast GIC_DIST_ENABLE_SET) s"

definition gicv2_chip :: irq_chip where
  "gicv2_chip = \<lparr>ic_name = ''arm gicv2'', ic_enable = None, ic_disable = None, ic_ack = None,
     ic_mask = Some Gicv2_mask_irq, ic_unmask = Some Gicv2_unmask_irq, ic_eoi = Some Gicv2_eoi_irq\<rparr>"

fun call_chip_fn :: "chip_fn \<Rightarrow> irq_desc \<Rightarrow> 'a irq_state_scheme \<Rightarrow> 'a irq_state_scheme" where
  "call_chip_fn Gicv2_mask_irq d s = gicv2_mask_irq d s"
| "call_chip_fn Gicv2_unmask_irq d s = gicv2_unmask_irq d s"
| "call_chip_fn Gicv2_eoi_irq d s = gicv2_eoi_irq d s"

definition call_chip :: "chip_fn option \<Rightarrow> irq_desc \<Rightarrow> 'a irq_state_scheme \<Rightarrow> 'a irq_state_scheme res" where
  "call_chip f d s = (case f of None \<Rightarrow> Inl Null_deref | Some f \<Rightarrow> Inr (call_chip_fn f d s))"

section \<open>Descriptors, kernel/irq.c\<close>

definition irq_to_desc :: "u32 \<Rightarrow> nat option" where
  "irq_to_desc irq = (if unat irq < NR_IRQS then Some (unat irq) else None)"

definition upd_desc :: "nat \<Rightarrow> (irq_desc \<Rightarrow> irq_desc) \<Rightarrow> 'a irq_state_scheme \<Rightarrow> 'a irq_state_scheme" where
  "upd_desc i f s = s\<lparr>irq_descs := (irq_descs s)(i := f (irq_descs s i))\<rparr>"

text \<open>A descriptor that is used without a test of the pointer.\<close>

definition with_desc :: "u32 \<Rightarrow> (nat \<Rightarrow> 'b res) \<Rightarrow> 'b res" where
  "with_desc irq f = (case irq_to_desc irq of None \<Rightarrow> Inl Null_deref | Some i \<Rightarrow> f i)"

primrec alloc_descs_from :: "nat \<Rightarrow> u32 \<Rightarrow> 'a irq_state_scheme \<Rightarrow> 'a irq_state_scheme res" where
  "alloc_descs_from 0 irq s = Inr s"
| "alloc_descs_from (Suc n) irq s =
     with_desc irq (\<lambda>i. alloc_descs_from n (irq + 1) (upd_desc i (\<lambda>d. d\<lparr>id_refcount := id_refcount d + 1\<rparr>) s))"

definition irq_alloc_descs :: "u32 \<Rightarrow> u32 \<Rightarrow> 'a irq_state_scheme \<Rightarrow> (u32 \<times> 'a irq_state_scheme) res" where
  "irq_alloc_descs start count s = bindr (alloc_descs_from (unat count) start s) (\<lambda>s. Inr (start, s))"

definition irq_find_mapping :: "u64 \<Rightarrow> u32 \<Rightarrow> u32" where
  "irq_find_mapping domain hwirq = hwirq"

definition irq_enable :: "nat \<Rightarrow> 'a irq_state_scheme \<Rightarrow> 'a irq_state_scheme res" where
  "irq_enable i s =
     (let d = irq_descs s i
      in case id_chip d of None \<Rightarrow> Inl Null_deref
         | Some c \<Rightarrow> if ic_enable c \<noteq> None then call_chip (ic_enable c) d s else call_chip (ic_unmask c) d s)"

definition irq_disable :: "nat \<Rightarrow> 'a irq_state_scheme \<Rightarrow> 'a irq_state_scheme res" where
  "irq_disable i s =
     (let d = irq_descs s i
      in case id_chip d of None \<Rightarrow> Inl Null_deref
         | Some c \<Rightarrow> if ic_disable c \<noteq> None then call_chip (ic_disable c) d s else call_chip (ic_mask c) d s)"

definition request_irq ::
    "u32 \<Rightarrow> irq_handler_fn option \<Rightarrow> string \<Rightarrow> u64 \<Rightarrow> 'a irq_state_scheme \<Rightarrow> (s32 \<times> 'a irq_state_scheme) res" where
  "request_irq irq handler name param s =
     (case irq_to_desc irq of
        None \<Rightarrow> Inr (- 1, s)
      | Some i \<Rightarrow>
          if handler = None then Inr (- 1, s)
          else
            let s = upd_desc i (\<lambda>d. d\<lparr>id_handler := handler\<rparr>) s;
                s = upd_desc i (\<lambda>d. d\<lparr>id_param := param\<rparr>) s;
                s = upd_desc i (\<lambda>d. d\<lparr>id_name := name\<rparr>) s
            in bindr (irq_enable i s) (\<lambda>s. Inr (0, s)))"

definition free_irq :: "u32 \<Rightarrow> 'a irq_state_scheme \<Rightarrow> 'a irq_state_scheme res" where
  "free_irq irq s =
     with_desc irq (\<lambda>i. Inr (upd_desc i (\<lambda>d. d\<lparr>id_param := 0\<rparr>) (upd_desc i (\<lambda>d. d\<lparr>id_handler := None\<rparr>) s)))"

definition irq_domain_set_hwirq_chip ::
    "u64 \<Rightarrow> u32 \<Rightarrow> u32 \<Rightarrow> irq_chip \<Rightarrow> nat \<Rightarrow> 'a irq_state_scheme \<Rightarrow> s32 \<times> 'a irq_state_scheme" where
  "irq_domain_set_hwirq_chip domain virq hwirq chip chip_data s =
     (case irq_to_desc virq of
        None \<Rightarrow> (- 1, s)
      | Some i \<Rightarrow>
          let s = upd_desc i (\<lambda>d. d\<lparr>id_hwirq := hwirq\<rparr>) s;
              s = upd_desc i (\<lambda>d. d\<lparr>id_chip := Some chip\<rparr>) s
          in (0, upd_desc i (\<lambda>d. d\<lparr>id_chip_data := chip_data\<rparr>) s))"

definition gicv2_irq_map :: "u64 \<Rightarrow> u32 \<Rightarrow> u32 \<Rightarrow> 'a irq_state_scheme \<Rightarrow> s32 \<times> 'a irq_state_scheme" where
  "gicv2_irq_map d virq hwirq s =
     (0, if 16 \<le> hwirq then snd (irq_domain_set_hwirq_chip d virq hwirq gicv2_chip (dm_host_data (domains s d)) s) else s)"

fun call_map_fn :: "map_fn \<Rightarrow> u64 \<Rightarrow> u32 \<Rightarrow> u32 \<Rightarrow> 'a irq_state_scheme \<Rightarrow> s32 \<times> 'a irq_state_scheme" where
  "call_map_fn Gicv2_irq_map d virq hwirq s = gicv2_irq_map d virq hwirq s"

definition irq_domain_map_irq :: "u64 \<Rightarrow> u32 \<Rightarrow> u32 \<Rightarrow> 'a irq_state_scheme \<Rightarrow> (s32 \<times> 'a irq_state_scheme) res" where
  "irq_domain_map_irq domain virq hwirq s =
     with_desc virq (\<lambda>i.
       let s = upd_desc i (\<lambda>d. d\<lparr>id_hwirq := hwirq\<rparr>) s;
           s = upd_desc i (\<lambda>d. d\<lparr>id_domain := domain\<rparr>) s
       in case dm_map (domains s domain) of
            None \<Rightarrow> Inr (0, s)
          | Some f \<Rightarrow>
              let (ret, s) = call_map_fn f domain virq hwirq s
              in if ret \<noteq> 0 then
                   Inr (ret, printk_call ''%s didn't like hwirq %d to virq %d mapping\<newline>''
                     [Arg_word 0, Arg_word (ucast hwirq), Arg_word (ucast virq)] s)
                 else Inr (0, s))"

primrec map_irqs_from :: "nat \<Rightarrow> u64 \<Rightarrow> u32 \<Rightarrow> u32 \<Rightarrow> 'a irq_state_scheme \<Rightarrow> 'a irq_state_scheme res" where
  "map_irqs_from 0 domain virq hwirq s = Inr s"
| "map_irqs_from (Suc n) domain virq hwirq s =
     bindr (irq_domain_map_irq domain virq hwirq s) (\<lambda>(ret, s). map_irqs_from n domain (virq + 1) (hwirq + 1) s)"

definition irq_domain_add ::
    "u32 \<Rightarrow> u32 \<Rightarrow> u32 \<Rightarrow> map_fn option \<Rightarrow> nat \<Rightarrow> 'a irq_state_scheme \<Rightarrow> (u64 \<times> 'a irq_state_scheme) res" where
  "irq_domain_add virq hwirq count ops host_data s =
     (let (domain, s) = get_free_page s
      in if domain = 0 then Inr (0, s)
         else
           let s = s\<lparr>domains := (domains s)(domain := \<lparr>dm_map = None, dm_hwirq_max = 0, dm_host_data = 0\<rparr>)\<rparr>;
               s = s\<lparr>domains := (domains s)(domain := (domains s domain)\<lparr>dm_map := ops\<rparr>)\<rparr>;
               s = s\<lparr>domains := (domains s)(domain := (domains s domain)\<lparr>dm_host_data := host_data\<rparr>)\<rparr>;
               s = s\<lparr>domains := (domains s)(domain := (domains s domain)\<lparr>dm_hwirq_max := hwirq + count\<rparr>)\<rparr>
           in bindr (map_irqs_from (unat count) domain virq hwirq s) (\<lambda>s. Inr (domain, s)))"

definition set_handle_irq :: "arch_handler_fn \<Rightarrow> 'a irq_state_scheme \<Rightarrow> 'a irq_state_scheme" where
  "set_handle_irq h s = (if arch_irq_handler s \<noteq> None then s else s\<lparr>arch_irq_handler := Some h\<rparr>)"

section \<open>The timer, mach-rpi/timer.c\<close>

definition TIMER_CNTRL0 :: u64 where "TIMER_CNTRL0 = 0xFF800000 + 0x40"
definition CNT_PNS_IRQ :: u32 where "CNT_PNS_IRQ = push_bit 1 1"

definition generic_timer_init :: "'a machine_scheme \<Rightarrow> 'a machine_scheme" where
  "generic_timer_init s = write_sysreg 1 ''cntp_ctl_el0'' s"

definition generic_timer_reset :: "u32 \<Rightarrow> 'a machine_scheme \<Rightarrow> s32 \<times> 'a machine_scheme" where
  "generic_timer_reset val s = (0, write_sysreg (ucast val) ''cntp_tval_el0'' s)"

definition generic_timer_get_freq :: "'a machine_scheme \<Rightarrow> u32 \<times> 'a machine_scheme" where
  "generic_timer_get_freq s = (let (v, s) = read_sysreg ''cntfrq_el0'' s in (ucast v, s))"

definition enable_timer_interrupt :: "'a machine_scheme \<Rightarrow> 'a machine_scheme" where
  "enable_timer_interrupt s = writel CNT_PNS_IRQ TIMER_CNTRL0 s"

definition handle_timer_irq :: "u32 \<Rightarrow> u64 \<Rightarrow> 'a irq_state_scheme \<Rightarrow> s32 \<times> 'a irq_state_scheme" where
  "handle_timer_irq irq param s =
     (let (_, s) = generic_timer_reset (arch_timer_rate s) s in (0, tick_handle_periodic s))"

definition timer_init :: "'a irq_state_scheme \<Rightarrow> 'a irq_state_scheme res" where
  "timer_init s =
     (let (freq, s) = generic_timer_get_freq s;
          s = s\<lparr>arch_timer_rate := freq\<rparr>;
          s = printk_call (''cntp freq:0x%x'' @ [CHR 0x0D, CHR 0x0A]) [Arg_word (ucast (arch_timer_rate s))] s;
          s = s\<lparr>arch_timer_rate := arch_timer_rate s div HZ\<rparr>;
          s = generic_timer_init s;
          (_, s) = generic_timer_reset (arch_timer_rate s) s
      in bindr (request_irq GENERIC_TIMER_IRQ (Some Handle_timer_irq) ''core timer'' 0 s) (\<lambda>(_, s).
           Inr (enable_timer_interrupt s)))"

section \<open>Handling an interrupt\<close>

fun call_irq_handler :: "irq_handler_fn \<Rightarrow> u32 \<Rightarrow> u64 \<Rightarrow> 'a irq_state_scheme \<Rightarrow> s32 \<times> 'a irq_state_scheme" where
  "call_irq_handler Handle_timer_irq irq param s = handle_timer_irq irq param s"

definition generic_handle_irq :: "u32 \<Rightarrow> 'a irq_state_scheme \<Rightarrow> (s32 \<times> 'a irq_state_scheme) res" where
  "generic_handle_irq virq s =
     (case irq_to_desc virq of
        None \<Rightarrow> Inr (- 1, s)
      | Some i \<Rightarrow>
          (case id_handler (irq_descs s i) of
             None \<Rightarrow> Inr (- 1, s)
           | Some h \<Rightarrow>
               let (ret, s) = call_irq_handler h virq (id_param (irq_descs s i)) s
               in (case id_chip (irq_descs s i) of
                     None \<Rightarrow> Inl Null_deref
                   | Some c \<Rightarrow>
                       if ic_eoi c \<noteq> None then bindr (call_chip (ic_eoi c) (irq_descs s i) s) (\<lambda>s. Inr (ret, s))
                       else Inr (ret, s))))"

definition handle_domain_irq :: "u64 \<Rightarrow> u32 \<Rightarrow> 'a irq_state_scheme \<Rightarrow> (s32 \<times> 'a irq_state_scheme) res" where
  "handle_domain_irq domain hwirq s =
     bindr (generic_handle_irq (irq_find_mapping domain hwirq) s) (\<lambda>(_, s). Inr (0, s))"

definition gic_handle_irq :: "'a irq_state_scheme \<Rightarrow> 'a irq_state_scheme res" where
  "gic_handle_irq s =
     (let gic = gic_data s 0;
          base = raw_cpu_base gic;
          (irqstat, s) = readl (base + GIC_CPU_INTACK) s;
          irqnr = irqstat AND GICC_IAR_INT_ID_MASK
      in if 15 < irqnr \<and> irqnr < 1021 then bindr (handle_domain_irq (gic_domain gic) irqnr s) (\<lambda>(_, s). Inr s)
         else Inr s)"

fun call_arch_handler :: "arch_handler_fn \<Rightarrow> 'a irq_state_scheme \<Rightarrow> 'a irq_state_scheme res" where
  "call_arch_handler Gic_handle_irq s = gic_handle_irq s"

definition irq_handler :: "'a irq_state_scheme \<Rightarrow> 'a irq_state_scheme res" where
  "irq_handler s =
     (let s = preempt_add HARDIRQ_OFFSET s
      in bindr (case arch_irq_handler s of None \<Rightarrow> Inl Null_deref | Some h \<Rightarrow> call_arch_handler h s) (\<lambda>s.
           Inr (preempt_sub HARDIRQ_OFFSET s)))"

text \<open>\<open>el1_irq\<close> of entry.S, an interrupt taken in the kernel.\<close>

definition el1_irq :: "'a irq_state_scheme \<Rightarrow> (outcome option \<times> 'a irq_state_scheme) res" where
  "el1_irq s = bindr (irq_handler s) el1_irq_exit"

section \<open>Initialisation of the interrupt controller\<close>

text \<open>The loop of \<open>gic_get_cpumask\<close> from register \<open>i\<close>; it stops at the first mask that is not 0.\<close>

fun cpumask_from :: "nat \<Rightarrow> nat \<Rightarrow> u64 \<Rightarrow> u32 \<Rightarrow> 'a machine_scheme \<Rightarrow> u32 \<times> 'a machine_scheme" where
  "cpumask_from 0 i base cpus s = (cpus, s)"
| "cpumask_from (Suc n) i base cpus s =
     (let (cpus, s) = readl (base + GIC_DIST_TARGET + word_of_nat i) s;
          cpus = cpus OR drop_bit 16 cpus;
          cpus = cpus OR drop_bit 8 cpus
      in if cpus \<noteq> 0 then (cpus, s) else cpumask_from n (i + 4) base cpus s)"

definition gic_get_cpumask :: "gic_chip_data_t \<Rightarrow> 'a machine_scheme \<Rightarrow> u32 \<times> 'a machine_scheme" where
  "gic_get_cpumask gic s = cpumask_from 8 0 (raw_dist_base gic) 0 s"

text \<open>\<open>for (i = start; i < bound; i += step) writel(...)\<close>.\<close>

function write_regs :: "nat \<Rightarrow> nat \<Rightarrow> nat \<Rightarrow> (nat \<Rightarrow> 'a machine_scheme \<Rightarrow> 'a machine_scheme) \<Rightarrow> 'a machine_scheme \<Rightarrow> 'a machine_scheme" where
  "write_regs i step bound w s =
     (if i < bound \<and> 0 < step then write_regs (i + step) step bound w (w i s) else s)"
  by pat_completeness auto
termination by (relation "measure (\<lambda>(i, step, bound, w, s). bound - i)") auto

declare write_regs.simps [simp del]

definition gic_dist_init :: "gic_chip_data_t \<Rightarrow> 'a machine_scheme \<Rightarrow> 'a machine_scheme" where
  "gic_dist_init gic s =
     (let base = raw_dist_base gic;
          n = unat (gic_irqs gic);
          s = writel GICD_DISABLE (base + GIC_DIST_CTRL) s;
          (cpumask, s) = gic_get_cpumask gic s;
          cpumask = cpumask OR push_bit 8 cpumask;
          cpumask = cpumask OR push_bit 16 cpumask;
          s = write_regs 32 4 n (\<lambda>i. writel cpumask (base + GIC_DIST_TARGET + word_of_nat (i * 4 div 4))) s;
          s = write_regs 32 16 n (\<lambda>i. writel GICD_INT_ACTLOW_LVLTRIG (base + GIC_DIST_CONFIG + word_of_nat (i div 4))) s;
          s = write_regs 0 32 n (\<lambda>i s.
                writel GICD_INT_EN_CLR_X32 (base + GIC_DIST_ENABLE_CLEAR + word_of_nat (i div 8))
                  (writel GICD_INT_EN_CLR_X32 (base + GIC_DIST_ACTIVE_CLEAR + word_of_nat (i div 8)) s)) s;
          s = writel GICD_INT_EN_SET_SGI (base + GIC_DIST_ENABLE_SET) s
      in writel GICD_ENABLE (base + GIC_DIST_CTRL) s)"

definition gic_cpu_init :: "gic_chip_data_t \<Rightarrow> 'a machine_scheme \<Rightarrow> 'a machine_scheme" where
  "gic_cpu_init gic s =
     (let base = raw_cpu_base gic;
          dist_base = raw_dist_base gic;
          s = write_regs 0 4 32 (\<lambda>i. writel 0xA0A0A0A0 (dist_base + GIC_DIST_PRI + word_of_nat (i * 4 div 4))) s;
          s = writel GICC_INT_PRI_THRESHOLD (base + GIC_CPU_PRIMASK) s
      in writel GICC_ENABLE (base + GIC_CPU_CTRL) s)"

definition upd_gic :: "nat \<Rightarrow> (gic_chip_data_t \<Rightarrow> gic_chip_data_t) \<Rightarrow> 'a irq_state_scheme \<Rightarrow> 'a irq_state_scheme" where
  "upd_gic i f s = s\<lparr>gic_data := (gic_data s)(i := f (gic_data s i))\<rparr>"

definition gic_init :: "nat \<Rightarrow> u64 \<Rightarrow> u64 \<Rightarrow> 'a irq_state_scheme \<Rightarrow> (s32 \<times> 'a irq_state_scheme) res" where
  "gic_init chip dist_base cpu_base s =
     (if ARM_GIC_MAX_NR \<le> chip then Inl Out_of_bounds
      else
        let s = upd_gic chip (\<lambda>g. g\<lparr>raw_dist_base := dist_base\<rparr>) s;
            s = upd_gic chip (\<lambda>g. g\<lparr>raw_cpu_base := cpu_base\<rparr>) s;
            s = upd_gic chip (\<lambda>g. g\<lparr>gic_chip := Some gicv2_chip\<rparr>) s;
            (v, s) = readl (raw_dist_base (gic_data s chip) + GIC_DIST_CTR) s;
            irqs = ((v AND 0x1F) + 1) * 32;
            irqs = (if 1020 < irqs then 1020 else irqs);
            s = upd_gic chip (\<lambda>g. g\<lparr>gic_irqs := irqs\<rparr>) s;
            irqs = irqs - HW_IRQ_START
        in bindr (irq_alloc_descs HW_IRQ_START irqs s) (\<lambda>(virq_base, s).
           bindr (irq_domain_add virq_base HW_IRQ_START irqs (Some Gicv2_irq_map) chip s) (\<lambda>(domain, s).
             let s = upd_gic chip (\<lambda>g. g\<lparr>gic_domain := domain\<rparr>) s
             in if domain = 0 then Inr (- 1, s)
                else
                  let s = printk_call ''%s: cpu_base:0x%x, dist_base:0x%x, gic_irqs:%d\<newline>''
                            [Arg_str ''gic_init'', Arg_word cpu_base, Arg_word dist_base, Arg_word (ucast (gic_irqs (gic_data s chip)))] s;
                      s = gic_dist_init (gic_data s chip) s;
                      s = gic_cpu_init (gic_data s chip) s
                  in Inr (0, if chip = 0 then set_handle_irq Gic_handle_irq s else s))))"

definition GIC_V2_DISTRIBUTOR_BASE :: u64 where "GIC_V2_DISTRIBUTOR_BASE = 0xFF800000 + 0x00041000"
definition GIC_V2_CPU_INTERFACE_BASE :: u64 where "GIC_V2_CPU_INTERFACE_BASE = 0xFF800000 + 0x00042000"

definition arch_irq_init :: "'a irq_state_scheme \<Rightarrow> 'a irq_state_scheme res" where
  "arch_irq_init s = bindr (gic_init 0 GIC_V2_DISTRIBUTOR_BASE GIC_V2_CPU_INTERFACE_BASE s) (\<lambda>(_, s). Inr s)"

section \<open>What the invariants of the lower components depend on\<close>

lemma fork_inv_cong:
  fixes s :: "'a fork_state_scheme" and s' :: "'b fork_state_scheme"
  assumes "tasks s' = tasks s" and "lists s' = lists s" and "rq s' = rq s" and "cpu s' = cpu s"
    and "syms s' = syms s" and "g_task s' = g_task s" and "mem_map s' = mem_map s"
  shows "fork_inv k s' ts qs \<longleftrightarrow> fork_inv k s ts qs"
  by (simp add: fork_inv_def sched_inv_def sched_rep_def task_ring_def counters_ok_def suspended_def
      preempt_count_def current_def used_pages_def assms)

lemma fork_inv_sched:
  assumes "fork_inv k s ts qs" and "sched_inv k' s' ts qs" and "syms s' = syms s" and "mem_map s' = mem_map s"
    and "g_task s' = g_task s" and "\<And>p. t_pid (tasks s' p) = t_pid (tasks s p)"
  shows "fork_inv k' s' ts qs"
  using assms by (simp add: fork_inv_def used_pages_def)

section \<open>Interrupts in detail\<close>

lemma irq_to_desc_Some: "unat irq < 256 \<Longrightarrow> irq_to_desc irq = Some (unat irq)"
  by (simp add: irq_to_desc_def gic_consts)

lemma irq_to_desc_None: "256 \<le> unat irq \<Longrightarrow> irq_to_desc irq = None"
  by (simp add: irq_to_desc_def gic_consts)

text \<open>The state in which the timer interrupt is set up, and the acknowledge register of the device.\<close>

definition irq_ready :: "'a irq_state_scheme \<Rightarrow> bool" where
  "irq_ready s \<longleftrightarrow> arch_irq_handler s = Some Gic_handle_irq \<and> id_handler (irq_descs s 30) = Some Handle_timer_irq \<and>
     id_chip (irq_descs s 30) = Some gicv2_chip \<and> id_hwirq (irq_descs s 30) = 30"

definition iar :: "'a irq_state_scheme \<Rightarrow> u32" where
  "iar s = io_dev s (hw_trace s) (raw_cpu_base (gic_data s 0) + 0x0c)"

definition irq_event :: "'a irq_state_scheme \<Rightarrow> hw_event" where
  "irq_event s = Io_read (raw_cpu_base (gic_data s 0) + 0x0c) (iar s)"

lemma preempt_add_frame [simp]:
  "lists (preempt_add v s) = lists s" "rq (preempt_add v s) = rq s" "cpu (preempt_add v s) = cpu s"
  "syms (preempt_add v s) = syms s" "mem_map (preempt_add v s) = mem_map s" "hw_trace (preempt_add v s) = hw_trace s"
  "io_dev (preempt_add v s) = io_dev s" "klog (preempt_add v s) = klog s" "current (preempt_add v s) = current s"
  by (simp_all add: preempt_add_def upd_task_def current_def)

lemma irq_handler_unhandled:
  assumes "arch_irq_handler s = Some Gic_handle_irq"
    and "iar s AND 0x3ff \<le> 15 \<or> 1021 \<le> iar s AND 0x3ff \<or> 256 \<le> unat (iar s AND 0x3ff) \<or>
         id_handler (irq_descs s (unat (iar s AND 0x3ff))) = None"
  shows "irq_handler s = Inr (s\<lparr>hw_trace := hw_trace s @ [irq_event s]\<rparr>)"
proof -
  let ?a = "preempt_add 256 s"
  have "iar ?a = iar s" by (simp add: iar_def preempt_add_def upd_task_def)
  have h: "gic_handle_irq ?a = Inr (?a\<lparr>hw_trace := hw_trace s @ [irq_event s]\<rparr>)"
  proof -
    have "generic_handle_irq (iar s AND 0x3ff) (?a\<lparr>hw_trace := hw_trace s @ [irq_event s]\<rparr>)
        = Inr (- 1, ?a\<lparr>hw_trace := hw_trace s @ [irq_event s]\<rparr>)"
      if "15 < iar s AND 0x3ff" "iar s AND 0x3ff < 1021"
    proof (cases "unat (iar s AND 0x3ff) < 256")
      case True
      then have "id_handler (irq_descs ?a (unat (iar s AND 0x3ff))) = None"
        using assms(2) that by (auto simp: preempt_add_def upd_task_def)
      with True show ?thesis by (simp add: generic_handle_irq_def irq_to_desc_Some preempt_add_def upd_task_def)
    next
      case False
      then show ?thesis by (simp add: generic_handle_irq_def irq_to_desc_None)
    qed
    then show ?thesis
      by (auto simp: gic_handle_irq_def readl_def hw_emit_def gic_consts Let_def iar_def irq_event_def
          handle_domain_irq_def irq_find_mapping_def preempt_add_def upd_task_def not_less)
  qed
  have "preempt_sub 256 (?a\<lparr>hw_trace := hw_trace s @ [irq_event s]\<rparr>) = s\<lparr>hw_trace := hw_trace s @ [irq_event s]\<rparr>"
    by (cases s) (simp add: preempt_add_def preempt_sub_def upd_task_def current_def)
  with h assms(1) show ?thesis by (simp add: irq_handler_def preempt_add_def upd_task_def)
qed

lemma irq_handler_timer:
  assumes "irq_ready s" and "iar s AND 0x3ff = 30"
  shows "irq_handler s = Inr ((tick_handle_periodic s)\<lparr>hw_trace := hw_trace s @
     [irq_event s, Sys_write ''cntp_tval_el0'' (ucast (arch_timer_rate s)), Io_write (raw_cpu_base (gic_data s 0) + 0x10) 30]\<rparr>)"
proof -
  let ?a = "preempt_add 256 s"
  let ?b = "(tick_handle_periodic ?a)\<lparr>hw_trace := hw_trace s @ [irq_event s, Sys_write ''cntp_tval_el0'' (ucast (arch_timer_rate s)),
     Io_write (raw_cpu_base (gic_data s 0) + 0x10) 30]\<rparr>"
  have 1: "handle_timer_irq 30 param (?a\<lparr>hw_trace := hw_trace s @ [irq_event s]\<rparr>) = (0,
      (tick_handle_periodic ?a)\<lparr>hw_trace := hw_trace s @ [irq_event s, Sys_write ''cntp_tval_el0'' (ucast (arch_timer_rate s))]\<rparr>)" for param
    by (cases s) (simp add: handle_timer_irq_def generic_timer_reset_def write_sysreg_def hw_emit_def tick_handle_periodic_def
        task_tick_def nop_sched_class_def task_tick_nop_def Let_def preempt_add_def upd_task_def current_def printk_call_def)
  have d: "irq_descs (tick_handle_periodic x) = irq_descs x" "gic_data (tick_handle_periodic x) = gic_data x" for x :: "'a irq_state_scheme"
    by (simp_all add: tick_handle_periodic_def task_tick_def nop_sched_class_def task_tick_nop_def Let_def upd_task_def printk_call_def)
  have e: "irq_descs ?a = irq_descs s" "gic_data ?a = gic_data s" "arch_irq_handler ?a = arch_irq_handler s" "io_dev ?a = io_dev s"
    by (simp_all add: preempt_add_def upd_task_def)
  have "generic_handle_irq 30 (?a\<lparr>hw_trace := hw_trace s @ [irq_event s]\<rparr>) = Inr (0, ?b)"
    using assms(1) 1 by (simp add: generic_handle_irq_def irq_to_desc_Some irq_ready_def e d gicv2_chip_def call_chip_def
        gicv2_eoi_irq_def writel_def hw_emit_def gic_get_cpu_base_def gic_irq_def gic_consts Let_def)
  then have "gic_handle_irq ?a = Inr ?b"
    using assms(2) by (simp add: gic_handle_irq_def readl_def hw_emit_def gic_consts Let_def iar_def irq_event_def
        handle_domain_irq_def irq_find_mapping_def e)
  moreover have "preempt_sub 256 ?b = (tick_handle_periodic s)\<lparr>hw_trace := hw_trace s @ [irq_event s,
      Sys_write ''cntp_tval_el0'' (ucast (arch_timer_rate s)), Io_write (raw_cpu_base (gic_data s 0) + 0x10) 30]\<rparr>"
    by (cases s) (auto simp: tick_handle_periodic_def task_tick_def nop_sched_class_def task_tick_nop_def Let_def preempt_add_def
        preempt_sub_def upd_task_def current_def printk_call_def fun_eq_iff)
  ultimately show ?thesis using assms(1) by (simp add: irq_handler_def e irq_ready_def)
qed

lemma tick_fork_inv:
  fixes s :: "'a irq_state_scheme"
  assumes "fork_inv k s ts qs"
  shows "fork_inv k ((tick_handle_periodic s)\<lparr>hw_trace := h\<rparr>) ts qs"
proof -
  have "sched_inv k (tick_handle_periodic s) ts qs" using assms by (intro tick_inv) (simp add: fork_inv_def)
  then have "fork_inv k (tick_handle_periodic s) ts qs"
    by (rule fork_inv_sched [OF assms])
      (simp_all add: tick_handle_periodic_def task_tick_def nop_sched_class_def task_tick_nop_def Let_def upd_task_def printk_call_def)
  then show ?thesis by (subst fork_inv_cong [where s = "tick_handle_periodic s"]) simp_all
qed

section \<open>Set-up of the controller\<close>

lemma alloc_descs_ok:
  "unat irq + n \<le> 256 \<Longrightarrow> \<exists>f. alloc_descs_from n irq s = Inr (s\<lparr>irq_descs := f\<rparr>) \<and>
     (\<forall>i. f i = (if unat irq \<le> i \<and> i < unat irq + n then (irq_descs s i)\<lparr>id_refcount := id_refcount (irq_descs s i) + 1\<rparr> else irq_descs s i))"
proof (induction n arbitrary: irq s)
  case 0
  then show ?case by (intro exI [of _ "irq_descs s"]) simp
next
  case (Suc n)
  let ?s = "upd_desc (unat irq) (\<lambda>d. d\<lparr>id_refcount := id_refcount d + 1\<rparr>) s"
  have u: "unat (irq + 1) = Suc (unat irq)" using Suc.prems by (simp add: unat_word_ariths)
  with Suc.IH [of "irq + 1" ?s] Suc.prems obtain f where
    f: "alloc_descs_from n (irq + 1) ?s = Inr (?s\<lparr>irq_descs := f\<rparr>)"
    "\<forall>i. f i = (if Suc (unat irq) \<le> i \<and> i < Suc (unat irq) + n then (irq_descs ?s i)\<lparr>id_refcount := id_refcount (irq_descs ?s i) + 1\<rparr> else irq_descs ?s i)"
    by auto
  have "alloc_descs_from (Suc n) irq s = Inr (s\<lparr>irq_descs := f\<rparr>)"
    using f(1) Suc.prems by (simp add: with_desc_def irq_to_desc_Some upd_desc_def)
  moreover have "f i = (if unat irq \<le> i \<and> i < unat irq + Suc n then (irq_descs s i)\<lparr>id_refcount := id_refcount (irq_descs s i) + 1\<rparr> else irq_descs s i)" for i
    using f(2) by (cases "i = unat irq") (auto simp: upd_desc_def)
  ultimately show ?case by blast
qed

lemma alloc_descs_fault:
  "256 < unat irq + n \<Longrightarrow> unat irq + n < 2 ^ 32 \<Longrightarrow> n \<noteq> 0 \<Longrightarrow> alloc_descs_from n irq s = Inl Null_deref"
proof (induction n arbitrary: irq s)
  case 0
  then show ?case by simp
next
  case (Suc n)
  show ?case
  proof (cases "unat irq < 256")
    case True
    have u: "unat (irq + 1) = Suc (unat irq)" using Suc.prems(2) by (simp add: unat_word_ariths)
    with True Suc show ?thesis by (cases "n = 0") (simp_all add: with_desc_def irq_to_desc_Some)
  next
    case False
    then show ?thesis by (simp add: with_desc_def irq_to_desc_None)
  qed
qed

lemma map_irqs_ok:
  assumes "dm_map (domains s d) = Some Gicv2_irq_map"
  shows "unat irq + n \<le> 256 \<Longrightarrow> 16 \<le> unat irq \<Longrightarrow> \<exists>f. map_irqs_from n d irq irq s = Inr (s\<lparr>irq_descs := f\<rparr>) \<and>
     (\<forall>i. f i = (if unat irq \<le> i \<and> i < unat irq + n
        then (irq_descs s i)\<lparr>id_domain := d, id_hwirq := word_of_nat i, id_chip := Some gicv2_chip, id_chip_data := dm_host_data (domains s d)\<rparr>
        else irq_descs s i))"
  using assms
proof (induction n arbitrary: irq s)
  case 0
  then show ?case by (intro exI [of _ "irq_descs s"]) auto
next
  case (Suc n)
  let ?g = "\<lambda>i s. (irq_descs s i)\<lparr>id_domain := d, id_hwirq := word_of_nat i, id_chip := Some gicv2_chip, id_chip_data := dm_host_data (domains s d)\<rparr>"
  let ?s = "s\<lparr>irq_descs := (irq_descs s)(unat irq := ?g (unat irq) s)\<rparr>"
  have u: "unat (irq + 1) = Suc (unat irq)" using Suc.prems by (simp add: unat_word_ariths)
  with Suc.IH [of "irq + 1" ?s] Suc.prems obtain f where
    f: "map_irqs_from n d (irq + 1) (irq + 1) ?s = Inr (?s\<lparr>irq_descs := f\<rparr>)"
    "\<forall>i. f i = (if Suc (unat irq) \<le> i \<and> i < Suc (unat irq) + n then ?g i ?s else irq_descs ?s i)"
    by auto
  have m: "irq_domain_map_irq d irq irq s = Inr (0, ?s)"
    using Suc.prems by (simp add: irq_domain_map_irq_def with_desc_def irq_to_desc_Some gicv2_irq_map_def
        irq_domain_set_hwirq_chip_def upd_desc_def Let_def word_le_nat_alt)
  have "map_irqs_from (Suc n) d irq irq s = Inr (s\<lparr>irq_descs := f\<rparr>)"
    using f(1) m by simp
  moreover have "f i = (if unat irq \<le> i \<and> i < unat irq + Suc n then ?g i s else irq_descs s i)" for i
    using f(2) by (cases "i = unat irq") auto
  ultimately show ?case by blast
qed

text \<open>An operation that only talks to the hardware.\<close>

definition io_only :: "('a machine_scheme \<Rightarrow> 'a machine_scheme) \<Rightarrow> bool" where
  "io_only f \<longleftrightarrow> (\<forall>s. \<exists>es. f s = s\<lparr>hw_trace := hw_trace s @ es\<rparr>)"

lemma io_only_writel: "io_only (writel v a)"
  by (auto simp: io_only_def writel_def hw_emit_def)

lemma io_only_comp: "io_only f \<Longrightarrow> io_only g \<Longrightarrow> io_only (\<lambda>s. f (g s))"
proof -
  assume f: "io_only f" and g: "io_only g"
  have "\<exists>es. f (g s) = s\<lparr>hw_trace := hw_trace s @ es\<rparr>" for s
  proof -
    obtain e1 where e1: "g s = s\<lparr>hw_trace := hw_trace s @ e1\<rparr>" using g by (auto simp: io_only_def)
    obtain e2 where e2: "f (g s) = (g s)\<lparr>hw_trace := hw_trace (g s) @ e2\<rparr>" using f by (auto simp: io_only_def)
    show ?thesis by (rule exI [of _ "e1 @ e2"]) (simp add: e2, simp add: e1)
  qed
  then show ?thesis by (simp add: io_only_def)
qed

lemma io_only_write_regs:
  assumes "\<And>i. io_only (w i)"
  shows "io_only (write_regs i step bound w)"
proof -
  have "\<exists>es. write_regs i step bound w s = s\<lparr>hw_trace := hw_trace s @ es\<rparr>" for s
  proof (induction "bound - i" arbitrary: i s rule: less_induct)
    case less
    show ?case
    proof (cases "i < bound \<and> 0 < step")
      case True
      obtain e1 where e1: "w i s = s\<lparr>hw_trace := hw_trace s @ e1\<rparr>" using assms [of i] by (auto simp: io_only_def)
      have "bound - (i + step) < bound - i" using True by arith
      from less.hyps [OF this, of "w i s"] obtain e2 where
        "write_regs (i + step) step bound w (w i s) = (w i s)\<lparr>hw_trace := hw_trace (w i s) @ e2\<rparr>" by blast
      with True e1 show ?thesis by (intro exI [of _ "e1 @ e2"]) (simp add: write_regs.simps [of i])
    next
      case False
      then show ?thesis by (intro exI [of _ "[]"]) (auto simp: write_regs.simps [of i])
    qed
  qed
  then show ?thesis by (simp add: io_only_def)
qed

lemma io_only_cpumask: "\<exists>es. snd (cpumask_from n i base m s) = s\<lparr>hw_trace := hw_trace s @ es\<rparr>"
proof (induction n arbitrary: i m s)
  case 0
  then show ?case by (auto intro: exI [of _ "[]"])
next
  case (Suc n)
  let ?v = "io_dev s (hw_trace s) (base + GIC_DIST_TARGET + word_of_nat i)"
  let ?s = "s\<lparr>hw_trace := hw_trace s @ [Io_read (base + GIC_DIST_TARGET + word_of_nat i) ?v]\<rparr>"
  from Suc.IH [of "i + 4" _ ?s] show ?case
    by (simp add: readl_def hw_emit_def Let_def) (metis append_Cons append_Nil)
qed

lemma gic_dist_init_io: "\<exists>es. gic_dist_init g s = s\<lparr>hw_trace := hw_trace s @ es\<rparr>"
proof -
  obtain m s1 where m: "gic_get_cpumask g (writel GICD_DISABLE (raw_dist_base g + GIC_DIST_CTRL) s) = (m, s1)" by fastforce
  let ?rest = "\<lambda>s. writel GICD_ENABLE (raw_dist_base g + GIC_DIST_CTRL) (writel GICD_INT_EN_SET_SGI (raw_dist_base g + GIC_DIST_ENABLE_SET)
      (write_regs 0 32 (unat (gic_irqs g)) (\<lambda>i s.
            writel GICD_INT_EN_CLR_X32 (raw_dist_base g + GIC_DIST_ENABLE_CLEAR + word_of_nat (i div 8))
                (writel GICD_INT_EN_CLR_X32 (raw_dist_base g + GIC_DIST_ACTIVE_CLEAR + word_of_nat (i div 8)) s))
        (write_regs 32 16 (unat (gic_irqs g)) (\<lambda>i. writel GICD_INT_ACTLOW_LVLTRIG (raw_dist_base g + GIC_DIST_CONFIG + word_of_nat (i div 4)))
          (write_regs 32 4 (unat (gic_irqs g)) (\<lambda>i. writel
              ((m OR push_bit 8 m) OR push_bit 16 (m OR push_bit 8 m))
              (raw_dist_base g + GIC_DIST_TARGET + word_of_nat (i * 4 div 4))) s))))"
  have eq: "gic_dist_init g s = ?rest s1" by (simp only: gic_dist_init_def Let_def m prod.case)
  have "io_only ?rest"
    by (rule io_only_comp [of "writel _ _"], rule io_only_writel, rule io_only_comp [of "writel _ _"], rule io_only_writel,
        rule io_only_comp [of "write_regs _ _ _ _"], rule io_only_write_regs, rule io_only_comp [of "writel _ _"],
        rule io_only_writel, rule io_only_writel, rule io_only_comp [of "write_regs _ _ _ _"], rule io_only_write_regs,
        rule io_only_writel, rule io_only_write_regs, rule io_only_writel)
  then obtain e1 where e1: "?rest s1 = s1\<lparr>hw_trace := hw_trace s1 @ e1\<rparr>" unfolding io_only_def by blast
  obtain e0 where e0: "s1 = (writel GICD_DISABLE (raw_dist_base g + GIC_DIST_CTRL) s)\<lparr>hw_trace :=
      hw_trace (writel GICD_DISABLE (raw_dist_base g + GIC_DIST_CTRL) s) @ e0\<rparr>"
    using io_only_cpumask [of 8 0 "raw_dist_base g" 0 "writel 0 (raw_dist_base g + GIC_DIST_CTRL) s"] m
    by (auto simp: gic_get_cpumask_def)
  show ?thesis unfolding eq e1 by (subst e0, subst e0) (auto simp: writel_def hw_emit_def)
qed

lemma gic_cpu_init_io: "\<exists>es. gic_cpu_init g s = s\<lparr>hw_trace := hw_trace s @ es\<rparr>"
proof -
  have eq: "gic_cpu_init g = (\<lambda>s. writel GICC_ENABLE (raw_cpu_base g + GIC_CPU_CTRL) (writel GICC_INT_PRI_THRESHOLD (raw_cpu_base g + GIC_CPU_PRIMASK)
      (write_regs 0 4 32 (\<lambda>i. writel 0xA0A0A0A0 (raw_dist_base g + GIC_DIST_PRI + word_of_nat (i * 4 div 4))) s)))"
    by (rule ext) (simp only: gic_cpu_init_def Let_def)
  have "io_only (gic_cpu_init g)"
    unfolding eq by (rule io_only_comp [of "writel _ _"], rule io_only_writel, rule io_only_comp [of "writel _ _"],
        rule io_only_writel, rule io_only_write_regs, rule io_only_writel)
  then show ?thesis unfolding io_only_def by blast
qed

definition gic_lines :: "u64 \<Rightarrow> 'a irq_state_scheme \<Rightarrow> nat" where
  "gic_lines dist_base s = 32 * (unat (io_dev s (hw_trace s) (dist_base + 4) AND 0x1f) + 1)"

definition gic_read :: "u64 \<Rightarrow> u64 \<Rightarrow> 'a irq_state_scheme \<Rightarrow> 'a irq_state_scheme" where
  "gic_read dist_base cpu_base s =
     s\<lparr>gic_data := (gic_data s)(0 := (gic_data s 0)\<lparr>raw_dist_base := dist_base, raw_cpu_base := cpu_base,
         gic_chip := Some gicv2_chip, gic_irqs := word_of_nat (min 1020 (gic_lines dist_base s))\<rparr>),
       hw_trace := hw_trace s @ [Io_read (dist_base + 4) (io_dev s (hw_trace s) (dist_base + 4))]\<rparr>"

lemma unat_and_1f: "unat (v AND 0x1f :: u32) < 32"
proof -
  have "(0x1f :: u32) = mask 5" by (simp add: mask_eq_exp_minus_1)
  then have "unat (v AND 0x1f) = unat v mod 2 ^ 5" by (simp only: unat_and_mask)
  then show ?thesis by simp
qed

lemma gic_irqs_word:
  "(if 1020 < (v AND 0x1f :: u32) * 32 + 32 then 1020 else (v AND 0x1f) * 32 + 32)
     = word_of_nat (min 1020 (32 * (unat (v AND 0x1f) + 1)))"
proof -
  let ?k = "32 * (unat (v AND 0x1f) + 1)"
  have w: "(v AND 0x1f) * 32 + 32 = word_of_nat ?k" by (simp add: algebra_simps)
  have "unat (word_of_nat ?k :: u32) = ?k"
    using unat_and_1f [of v] by (simp only: unsigned_of_nat) (simp add: take_bit_nat_eq_self)
  then have "1020 < (word_of_nat ?k :: u32) \<longleftrightarrow> 1020 < ?k" by (simp only: word_less_nat_alt) simp
  then show ?thesis unfolding w by (cases "1020 < ?k") (simp_all only: if_True if_False min.absorb1 min.absorb2 less_imp_le not_less of_nat_numeral)
qed

lemma gic_init_eq:
  fixes s :: "'a irq_state_scheme" and dist_base cpu_base :: u64
  defines "n \<equiv> word_of_nat (min 1020 (gic_lines dist_base s)) - 16 :: u32"
  shows "gic_init 0 dist_base cpu_base s =
     bindr (alloc_descs_from (unat n) 16 (gic_read dist_base cpu_base s)) (\<lambda>s.
       bindr (irq_domain_add 16 16 n (Some Gicv2_irq_map) 0 s) (\<lambda>(domain, s).
         let s = upd_gic 0 (\<lambda>g. g\<lparr>gic_domain := domain\<rparr>) s
         in if domain = 0 then Inr (- 1, s)
            else let s = printk_call ''%s: cpu_base:0x%x, dist_base:0x%x, gic_irqs:%d\<newline>''
                            [Arg_str ''gic_init'', Arg_word cpu_base, Arg_word dist_base, Arg_word (ucast (gic_irqs (gic_data s 0)))] s;
                      s = gic_dist_init (gic_data s 0) s;
                      s = gic_cpu_init (gic_data s 0) s
                  in Inr (0, set_handle_irq Gic_handle_irq s)))"
proof -
  let ?v = "io_dev s (hw_trace s) (dist_base + 4)"
  have r: "upd_gic 0 (\<lambda>g. g\<lparr>gic_irqs := i\<rparr>) (hw_emit (Io_read (dist_base + 4) ?v) (upd_gic 0 (\<lambda>g. g\<lparr>gic_chip := Some gicv2_chip\<rparr>)
      (upd_gic 0 (\<lambda>g. g\<lparr>raw_cpu_base := cpu_base\<rparr>) (upd_gic 0 (\<lambda>g. g\<lparr>raw_dist_base := dist_base\<rparr>) s)))) =
     s\<lparr>gic_data := (gic_data s)(0 := (gic_data s 0)\<lparr>raw_dist_base := dist_base, raw_cpu_base := cpu_base,
         gic_chip := Some gicv2_chip, gic_irqs := i\<rparr>), hw_trace := hw_trace s @ [Io_read (dist_base + 4) ?v]\<rparr>" for i
    by (cases s) (simp add: upd_gic_def hw_emit_def)
  have v: "io_dev (upd_gic 0 f s) = io_dev s" "hw_trace (upd_gic 0 f s) = hw_trace s"
     "raw_dist_base (gic_data (upd_gic 0 (\<lambda>g. g\<lparr>gic_chip := Some gicv2_chip\<rparr>)
      (upd_gic 0 (\<lambda>g. g\<lparr>raw_cpu_base := cpu_base\<rparr>) (upd_gic 0 (\<lambda>g. g\<lparr>raw_dist_base := dist_base\<rparr>) s))) 0) = dist_base" for f s
    by (simp_all add: upd_gic_def)
  have w: "(if 1020 < ((?v AND 0x1f) + 1) * 32 then 1020 else ((?v AND 0x1f) + 1) * 32) = word_of_nat (min 1020 (gic_lines dist_base s))"
    using gic_irqs_word [of ?v] by (simp only: gic_lines_def ring_distribs mult_1)
  show ?thesis
    unfolding gic_init_def readl_def Let_def prod.case GIC_DIST_CTR_def v w r
    by (simp add: gic_consts n_def Let_def irq_alloc_descs_def bindr_assoc gic_read_def cong: if_cong)
qed


lemma upd_gic_fork_inv [simp]: "fork_inv k (upd_gic i f s) ts qs \<longleftrightarrow> fork_inv k s ts qs"
  by (rule fork_inv_cong) (simp_all add: upd_gic_def)

lemma fork_inv_alloc:
  assumes "fork_inv k s ts qs" and "i < NR_PAGES" and "mem_map s i = 0"
  shows "fork_inv k (s\<lparr>mem_map := (mem_map s)(i := 1)\<rparr>) ts qs"
proof -
  have "sched_inv k (s\<lparr>mem_map := (mem_map s)(i := 1)\<rparr>) ts qs \<longleftrightarrow> sched_inv k s ts qs"
    by (simp add: sched_inv_def sched_rep_def task_ring_def counters_ok_def suspended_def preempt_count_def current_def)
  then show ?thesis using assms by (auto simp: fork_inv_def used_pages_alloc)
qed

text \<open>The descriptors after the set-up: those of the lines from 16 on have the chip of the controller.\<close>

definition gic_mapped :: "nat \<Rightarrow> u64 \<Rightarrow> 'a irq_state_scheme \<Rightarrow> nat \<Rightarrow> irq_desc" where
  "gic_mapped lines domain s i =
     (if 16 \<le> i \<and> i < lines then (irq_descs s i)\<lparr>id_refcount := id_refcount (irq_descs s i) + 1,
         id_domain := domain, id_hwirq := word_of_nat i, id_chip := Some gicv2_chip, id_chip_data := 0\<rparr>
      else irq_descs s i)"

lemma gic_init_ok:
  fixes s :: "'a irq_state_scheme"
  assumes "gic_lines dist_base s \<le> 256" and "i < NR_PAGES" and "get_free_page s = (page_addr i, s\<lparr>mem_map := (mem_map s)(i := 1)\<rparr>)"
  shows "\<exists>s' d es. gic_init 0 dist_base cpu_base s = Inr (0, s') \<and>
     s' = s\<lparr>gic_data := (gic_data s)(0 := \<lparr>raw_dist_base = dist_base, raw_cpu_base = cpu_base, gic_domain = page_addr i,
              gic_chip = Some gicv2_chip, gic_irqs = word_of_nat (gic_lines dist_base s)\<rparr>),
        hw_trace := hw_trace s @ es, klog := klog s @ [(''%s: cpu_base:0x%x, dist_base:0x%x, gic_irqs:%d\<newline>'',
          [Arg_str ''gic_init'', Arg_word cpu_base, Arg_word dist_base, Arg_word (word_of_nat (gic_lines dist_base s))])],
        mem_map := (mem_map s)(i := 1), arch_irq_handler := Some Gic_handle_irq, domains := d,
        irq_descs := gic_mapped (gic_lines dist_base s) (page_addr i) s\<rparr>"
proof -
  let ?n = "gic_lines dist_base s" and ?p = "page_addr i"
  let ?r = "gic_read dist_base cpu_base s"
  have n: "32 \<le> ?n" "?n \<le> 256" using assms(1) by (simp_all add: gic_lines_def)
  define m :: u32 where "m = word_of_nat ?n - 16"
  have m: "unat m = ?n - 16" using n by (simp add: m_def unat_sub unsigned_of_nat take_bit_nat_eq_self word_le_nat_alt)
  have mm: "word_of_nat (min 1020 ?n) - 16 = m" using n by (simp add: m_def)
  have "unat (16 :: u32) + unat m \<le> 256" using m n by simp
  from alloc_descs_ok [OF this, of ?r] obtain f where
    f: "alloc_descs_from (unat m) 16 ?r = Inr (?r\<lparr>irq_descs := f\<rparr>)"
    "\<forall>i. f i = (if 16 \<le> i \<and> i < 16 + unat m then (irq_descs ?r i)\<lparr>id_refcount := id_refcount (irq_descs ?r i) + 1\<rparr> else irq_descs ?r i)"
    by auto
  define a where "a = ?r\<lparr>irq_descs := f\<rparr>"
  define b where "b = a\<lparr>mem_map := (mem_map s)(i := 1),
      domains := (domains s)(?p := \<lparr>dm_map = Some Gicv2_irq_map, dm_hwirq_max = 16 + m, dm_host_data = 0\<rparr>)\<rparr>"
  have page: "get_free_page a = (?p, a\<lparr>mem_map := (mem_map s)(i := 1)\<rparr>)"
  proof -
    have "mem_map a = mem_map s" by (simp add: a_def gic_read_def)
    then have "fst (get_free_page a) = ?p" using get_free_page_fst [of a s] assms(3) by simp
    then show ?thesis
    proof (cases rule: get_free_page_cases [of a])
      case (found j)
      with \<open>fst (get_free_page a) = ?p\<close> assms(2) have "j = i" by (simp add: page_addr_inj)
      with found \<open>mem_map a = mem_map s\<close> show ?thesis by simp
    next
      case full
      with \<open>fst (get_free_page a) = ?p\<close> assms(2) show ?thesis by simp
    qed
  qed
  have "domains b ?p = \<lparr>dm_map = Some Gicv2_irq_map, dm_hwirq_max = 16 + m, dm_host_data = 0\<rparr>" by (simp add: b_def)
  then have db: "dm_map (domains b ?p) = Some Gicv2_irq_map" "dm_host_data (domains b ?p) = 0" by simp_all
  from map_irqs_ok [OF db(1), of 16 "unat m"] m n db(2) obtain g where
    g: "map_irqs_from (unat m) ?p 16 16 b = Inr (b\<lparr>irq_descs := g\<rparr>)"
    "\<forall>i. g i = (if 16 \<le> i \<and> i < 16 + unat m then (irq_descs b i)\<lparr>id_domain := ?p, id_hwirq := word_of_nat i,
        id_chip := Some gicv2_chip, id_chip_data := 0\<rparr> else irq_descs b i)" by auto
  have geq: "g = gic_mapped ?n ?p s"
    using g(2) f(2) m n by (auto simp: fun_eq_iff gic_mapped_def b_def a_def gic_read_def)
  have add: "irq_domain_add 16 16 m (Some Gicv2_irq_map) 0 a = Inr (?p, b\<lparr>irq_descs := g\<rparr>)"
  proof -
    have "a\<lparr>mem_map := (mem_map s)(i := 1), domains := (domains a)(?p := \<lparr>dm_map = Some Gicv2_irq_map, dm_hwirq_max = 16 + m, dm_host_data = 0\<rparr>)\<rparr> = b"
      by (simp add: b_def a_def gic_read_def)
    with g(1) assms(2) show ?thesis by (simp add: irq_domain_add_def page)
  qed
  define c where "c = printk_call ''%s: cpu_base:0x%x, dist_base:0x%x, gic_irqs:%d\<newline>''
     [Arg_str ''gic_init'', Arg_word cpu_base, Arg_word dist_base, Arg_word (word_of_nat ?n)]
     (upd_gic 0 (\<lambda>g. g\<lparr>gic_domain := ?p\<rparr>) (b\<lparr>irq_descs := g\<rparr>))"
  have irqs: "gic_irqs (gic_data (upd_gic 0 (\<lambda>g. g\<lparr>gic_domain := ?p\<rparr>) (b\<lparr>irq_descs := g\<rparr>)) 0) = word_of_nat ?n"
    using n by (simp add: b_def a_def gic_read_def upd_gic_def)
  have u: "ucast (word_of_nat ?n :: u32) = (word_of_nat ?n :: u64)"
    using n by (simp add: word_unat_eq_iff unsigned_ucast_eq unsigned_of_nat take_bit_nat_eq_self)
  obtain e1 where e1: "gic_dist_init (gic_data c 0) c = c\<lparr>hw_trace := hw_trace c @ e1\<rparr>" using gic_dist_init_io by blast
  obtain e2 where e2: "gic_cpu_init (gic_data c 0) (c\<lparr>hw_trace := hw_trace c @ e1\<rparr>)
      = c\<lparr>hw_trace := hw_trace c @ e1 @ e2\<rparr>"
    using gic_cpu_init_io [of "gic_data c 0" "c\<lparr>hw_trace := hw_trace c @ e1\<rparr>"] by auto
  have "gic_init 0 dist_base cpu_base s = Inr (0, set_handle_irq Gic_handle_irq (c\<lparr>hw_trace := hw_trace c @ e1 @ e2\<rparr>))"
    unfolding gic_init_eq mm using f(1) add assms(2) e1 e2 by (simp add: irqs u Let_def flip: a_def c_def)
  moreover have "set_handle_irq Gic_handle_irq (c\<lparr>hw_trace := hw_trace c @ e1 @ e2\<rparr>) =
      s\<lparr>gic_data := (gic_data s)(0 := \<lparr>raw_dist_base = dist_base, raw_cpu_base = cpu_base, gic_domain = ?p,
              gic_chip = Some gicv2_chip, gic_irqs = word_of_nat ?n\<rparr>),
        hw_trace := hw_trace s @ Io_read (dist_base + 4) (io_dev s (hw_trace s) (dist_base + 4)) # e1 @ e2,
        klog := klog s @ [(''%s: cpu_base:0x%x, dist_base:0x%x, gic_irqs:%d\<newline>'',
          [Arg_str ''gic_init'', Arg_word cpu_base, Arg_word dist_base, Arg_word (word_of_nat ?n)])],
        mem_map := (mem_map s)(i := 1), arch_irq_handler := Some Gic_handle_irq, domains := domains b,
        irq_descs := gic_mapped ?n ?p s\<rparr>"
  proof -
    have "arch_irq_handler s = None \<or> arch_irq_handler s = Some Gic_handle_irq"
      by (cases "arch_irq_handler s") (auto intro: arch_handler_fn.exhaust)
    then have h: "set_handle_irq Gic_handle_irq x = x\<lparr>arch_irq_handler := Some Gic_handle_irq\<rparr>"
      if "arch_irq_handler x = arch_irq_handler s" for x :: "'a irq_state_scheme"
      using that by (cases x) (auto simp: set_handle_irq_def)
    have mn: "min 1020 ?n = ?n" using n by simp
    have ac: "arch_irq_handler c = arch_irq_handler s"
      by (simp add: c_def b_def a_def gic_read_def upd_gic_def printk_call_def)
    have gd: "(g :: gic_chip_data_t)\<lparr>raw_dist_base := a1, raw_cpu_base := a2, gic_chip := a3, gic_irqs := a4, gic_domain := a5\<rparr> =
        \<lparr>raw_dist_base = a1, raw_cpu_base = a2, gic_domain = a5, gic_chip = a3, gic_irqs = a4\<rparr>" for g a1 a2 a3 a4 a5
      by (cases g) simp
    show ?thesis
      by (subst h, simp add: ac)
        (simp add: c_def b_def a_def gic_read_def upd_gic_def printk_call_def geq mn, rule irq_state.equality, simp_all add: gd)
  qed
  ultimately show ?thesis by blast
qed


section \<open>Properties of the interrupts\<close>

text \<open>C31. On a controller with at most 256 lines and with a free page, \<open>gic_init\<close> returns 0: the lines from 16
  to the last have the controller's chip and their own number, all the others are as before, the controller
  is the handler of the interrupts, and one page more is in use. With more than 256 lines the loop that
  allocates the descriptors dereferences the null descriptor of line 256.\<close>

theorem gic_init_descriptors:
  assumes "fork_inv k s ts qs" and "fst (get_free_page s) \<noteq> 0"
  shows "if gic_lines dist_base s \<le> 256
     then \<exists>s'. gic_init 0 dist_base cpu_base s = Inr (0, s') \<and> fork_inv k s' ts qs \<and>
            used_pages s' = insert (fst (get_free_page s)) (used_pages s) \<and> arch_irq_handler s' = Some Gic_handle_irq \<and>
            raw_cpu_base (gic_data s' 0) = cpu_base \<and>
            irq_descs s' = gic_mapped (gic_lines dist_base s) (fst (get_free_page s)) s
     else gic_init 0 dist_base cpu_base s = Inl Null_deref"
proof (cases "gic_lines dist_base s \<le> 256")
  case True
  obtain i where i: "i < NR_PAGES" "mem_map s i = 0" "get_free_page s = (page_addr i, s\<lparr>mem_map := (mem_map s)(i := 1)\<rparr>)"
    using assms(2) by (cases rule: get_free_page_cases [of s]) auto
  from gic_init_ok [OF True i(1,3), of cpu_base] obtain s' d es where s': "gic_init 0 dist_base cpu_base s = Inr (0, s')"
    "s' = s\<lparr>gic_data := (gic_data s)(0 := \<lparr>raw_dist_base = dist_base, raw_cpu_base = cpu_base, gic_domain = page_addr i,
              gic_chip = Some gicv2_chip, gic_irqs = word_of_nat (gic_lines dist_base s)\<rparr>),
        hw_trace := hw_trace s @ es, klog := klog s @ [(''%s: cpu_base:0x%x, dist_base:0x%x, gic_irqs:%d\<newline>'',
          [Arg_str ''gic_init'', Arg_word cpu_base, Arg_word dist_base, Arg_word (word_of_nat (gic_lines dist_base s))])],
        mem_map := (mem_map s)(i := 1), arch_irq_handler := Some Gic_handle_irq, domains := d,
        irq_descs := gic_mapped (gic_lines dist_base s) (page_addr i) s\<rparr>" by blast
  have "fork_inv k s' ts qs \<longleftrightarrow> fork_inv k (s\<lparr>mem_map := (mem_map s)(i := 1)\<rparr>) ts qs"
    by (rule fork_inv_cong) (simp_all add: s'(2))
  with fork_inv_alloc [OF assms(1) i(1,2)] have inv: "fork_inv k s' ts qs" by simp
  have "used_pages s' = used_pages (s\<lparr>mem_map := (mem_map s)(i := 1)\<rparr>)" by (simp add: used_pages_def s'(2))
  with used_pages_alloc [OF i(1), of s] have u: "used_pages s' = insert (page_addr i) (used_pages s)" by simp
  from True s'(1) inv u show ?thesis by (simp add: i(3)) (simp add: s'(2))
next
  case False
  define n :: u32 where "n = word_of_nat (min 1020 (gic_lines dist_base s)) - 16"
  have "unat (word_of_nat (min 1020 (gic_lines dist_base s)) :: u32) = min 1020 (gic_lines dist_base s)"
    by (simp only: unsigned_of_nat) (simp add: take_bit_nat_eq_self)
  then have "unat n = min 1020 (gic_lines dist_base s) - 16" using False by (simp add: n_def unat_sub word_le_nat_alt)
  then have "256 < unat (16 :: u32) + unat n" "unat (16 :: u32) + unat n < 2 ^ 32" "unat n \<noteq> 0" using False by simp_all
  from alloc_descs_fault [OF this, of "gic_read dist_base cpu_base s"] False show ?thesis by (simp add: gic_init_eq flip: n_def)
qed

text \<open>An interrupt whose line has no handler, or a line that is not in the table, is acknowledged and nothing
  else: no write ends it, so the controller keeps it active; the rest of the state is as before.\<close>

theorem unhandled_interrupt_not_ended:
  assumes "arch_irq_handler s = Some Gic_handle_irq"
    and "iar s AND 0x3ff \<le> 15 \<or> 256 \<le> unat (iar s AND 0x3ff) \<or> id_handler (irq_descs s (unat (iar s AND 0x3ff))) = None"
  shows "irq_handler s = Inr (s\<lparr>hw_trace := hw_trace s @ [irq_event s]\<rparr>)"
  using irq_handler_unhandled [OF assms(1)] assms(2) by fastforce


text \<open>A kernel with two threads, a controller of 32 lines and a pending timer interrupt.\<close>

definition demo_irq :: irq_state where
  "demo_irq = fork_state.extend (demo_fork\<lparr>io_dev := (\<lambda>_ a. if a = 0xff84200c then 30 else 0)\<rparr>)
     (irq_state.fields
       (\<lambda>i. \<lparr>id_name = [], id_hwirq = if i = 30 then 30 else 0, id_chip = if i = 30 then Some gicv2_chip else None, id_domain = 0,
          id_chip_data = 0, id_refcount = 0, id_handler = if i = 30 then Some Handle_timer_irq else None, id_param = 0\<rparr>)
       (\<lambda>_. \<lparr>dm_map = None, dm_hwirq_max = 0, dm_host_data = 0\<rparr>) (Some Gic_handle_irq)
       (\<lambda>_. \<lparr>raw_dist_base = 0xff841000, raw_cpu_base = 0xff842000, gic_domain = 0, gic_chip = Some gicv2_chip, gic_irqs = 32\<rparr>) 1000)"

lemma demo_irq_simps:
  "tasks demo_irq = tasks demo_sched" "syms demo_irq = syms demo_sched" "mem_map demo_irq = mem_map demo_sched"
  "lists demo_irq = lists demo_sched" "rq demo_irq = rq demo_sched" "cpu demo_irq = cpu demo_sched" "g_task demo_irq = g_task demo_fork"
  "io_dev demo_irq = (\<lambda>_ a. if a = 0xff84200c then 30 else 0)" "arch_irq_handler demo_irq = Some Gic_handle_irq"
  "hw_trace demo_irq = []" "raw_cpu_base (gic_data demo_irq 0) = 0xff842000"
  by (simp_all add: demo_irq_def fork_state.extend_def irq_state.fields_def demo_fork_def sched_state.extend_def
      fork_state.fields_def demo_sched_def)

lemma demo_irq_current: "current demo_irq = 0x90000"
  using demo_current by (simp add: current_def demo_irq_simps)

lemma demo_irq_inv: "fork_inv 0 demo_irq [0x400000, 0x401000] [0x401000, 0x400000]"
proof -
  have "fork_inv 0 demo_irq [0x400000, 0x401000] [0x401000, 0x400000] \<longleftrightarrow>
      fork_inv 0 demo_fork [0x400000, 0x401000] [0x401000, 0x400000]"
    by (rule fork_inv_cong) (simp_all add: demo_irq_simps demo_fork_simps,
        simp_all add: demo_fork_def sched_state.extend_def fork_state.fields_def)
  with demo_fork_inv show ?thesis by simp
qed

lemma demo_irq_page: "fst (get_free_page demo_irq) = 0x402000"
  using get_free_page_fst [of demo_irq demo_fork] demo_fork_page by (simp add: demo_irq_simps demo_fork_simps)

lemma demo_irq_ready: "irq_ready demo_irq" "iar demo_irq = 30"
  by (simp_all add: irq_ready_def iar_def demo_irq_simps)
    (simp_all add: demo_irq_def fork_state.extend_def irq_state.fields_def)

lemma demo_irq_lines: "gic_lines d demo_irq = 32" if "d \<noteq> 0xff842008"
  using that by (auto simp: gic_lines_def demo_irq_simps)

theorem gic_init_descriptors_witness:
  "\<exists>s'. gic_init 0 0xff841000 0xff842000 demo_irq = Inr (0, s') \<and> irq_descs s' = gic_mapped 32 0x402000 demo_irq"
  using gic_init_descriptors [OF demo_irq_inv, of "0xff841000" "0xff842000"] demo_irq_lines [of "0xff841000"]
  by (auto simp: demo_irq_page)

theorem unhandled_interrupt_not_ended_witness:
  "\<exists>s'. irq_handler (demo_irq\<lparr>io_dev := (\<lambda>_ _. 0x2f)\<rparr>) = Inr s' \<and> hw_trace s' = [Io_read 0xff84200c 0x2f]"
proof -
  let ?s = "demo_irq\<lparr>io_dev := (\<lambda>_ _. 0x2f)\<rparr>"
  have i: "iar ?s = 0x2f" by (simp add: iar_def)
  have "arch_irq_handler ?s = Some Gic_handle_irq" "id_handler (irq_descs ?s 47) = None"
    by (simp_all add: demo_irq_simps) (simp add: demo_irq_def fork_state.extend_def irq_state.fields_def)
  with unhandled_interrupt_not_ended [of ?s] show ?thesis
    by (simp add: i irq_event_def demo_irq_simps)
qed

lemma timer_init_eq:
  fixes s :: "'a irq_state_scheme"
  assumes "id_chip (irq_descs s 30) = Some gicv2_chip" and "id_hwirq (irq_descs s 30) = 30"
  shows "\<exists>es f r. timer_init s = Inr (s\<lparr>arch_timer_rate := f div 250, hw_trace := hw_trace s @ es @
       [Io_write (raw_dist_base (gic_data s 0) + 0x100) 0x40000000, Io_write 0xFF800040 2],
     klog := klog s @ [r],
     irq_descs := (irq_descs s)(30 := (irq_descs s 30)\<lparr>id_handler := Some Handle_timer_irq, id_param := 0, id_name := ''core timer''\<rparr>)\<rparr>)"
proof -
  let ?f = "ucast (sys_dev s (hw_trace s) ''cntfrq_el0'') :: u32"
  have u: "ucast (30 div 32 * 4 :: u32) = (0 :: u64)" "push_bit (unat (30 mod 32 :: u32)) 1 = (0x40000000 :: u32)" by simp_all
  show ?thesis
    apply (rule exI [of _ "[Sys_read ''cntfrq_el0'' (sys_dev s (hw_trace s) ''cntfrq_el0''), Sys_write ''cntp_ctl_el0'' 1,
         Sys_write ''cntp_tval_el0'' (ucast (?f div 250))]"], rule exI [of _ ?f],
         rule exI [of _ "(''cntp freq:0x%x'' @ [CHR 0x0D, CHR 0x0A], [Arg_word (ucast ?f)])"])
    apply (simp add: timer_init_def generic_timer_get_freq_def read_sysreg_def write_sysreg_def hw_emit_def Let_def HZ_def
        generic_timer_init_def generic_timer_reset_def request_irq_def gic_consts irq_to_desc_def upd_desc_def irq_enable_def
        assms gicv2_chip_def call_chip_def gicv2_unmask_irq_def gic_set_irq_def gic_irq_def writel_def gic_get_dist_base_def
        enable_timer_interrupt_def TIMER_CNTRL0_def CNT_PNS_IRQ_def printk_call_def)
    done
qed


text \<open>The boot sequence of the interrupts, \<open>arch_irq_init\<close> then \<open>timer_init\<close>: it returns, keeps the
  invariant, and leaves the state in which the timer interrupt is handled; its last accesses enable line
  30 in the distributor and the timer's output in the local controller.\<close>

theorem interrupts_ready:
  assumes "fork_inv k s ts qs" and "fst (get_free_page s) \<noteq> 0" and "gic_lines GIC_V2_DISTRIBUTOR_BASE s \<le> 256"
  shows "\<exists>s' es. bindr (arch_irq_init s) timer_init = Inr s' \<and> irq_ready s' \<and> fork_inv k s' ts qs \<and>
     raw_cpu_base (gic_data s' 0) = GIC_V2_CPU_INTERFACE_BASE \<and>
     hw_trace s' = hw_trace s @ es @ [Io_write (GIC_V2_DISTRIBUTOR_BASE + 0x100) 0x40000000, Io_write 0xFF800040 2]"
proof -
  let ?d = GIC_V2_DISTRIBUTOR_BASE and ?c = GIC_V2_CPU_INTERFACE_BASE
  obtain i where i: "i < NR_PAGES" "mem_map s i = 0" "get_free_page s = (page_addr i, s\<lparr>mem_map := (mem_map s)(i := 1)\<rparr>)"
    using assms(2) by (cases rule: get_free_page_cases [of s]) auto
  from gic_init_ok [OF assms(3) i(1,3), of ?c] obtain s1 d es where s1: "gic_init 0 ?d ?c s = Inr (0, s1)"
    "s1 = s\<lparr>gic_data := (gic_data s)(0 := \<lparr>raw_dist_base = ?d, raw_cpu_base = ?c, gic_domain = page_addr i,
              gic_chip = Some gicv2_chip, gic_irqs = word_of_nat (gic_lines ?d s)\<rparr>),
        hw_trace := hw_trace s @ es, klog := klog s @ [(''%s: cpu_base:0x%x, dist_base:0x%x, gic_irqs:%d\<newline>'',
          [Arg_str ''gic_init'', Arg_word ?c, Arg_word ?d, Arg_word (word_of_nat (gic_lines ?d s))])],
        mem_map := (mem_map s)(i := 1), arch_irq_handler := Some Gic_handle_irq, domains := d,
        irq_descs := gic_mapped (gic_lines ?d s) (page_addr i) s\<rparr>" by blast
  have l: "32 \<le> gic_lines ?d s" by (simp add: gic_lines_def)
  have g: "irq_descs s1 = gic_mapped (gic_lines ?d s) (page_addr i) s" "arch_irq_handler s1 = Some Gic_handle_irq"
    "gic_data s1 0 = \<lparr>raw_dist_base = ?d, raw_cpu_base = ?c, gic_domain = page_addr i,
              gic_chip = Some gicv2_chip, gic_irqs = word_of_nat (gic_lines ?d s)\<rparr>" "hw_trace s1 = hw_trace s @ es"
    by (simp_all add: s1(2))
  have inv: "fork_inv k s1 ts qs"
    using fork_inv_alloc [OF assms(1) i(1,2)] by (subst fork_inv_cong [where s = "s\<lparr>mem_map := (mem_map s)(i := 1)\<rparr>"]) (simp_all add: s1(2))
  have "id_chip (irq_descs s1 30) = Some gicv2_chip" "id_hwirq (irq_descs s1 30) = 30"
    using l by (simp_all add: g gic_mapped_def)
  from timer_init_eq [OF this] obtain e f r s2 where s2: "timer_init s1 = Inr s2"
    "s2 = s1\<lparr>arch_timer_rate := f div 250, hw_trace := hw_trace s1 @ e @
       [Io_write (raw_dist_base (gic_data s1 0) + 0x100) 0x40000000, Io_write 0xFF800040 2], klog := klog s1 @ [r],
     irq_descs := (irq_descs s1)(30 := (irq_descs s1 30)\<lparr>id_handler := Some Handle_timer_irq, id_param := 0, id_name := ''core timer''\<rparr>)\<rparr>"
    by blast
  have "fork_inv k s2 ts qs" using inv by (subst fork_inv_cong [where s = s1]) (simp_all add: s2(2))
  moreover have "irq_ready s2" using l by (simp add: irq_ready_def s2(2) g gic_mapped_def)
  ultimately show ?thesis
    using s1(1) s2(1) by (intro exI [of _ s2] exI [of _ "es @ e"]) (simp add: arch_irq_init_def, simp add: s2(2) g)
qed

theorem interrupts_ready_witness:
  "\<exists>s'. bindr (arch_irq_init demo_irq) timer_init = Inr s' \<and> irq_ready s' \<and> last (hw_trace s') = Io_write 0xFF800040 2"
proof -
  have "gic_lines GIC_V2_DISTRIBUTOR_BASE demo_irq = 32" by (rule demo_irq_lines) (simp add: GIC_V2_DISTRIBUTOR_BASE_def)
  with interrupts_ready [OF demo_irq_inv] obtain s' es where "bindr (arch_irq_init demo_irq) timer_init = Inr s'" "irq_ready s'"
    "hw_trace s' = hw_trace demo_irq @ es @ [Io_write (GIC_V2_DISTRIBUTOR_BASE + 0x100) 0x40000000, Io_write 0xFF800040 2]"
    by (auto simp: demo_irq_page)
  then show ?thesis by (intro exI [of _ s']) simp
qed

end
