(* ===== verification/Syscall.thy ===== *)
theory Syscall
  imports Fork
begin

text \<open>
  The system call path: \<^verbatim>\<open>arch/arm64/kernel/syscall.c\<close> with the numbers of \<^verbatim>\<open>uapi/syscall.h\<close>, entered
  from \<open>el0_svc\<close> of entry.S on the exception frame of the caller. The table is the list of the six
  functions in the order of their numbers; an index outside it is a fault. The four file operations
  are stubs in the source too.
\<close>

section \<open>The table and its functions\<close>

text \<open>A system call takes the address of the caller's exception frame; its \<open>long\<close> result is a word.\<close>

type_synonym 'a syscall_fn = "u64 \<Rightarrow> 'a fork_state_scheme \<Rightarrow> (u64 \<times> 'a fork_state_scheme) res"

definition sys_ni_syscall :: "'a syscall_fn" where
  "sys_ni_syscall regs s = Inr (- 1, s)"

definition arm64_sys_open :: "'a syscall_fn" where "arm64_sys_open regs s = Inr (- 1, s)"
definition arm64_sys_close :: "'a syscall_fn" where "arm64_sys_close regs s = Inr (- 1, s)"
definition arm64_sys_read :: "'a syscall_fn" where "arm64_sys_read regs s = Inr (- 1, s)"
definition arm64_sys_write :: "'a syscall_fn" where "arm64_sys_write regs s = Inr (- 1, s)"

definition arm64_sys_clone :: "'a syscall_fn" where
  "arm64_sys_clone regs s =
     (let r = r_regs (pt_regs_at s regs)
      in bindr (do_fork (r 0) (r 1) (r 2) s) (\<lambda>(pid, s). Inr (scast pid, s)))"

definition arm64_sys_malloc :: "'a syscall_fn" where
  "arm64_sys_malloc regs s =
     (let (addr, s) = get_free_page s in if addr = 0 then Inr (- 1, s) else Inr (addr, s))"

definition NR_syscalls :: s32 where "NR_syscalls = 6"

definition syscall_table :: "'a syscall_fn list" where
  "syscall_table = [arm64_sys_open, arm64_sys_close, arm64_sys_read, arm64_sys_write, arm64_sys_clone, arm64_sys_malloc]"

section \<open>Dispatch\<close>

definition table_lookup :: "s32 \<Rightarrow> 'b list \<Rightarrow> 'b res" where
  "table_lookup i table =
     (if 0 \<le> sint i \<and> nat (sint i) < length table then Inr (table ! nat (sint i)) else Inl Out_of_bounds)"

definition invoke_syscall ::
    "u64 \<Rightarrow> s32 \<Rightarrow> s32 \<Rightarrow> 'a syscall_fn list \<Rightarrow> 'a fork_state_scheme \<Rightarrow> 'a fork_state_scheme res" where
  "invoke_syscall regs syscall_no syscall_nr table s =
     bindr (if sint syscall_no < sint syscall_nr
            then bindr (table_lookup syscall_no table) (\<lambda>fn. fn regs s)
            else sys_ni_syscall regs s)
       (\<lambda>(ret, s). Inr (set_regs regs (\<lambda>r. r\<lparr>r_regs := (r_regs r)(0 := ret)\<rparr>) s))"

definition el0_syscall_common ::
    "u64 \<Rightarrow> s32 \<Rightarrow> s32 \<Rightarrow> 'a syscall_fn list \<Rightarrow> 'a fork_state_scheme \<Rightarrow> 'a fork_state_scheme res" where
  "el0_syscall_common regs syscall_no syscall_nr table s =
     (let s = set_regs regs (\<lambda>r. r\<lparr>r_orig_x0 := r_regs r 0\<rparr>) s;
          s = set_regs regs (\<lambda>r. r\<lparr>r_syscallno := syscall_no\<rparr>) s
      in invoke_syscall regs syscall_no syscall_nr table s)"

definition el0_svc_handler :: "u64 \<Rightarrow> 'a fork_state_scheme \<Rightarrow> 'a fork_state_scheme res" where
  "el0_svc_handler regs s =
     el0_syscall_common regs (ucast (r_regs (pt_regs_at s regs) 8)) NR_syscalls syscall_table s"

text \<open>\<open>el0_svc\<close> of entry.S: the frame is at the stack pointer.\<close>

definition el0_svc :: "'a fork_state_scheme \<Rightarrow> (outcome option \<times> 'a fork_state_scheme) res" where
  "el0_svc s = bindr (el0_svc_handler (cc_sp (cpu s)) s) ret_to_user"

section \<open>What a call does\<close>

definition sysno :: "u64 \<Rightarrow> 'a fork_state_scheme \<Rightarrow> s32" where
  "sysno regs s = ucast (r_regs (pt_regs_at s regs) 8)"

definition entered :: "u64 \<Rightarrow> 'a fork_state_scheme \<Rightarrow> 'a fork_state_scheme" where
  "entered regs s = set_regs regs (\<lambda>r. r\<lparr>r_orig_x0 := r_regs r 0, r_syscallno := sysno regs s\<rparr>) s"

definition result :: "u64 \<Rightarrow> u64 \<Rightarrow> 'a fork_state_scheme \<Rightarrow> 'a fork_state_scheme" where
  "result regs x s = set_regs regs (\<lambda>r. r\<lparr>r_regs := (r_regs r)(0 := x)\<rparr>) s"

lemma svc_handler_eq:
  "el0_svc_handler regs s =
     bindr (if sint (sysno regs s) < 6
            then bindr (table_lookup (sysno regs s) syscall_table) (\<lambda>fn. fn regs (entered regs s))
            else Inr (- 1, entered regs s))
       (\<lambda>(ret, s). Inr (result regs ret s))"
proof -
  have "set_regs regs (\<lambda>r. r\<lparr>r_syscallno := sysno regs s\<rparr>) (set_regs regs (\<lambda>r. r\<lparr>r_orig_x0 := r_regs r 0\<rparr>) s) = entered regs s"
    by (simp add: entered_def set_regs_def)
  then show ?thesis
    by (simp add: el0_svc_handler_def el0_syscall_common_def invoke_syscall_def NR_syscalls_def Let_def
        sys_ni_syscall_def result_def flip: sysno_def)
qed

lemma fork_inv_set_regs [simp]: "fork_inv k (set_regs r f s) ts qs \<longleftrightarrow> fork_inv k s ts qs"
proof -
  have "sched_inv k (set_regs r f s) ts qs \<longleftrightarrow> sched_inv k s ts qs"
    by (simp add: sched_inv_def sched_rep_def task_ring_def counters_ok_def suspended_def preempt_count_def)
       (simp add: set_regs_def)
  moreover have "used_pages (set_regs r f s) = used_pages s" by (simp add: used_pages_def set_regs_def)
  ultimately show ?thesis by (simp add: fork_inv_def) (simp add: set_regs_def)
qed

lemma fork_inv_page:
  assumes "fork_inv k s ts qs" and "get_free_page s = (p, s1)"
  shows "fork_inv k s1 ts qs"
proof -
  obtain m where s1: "s1 = s\<lparr>mem_map := m\<rparr>"
    using assms(2) by (cases rule: get_free_page_cases [of s]) (auto intro: that [of "mem_map s"])
  have "sched_inv k s1 ts qs \<longleftrightarrow> sched_inv k s ts qs"
    by (simp add: s1 sched_inv_def sched_rep_def task_ring_def counters_ok_def suspended_def preempt_count_def current_def)
  moreover have "used_pages s \<subseteq> used_pages s1" using pa.alloc_mono [OF assms(2)] .
  ultimately show ?thesis using assms(1) by (auto simp: fork_inv_def s1 Let_def)
qed

lemma s32_bounded_cases:
  fixes n :: s32
  assumes "0 \<le> sint n" and "sint n < 6"
  shows "n \<in> {0, 1, 2, 3, 4, 5}"
proof -
  have "n = word_of_int (sint n)" by simp
  moreover have "sint n \<in> {0, 1, 2, 3, 4, 5}" using assms by auto
  ultimately show ?thesis by (elim insertE emptyE) (metis insert_iff of_int_0 of_int_1 of_int_numeral)+
qed

lemma entered_simps [simp]:
  "r_regs (pt_regs_at (entered regs s) regs) = r_regs (pt_regs_at s regs)"
  "fork_inv k (entered regs s) ts qs = fork_inv k s ts qs"
  "used_pages (entered regs s) = used_pages s" "current (entered regs s) = current s"
  "g_task (entered regs s) = g_task s" "mem_map (entered regs s) = mem_map s"
  by (simp_all only: entered_def fork_inv_set_regs) (simp_all add: set_regs_def used_pages_def current_def)

lemma result_simps [simp]:
  "fork_inv k (result regs x s) ts qs = fork_inv k s ts qs"
  "used_pages (result regs x s) = used_pages s" "current (result regs x s) = current s"
  "g_task (result regs x s) = g_task s" "mem_map (result regs x s) = mem_map s"
  by (simp_all only: result_def fork_inv_set_regs) (simp_all add: set_regs_def used_pages_def current_def)

lemma svc_dispatched:
  "el0_svc_handler regs s =
     (let no = sysno regs s; x = r_regs (pt_regs_at s regs); s' = entered regs s
      in if sint no < 0 then Inl Out_of_bounds
         else if no = 4 then bindr (do_fork (x 0) (x 1) (x 2) s') (\<lambda>(pid, s). Inr (result regs (scast pid) s))
         else if no = 5 then
           (let (p, s) = get_free_page s' in Inr (result regs (if p = 0 then - 1 else p) s))
         else Inr (result regs (- 1) s'))"
proof -
  let ?no = "sysno regs s"
  consider (neg) "sint ?no < 0" | (known) "0 \<le> sint ?no" "sint ?no < 6" | (big) "6 \<le> sint ?no" by linarith
  then show ?thesis
  proof cases
    case neg
    then show ?thesis by (simp add: svc_handler_eq table_lookup_def Let_def)
  next
    case known
    note funs = arm64_sys_open_def arm64_sys_close_def arm64_sys_read_def arm64_sys_write_def
    from s32_bounded_cases [OF known] known(1) show ?thesis
      by (elim insertE emptyE) (simp_all add: svc_handler_eq table_lookup_def syscall_table_def Let_def funs
          arm64_sys_clone_def arm64_sys_malloc_def bindr_assoc split_def)
  next
    case big
    moreover have "?no \<noteq> 4" "?no \<noteq> 5" using big by auto
    ultimately show ?thesis by (simp add: svc_handler_eq Let_def)
  qed
qed

lemma svc_safe_run:
  assumes "fork_inv k s ts qs" and "regs = task_pt_regs (current s)"
    and "0 \<le> sint (ucast (r_regs (pt_regs_at s regs) 8) :: s32)"
  shows "\<exists>x s' ts' qs'. el0_svc_handler regs s = Inr s' \<and> fork_inv k s' ts' qs' \<and> set ts \<subseteq> set ts' \<and>
     pt_regs_at s' regs = (pt_regs_at s regs)\<lparr>r_regs := (r_regs (pt_regs_at s regs))(0 := x),
       r_orig_x0 := r_regs (pt_regs_at s regs) 0, r_syscallno := ucast (r_regs (pt_regs_at s regs) 8)\<rparr>"
proof -
  define frame where "frame x = (pt_regs_at s regs)\<lparr>r_regs := (r_regs (pt_regs_at s regs))(0 := x),
       r_orig_x0 := r_regs (pt_regs_at s regs) 0, r_syscallno := ucast (r_regs (pt_regs_at s regs) 8)\<rparr>" for x
  let ?e = "entered regs s"
  have inv: "fork_inv k ?e ts qs" using assms(1) by simp
  have fr: "pt_regs_at (result regs x s1) regs = frame x" if "pt_regs_at s1 regs = pt_regs_at ?e regs" for x and s1 :: "'a fork_state_scheme"
    using that by (simp add: result_def set_regs_def entered_def frame_def sysno_def)
  consider (clone) "sysno regs s = 4" | (malloc) "sysno regs s = 5" | (other) "sysno regs s \<noteq> 4" "sysno regs s \<noteq> 5" by blast
  then show ?thesis
  proof cases
    case clone
    show ?thesis
    proof (cases rule: do_fork_cases [OF inv, of "r_regs (pt_regs_at s regs) 0" "r_regs (pt_regs_at s regs) 1"
          "r_regs (pt_regs_at s regs) 2", case_names made failed])
      case (made p s1 j e)
      have pr: "pt_regs_at e regs = pt_regs_at ?e regs"
        using made(15,17) assms(2) by simp
      show ?thesis
        using fr [OF pr] made(7,8) clone
        by - (rule exI [of _ "scast (word_of_nat j :: s32)"], rule exI [of _ "result regs (scast (word_of_nat j :: s32)) e"],
            rule exI [of _ "ts @ [p]"], rule exI [of _ "p # qs"], auto simp: svc_dispatched Let_def frame_def)
    next
      case (failed e)
      have pr: "pt_regs_at e regs = pt_regs_at ?e regs" using failed(8) assms(2) by simp
      show ?thesis
        using fr [OF pr] failed(2,3) clone
        by - (rule exI [of _ "- 1"], rule exI [of _ "result regs (- 1) e"], rule exI [of _ ts], rule exI [of _ qs], simp add: svc_dispatched Let_def frame_def)
    qed
  next
    case malloc
    obtain p s1 where page: "get_free_page ?e = (p, s1)" by fastforce
    then have pr: "pt_regs_at s1 regs = pt_regs_at ?e regs"
      by (cases rule: get_free_page_cases [of ?e]) auto
    show ?thesis
      using fr [OF pr] fork_inv_page [OF inv page] malloc page
      by - (rule exI [of _ "if p = 0 then - 1 else p"], rule exI [of _ "result regs (if p = 0 then - 1 else p) s1"],
          rule exI [of _ ts], rule exI [of _ qs], simp add: svc_dispatched Let_def frame_def)
  next
    case other
    show ?thesis
      using other inv fr [of ?e] assms(3)
      by - (rule exI [of _ "- 1"], rule exI [of _ "result regs (- 1) ?e"], rule exI [of _ ts], rule exI [of _ qs], simp add: svc_dispatched Let_def frame_def flip: sysno_def)
  qed
qed

text \<open>\<open>clone\<close> on a user stack, when a page and a slot are free.\<close>

lemma svc_clone_run:
  assumes "fork_inv k s ts qs" and "regs = task_pt_regs (current s)"
    and "ucast (r_regs (pt_regs_at s regs) 8) = (4 :: s32)"
    and "r_regs (pt_regs_at s regs) 0 AND 1 = 0" and "r_regs (pt_regs_at s regs) 1 \<noteq> 0" and "r_regs (pt_regs_at s regs) 1 AND 15 = 0"
    and "fst (get_free_page s) \<noteq> 0" and "{i. i < 128 \<and> g_task s i = 0} \<noteq> {}"
  obtains pid s' p where "el0_svc_handler regs s = Inr s'" "p = fst (get_free_page s)" "pid < 128" "g_task s pid = 0" "g_task s' pid = p"
    "r_regs (pt_regs_at s' regs) 0 = word_of_nat pid"
    "pt_regs_at s' (task_pt_regs p) = (pt_regs_at s regs)\<lparr>r_regs := (r_regs (pt_regs_at s regs))(0 := 0), r_sp := r_regs (pt_regs_at s regs) 1,
       r_orig_x0 := r_regs (pt_regs_at s regs) 0, r_syscallno := sysno regs s\<rparr>"
    "t_cpu_context (tasks s' p) = cpu_context_0\<lparr>cc_sp := task_pt_regs p, cc_pc := sym_ret_from_fork (syms s)\<rparr>"
proof -
  let ?e = "entered regs s" and ?x = "r_regs (pt_regs_at s regs)"
  have inv: "fork_inv k ?e ts qs" using assms(1) by simp
  have page: "fst (get_free_page ?e) = fst (get_free_page s)"
    by (rule get_free_page_fst) simp
  have ok: "\<not> copy_fails (?x 0) (?x 1)" using assms(4-6) by (simp add: copy_fails_def)
  show thesis
  proof (cases rule: do_fork_cases [OF inv, of "?x 0" "?x 1" "?x 2", case_names made failed])
    case (made p s1 j e)
    have p: "p = fst (get_free_page s)" using made(1) page by simp
    have np: "task_pt_regs p \<noteq> regs" using made(17) assms(2) by simp
    have pid: "scast (word_of_nat j :: s32) = (word_of_nat j :: u64)" using made(4) by (intro scast_nonneg) simp
    let ?r = "result regs (word_of_nat j) e"
    have h: "el0_svc_handler regs s = Inr ?r"
      using made(7) assms(3) by (simp add: svc_dispatched Let_def sysno_def pid)
    have "pt_regs_at ?r (task_pt_regs p) = child_regs (?x 0) (?x 1) (pt_regs_at ?e regs)"
      using made(15) np assms(2) by (simp add: result_def set_regs_def)
    then have "pt_regs_at ?r (task_pt_regs p) = (pt_regs_at s regs)\<lparr>r_regs := ?x(0 := 0), r_sp := ?x 1, r_orig_x0 := ?x 0, r_syscallno := sysno regs s\<rparr>"
      using assms(4-6) by (simp add: child_regs_def Let_def entered_def set_regs_def)
    moreover have "t_cpu_context (tasks ?r p) = cpu_context_0\<lparr>cc_sp := task_pt_regs p, cc_pc := sym_ret_from_fork (syms s)\<rparr>"
      using made(16) ok assms(4) by (simp add: result_def set_regs_def child_context_def) (simp add: entered_def set_regs_def)
    moreover have "r_regs (pt_regs_at ?r regs) 0 = word_of_nat j" by (simp add: result_def set_regs_def)
    ultimately show thesis using that [OF h p made(4)] made(5,11) by simp
  next
    case failed
    with assms page ok show thesis by auto
  qed
qed
section \<open>Properties\<close>

text \<open>The system call entry on every number: \<open>clone\<close> and \<open>malloc\<close> act, the other numbers, known or
  not, put -1 in the result register and change nothing else but the entry bookkeeping of the frame; only the
  low 32 bits of x8 count, as a signed number, and a negative one, which passes the bound check of
  \<open>invoke_syscall\<close>, indexes the table outside its bounds.\<close>

theorem svc_dispatch:
  "el0_svc_handler regs s =
     (let no = ucast (r_regs (pt_regs_at s regs) 8) :: s32; x = r_regs (pt_regs_at s regs); s' = entered regs s
      in if sint no < 0 then Inl Out_of_bounds
         else if no = 4 then bindr (do_fork (x 0) (x 1) (x 2) s') (\<lambda>(pid, s). Inr (result regs (scast pid) s))
         else if no = 5 then
           (let (p, s) = get_free_page s' in Inr (result regs (if p = 0 then - 1 else p) s))
         else Inr (result regs (- 1) s'))"
  using svc_dispatched [of regs s] by (simp only: sysno_def [of regs s])

text \<open>C10. A system call with a number that is not negative returns, keeps the invariant of the kernel, and
  leaves the caller's frame as it was but for the result register and the entry bookkeeping.\<close>

theorem svc_safe:
  assumes "fork_inv k s ts qs" and "regs = task_pt_regs (current s)"
    and "0 \<le> sint (ucast (r_regs (pt_regs_at s regs) 8) :: s32)"
  shows "\<exists>x s' ts' qs'. el0_svc_handler regs s = Inr s' \<and> fork_inv k s' ts' qs' \<and> set ts \<subseteq> set ts' \<and>
     pt_regs_at s' regs = (pt_regs_at s regs)\<lparr>r_regs := (r_regs (pt_regs_at s regs))(0 := x),
       r_orig_x0 := r_regs (pt_regs_at s regs) 0, r_syscallno := ucast (r_regs (pt_regs_at s regs) 8)\<rparr>"
  by (rule svc_safe_run [OF assms])

definition demo_svc :: "u64 \<Rightarrow> fork_state" where
  "demo_svc no = set_regs (task_pt_regs 0x90000) (\<lambda>_. pt_regs_0\<lparr>r_regs := (\<lambda>_. 0)(8 := no, 1 := 0x7ff0), r_sp := 0x8ff0\<rparr>) demo_fork"

lemma demo_svc_inv: "fork_inv 0 (demo_svc no) [0x400000, 0x401000] [0x401000, 0x400000]"
  by (simp add: demo_svc_def demo_fork_inv)

lemma demo_svc_current: "current (demo_svc no) = 0x90000"
  by (simp add: demo_svc_def demo_fork_simps)

lemma demo_svc_frame: "pt_regs_at (demo_svc no) (task_pt_regs 0x90000) = pt_regs_0\<lparr>r_regs := (\<lambda>_. 0)(8 := no, 1 := 0x7ff0), r_sp := 0x8ff0\<rparr>"
  by (simp add: demo_svc_def set_regs_def)

theorem svc_safe_witness:
  "\<exists>s'. el0_svc_handler (task_pt_regs 0x90000) (demo_svc 4) = Inr s' \<and>
     r_sp (pt_regs_at s' (task_pt_regs 0x90000)) = 0x8ff0"
  using svc_safe [OF demo_svc_inv, of "task_pt_regs 0x90000" 4] by (auto simp: demo_svc_current demo_svc_frame)

text \<open>The two returns of \<open>clone\<close>: when it succeeds, the caller's result register holds the pid under
  which the new task is registered and the frame of the new task holds 0 there, the requested stack, and the
  caller's other registers and program counter.\<close>

theorem svc_clone:
  assumes "fork_inv k s ts qs" and "regs = task_pt_regs (current s)"
    and "ucast (r_regs (pt_regs_at s regs) 8) = (4 :: s32)"
    and "r_regs (pt_regs_at s regs) 0 AND 1 = 0" and "r_regs (pt_regs_at s regs) 1 \<noteq> 0" and "r_regs (pt_regs_at s regs) 1 AND 15 = 0"
    and "fst (get_free_page s) \<noteq> 0" and "{i. i < 128 \<and> g_task s i = 0} \<noteq> {}"
  shows "\<exists>pid s'. el0_svc_handler regs s = Inr s' \<and> pid < 128 \<and> g_task s pid = 0 \<and>
     g_task s' pid = fst (get_free_page s) \<and> r_regs (pt_regs_at s' regs) 0 = word_of_nat pid \<and>
     (let child = pt_regs_at s' (task_pt_regs (g_task s' pid)) in
        r_regs child = (r_regs (pt_regs_at s regs))(0 := 0) \<and> r_pc child = r_pc (pt_regs_at s regs) \<and>
        r_sp child = r_regs (pt_regs_at s regs) 1)"
proof (rule svc_clone_run [OF assms])
  fix pid s' p
  assume h: "el0_svc_handler regs s = Inr s'" "p = fst (get_free_page s)" "pid < 128" "g_task s pid = 0" "g_task s' pid = p"
    "r_regs (pt_regs_at s' regs) 0 = word_of_nat pid"
    "pt_regs_at s' (task_pt_regs p) = (pt_regs_at s regs)\<lparr>r_regs := (r_regs (pt_regs_at s regs))(0 := 0), r_sp := r_regs (pt_regs_at s regs) 1,
       r_orig_x0 := r_regs (pt_regs_at s regs) 0, r_syscallno := sysno regs s\<rparr>"
  show ?thesis by (rule exI [of _ pid], rule exI [of _ s']) (use h in \<open>simp add: Let_def\<close>)
qed

theorem svc_clone_witness:
  "\<exists>pid s'. el0_svc_handler (task_pt_regs 0x90000) (demo_svc 4) = Inr s' \<and>
     r_regs (pt_regs_at s' (task_pt_regs 0x90000)) 0 = word_of_nat pid \<and>
     r_regs (pt_regs_at s' (task_pt_regs (g_task s' pid))) 0 = 0"
proof -
  have "fst (get_free_page (demo_svc 4)) = 0x402000"
    using demo_fork_page get_free_page_fst [of "demo_svc 4" demo_fork]
    by (simp add: demo_svc_def set_regs_def)
  moreover have "{i. i < 128 \<and> g_task (demo_svc 4) i = 0} \<noteq> {}"
    using demo_fork_slot by (simp add: demo_svc_def set_regs_def)
  ultimately show ?thesis
    using svc_clone [OF demo_svc_inv, of "task_pt_regs 0x90000" 4]
    by (simp add: demo_svc_current demo_svc_frame Let_def) fastforce
qed

end
