(* ===== verification/Kernel.thy ===== *)
theory Kernel
  imports Irq Syscall
begin

text \<open>
  The components together: the kernel as a transition system whose events are interrupts in the kernel and
  in user mode, calls of the scheduler, thread creations and system calls, in any order. The operations are those of the component
  theories; the relation adds only what the exception return of entry.S restores. The
  invariant of the running kernel joins those of the scheduler, the process table, the allocator and
  the interrupt descriptors; every event keeps it and, but for system calls with a negative number, none faults. A creation is one
  event here; \<open>Kernel_Runs\<close> adds the creations that are preempted, and the runs.
\<close>

section \<open>What an operation of the process layer leaves alone\<close>

text \<open>The scheduler writes the task structures, the lists and the registers: the allocator, the pids, the
  symbols and the state of the components above (\<open>more\<close>) stay as they are.\<close>

definition sched_frame :: "'a sched_state_scheme \<Rightarrow> 'a sched_state_scheme \<Rightarrow> bool" where
  "sched_frame s s' \<longleftrightarrow> sched_state.more s' = sched_state.more s \<and> syms s' = syms s \<and> mem_map s' = mem_map s \<and>
     (\<forall>p. t_pid (tasks s' p) = t_pid (tasks s p))"

lemma sched_frame_refl [simp, intro]: "sched_frame s s"
  and sched_frame_trans [trans]: "sched_frame s t \<Longrightarrow> sched_frame t u \<Longrightarrow> sched_frame s u"
  by (simp_all add: sched_frame_def)

text \<open>The scheduler itself accesses no device.\<close>

definition calm_frame :: "'a sched_state_scheme \<Rightarrow> 'a sched_state_scheme \<Rightarrow> bool" where
  "calm_frame s s' \<longleftrightarrow> sched_frame s s' \<and> hw_trace s' = hw_trace s"

lemma calm_frame_trans [trans]: "calm_frame s t \<Longrightarrow> calm_frame t u \<Longrightarrow> calm_frame s u"
  by (auto simp: calm_frame_def intro: sched_frame_trans)

lemma calm_frame_ops [simp]:
  "calm_frame s (s\<lparr>irq_masked := b\<rparr>)" "calm_frame s (s\<lparr>rq := r\<rparr>)" "calm_frame s (s\<lparr>frames := fr\<rparr>)"
  "calm_frame s (s\<lparr>cpu := c\<rparr>)" "calm_frame s (s\<lparr>klog := l\<rparr>)" "calm_frame s (s\<lparr>lists := h\<rparr>)" "calm_frame s (recharge ts s)"
  "(\<And>t. t_pid (f t) = t_pid t) \<Longrightarrow> calm_frame s (upd_task p f s)"
  by (simp_all add: calm_frame_def sched_frame_def upd_task_def recharge_def)

lemma switch_frame:
  "calm_frame s (switch_to prev next s)" "calm_frame s (snd (schedule_switch caller prev next s))"
  "calm_frame s (after_schedule caller s)" "calm_frame s (schedule_tail s)"
proof -
  show sw: "calm_frame s (switch_to prev next s)" for s :: "'a sched_state_scheme"
    by (simp add: switch_to_def cpu_switch_to_def upd_task_def calm_frame_def sched_frame_def)
  show af: "calm_frame s (after_schedule caller s)" for caller and s :: "'a sched_state_scheme"
    by (cases caller) (simp_all add: preempt_enable_def preempt_sub_def arch_local_irq_disable_def upd_task_def calm_frame_def sched_frame_def)
  show st: "calm_frame s (schedule_tail s)" for s :: "'a sched_state_scheme"
    by (simp add: schedule_tail_def arch_local_irq_enable_def)
  let ?t = "switch_to prev next (s\<lparr>frames := (frames s)(prev := caller)\<rparr>)"
  have t: "calm_frame s ?t" by (rule calm_frame_trans [OF calm_frame_ops(3) sw])
  show "calm_frame s (snd (schedule_switch caller prev next s))"
    unfolding schedule_switch_def ret_from_fork_def Let_def
    by (simp, intro conjI impI; rule calm_frame_trans [OF t]; (rule st | rule calm_frame_trans [OF _ af] calm_frame_trans [OF _ st])+)
      (simp add: calm_frame_def sched_frame_def)
qed

lemma schedule_common_frame:
  assumes inv: "run_inv 1 s ts qs" and ne: "qs \<noteq> []" and run: "schedule_common caller s = Inr (out, s')"
  shows "calm_frame s s'"
proof -
  let ?i = "s\<lparr>irq_masked := True\<rparr>"
  have tab: "table_ok ?i ts qs" using inv by (subst table_ok_cong [where s = s]) (simp_all add: run_inv_def)
  then obtain n s1 where pick: "pick_next_task (current s) ?i = Inr (n, s1)" "s1 = ?i \<or> s1 = recharge ts ?i"
    using pick_next_task_rep [of ?i ts qs "current s"] ne unfolding table_ok_def by blast
  let ?c = "clear_task_resched (current s) s1"
  have "calm_frame s s1" using pick(2) calm_frame_trans [OF calm_frame_ops(1) calm_frame_ops(7)] by auto
  then have c: "calm_frame s ?c" by (rule calm_frame_trans) (simp add: clear_task_resched_def)
  let ?r = "if n \<noteq> current s then schedule_switch caller (current s) n ?c else (Returned caller, after_schedule caller (schedule_tail ?c))"
  have "preempt_count s = 1" "t_state (tasks s (current s)) = TASK_RUNNING" using inv by (auto simp: run_inv_def table_ok_def)
  then have "(out, s') = ?r" using run schedule_common_switched [of s caller] pick(1) by (simp add: Let_def)
  then have "snd (out, s') = snd ?r" by (rule arg_cong)
  then have s': "s' = snd ?r" by (simp only: snd_conv)
  show ?thesis
    unfolding s' by (rule calm_frame_trans [OF c]) (simp add: switch_frame calm_frame_trans [OF switch_frame(4) switch_frame(3)])
qed

lemma schedule_frame:
  assumes "run_inv 0 s ts qs" and "qs \<noteq> []" and "schedule s = Inr (out, s')"
  shows "calm_frame s s'"
proof -
  have "calm_frame s (preempt_disable s)" by (simp add: preempt_disable_def preempt_add_def)
  moreover have "run_inv 1 (preempt_disable s) ts qs" using run_inv_preempt_disable [OF assms(1)] by simp
  ultimately show ?thesis
    using schedule_common_frame [OF _ assms(2)] assms(3) calm_frame_trans unfolding schedule_def by blast
qed

lemma preempt_schedule_irq_frame:
  assumes "run_inv 0 s ts qs" and "qs \<noteq> []" and "preempt_schedule_irq s = Inr (out, s')"
  shows "calm_frame s s'"
proof -
  let ?s = "arch_local_irq_enable (preempt_disable s)"
  have "calm_frame s (preempt_disable s)" by (simp add: preempt_disable_def preempt_add_def)
  then have f: "calm_frame s ?s" by (rule calm_frame_trans) (simp add: arch_local_irq_enable_def)
  have "run_inv 1 ?s ts qs" using run_inv_preempt_disable [OF assms(1)] by (simp add: arch_local_irq_enable_def)
  moreover have "schedule_common By_preempt_schedule_irq ?s = Inr (out, s')"
    using assms(1,3) by (simp add: preempt_schedule_irq_def run_inv_def)
  ultimately show ?thesis using schedule_common_frame [OF _ assms(2)] calm_frame_trans [OF f] by blast
qed

lemma fork_inv_frame:
  fixes s :: "'a fork_state_scheme"
  assumes "fork_inv k s ts qs" and "sched_inv k' s' ts qs" and "sched_frame s s'"
  shows "fork_inv k' s' ts qs"
proof (rule fork_inv_sched [OF assms(1,2)])
  show "g_task s' = g_task s" using assms(3) by (cases s, cases s') (simp add: sched_frame_def)
qed (use assms(3) in \<open>simp_all add: sched_frame_def\<close>)

text \<open>Together with the links and the structures outside the process table, which stay as well.\<close>

definition untouched :: "u64 list \<Rightarrow> 'a sched_state_scheme \<Rightarrow> 'a sched_state_scheme \<Rightarrow> bool" where
  "untouched ts s s' \<longleftrightarrow> same_links ts s s' \<and> sched_frame s s' \<and> current s' \<in> insert (current s) (set ts)"

lemma untouched_refl [simp]: "untouched ts s s"
  and untouched_trans [trans]: "untouched ts s t \<Longrightarrow> untouched ts t u \<Longrightarrow> untouched ts s u"
  and untouched_irq [simp]: "untouched ts s (s\<lparr>irq_masked := b\<rparr>)"
  by (auto simp: untouched_def current_def sched_frame_def intro: same_links_trans)

lemma chosen_task: "run_inv k s ts qs \<Longrightarrow> is_best f qs n \<Longrightarrow> n \<in> set ts"
  using is_best_max [of f qs n] by (auto simp: run_inv_def table_ok_def walk_rep_def)

lemma fork_inv_untouched:
  fixes s :: "'a fork_state_scheme"
  assumes "fork_inv k s ts qs" and "run_inv k' s' ts qs" and u: "untouched ts s s'"
  shows "fork_inv k' s' ts qs"
proof -
  have l: "same_links ts s s'" and f: "sched_frame s s'" using u by (simp_all add: untouched_def)
  have "sched_inv k s ts qs" using assms(1) by (simp add: fork_inv_def)
  from fork_inv_frame [OF assms(1) sched_inv_same [OF this assms(2) l] f] show ?thesis .
qed


section \<open>Process creation\<close>

lemma fork_more_simps [simp]:
  fixes s :: "'a fork_state_scheme"
  shows "fork_state.more (upd_task p f s) = fork_state.more s" "fork_state.more (set_regs r g s) = fork_state.more s"
    "fork_state.more (SET_LINKS p s) = fork_state.more s"
  by (simp_all add: upd_task_def set_regs_def SET_LINKS_def Let_def)

lemma fork_more_page:
  fixes s :: "'a fork_state_scheme"
  shows "get_free_page s = (p, s1) \<Longrightarrow> fork_state.more s1 = fork_state.more s"
    "free_page p s = Inr s1 \<Longrightarrow> fork_state.more s1 = fork_state.more s"
    "wake_up_process p s = Inr s1 \<Longrightarrow> fork_state.more s1 = fork_state.more s"
    "copy_thread cf p st arg s = (err, s1) \<Longrightarrow> fork_state.more s1 = fork_state.more s"
proof -
  show "get_free_page s = (p, s1) \<Longrightarrow> fork_state.more s1 = fork_state.more s"
    by (cases rule: get_free_page_cases [of s]) auto
  show "free_page p s = Inr s1 \<Longrightarrow> fork_state.more s1 = fork_state.more s"
    by (auto simp: free_page_def split: if_splits)
  show "wake_up_process p s = Inr s1 \<Longrightarrow> fork_state.more s1 = fork_state.more s"
    by (auto simp: wake_up_process_def enqueue_task_def nop_sched_class_def enqueue_task_nop_def bindr_eq_Inr Let_def)
  show "copy_thread cf p st arg s = (err, s1) \<Longrightarrow> fork_state.more s1 = fork_state.more s"
    by (auto simp: copy_thread_def Let_def split: if_splits prod.splits)
qed

lemma do_fork_more:
  fixes s :: "'a fork_state_scheme"
  assumes "do_fork cf st arg s = Inr (r, e)"
  shows "fork_state.more e = fork_state.more s"
proof -
  obtain p s1 where a: "get_free_page s = (p, s1)" by fastforce
  show ?thesis
    using assms fork_more_page(1) [OF a]
    by (auto simp: do_fork_def a Let_def bindr_eq_Inr dest!: fork_more_page(2-4) split: if_splits prod.splits)
qed


lemma fork_masked_page:
  fixes s :: "'a fork_state_scheme"
  shows "get_free_page s = (p, s1) \<Longrightarrow> irq_masked s1 = irq_masked s"
    "free_page p s = Inr s1 \<Longrightarrow> irq_masked s1 = irq_masked s"
    "wake_up_process p s = Inr s1 \<Longrightarrow> irq_masked s1 = irq_masked s"
    "copy_thread cf p st arg s = (err, s1) \<Longrightarrow> irq_masked s1 = irq_masked s"
    "irq_masked (SET_LINKS p s) = irq_masked s"
proof -
  show "get_free_page s = (p, s1) \<Longrightarrow> irq_masked s1 = irq_masked s"
    by (cases rule: get_free_page_cases [of s]) auto
  show "free_page p s = Inr s1 \<Longrightarrow> irq_masked s1 = irq_masked s"
    by (auto simp: free_page_def split: if_splits)
  show "wake_up_process p s = Inr s1 \<Longrightarrow> irq_masked s1 = irq_masked s"
    by (auto simp: wake_up_process_def enqueue_task_def nop_sched_class_def enqueue_task_nop_def bindr_eq_Inr Let_def)
  show "copy_thread cf p st arg s = (err, s1) \<Longrightarrow> irq_masked s1 = irq_masked s"
    by (auto simp: copy_thread_def Let_def set_regs_def split: if_splits prod.splits)
  show "irq_masked (SET_LINKS p s) = irq_masked s" by (simp add: SET_LINKS_def Let_def)
qed

lemma do_fork_masked:
  fixes s :: "'a fork_state_scheme"
  assumes "do_fork cf st arg s = Inr (r, e)"
  shows "irq_masked e = irq_masked s"
proof -
  obtain p s1 where a: "get_free_page s = (p, s1)" by fastforce
  show ?thesis
    using assms fork_masked_page(1) [OF a]
    by (auto simp: do_fork_def a Let_def bindr_eq_Inr fork_masked_page(5) dest!: fork_masked_page(2-4) split: if_splits prod.splits)
qed

section \<open>The running kernel\<close>

text \<open>An exception taken in user mode: \<^verbatim>\<open>kernel_context_save 0\<close> of entry.S stores what the task had in its
  registers, whatever that is, in the frame at the end of its kernel stack.\<close>

definition user_entry :: "pt_regs \<Rightarrow> 'a fork_state_scheme \<Rightarrow> 'a fork_state_scheme" where
  "user_entry r s = set_regs (cc_sp (cpu s)) (\<lambda>_. r) s"

text \<open>\<open>el0_irq\<close> of entry.S.\<close>

definition el0_irq :: "'a irq_state_scheme \<Rightarrow> (outcome option \<times> 'a irq_state_scheme) res" where
  "el0_irq s = bindr (irq_handler s) ret_to_user"

text \<open>What happens while the kernel runs: an interrupt of any number in the kernel, a task that calls the scheduler, one that
  creates a thread; in a user task, with any contents of its registers, a system call or an interrupt. A task that was entered from an exception continues with the exception return, which
  restores the PSTATE of the interrupted code, in which interrupts were on.\<close>

datatype kevent = Interrupt | Yield | Create u64 u64 u64 | Svc pt_regs | User_interrupt pt_regs

fun resume :: "outcome option \<Rightarrow> 'a irq_state_scheme \<Rightarrow> 'a irq_state_scheme" where
  "resume None s = s\<lparr>irq_masked := False\<rparr>"
| "resume (Some (Returned By_preempt_schedule_irq)) s = s\<lparr>irq_masked := False\<rparr>"
| "resume (Some Returns_to_user) s = s\<lparr>irq_masked := False\<rparr>"
| "resume (Some (Returned By_schedule)) s = s"
| "resume (Some (Starts fn arg)) s = s"

inductive kstep :: "'a irq_state_scheme \<Rightarrow> kevent \<Rightarrow> 'a irq_state_scheme \<Rightarrow> bool" where
  interrupt: "\<not> irq_masked s \<Longrightarrow> el1_irq s = Inr (out, s') \<Longrightarrow> kstep s Interrupt (resume out s')"
| yield: "schedule s = Inr (out, s') \<Longrightarrow> kstep s Yield (resume (Some out) s')"
| create: "kernel_thread fn arg flags s = Inr (pid, s') \<Longrightarrow> kstep s (Create fn arg flags) s'"
| svc: "cc_sp (cpu s) = task_pt_regs (current s) \<Longrightarrow>
     el0_svc (user_entry r s) = Inr (out, s') \<Longrightarrow> kstep s (Svc r) (resume out s')"
| user_interrupt: "\<not> irq_masked s \<Longrightarrow> cc_sp (cpu s) = task_pt_regs (current s) \<Longrightarrow>
     el0_irq (user_entry r s) = Inr (out, s') \<Longrightarrow> kstep s (User_interrupt r) (resume out s')"

inductive_cases interruptE: "kstep s Interrupt s'"
inductive_cases yieldE: "kstep s Yield s'"
inductive_cases createE: "kstep s (Create fn arg flags) s'"
inductive_cases svcE: "kstep s (Svc r) s'"
inductive_cases user_interruptE: "kstep s (User_interrupt r) s'"

text \<open>The kernel is deterministic: the devices decide when an event happens, the state decides what it does.\<close>

lemma kstep_deterministic: "kstep s ev s1 \<Longrightarrow> kstep s ev s2 \<Longrightarrow> s1 = s2"
  by (cases ev) (auto elim!: interruptE yieldE createE svcE user_interruptE)

definition only_timer :: "'a irq_state_scheme \<Rightarrow> bool" where
  "only_timer s \<longleftrightarrow> irq_ready s \<and> (\<forall>i. i \<noteq> 30 \<longrightarrow> id_handler (irq_descs s i) = None)"

definition kinv :: "'a irq_state_scheme \<Rightarrow> u64 list \<Rightarrow> u64 list \<Rightarrow> bool" where
  "kinv s ts qs \<longleftrightarrow> fork_inv 0 s ts qs \<and> qs \<noteq> [] \<and> only_timer s \<and> \<not> irq_masked s"

lemma only_timer_more: "fork_state.more s' = fork_state.more s \<Longrightarrow> only_timer s' = only_timer s"
  by (cases s, cases s') (simp add: only_timer_def irq_ready_def)

lemma sched_frame_more: "sched_frame s s' \<Longrightarrow> fork_state.more s' = fork_state.more s"
  by (cases s, cases s') (simp add: sched_frame_def)

text \<open>What the scheduler and the interrupts rely on. It holds in the states of the running kernel, and also while a
  thread is being created.\<close>

definition run_ok :: "'a irq_state_scheme \<Rightarrow> u64 list \<Rightarrow> u64 list \<Rightarrow> bool" where
  "run_ok s ts qs \<longleftrightarrow> run_inv 0 s ts qs \<and> qs \<noteq> [] \<and> only_timer s \<and> \<not> irq_masked s"

lemma kinv_run_ok: "kinv s ts qs \<Longrightarrow> run_ok s ts qs"
  by (simp add: kinv_def run_ok_def fork_inv_def sched_inv_run)

lemma only_timer_untouched: "untouched ts s s' \<Longrightarrow> only_timer s' = only_timer s"
  unfolding untouched_def by (elim conjE) (rule only_timer_more, rule sched_frame_more)

lemma kinv_untouched:
  assumes "fork_inv k s ts qs" and "run_ok s' ts qs" and "untouched ts s s'"
  shows "kinv s' ts qs"
proof -
  have "run_inv 0 s' ts qs" "qs \<noteq> []" "only_timer s'" "\<not> irq_masked s'" using assms(2) unfolding run_ok_def by blast+
  moreover from fork_inv_untouched [OF assms(1) this(1) assms(3)] have "fork_inv 0 s' ts qs" .
  ultimately show ?thesis unfolding kinv_def by blast
qed

lemma resume_run:
  assumes "run_inv 0 s ts qs" and "qs \<noteq> []" and "only_timer s"
    and "\<And>o'. out = Some o' \<Longrightarrow> irq_masked s = (o' = Returned By_preempt_schedule_irq)"
  shows "run_ok (resume out s) ts qs \<and> untouched ts s (resume out s)"
proof -
  have "only_timer (s\<lparr>irq_masked := b\<rparr>)" for b using assms(3) by (simp add: only_timer_def irq_ready_def)
  then have f: "run_ok (s\<lparr>irq_masked := False\<rparr>) ts qs" and g: "\<not> irq_masked s \<Longrightarrow> run_ok s ts qs"
    using assms(1-3) by (simp_all add: run_ok_def)
  show ?thesis
  proof (cases out)
    case None
    then show ?thesis using f by simp
  next
    case (Some x)
    note m = assms(4) [OF Some]
    show ?thesis
    proof (cases "x = Returned By_preempt_schedule_irq")
      case True
      then show ?thesis using f Some by simp
    next
      case False
      have "resume out s = s \<or> resume out s = s\<lparr>irq_masked := False\<rparr>" by (cases "(out, s)" rule: resume.cases) simp_all
      then show ?thesis using f g m False by auto
    qed
  qed
qed

lemma resume_after:
  assumes "run_inv 0 s' ts qs" and "qs \<noteq> []" and "only_timer s" and "untouched ts s s'"
    and "irq_masked s' = (out = Returned By_preempt_schedule_irq)"
  shows "run_ok (resume (Some out) s') ts qs \<and> untouched ts s (resume (Some out) s')"
  using resume_run [OF assms(1,2), of "Some out"] assms(3-5) only_timer_untouched [OF assms(4)]
    untouched_trans [OF assms(4)] by simp

lemma schedule_step:
  assumes "run_inv 0 s ts qs" and "qs \<noteq> []" and "only_timer s"
  shows "\<exists>out s'. schedule s = Inr (out, s') \<and> run_ok (resume (Some out) s') ts qs \<and> untouched ts s (resume (Some out) s')"
proof -
  from schedule_run [OF assms(1,2)] obtain out s' where s': "schedule s = Inr (out, s')" "run_inv 0 s' ts qs" "same_links ts s s'"
    "irq_masked s' = (out = Returned By_preempt_schedule_irq)" "is_best (\<lambda>p. goodness p s') qs (current s')" by blast
  have "untouched ts s s'" using schedule_frame [OF assms(1,2) s'(1)] s'(3) chosen_task [OF s'(2,5)] by (simp add: untouched_def calm_frame_def)
  then have "run_ok (resume (Some out) s') ts qs" "untouched ts s (resume (Some out) s')"
    using resume_after [OF s'(2) assms(2,3) _ s'(4)] by simp_all
  with s'(1) show ?thesis by blast
qed

lemma el1_irq_exit_step:
  assumes "run_ok s ts qs"
  shows "\<exists>out s'. el1_irq_exit s = Inr (out, s') \<and> run_ok (resume out s') ts qs \<and> untouched ts s (resume out s')"
proof (cases "t_preempt_count (tasks s (current s)) \<noteq> 0 \<or> t_need_resched (tasks s (current s)) = 0")
  case True
  then have "el1_irq_exit s = Inr (None, s)" by (auto simp: el1_irq_exit_def Let_def)
  moreover have "run_ok (resume None s) ts qs" "untouched ts s (resume None s)"
    using assms resume_run [of s ts qs None] by (simp_all add: run_ok_def)
  ultimately show ?thesis by blast
next
  case False
  have r: "run_inv 0 s ts qs" "qs \<noteq> []" "only_timer s" using assms by (simp_all add: run_ok_def)
  from preempt_schedule_irq_run [OF r(1,2)] obtain out s' where
    s': "preempt_schedule_irq s = Inr (out, s')" "run_inv 0 s' ts qs" "same_links ts s s'"
      "irq_masked s' = (out = Returned By_preempt_schedule_irq)" "is_best (\<lambda>p. goodness p s') qs (current s')" by blast
  have "el1_irq_exit s = Inr (Some out, s')" using False s'(1) by (simp add: el1_irq_exit_def Let_def)
  moreover have "untouched ts s s'"
    using preempt_schedule_irq_frame [OF r(1,2) s'(1)] s'(3) chosen_task [OF s'(2,5)] by (simp add: untouched_def calm_frame_def)
  then have "run_ok (resume (Some out) s') ts qs" "untouched ts s (resume (Some out) s')"
    using resume_after [OF s'(2) r(2,3) _ s'(4)] by simp_all
  ultimately show ?thesis by blast
qed


lemma tick_more: "fork_state.more ((tick_handle_periodic s)\<lparr>hw_trace := h\<rparr>) = fork_state.more s"
  "irq_masked (tick_handle_periodic s) = irq_masked s" for s :: "'a irq_state_scheme"
  by (simp_all add: tick_handle_periodic_def task_tick_def nop_sched_class_def task_tick_nop_def Let_def upd_task_def printk_call_def)

lemma user_entry_kinv:
  assumes "kinv s ts qs"
  shows "kinv (user_entry r s) ts qs"
proof -
  have "only_timer (user_entry r s) = only_timer s" by (rule only_timer_more) (simp add: user_entry_def)
  then show ?thesis using assms by (simp add: kinv_def) (simp add: user_entry_def fork_inv_set_regs, simp add: set_regs_def)
qed

lemma user_entry_simps [simp]:
  "cc_sp (cpu (user_entry r s)) = cc_sp (cpu s)" "current (user_entry r s) = current s"
  "pt_regs_at (user_entry r s) (cc_sp (cpu s)) = r" "sysno (cc_sp (cpu s)) (user_entry r s) = ucast (r_regs r 8)"
  by (simp_all add: user_entry_def set_regs_def current_def sysno_def)

lemma tick_current: "current (tick_handle_periodic s) = current s"
  by (simp add: current_def tick_handle_periodic_def task_tick_def nop_sched_class_def task_tick_nop_def Let_def upd_task_def printk_call_def)

lemma tick_untouched: "run_inv k s ts qs \<Longrightarrow> untouched ts s (tick_handle_periodic s)"
  using tick_run [of k s ts qs]
  by (simp add: untouched_def tick_current) (simp add: sched_frame_def tick_handle_periodic_def task_tick_def nop_sched_class_def
      task_tick_nop_def Let_def upd_task_def printk_call_def)

lemma trace_only:
  "run_ok (s\<lparr>hw_trace := h\<rparr>) ts qs = run_ok s ts qs" "untouched ts s (s\<lparr>hw_trace := h\<rparr>)" for s :: "'a irq_state_scheme"
proof -
  have "table_ok (s\<lparr>hw_trace := h\<rparr>) ts qs = table_ok s ts qs" by (rule table_ok_cong) simp_all
  then show "run_ok (s\<lparr>hw_trace := h\<rparr>) ts qs = run_ok s ts qs"
    by (simp add: run_ok_def run_inv_def preempt_count_def suspended_def only_timer_def irq_ready_def current_def)
  show "untouched ts s (s\<lparr>hw_trace := h\<rparr>)" by (simp add: untouched_def same_links_def sched_frame_def current_def)
qed

lemma irq_handler_step:
  assumes "run_ok s ts qs"
  shows "\<exists>t. irq_handler s = Inr t \<and> run_ok t ts qs \<and> untouched ts s t"
proof (cases "iar s AND 0x3ff = 30")
  case True
  have r: "run_inv 0 s ts qs" "irq_ready s" using assms by (simp_all add: run_ok_def only_timer_def)
  let ?h = "hw_trace s @ [irq_event s, Sys_write ''cntp_tval_el0'' (ucast (arch_timer_rate s)),
     Io_write (raw_cpu_base (gic_data s 0) + 0x10) 30]"
  have "only_timer (tick_handle_periodic s)" using assms only_timer_untouched [OF tick_untouched [OF r(1)]] by (simp add: run_ok_def)
  then have "run_ok (tick_handle_periodic s) ts qs"
    using assms tick_run [OF r(1)] tick_more(2) [of s] by (simp add: run_ok_def)
  then show ?thesis
    using irq_handler_timer [OF r(2) True] tick_untouched [OF r(1)] untouched_trans [OF _ trace_only(2)]
    by (simp add: trace_only)
next
  case False
  then have "unat (iar s AND 0x3ff) \<noteq> 30" by (simp add: word_unat_eq_iff)
  then have "id_handler (irq_descs s (unat (iar s AND 0x3ff))) = None" "arch_irq_handler s = Some Gic_handle_irq"
    using assms by (simp_all add: run_ok_def only_timer_def irq_ready_def)
  then show ?thesis using irq_handler_unhandled [of s] assms by (simp add: trace_only)
qed

lemma interrupt_step:
  assumes "run_ok s ts qs"
  shows "\<exists>out s'. el1_irq s = Inr (out, s') \<and> run_ok (resume out s') ts qs \<and> untouched ts s (resume out s')"
proof -
  obtain t where t: "irq_handler s = Inr t" "run_ok t ts qs" "untouched ts s t" using irq_handler_step [OF assms] by blast
  from el1_irq_exit_step [OF t(2)] untouched_trans [OF t(3)] t(1) show ?thesis by (auto simp: el1_irq_def)
qed

text \<open>The way back to user mode, from a system call or an interrupt.\<close>

lemma ret_to_user_step:
  assumes "run_inv 0 s ts qs" and "qs \<noteq> []" and "only_timer s"
  shows "\<exists>out s'. ret_to_user s = Inr (out, s') \<and> run_ok (resume out s') ts qs \<and> untouched ts s (resume out s')"
proof -
  let ?t = "arch_local_irq_disable s"
  have t: "run_inv 0 ?t ts qs" "untouched ts s ?t" using assms(1) by (simp_all add: arch_local_irq_disable_def)
  have o: "only_timer ?t" using assms(3) only_timer_untouched [OF t(2)] by simp
  show ?thesis
  proof (cases "t_need_resched (tasks ?t (current ?t)) = 0")
    case True
    then show ?thesis using resume_run [OF t(1) assms(2) o, of None] untouched_trans [OF t(2)]
      by (simp add: ret_to_user_def Let_def)
  next
    case False
    with schedule_step [OF t(1) assms(2) o] untouched_trans [OF t(2)] show ?thesis by (fastforce simp: ret_to_user_def Let_def)
  qed
qed

lemma user_interrupt_step:
  assumes "run_ok s ts qs"
  shows "\<exists>out s'. el0_irq s = Inr (out, s') \<and> run_ok (resume out s') ts qs \<and> untouched ts s (resume out s')"
proof -
  obtain t where t: "irq_handler s = Inr t" "run_ok t ts qs" "untouched ts s t" using irq_handler_step [OF assms] by blast
  from t(2) have "run_inv 0 t ts qs" "qs \<noteq> []" "only_timer t" by (simp_all add: run_ok_def)
  from ret_to_user_step [OF this] untouched_trans [OF t(3)] t(1) show ?thesis by (auto simp: el0_irq_def)
qed

lemma create_step:
  assumes "kinv s ts qs"
  shows "\<exists>pid s' ts' qs'. kernel_thread fn arg flags s = Inr (pid, s') \<and> kinv s' ts' qs' \<and> set ts \<subseteq> set ts' \<and> current s' = current s"
proof -
  have i: "fork_inv 0 s ts qs" using assms by (simp add: kinv_def)
  have k: "kinv e ts' qs'" if "fork_inv 0 e ts' qs'" "qs' \<noteq> []" "do_fork cf st arg s = Inr (r, e)" for e ts' qs' cf st r
    using that only_timer_more [OF do_fork_more [OF that(3)]] do_fork_masked [OF that(3)] assms by (simp add: kinv_def)
  show ?thesis
  proof (cases rule: do_fork_cases [OF i, of "flags OR PF_KTHREAD" fn arg, case_names made failed])
    case (made p s1 j e)
    then show ?thesis using k [OF made(8) _ made(7)]
      by - (rule exI [of _ "word_of_nat j"], rule exI [of _ e], rule exI [of _ "ts @ [p]"], rule exI [of _ "p # qs"], auto simp: kernel_thread_def)
  next
    case (failed e)
    then show ?thesis using k [OF failed(3) _ failed(2)] assms
      by - (rule exI [of _ "- 1"], rule exI [of _ e], rule exI [of _ ts], rule exI [of _ qs], simp add: kernel_thread_def, simp add: kinv_def)
  qed
qed


lemma svc_more:
  fixes s :: "'a fork_state_scheme"
  assumes "el0_svc_handler regs s = Inr s'"
  shows "fork_state.more s' = fork_state.more s"
proof -
  have e: "fork_state.more (entered regs s) = fork_state.more s" "fork_state.more (result regs x u) = fork_state.more u" for x and u :: "'a fork_state_scheme"
    by (simp_all add: entered_def result_def)
  obtain p s1 where a: "get_free_page (entered regs s) = (p, s1)" by fastforce
  show ?thesis
    using assms fork_more_page(1) [OF a] e
    by (auto simp: svc_dispatched a Let_def bindr_eq_Inr dest!: do_fork_more split: if_splits)
qed

lemma svc_current:
  assumes "fork_inv k s ts qs" and "el0_svc_handler regs s = Inr s'"
  shows "current s' = current s"
proof -
  have e: "current (entered regs s) = current s" "fork_inv k (entered regs s) ts qs"
    using assms(1) by (simp_all add: entered_def fork_inv_set_regs)
  have res: "current (result regs x u) = current u" for x and u :: "'a fork_state_scheme" by (simp add: result_def set_regs_def current_def)
  have f: "current u = current s" if "do_fork cf st arg (entered regs s) = Inr (r, u)" for cf st arg r u
    using that e(1) by (cases rule: do_fork_cases [OF e(2), of cf st arg]) auto
  have p: "current u = current s" if "get_free_page (entered regs s) = (q, u)" for q u
    using that e(1) by (cases rule: get_free_page_cases [of "entered regs s"]) (auto simp: current_def)
  show ?thesis
    using assms(2) f p e(1) unfolding svc_dispatched Let_def
    by (auto simp: bindr_eq_Inr res split: if_splits prod.splits)
qed

text \<open>A negative number reads outside the table of system calls.\<close>

lemma svc_negative: "sint (sysno (cc_sp (cpu s)) s) < 0 \<Longrightarrow> el0_svc s = Inl Out_of_bounds"
  by (simp add: el0_svc_def svc_dispatched Let_def)

lemma svc_step:
  assumes "kinv s ts qs" and "cc_sp (cpu s) = task_pt_regs (current s)" and "0 \<le> sint (sysno (cc_sp (cpu s)) s)"
  shows "\<exists>out s' ts' qs'. el0_svc s = Inr (out, s') \<and> kinv (resume out s') ts' qs' \<and> set ts \<subseteq> set ts' \<and>
     current (resume out s') \<in> insert (current s) (set ts')"
proof -
  have i: "fork_inv 0 s ts qs" "qs \<noteq> []" "only_timer s" using assms(1) by (simp_all add: kinv_def)
  obtain s1 ts' qs' where s1: "el0_svc_handler (cc_sp (cpu s)) s = Inr s1" "fork_inv 0 s1 ts' qs'" "set ts \<subseteq> set ts'"
    using svc_safe_run [OF i(1) assms(2)] assms(3) by (auto simp: sysno_def)
  have ne: "qs' \<noteq> []" using s1(2,3) i(1,2) by (fastforce simp: fork_inv_def sched_inv_def)
  have ot: "only_timer s1" using i(3) only_timer_more [OF svc_more [OF s1(1)]] by simp
  have "run_inv 0 s1 ts' qs'" using s1(2) by (simp add: fork_inv_def sched_inv_run)
  from ret_to_user_step [OF this ne ot] obtain out s' where s': "ret_to_user s1 = Inr (out, s')" "run_ok (resume out s') ts' qs'"
    "untouched ts' s1 (resume out s')" by blast
  have "current (resume out s') \<in> insert (current s) (set ts')"
    using s'(3) svc_current [OF i(1) s1(1)] by (simp add: untouched_def)
  with s' kinv_untouched [OF s1(2) s'(2,3)] s1(1,3) show ?thesis by (simp add: el0_svc_def) blast
qed


lemma kstep_kinv:
  assumes "kstep s ev s'" and "kinv s ts qs"
  shows "\<exists>ts' qs'. kinv s' ts' qs' \<and> set ts \<subseteq> set ts' \<and> current s' \<in> insert (current s) (set ts')"
proof -
  note r = kinv_run_ok [OF assms(2)]
  then have r': "run_inv 0 s ts qs" "qs \<noteq> []" "only_timer s" by (simp_all add: run_ok_def)
  have i: "fork_inv 0 s ts qs" using assms(2) by (simp add: kinv_def)
  from assms(1) show ?thesis
proof (cases rule: kstep.cases)
  case (interrupt out t)
  with interrupt_step [OF r] have "run_ok s' ts qs" "untouched ts s s'" by auto
  with kinv_untouched [OF i] show ?thesis by (auto simp: untouched_def)
next
  case (yield out t)
  with schedule_step [OF r'] have "run_ok s' ts qs" "untouched ts s s'" by auto
  with kinv_untouched [OF i] show ?thesis by (auto simp: untouched_def)
next
  case (create fn arg flags pid)
  with create_step [OF assms(2), of fn arg flags] show ?thesis by auto
next
  case (svc u out t)
  moreover from this have "0 \<le> sint (sysno (cc_sp (cpu (user_entry u s))) (user_entry u s))"
    using svc_negative [of "user_entry u s"] by fastforce
  ultimately show ?thesis using svc_step [OF user_entry_kinv [OF assms(2)], of u] by auto
next
  case (user_interrupt u out t)
  note k = user_entry_kinv [OF assms(2), of u]
  from user_interrupt user_interrupt_step [OF kinv_run_ok [OF k]] have u: "run_ok s' ts qs" "untouched ts (user_entry u s) s'" by auto
  have "fork_inv 0 (user_entry u s) ts qs" using k by (simp add: kinv_def)
  from kinv_untouched [OF this u] u(2) show ?thesis by (auto simp: untouched_def)
qed
qed

text \<open>A request to reschedule that is served while no task is ready.\<close>

lemma preempt_empty:
  assumes "sched_inv 0 s [] []"
  shows "preempt_schedule_irq s = Inl Uninit_read"
proof -
  let ?s = "arch_local_irq_enable (preempt_disable s)"
  have inv: "sched_inv 1 ?s [] []"
  proof (rule sched_inv_same [OF assms])
    have "run_inv 0 s [] []" using assms by (simp add: sched_inv_run)
    then show "run_inv 1 ?s [] []" using run_inv_preempt_disable [of 0 s] by (simp add: arch_local_irq_enable_def)
    show "same_links [] s ?s"
      using assms by (intro same_links_trans [OF same_links_ops(3) same_links_ops(2)]) (simp add: sched_inv_def)
  qed
  have "schedule_common By_preempt_schedule_irq ?s = Inl Uninit_read"
    by (rule schedule_empty [of _ "[]"]) (use inv in \<open>auto simp: sched_inv_def\<close>)
  then show ?thesis using assms by (simp add: preempt_schedule_irq_def sched_inv_def)
qed

section \<open>Properties\<close>



definition demo_kernel :: irq_state where "demo_kernel = demo_irq\<lparr>irq_masked := False\<rparr>"

lemma demo_kernel_inv: "kinv demo_kernel [0x400000, 0x401000] [0x401000, 0x400000]"
proof -
  have "fork_inv 0 demo_kernel [0x400000, 0x401000] [0x401000, 0x400000]"
    using demo_irq_inv unfolding demo_kernel_def by (subst fork_inv_cong [where s = demo_irq]) simp_all
  then show ?thesis
    using demo_irq_ready(1) by (simp add: kinv_def only_timer_def demo_kernel_def irq_ready_def)
      (simp add: demo_irq_def fork_state.extend_def irq_state.fields_def)
qed

text \<open>The window at the end of the boot: \<open>start_kernel\<close> enables interrupts before it creates the first thread. A
  timer interrupt there that uses up the time slice of the init task enters the scheduler with an empty ready queue, and
  \<open>pick_next_task_nop\<close> returns a local that was never assigned.\<close>

theorem early_interrupt_faults:
  assumes "fork_inv 0 s [] []" and "irq_ready s" and "iar s AND 0x3ff = 30" and "sint (goodness (current s) s) \<le> 1"
  shows "el1_irq s = Inl Uninit_read"
proof -
  define t where "t = (tick_handle_periodic s)\<lparr>hw_trace := hw_trace s @
     [irq_event s, Sys_write ''cntp_tval_el0'' (ucast (arch_timer_rate s)), Io_write (raw_cpu_base (gic_data s 0) + 0x10) 30]\<rparr>"
  have h: "el1_irq s = el1_irq_exit t" using irq_handler_timer [OF assms(2,3)] by (simp add: el1_irq_def t_def)
  have inv: "sched_inv 0 t [] []" using tick_fork_inv [OF assms(1)] by (simp add: t_def fork_inv_def)
  have g: "0 \<le> sint (goodness (current s) s)"
    using assms(1) by (auto simp: fork_inv_def sched_inv_def counters_ok_def goodness_def)
  have cur: "current t = current s" using ticks [OF g, of 1] by (simp add: t_def) (simp add: current_def)
  have "t_need_resched (tasks t (current s)) \<noteq> 0" using ticks [OF g, of 1] assms(4) by (auto simp: t_def)
  moreover have "preempt_count t = 0" using inv by (simp only: sched_inv_def)
  then have "t_preempt_count (tasks t (current s)) = 0" unfolding preempt_count_def cur .
  ultimately show ?thesis using preempt_empty [OF inv] by (simp add: h el1_irq_exit_def cur)
qed

text \<open>The boot task alone, in the last tick of its time slice.\<close>

definition demo_early :: irq_state where
  "demo_early = demo_irq\<lparr>tasks := (\<lambda>_. task_0)(0x90000 := task_0\<lparr>t_next_task := 0x90000, t_prev_task := 0x90000, t_counter := 1, t_priority := 2\<rparr>),
     lists := INIT_LIST_HEAD (rq_head demo_irq) (lists demo_irq), rq := (rq demo_irq)\<lparr>nr_running := 0\<rparr>, g_task := (\<lambda>_. 0)(0 := 0x90000)\<rparr>"

lemma demo_early_simps: "current demo_early = 0x90000" "syms demo_early = syms demo_sched"
  using demo_irq_current by (simp_all add: demo_early_def current_def demo_irq_simps)

lemma demo_early_inv: "fork_inv 0 demo_early [] []"
proof -
  have "sched_rep demo_early [] []"
    by (simp add: sched_rep_def task_ring_def ring_def list_rep_def demo_early_def demo_irq_simps INIT_LIST_HEAD_def)
      (simp add: demo_sched_def)
  then have "sched_inv 0 demo_early [] []"
    by (simp add: sched_inv_def demo_early_simps counters_ok_def preempt_count_def)
      (simp add: demo_early_def demo_sched_def task_0_def)
  then show ?thesis by (simp add: fork_inv_def demo_early_simps) (simp add: demo_early_def demo_sched_def)
qed

theorem early_interrupt_faults_witness: "el1_irq demo_early = Inl Uninit_read"
proof (rule early_interrupt_faults [OF demo_early_inv])
  show "irq_ready demo_early" using demo_irq_ready(1) by (simp add: irq_ready_def demo_early_def)
  show "iar demo_early AND 0x3ff = 30" by (simp add: iar_def demo_early_def demo_irq_simps)
  show "sint (goodness (current demo_early) demo_early) \<le> 1"
    by (simp add: goodness_def demo_early_simps) (simp add: demo_early_def)
qed

end
