(* ===== verification/Fork_Steps.thy ===== *)
theory Fork_Steps
  imports Fork
begin

text \<open>
  \<open>do_fork\<close> of \<^verbatim>\<open>kernel/fork.c\<close> statement by statement, with the functions it calls: what \<open>Fork\<close> has as one
  function is here a program counter with a step function, for the interleavings of \<open>Preempt\<close>. Run without
  interruption it is that function.
\<close>

section \<open>do_fork, one statement at a time\<close>

text \<open>The statements of \<open>copy_thread\<close> up to its return; a misaligned user stack ends it after the copy of the frame.\<close>

type_synonym 'a stmt = "'a fork_state_scheme \<Rightarrow> 'a fork_state_scheme"

definition copy_stmts :: "u64 \<Rightarrow> u64 \<Rightarrow> u64 \<Rightarrow> u64 \<Rightarrow> 'a stmt list" where
  "copy_stmts clone_flags p stack arg =
     [set_regs (task_pt_regs p) (\<lambda>_. pt_regs_0), upd_task p (\<lambda>t. t\<lparr>t_cpu_context := cpu_context_0\<rparr>)] @
     (if clone_flags AND PF_KTHREAD \<noteq> 0 then
        [set_regs (task_pt_regs p) (\<lambda>r. r\<lparr>r_pstate := PSR_MODE_EL1h\<rparr>),
         upd_task p (\<lambda>t. t\<lparr>t_cpu_context := (t_cpu_context t)\<lparr>cc_x19 := stack\<rparr>\<rparr>),
         upd_task p (\<lambda>t. t\<lparr>t_cpu_context := (t_cpu_context t)\<lparr>cc_x20 := arg\<rparr>\<rparr>)]
      else
        [\<lambda>s. set_regs (task_pt_regs p) (\<lambda>_. pt_regs_at s (task_pt_regs (current s))) s,
         set_regs (task_pt_regs p) (\<lambda>r. r\<lparr>r_regs := (r_regs r)(0 := 0)\<rparr>)] @
        (if stack \<noteq> 0 \<and> stack AND 15 = 0 then [set_regs (task_pt_regs p) (\<lambda>r. r\<lparr>r_sp := stack\<rparr>)] else [])) @
     (if clone_flags AND PF_KTHREAD = 0 \<and> stack \<noteq> 0 \<and> stack AND 15 \<noteq> 0 then []
      else
        [\<lambda>s. upd_task p (\<lambda>t. t\<lparr>t_cpu_context := (t_cpu_context t)\<lparr>cc_pc := sym_ret_from_fork (syms s)\<rparr>\<rparr>) s,
         upd_task p (\<lambda>t. t\<lparr>t_cpu_context := (t_cpu_context t)\<lparr>cc_sp := task_pt_regs p\<rparr>\<rparr>)])"

text \<open>The fields of the new task, in the order of the source.\<close>

definition fill_stmts :: "u64 \<Rightarrow> s32 \<Rightarrow> 'a stmt list" where
  "fill_stmts p pid =
     [upd_task p (\<lambda>t. t\<lparr>t_state := TASK_RUNNING\<rparr>),
      upd_task p (\<lambda>t. t\<lparr>t_pid := pid\<rparr>),
      \<lambda>s. upd_task p (\<lambda>t. t\<lparr>t_counter := signed_drop_bit 1 (t_counter (tasks s (current s)) + 1)\<rparr>) s,
      \<lambda>s. upd_task (current s) (\<lambda>t. t\<lparr>t_counter := signed_drop_bit 1 (t_counter t)\<rparr>) s,
      upd_task p (\<lambda>t. t\<lparr>t_need_resched := 0\<rparr>),
      upd_task p (\<lambda>t. t\<lparr>t_preempt_count := 0\<rparr>),
      upd_task p (\<lambda>t. t\<lparr>t_priority := 2\<rparr>),
      \<lambda>s. s\<lparr>total_forks := total_forks s + 1\<rparr>]"

text \<open>The registration, the four writes of \<open>SET_LINKS\<close>, and the first statement of \<open>wake_up_process\<close>.\<close>

definition link_stmts :: "u64 \<Rightarrow> s32 \<Rightarrow> 'a stmt list" where
  "link_stmts p pid =
     [\<lambda>s. s\<lparr>g_task := (g_task s)(unat pid := p)\<rparr>,
      \<lambda>s. upd_task p (\<lambda>t. t\<lparr>t_next_task := init_task s\<rparr>) s,
      \<lambda>s. upd_task p (\<lambda>t. t\<lparr>t_prev_task := t_prev_task (tasks s (init_task s))\<rparr>) s,
      \<lambda>s. upd_task (t_prev_task (tasks s (init_task s))) (\<lambda>t. t\<lparr>t_next_task := p\<rparr>) s,
      \<lambda>s. upd_task (init_task s) (\<lambda>t. t\<lparr>t_prev_task := p\<rparr>) s,
      upd_task p (\<lambda>t. t\<lparr>t_state := TASK_RUNNING\<rparr>)]"

text \<open>The four writes of \<open>__list_add\<close>, whose \<open>next\<close> was read before, and the count of \<open>enqueue_task_nop\<close>.\<close>

definition insert_stmts :: "u64 \<Rightarrow> u64 \<Rightarrow> 'a stmt list" where
  "insert_stmts p nxt =
     [\<lambda>s. s\<lparr>lists := (lists s)(nxt := (lists s nxt)\<lparr>lh_prev := run_list_of p\<rparr>)\<rparr>,
      \<lambda>s. s\<lparr>lists := (lists s)(run_list_of p := (lists s (run_list_of p))\<lparr>lh_next := nxt\<rparr>)\<rparr>,
      \<lambda>s. s\<lparr>lists := (lists s)(run_list_of p := (lists s (run_list_of p))\<lparr>lh_prev := rq_head s\<rparr>)\<rparr>,
      \<lambda>s. s\<lparr>lists := (lists s)(rq_head s := (lists s (rq_head s))\<lparr>lh_next := run_list_of p\<rparr>)\<rparr>,
      \<lambda>s. s\<lparr>rq := (rq s)\<lparr>nr_running := nr_running (rq s) + 1\<rparr>\<rparr>]"

text \<open>Where the creator is; the locals \<open>p\<close>, \<open>pid\<close> and \<open>next\<close> are arguments, the number says how many statements of
  the group are done.\<close>

datatype fork_pc =
    Alloc | Clear u64 | Find u64 | Copy u64 s32 nat | Fill u64 s32 nat | Link u64 s32 nat
  | Enqueue u64 s32 | Insert u64 s32 u64 nat | Free u64 | Done s32

definition run_stmts :: "'a stmt list \<Rightarrow> nat \<Rightarrow> (nat \<Rightarrow> fork_pc) \<Rightarrow> fork_pc \<Rightarrow> 'a fork_state_scheme \<Rightarrow> fork_pc \<times> 'a fork_state_scheme" where
  "run_stmts xs k pc after s = (if k < length xs then (pc (k + 1), (xs ! k) s) else (after, s))"

fun fork_next :: "u64 \<Rightarrow> u64 \<Rightarrow> u64 \<Rightarrow> fork_pc \<Rightarrow> 'a fork_state_scheme \<Rightarrow> (fork_pc \<times> 'a fork_state_scheme) res" where
  "fork_next cf stack arg Alloc s = (let (p, s) = get_free_page s in Inr (if p = 0 then Done (- 1) else Clear p, s))"
| "fork_next cf stack arg (Clear p) s =
     (let s = upd_task p (\<lambda>_. task_0) s
      in Inr (Find p, s\<lparr>lists := (lists s)(run_list_of p := \<lparr>lh_next = 0, lh_prev = 0\<rparr>)\<rparr>))"
| "fork_next cf stack arg (Find p) s =
     (let pid = find_empty_task s in Inr (if sint pid < 0 then Free p else Copy p pid 0, s))"
| "fork_next cf stack arg (Copy p pid k) s =
     Inr (run_stmts (copy_stmts cf p stack arg) k (Copy p pid)
       (if cf AND PF_KTHREAD = 0 \<and> stack \<noteq> 0 \<and> stack AND 15 \<noteq> 0 then Free p else Fill p pid 0) s)"
| "fork_next cf stack arg (Fill p pid k) s = Inr (run_stmts (fill_stmts p pid) k (Fill p pid) (Link p pid 0) s)"
| "fork_next cf stack arg (Link p pid k) s = Inr (run_stmts (link_stmts p pid) k (Link p pid) (Enqueue p pid) s)"
| "fork_next cf stack arg (Enqueue p pid) s =
     (let nxt = lh_next (lists s (rq_head s))
      in if nxt = 0 \<or> run_list_of p = 0 \<or> rq_head s = 0 then Inl Null_deref else Inr (Insert p pid nxt 0, s))"
| "fork_next cf stack arg (Insert p pid nxt k) s = Inr (run_stmts (insert_stmts p nxt) k (Insert p pid nxt) (Done pid) s)"
| "fork_next cf stack arg (Free p) s = bindr (free_page p s) (\<lambda>s. Inr (Done (- 1), s))"
| "fork_next cf stack arg (Done r) s = Inr (Done r, s)"

fun fork_iter :: "nat \<Rightarrow> u64 \<Rightarrow> u64 \<Rightarrow> u64 \<Rightarrow> fork_pc \<Rightarrow> 'a fork_state_scheme \<Rightarrow> (fork_pc \<times> 'a fork_state_scheme) res" where
  "fork_iter 0 cf stack arg pc s = Inr (pc, s)"
| "fork_iter (Suc n) cf stack arg pc s = bindr (fork_next cf stack arg pc s) (\<lambda>(pc, s). fork_iter n cf stack arg pc s)"

section \<open>Without interruption\<close>

primrec do_all :: "'a stmt list \<Rightarrow> 'a stmt" where
  "do_all [] s = s"
| "do_all (f # fs) s = do_all fs (f s)"

lemma do_all_drop: "k < length fs \<Longrightarrow> do_all (drop (Suc k) fs) ((fs ! k) s) = do_all (drop k fs) s"
  by (simp flip: Cons_nth_drop_Suc)

lemma fork_iter_done: "fork_iter n cf stack arg (Done r) s = Inr (Done r, s)"
  by (induction n) simp_all

lemmas fork_iter_Suc = fork_iter.simps(2)

lemma fork_iter_stmts:
  assumes step: "\<And>k s. fork_next cf stack arg (pc k) s = Inr (run_stmts xs k pc after s)" and "k + m = length xs"
  shows "fork_iter (Suc (m + n)) cf stack arg (pc k) s = fork_iter n cf stack arg after (do_all (drop k xs) s)"
  using assms(2)
proof (induction m arbitrary: k s)
  case 0
  then show ?case by (simp add: step run_stmts_def)
next
  case (Suc m)
  then have "k < length xs" by simp
  with Suc do_all_drop [of k xs s] show ?case by (simp add: step run_stmts_def)
qed

lemma fork_iter_group:
  assumes "\<And>k s. fork_next cf stack arg (pc k) s = Inr (run_stmts xs k pc after s)" and "Suc (length xs + n) = m"
  shows "fork_iter m cf stack arg (pc 0) s = fork_iter n cf stack arg after (do_all xs s)"
  using fork_iter_stmts [of cf stack arg pc xs after 0 "length xs" n s] assms by auto

text \<open>Uninterrupted, the statements are \<open>do_fork\<close>: 34 steps are enough on every path.\<close>

lemma copy_stmts_copy:
  "copy_thread cf p stack arg s =
     (if cf AND PF_KTHREAD = 0 \<and> stack \<noteq> 0 \<and> stack AND 15 \<noteq> 0 then - 1 else 0, do_all (copy_stmts cf p stack arg) s)"
  by (simp add: copy_thread_def copy_stmts_def Let_def upd_task_def set_regs_def current_def)

lemma link_stmts_links:
  "do_all (link_stmts p pid) s =
     upd_task p (\<lambda>t. t\<lparr>t_state := TASK_RUNNING\<rparr>) (SET_LINKS p (s\<lparr>g_task := (g_task s)(unat pid := p)\<rparr>))"
  by (simp add: link_stmts_def SET_LINKS_def Let_def)

lemma insert_stmts_enqueue:
  "enqueue_task p s =
     (let nxt = lh_next (lists s (rq_head s))
      in if nxt = 0 \<or> run_list_of p = 0 \<or> rq_head s = 0 then Inl Null_deref else Inr (do_all (insert_stmts p nxt) s))"
  by (simp add: enqueue_task_def nop_sched_class_def enqueue_task_nop_def list_add_def list_add_between_def
      insert_stmts_def Let_def)

lemma stmts_length [simp]:
  "length (fill_stmts p pid) = 8" "length (link_stmts p pid) = 6" "length (insert_stmts p nxt) = 5"
  by (simp_all add: fill_stmts_def link_stmts_def insert_stmts_def)

lemma copy_stmts_length: "length (copy_stmts cf p stack arg) \<le> 7"
  by (simp add: copy_stmts_def)

lemma enqueue_iter:
  assumes "7 + n = m"
  shows "fork_iter m cf stack arg (Enqueue p pid) s = bindr (enqueue_task p s) (\<lambda>t. Inr (Done pid, t))"
proof -
  obtain m' where m: "m = Suc m'" "6 + n = m'" using assms by (cases m) simp_all
  have "fork_iter m' cf stack arg (Insert p pid nxt 0) s = Inr (Done pid, do_all (insert_stmts p nxt) s)" for nxt
    using m(2) fork_iter_group [of cf stack arg "Insert p pid nxt" "insert_stmts p nxt" "Done pid" n m' s]
    by (simp add: fork_iter_done)
  then show ?thesis by (simp add: m(1) insert_stmts_enqueue Let_def)
qed

lemma fill_iter:
  assumes "23 + n = m"
  shows "fork_iter m cf stack arg (Fill p pid 0) s =
     bindr (wake_up_process p (SET_LINKS p (let s = do_all (fill_stmts p pid) s in s\<lparr>g_task := (g_task s)(unat pid := p)\<rparr>)))
       (\<lambda>t. Inr (Done pid, t))"
proof -
  have "fork_iter m cf stack arg (Fill p pid 0) s = fork_iter (14 + n) cf stack arg (Link p pid 0) (do_all (fill_stmts p pid) s)"
    using assms by (intro fork_iter_group) simp_all
  also have "\<dots> = fork_iter (7 + n) cf stack arg (Enqueue p pid) (do_all (link_stmts p pid) (do_all (fill_stmts p pid) s))"
    by (intro fork_iter_group) simp_all
  finally show ?thesis by (simp add: enqueue_iter link_stmts_links wake_up_process_def Let_def)
qed

lemma fork_steps_eq: "fork_iter 34 cf stack arg Alloc s = bindr (do_fork cf stack arg s) (\<lambda>(r, t). Inr (Done r, t))"
proof -
  obtain p s1 where page: "get_free_page s = (p, s1)" by fastforce
  let ?s = "(upd_task p (\<lambda>_. task_0) s1)\<lparr>lists := (lists s1)(run_list_of p := \<lparr>lh_next = 0, lh_prev = 0\<rparr>)\<rparr>"
  let ?pid = "find_empty_task ?s" and ?n = "30 - length (copy_stmts cf p stack arg :: 'a stmt list)"
  have copy: "fork_iter 31 cf stack arg (Copy p pid 0) t =
     fork_iter ?n cf stack arg (if cf AND PF_KTHREAD = 0 \<and> stack \<noteq> 0 \<and> stack AND 15 \<noteq> 0 then Free p else Fill p pid 0)
       (do_all (copy_stmts cf p stack arg) t)" for pid and t :: "'a fork_state_scheme"
    using copy_stmts_length [where 'a = 'a, of cf p stack arg] by (intro fork_iter_group) simp_all
  have free: "fork_iter (Suc n) cf stack arg (Free p) t = bindr (free_page p t) (\<lambda>t. Inr (Done (- 1), t))" for n and t :: "'a fork_state_scheme"
    by (cases "free_page p t") (simp_all add: fork_iter_done)
  have n: "?n = Suc (?n - 1)" "23 + (?n - 23) = ?n" using copy_stmts_length [where 'a = 'a, of cf p stack arg] by simp_all
  have "fork_iter 34 cf stack arg Alloc s = (if p = 0 then Inr (Done (- 1), s1) else fork_iter 33 cf stack arg (Clear p) s1)"
    by (simp add: fork_iter_Suc [of 33, simplified] page fork_iter_done)
  also have "fork_iter 33 cf stack arg (Clear p) s1 = fork_iter 32 cf stack arg (Find p) ?s"
    by (simp add: fork_iter_Suc [of 32, simplified] Let_def)
  also have "\<dots> = fork_iter 31 cf stack arg (if sint ?pid < 0 then Free p else Copy p ?pid 0) ?s"
    by (simp add: fork_iter_Suc [of 31, simplified] Let_def)
  finally have head: "fork_iter 34 cf stack arg Alloc s =
     (if p = 0 then Inr (Done (- 1), s1) else if sint ?pid < 0 then bindr (free_page p ?s) (\<lambda>t. Inr (Done (- 1), t))
      else fork_iter 31 cf stack arg (Copy p ?pid 0) ?s)"
    using free [of 30] by simp
  let ?u = "do_all (copy_stmts cf p stack arg) ?s" and ?bad = "cf AND PF_KTHREAD = 0 \<and> stack \<noteq> 0 \<and> stack AND 15 \<noteq> 0"
  have fork: "do_fork cf stack arg s =
     (if p = 0 then Inr (- 1, s1) else if sint ?pid < 0 then bindr (free_page p ?s) (\<lambda>t. Inr (- 1, t))
      else if ?bad then bindr (free_page p ?u) (\<lambda>t. Inr (- 1, t))
      else bindr (wake_up_process p (SET_LINKS p (let s = do_all (fill_stmts p ?pid) ?u in s\<lparr>g_task := (g_task s)(unat ?pid := p)\<rparr>)))
        (\<lambda>t. Inr (?pid, t)))"
    by (cases ?bad; simp only: do_fork_def page Let_def prod.case copy_stmts_copy fill_stmts_def do_all.simps if_True if_False
        HOL.simp_thms; simp)
  have "fork_iter ?n cf stack arg (Free p) ?u = bindr (free_page p ?u) (\<lambda>t. Inr (Done (- 1), t))" using free n(1) by metis
  then show ?thesis unfolding head copy fork
    by (cases "p = 0"; cases "sint ?pid < 0"; cases ?bad;
        simp only: bindr_assoc bindr_simps prod.case fill_iter [OF n(2)] if_True if_False HOL.simp_thms)
qed

end
