(* ===== verification/Preempt.thy ===== *)
theory Preempt
  imports Kernel Fork_Steps
begin

text \<open>
  The creation of a thread while interrupts are on. Between two statements of \<open>do_fork\<close>, called by \<open>kernel_thread\<close>, the
  timer may interrupt the creator, the scheduler may run other tasks for any number of slices, and the creator
  goes on where it was. The table and the queue are inconsistent between the writes of an insertion; the
  scheduler only follows their forward links, which are consistent at every point.
\<close>

section \<open>What the statements that publish the task read\<close>

text \<open>They do the same in two states that agree on the lists, the links, the pids, the pages and the table.\<close>

definition agree :: "'a fork_state_scheme \<Rightarrow> 'a fork_state_scheme \<Rightarrow> bool" where
  "agree s s' \<longleftrightarrow> lists s' = lists s \<and> syms s' = syms s \<and> nr_running (rq s') = nr_running (rq s) \<and>
     mem_map s' = mem_map s \<and> g_task s' = g_task s \<and>
     (\<forall>q. t_next_task (tasks s' q) = t_next_task (tasks s q) \<and> t_prev_task (tasks s' q) = t_prev_task (tasks s q) \<and>
        t_pid (tasks s' q) = t_pid (tasks s q))"

lemma untouched_agree: "untouched ts s s' \<Longrightarrow> agree s s'" for s :: "'a fork_state_scheme"
  by (cases s, cases s') (simp add: untouched_def same_links_def sched_frame_def agree_def)

lemma registered_agree: "agree s s' \<Longrightarrow> registered s' ts qs = registered s ts qs"
  using sched_rep_cong [of s' s ts qs] by (simp add: agree_def registered_def used_pages_def)

lemma do_all_agree:
  assumes "\<And>f s s'. f \<in> set fs \<Longrightarrow> agree s s' \<Longrightarrow> agree (f s) (f s')" and "agree s s'"
  shows "agree (do_all fs s) (do_all fs s')"
  using assms by (induction fs arbitrary: s s') auto

lemma link_agree: "f \<in> set (link_stmts p pid) \<Longrightarrow> agree s s' \<Longrightarrow> agree (f s) (f s')"
  by (auto simp: link_stmts_def agree_def upd_task_def)

lemma insert_agree: "f \<in> set (insert_stmts p nxt) \<Longrightarrow> agree s s' \<Longrightarrow> agree (f s) (f s')"
  by (auto simp: insert_stmts_def agree_def)

text \<open>The state in which the remaining statements would leave the table and the queue.\<close>

definition finish :: "'a stmt list \<Rightarrow> u64 \<Rightarrow> 'a stmt" where
  "finish fs p s = (let u = do_all fs s in do_all (insert_stmts p (lh_next (lists u (rq_head u)))) u)"

lemma finish_agree:
  assumes "agree s s'"
  shows "agree (finish (drop k (link_stmts p pid)) p s) (finish (drop k (link_stmts p pid)) p s')"
proof -
  have a: "agree (do_all (drop k (link_stmts p pid)) s) (do_all (drop k (link_stmts p pid)) s')" (is "agree ?u ?v")
    using assms by (intro do_all_agree) (auto dest!: in_set_dropD intro: link_agree)
  then have "lh_next (lists ?v (rq_head ?v)) = lh_next (lists ?u (rq_head ?u))" by (simp add: agree_def)
  then show ?thesis unfolding finish_def Let_def using a by (auto intro!: do_all_agree intro: insert_agree)
qed

lemma insert_rest_agree: "agree s s' \<Longrightarrow> agree (do_all (drop k (insert_stmts p nxt)) s) (do_all (drop k (insert_stmts p nxt)) s')"
  by (intro do_all_agree) (auto dest!: in_set_dropD intro: insert_agree)

lemma run_inv_move:
  assumes run: "run_inv k s ts qs" and walk: "walk_rep s' ts' qs'" and f: "syms s' = syms s" "cpu s' = cpu s"
    and old: "\<And>q. q \<in> insert (init_task s) (set ts) \<Longrightarrow> t_state (tasks s' q) = t_state (tasks s q) \<and>
        t_cpu_context (tasks s' q) = t_cpu_context (tasks s q) \<and> t_preempt_count (tasks s' q) = t_preempt_count (tasks s q) \<and>
        t_counter (tasks s' q) = t_counter (tasks s q) \<and> t_priority (tasks s' q) = t_priority (tasks s q)"
    and new: "\<And>q. q \<in> set ts' - set ts \<Longrightarrow> suspended s' q \<and> t_state (tasks s' q) = TASK_RUNNING \<and>
        0 \<le> sint (t_counter (tasks s' q)) \<and> sint (t_counter (tasks s' q)) \<le> 45 \<and>
        0 \<le> sint (t_priority (tasks s' q)) \<and> sint (t_priority (tasks s' q)) \<le> 20"
    and sub: "set ts \<subseteq> set ts'"
  shows "run_inv k s' ts' qs'"
proof -
  have c: "current s' = current s" by (simp add: current_def f)
  have "current s \<in> insert (init_task s) (set ts)" using run by (simp add: run_inv_def)
  then have k: "preempt_count s' = k" "current s \<in> insert (init_task s) (set ts')"
    using run old sub by (auto simp: preempt_count_def c run_inv_def)
  have "suspended s' q" if "q \<in> insert (init_task s) (set ts') - {current s}" for q
  proof (cases "q \<in> insert (init_task s) (set ts)")
    case True
    with that run have "suspended s q" by (auto simp: run_inv_def)
    with old [OF True] show ?thesis by (simp add: suspended_def f)
  next
    case False
    with that new show ?thesis by blast
  qed
  moreover have "t_state (tasks s' q) = TASK_RUNNING \<and> 0 \<le> sint (t_counter (tasks s' q)) \<and> sint (t_counter (tasks s' q)) \<le> 45 \<and>
        0 \<le> sint (t_priority (tasks s' q)) \<and> sint (t_priority (tasks s' q)) \<le> 20"
    if "q \<in> insert (init_task s) (set ts')" for q
  proof (cases "q \<in> insert (init_task s) (set ts)")
    case True
    with run old [OF True] show ?thesis by (auto simp: run_inv_def table_ok_def counters_ok_def)
  next
    case False
    with that new show ?thesis by blast
  qed
  ultimately show ?thesis
    using run walk k by (simp add: run_inv_def table_ok_def counters_ok_def f c)
qed


text \<open>The statements before the registration write the new page, the counters and \<open>total_forks\<close>.\<close>

lemma kinv_move:
  assumes inv: "kinv s ts qs"
    and f: "syms s' = syms s" "cpu s' = cpu s" "g_task s' = g_task s" "mem_map s' = mem_map s" "nr_running (rq s') = nr_running (rq s)"
      "fork_state.more s' = fork_state.more s" "irq_masked s' = irq_masked s"
    and tasks: "\<And>q. q \<in> insert (init_task s) (set ts) \<Longrightarrow>
        tasks s' q = (tasks s q)\<lparr>t_counter := t_counter (tasks s' q)\<rparr> \<and>
        0 \<le> sint (t_counter (tasks s' q)) \<and> sint (t_counter (tasks s' q)) \<le> 45"
    and lists: "\<And>a. a \<in> insert (rq_head s) (run_list_of ` set ts) \<Longrightarrow> lists s' a = lists s a"
  shows "kinv s' ts qs"
proof -
  have i: "fork_inv 0 s ts qs" "qs \<noteq> []" "only_timer s" "\<not> irq_masked s" using inv by (simp_all add: kinv_def)
  have eq: "t_next_task (tasks s' q) = t_next_task (tasks s q)" "t_prev_task (tasks s' q) = t_prev_task (tasks s q)"
    "t_pid (tasks s' q) = t_pid (tasks s q)" "t_state (tasks s' q) = t_state (tasks s q)"
    "t_cpu_context (tasks s' q) = t_cpu_context (tasks s q)" "t_preempt_count (tasks s' q) = t_preempt_count (tasks s q)"
    "t_priority (tasks s' q) = t_priority (tasks s q)" if "q \<in> insert (init_task s) (set ts)" for q
    by (subst conjunct1 [OF tasks [OF that]], simp)+
  have c: "current s' = current s" by (simp add: current_def f)
  have r: "sched_rep s ts qs" "counters_ok s ts" "set qs = set ts" "current s \<in> insert (init_task s) (set ts)"
    using i(1) by (simp_all add: fork_inv_def sched_inv_def)
  have "task_ring s' ts"
    using r(1) eq unfolding task_ring_def sched_rep_def f(1)
    by (subst ring_cong [where nxt' = "\<lambda>p. t_next_task (tasks s p)" and prv' = "\<lambda>p. t_prev_task (tasks s p)"]) auto
  moreover have "list_rep (lists s') (rq_head s) (map run_list_of qs)"
    using r(1,3) lists unfolding list_rep_def sched_rep_def
    by (subst ring_cong [where nxt' = "\<lambda>a. lh_next (lists s a)" and prv' = "\<lambda>a. lh_prev (lists s a)"]) auto
  ultimately have rep: "sched_rep s' ts qs" using r(1) by (simp add: sched_rep_def f)
  have "counters_ok s' ts" using r(2) tasks eq by (simp add: counters_ok_def f)
  moreover have "\<forall>q \<in> insert (init_task s) (set ts) - {current s}. suspended s' q"
    using i(1) eq by (auto simp: fork_inv_def sched_inv_def suspended_def f)
  moreover have "\<forall>q \<in> insert (init_task s) (set ts). t_state (tasks s' q) = TASK_RUNNING"
    using i(1) eq by (auto simp: fork_inv_def sched_inv_def)
  moreover have "preempt_count s' = 0" using i(1) eq [OF r(4)] by (simp add: fork_inv_def sched_inv_def preempt_count_def c)
  ultimately have "sched_inv 0 s' ts qs"
    using rep r(3,4) i(1) unfolding sched_inv_def c f by (simp add: fork_inv_def sched_inv_def)
  moreover have "registered s ts qs" using i(1) by (simp add: fork_inv_registered)
  then have "registered s' ts qs" using eq rep unfolding registered_def used_pages_def f Let_def by auto
  ultimately have "fork_inv 0 s' ts qs" by (simp add: fork_inv_registered sched_inv_run)
  then show ?thesis using i only_timer_more [OF f(6)] f(7) by (simp add: kinv_def)
qed

section \<open>The creator and its interruptions\<close>

text \<open>The creator runs when it is the running task. At any point the timer may interrupt whoever runs, and whoever runs may
  call the scheduler. The number counts the steps of the creator.\<close>

inductive fork_run :: "u64 \<Rightarrow> u64 \<Rightarrow> u64 \<Rightarrow> 'a irq_state_scheme \<Rightarrow> nat \<Rightarrow> fork_pc \<Rightarrow> 'a irq_state_scheme \<Rightarrow> bool"
  for cf stack arg s0 where
  called: "fork_run cf stack arg s0 0 Alloc s0"
| own: "fork_run cf stack arg s0 n pc s \<Longrightarrow> current s = current s0 \<Longrightarrow> (\<forall>r. pc \<noteq> Done r) \<Longrightarrow>
     fork_next cf stack arg pc s = Inr (pc', s') \<Longrightarrow> fork_run cf stack arg s0 (Suc n) pc' s'"
| event: "fork_run cf stack arg s0 n pc s \<Longrightarrow> kstep s ev s' \<Longrightarrow> ev \<in> {Interrupt, Yield} \<Longrightarrow> fork_run cf stack arg s0 n pc s'"

lemma quiet_event:
  assumes "kstep s ev s'" and "ev \<in> {Interrupt, Yield}" and "run_ok s ts qs"
  shows "run_ok s' ts qs \<and> untouched ts s s'"
  using assms(1)
proof (cases rule: kstep.cases)
  case (interrupt out t)
  with interrupt_step [OF assms(3)] show ?thesis by auto
next
  case (yield out t)
  have "run_inv 0 s ts qs" "qs \<noteq> []" "only_timer s" using assms(3) by (simp_all add: run_ok_def)
  with schedule_step yield show ?thesis by fastforce
qed (use assms(2) in auto)

section \<open>The invariant at every point of the creator\<close>

definition fresh_task :: "'a sched_state_scheme \<Rightarrow> u64 \<Rightarrow> bool" where
  "fresh_task s p \<longleftrightarrow> t_state (tasks s p) = TASK_RUNNING \<and> t_preempt_count (tasks s p) = 0 \<and>
     0 \<le> sint (t_counter (tasks s p)) \<and> sint (t_counter (tasks s p)) \<le> 45 \<and>
     0 \<le> sint (t_priority (tasks s p)) \<and> sint (t_priority (tasks s p)) \<le> 20"

definition ready_child :: "'a sched_state_scheme \<Rightarrow> u64 \<Rightarrow> bool" where
  "ready_child s p \<longleftrightarrow> fresh_task s p \<and> page_of (cc_sp (t_cpu_context (tasks s p))) = p \<and>
     cc_pc (t_cpu_context (tasks s p)) = sym_ret_from_fork (syms s)"

definition slot :: "'a fork_state_scheme \<Rightarrow> s32 \<Rightarrow> bool" where
  "slot s0 pid \<longleftrightarrow> (\<exists>j < 128. pid = word_of_nat j \<and> g_task s0 j = 0 \<and> (\<forall>k < j. g_task s0 k \<noteq> 0))"

text \<open>Before the registration: the kernel's invariant holds, and one more page is used.\<close>

definition unpublished :: "'a irq_state_scheme \<Rightarrow> u64 list \<Rightarrow> u64 list \<Rightarrow> 'a irq_state_scheme \<Rightarrow> bool" where
  "unpublished s0 ts qs s \<longleftrightarrow> kinv s ts qs \<and> syms s = syms s0 \<and> g_task s = g_task s0"

definition owns :: "'a irq_state_scheme \<Rightarrow> u64 list \<Rightarrow> u64 list \<Rightarrow> u64 \<Rightarrow> 'a irq_state_scheme \<Rightarrow> bool" where
  "owns s0 ts qs p s \<longleftrightarrow> unpublished s0 ts qs s \<and>
     (\<exists>i < NR_PAGES. mem_map s0 i = 0 \<and> p = page_addr i \<and> mem_map s = (mem_map s0)(i := 1))"

definition new_page :: "'a fork_state_scheme \<Rightarrow> u64 list \<Rightarrow> u64 \<Rightarrow> bool" where
  "new_page s0 ts p \<longleftrightarrow> p \<notin> used_pages s0 \<and> p \<notin> insert (init_task s0) (set ts)"

text \<open>The state that the creation leads to.\<close>

definition made :: "'a irq_state_scheme \<Rightarrow> u64 list \<Rightarrow> u64 list \<Rightarrow> u64 \<Rightarrow> s32 \<Rightarrow> 'a irq_state_scheme \<Rightarrow> bool" where
  "made s0 ts qs p pid u \<longleftrightarrow> registered u (ts @ [p]) (p # qs) \<and> g_task u = (g_task s0)(unat pid := p) \<and>
     t_pid (tasks u p) = pid \<and> used_pages u = insert p (used_pages s0) \<and> syms u = syms s0"

fun fork_ok :: "u64 \<Rightarrow> u64 \<Rightarrow> u64 \<Rightarrow> 'a irq_state_scheme \<Rightarrow> u64 list \<Rightarrow> u64 list \<Rightarrow> fork_pc \<Rightarrow> 'a irq_state_scheme \<Rightarrow> bool" where
  "fork_ok cf stack arg s0 ts qs Alloc s \<longleftrightarrow> unpublished s0 ts qs s \<and> mem_map s = mem_map s0"
| "fork_ok cf stack arg s0 ts qs (Clear p) s \<longleftrightarrow> owns s0 ts qs p s"
| "fork_ok cf stack arg s0 ts qs (Find p) s \<longleftrightarrow> owns s0 ts qs p s \<and> fresh_task s p"
| "fork_ok cf stack arg s0 ts qs (Copy p pid k) s \<longleftrightarrow> owns s0 ts qs p s \<and> fresh_task s p \<and> slot s0 pid \<and>
     (cf AND PF_KTHREAD = 0 \<and> stack \<noteq> 0 \<and> stack AND 15 \<noteq> 0 \<or> ready_child (do_all (drop k (copy_stmts cf p stack arg)) s) p)"
| "fork_ok cf stack arg s0 ts qs (Fill p pid k) s \<longleftrightarrow> owns s0 ts qs p s \<and> ready_child s p \<and> slot s0 pid \<and>
     (1 < k \<longrightarrow> t_pid (tasks s p) = pid)"
| "fork_ok cf stack arg s0 ts qs (Link p pid k) s \<longleftrightarrow> slot s0 pid \<and> new_page s0 ts p \<and>
     (if k = 0 then owns s0 ts qs p s \<and> ready_child s p \<and> t_pid (tasks s p) = pid
      else run_ok s (if k \<le> 3 then ts else ts @ [p]) qs \<and> syms s = syms s0 \<and> (k \<le> 3 \<longrightarrow> ready_child s p) \<and>
        made s0 ts qs p pid (finish (drop k (link_stmts p pid)) p s))"
| "fork_ok cf stack arg s0 ts qs (Enqueue p pid) s \<longleftrightarrow> slot s0 pid \<and> new_page s0 ts p \<and> syms s = syms s0 \<and>
     run_ok s (ts @ [p]) qs \<and> made s0 ts qs p pid (finish [] p s)"
| "fork_ok cf stack arg s0 ts qs (Insert p pid nxt k) s \<longleftrightarrow> slot s0 pid \<and> new_page s0 ts p \<and> syms s = syms s0 \<and>
     run_ok s (ts @ [p]) (if k \<le> 3 then qs else p # qs) \<and> made s0 ts qs p pid (do_all (drop k (insert_stmts p nxt)) s)"
| "fork_ok cf stack arg s0 ts qs (Free p) s \<longleftrightarrow> owns s0 ts qs p s"
| "fork_ok cf stack arg s0 ts qs (Done r) s \<longleftrightarrow>
     r = - 1 \<and> unpublished s0 ts qs s \<and> mem_map s = mem_map s0 \<or>
     (\<exists>p. slot s0 r \<and> new_page s0 ts p \<and> kinv s (ts @ [p]) (p # qs) \<and> made s0 ts qs p r s)"

text \<open>Events keep it.\<close>

lemma unpublished_event:
  assumes "unpublished s0 ts qs s" and "kstep s ev s'" and "ev \<in> {Interrupt, Yield}"
  shows "unpublished s0 ts qs s' \<and> mem_map s' = mem_map s \<and> run_ok s' ts qs \<and> untouched ts s s'"
proof -
  have k: "kinv s ts qs" "fork_inv 0 s ts qs" using assms(1) by (simp_all add: unpublished_def kinv_def)
  have q: "run_ok s' ts qs" "untouched ts s s'" using quiet_event [OF assms(2,3) kinv_run_ok [OF k(1)]] by simp_all
  with kinv_untouched [OF k(2)] have "kinv s' ts qs" by blast
  then show ?thesis using assms(1) q untouched_agree [OF q(2)] by (simp add: unpublished_def agree_def)
qed

lemma untouched_task: "untouched ts s s' \<Longrightarrow> p \<notin> insert (init_task s) (set ts) \<Longrightarrow> tasks s' p = tasks s p \<and> syms s' = syms s"
  unfolding untouched_def same_links_def by blast

lemma owns_event:
  assumes "owns s0 ts qs p s" and "kstep s ev s'" and "ev \<in> {Interrupt, Yield}"
  shows "owns s0 ts qs p s' \<and> untouched ts s s'"
  using assms unpublished_event [of s0 ts qs s ev s'] by (auto simp: owns_def)

lemma owns_new:
  assumes "owns s0 ts qs p s" and "kinv s0 ts qs"
  shows "p \<notin> used_pages s0" "p \<notin> insert (init_task s) (set ts)" "used_pages s = insert p (used_pages s0)"
    "p \<noteq> 0" "run_list_of p \<noteq> 0 \<and> run_list_of p \<noteq> rq_head s" "unat p < 541065216" "page_aligned p"
proof -
  from assms(1) obtain i where i: "i < NR_PAGES" "mem_map s0 i = 0" "p = page_addr i" "mem_map s = (mem_map s0)(i := 1)"
    and u: "unpublished s0 ts qs s" by (auto simp: owns_def)
  show n: "p \<notin> used_pages s0" using i by (simp add: page_addr_used_iff)
  show up: "used_pages s = insert p (used_pages s0)" using used_pages_alloc [OF i(1), of s0] i(3,4) by (simp add: used_pages_def)
  have b: "4194304 \<le> unat p" "unat p < 541065216" "page_aligned p" using used_page_bounds [of p s] up by auto
  have k: "kinv s ts qs" "syms s = syms s0" using u by (simp_all add: unpublished_def)
  then have "unat (init_task s) < 4194304" "unat (rq_head s) < 4194304" by (simp_all add: kinv_def fork_inv_def)
  moreover have "set ts \<subseteq> used_pages s0" using assms(2) by (simp add: kinv_def fork_inv_def)
  ultimately show "p \<notin> insert (init_task s) (set ts)" "run_list_of p \<noteq> 0 \<and> run_list_of p \<noteq> rq_head s"
    using n b run_list_of_page [of p s "rq_head s"] up by auto
  show "p \<noteq> 0" using b(1) by auto
  show "unat p < 541065216" "page_aligned p" by (rule b)+
qed

lemma made_agree: "agree u u' \<Longrightarrow> made s0 ts qs p pid u' = made s0 ts qs p pid u"
  using registered_agree [of u u' "ts @ [p]" "p # qs"] by (simp add: made_def agree_def used_pages_def)

lemma copy_local:
  assumes "f \<in> set (copy_stmts cf p stack arg)" and "tasks s' p = tasks s p" and "syms s' = syms s"
  shows "tasks (f s') p = tasks (f s) p \<and> syms (f s') = syms (f s)"
  using assms by (auto simp: copy_stmts_def set_regs_def split: if_splits)

lemma do_all_copy_local:
  assumes "set fs \<subseteq> set (copy_stmts cf p stack arg)" and "tasks s' p = tasks s p" and "syms s' = syms s"
  shows "tasks (do_all fs s') p = tasks (do_all fs s) p \<and> syms (do_all fs s') = syms (do_all fs s)"
  using assms
proof (induction fs arbitrary: s s')
  case (Cons f fs)
  then have "tasks (f s') p = tasks (f s) p \<and> syms (f s') = syms (f s)" by (intro copy_local [where cf = cf and stack = stack and arg = arg]) auto
  with Cons.IH [of "f s'" "f s"] Cons.prems(1) show ?case by simp
qed simp

lemma child_same:
  "tasks s' p = tasks s p \<Longrightarrow> fresh_task s' p = fresh_task s p"
  "tasks s' p = tasks s p \<Longrightarrow> syms s' = syms s \<Longrightarrow> ready_child s' p = ready_child s p"
  by (simp_all add: fresh_task_def ready_child_def)

lemma fork_ok_event:
  assumes s0: "kinv s0 ts qs" and ok: "fork_ok cf stack arg s0 ts qs pc s" and ev: "kstep s ev s'" "ev \<in> {Interrupt, Yield}"
  shows "fork_ok cf stack arg s0 ts qs pc s'"
proof -
  have O: "owns s0 ts qs p s' \<and> tasks s' p = tasks s p \<and> syms s' = syms s \<and>
      fresh_task s' p = fresh_task s p \<and> ready_child s' p = ready_child s p" if "owns s0 ts qs p s" for p
    using owns_event [OF that ev] untouched_task [of ts s s' p] owns_new(2) [OF that s0] child_same [of s' p s] by blast
  have Q: "run_ok s' ts' qs' \<and> agree s s' \<and> (p \<notin> insert (init_task s) (set ts') \<longrightarrow> ready_child s' p = ready_child s p)"
    if "run_ok s ts' qs'" for ts' qs' p
    using quiet_event [OF ev that] untouched_agree [of ts' s s'] untouched_task [of ts' s s' p] child_same(2) [of s' p s] by blast
  show ?thesis
  proof (cases pc)
    case Alloc
    with ok unpublished_event [of s0 ts qs s ev s'] ev show ?thesis by auto
  next
    case (Clear p)
    with ok O show ?thesis by simp
  next
    case (Find p)
    with ok O [of p] show ?thesis by simp
  next
    case (Copy p pid k)
    let ?fs = "drop k (copy_stmts cf p stack arg) :: ('a irq_state_ext) stmt list"
    have "owns s0 ts qs p s" using ok Copy by simp
    with O have l: "owns s0 ts qs p s'" "tasks s' p = tasks s p" "syms s' = syms s" "fresh_task s' p = fresh_task s p" by blast+
    have "set ?fs \<subseteq> set (copy_stmts cf p stack arg)" by (rule set_drop_subset)
    from do_all_copy_local [OF this l(2,3)] have "ready_child (do_all ?fs s') p = ready_child (do_all ?fs s) p"
      by (intro child_same) simp_all
    with ok l show ?thesis by (simp add: Copy)
  next
    case (Fill p pid k)
    with ok O [of p] show ?thesis by simp
  next
    case (Link p pid k)
    show ?thesis
    proof (cases "k = 0")
      case True
      with ok Link O [of p] show ?thesis by simp
    next
      case False
      let ?ts = "if k \<le> 3 then ts else ts @ [p]"
      have r: "run_ok s ?ts qs" "made s0 ts qs p pid (finish (drop k (link_stmts p pid)) p s)" using ok False by (simp_all add: Link)
      note q = Q [OF r(1), of p]
      then have m: "made s0 ts qs p pid (finish (drop k (link_stmts p pid)) p s')"
        using made_agree [OF finish_agree] r(2) by blast
      have "ready_child s' p" if "k \<le> 3"
        using q that ok False by (auto simp: Link new_page_def)
      moreover have "syms s' = syms s0" using q ok False by (simp add: Link agree_def)
      ultimately show ?thesis using ok q m False by (simp add: Link)
    qed
  next
    case (Enqueue p pid)
    then have r: "run_ok s (ts @ [p]) qs" "made s0 ts qs p pid (finish (drop 6 (link_stmts p pid)) p s)" using ok by simp_all
    then have "made s0 ts qs p pid (finish (drop 6 (link_stmts p pid)) p s')"
      using Q [OF r(1), of p] made_agree [OF finish_agree] by blast
    then show ?thesis using ok Q [OF r(1), of p] by (simp add: Enqueue agree_def)
  next
    case (Insert p pid nxt k)
    let ?qs = "if k \<le> 3 then qs else p # qs"
    have r: "run_ok s (ts @ [p]) ?qs" "made s0 ts qs p pid (do_all (drop k (insert_stmts p nxt)) s)" using ok by (simp_all add: Insert)
    have "made s0 ts qs p pid (do_all (drop k (insert_stmts p nxt)) s')"
      using Q [OF r(1), of p] made_agree [OF insert_rest_agree] r(2) by blast
    then show ?thesis using ok Q [OF r(1), of p] by (simp add: Insert agree_def)
  next
    case (Free p)
    with ok O show ?thesis by simp
  next
    case (Done r)
    from ok consider (failed) "r = - 1" "unpublished s0 ts qs s" "mem_map s = mem_map s0"
      | (made) p where "slot s0 r" "new_page s0 ts p" "kinv s (ts @ [p]) (p # qs)" "made s0 ts qs p r s"
      by (auto simp: Done)
    then show ?thesis
    proof cases
      case failed
      with unpublished_event [OF failed(2) ev] show ?thesis by (simp add: Done)
    next
      case made
      have q: "run_ok s' (ts @ [p]) (p # qs)" "untouched (ts @ [p]) s s'" using quiet_event [OF ev kinv_run_ok [OF made(3)]] by simp_all
      have "fork_inv 0 s (ts @ [p]) (p # qs)" using made(3) by (simp add: kinv_def)
      from kinv_untouched [OF this q] made_agree [OF untouched_agree [OF q(2)]] made(1,2,4) show ?thesis by (auto simp: Done)
    qed
  qed
qed

lemma kinv_pages:
  assumes "kinv s ts qs" and "set ts \<subseteq> used_pages (s\<lparr>mem_map := m\<rparr>)"
  shows "kinv (s\<lparr>mem_map := m\<rparr>) ts qs"
proof -
  have "sched_inv 0 (s\<lparr>mem_map := m\<rparr>) ts qs = sched_inv 0 s ts qs"
    by (simp add: sched_inv_def sched_rep_def task_ring_def counters_ok_def suspended_def preempt_count_def current_def)
  then have "fork_inv 0 (s\<lparr>mem_map := m\<rparr>) ts qs" using assms by (simp add: kinv_def fork_inv_def)
  then show ?thesis using assms(1) by (simp add: kinv_def only_timer_def irq_ready_def)
qed

lemma own_alloc:
  assumes s0: "kinv s0 ts qs" and ok: "fork_ok cf stack arg s0 ts qs Alloc s"
  shows "\<exists>pc' s'. fork_next cf stack arg Alloc s = Inr (pc', s') \<and> fork_ok cf stack arg s0 ts qs pc' s'"
proof (cases rule: get_free_page_cases [of s])
  case (found i)
  let ?s = "s\<lparr>mem_map := (mem_map s)(i := 1)\<rparr>"
  have u: "unpublished s0 ts qs s" "mem_map s = mem_map s0" using ok by simp_all
  have "set ts \<subseteq> used_pages s" using u(1) by (simp add: unpublished_def kinv_def fork_inv_def)
  then have "kinv ?s ts qs" using u(1) used_pages_alloc [OF found(1), of s] by (intro kinv_pages) (auto simp: unpublished_def)
  then have "owns s0 ts qs (page_addr i) ?s" using u found by (auto simp: owns_def unpublished_def)
  moreover from this owns_new(4) [OF _ s0] have "page_addr i \<noteq> 0" by blast
  ultimately show ?thesis by (simp add: found(4))
next
  case full
  then show ?thesis using ok by simp
qed

lemma own_free:
  assumes s0: "kinv s0 ts qs" and ok: "fork_ok cf stack arg s0 ts qs (Free p) s"
  shows "\<exists>pc' s'. fork_next cf stack arg (Free p) s = Inr (pc', s') \<and> fork_ok cf stack arg s0 ts qs pc' s'"
proof -
  from ok obtain i where i: "i < NR_PAGES" "mem_map s0 i = 0" "p = page_addr i" "mem_map s = (mem_map s0)(i := 1)"
    and u: "unpublished s0 ts qs s" by (auto simp: owns_def)
  have m: "(mem_map s)(i := 0) = mem_map s0" using i by (auto simp: fun_eq_iff)
  have "set ts \<subseteq> used_pages s0" using s0 by (simp add: kinv_def fork_inv_def)
  then have "kinv (s\<lparr>mem_map := mem_map s0\<rparr>) ts qs" using u by (intro kinv_pages) (simp_all add: unpublished_def used_pages_def)
  then show ?thesis using u by (simp add: free_page_addr [OF i(1)] i(3) m unpublished_def)
qed

lemma own_clear:
  assumes s0: "kinv s0 ts qs" and ok: "fork_ok cf stack arg s0 ts qs (Clear p) s"
  shows "\<exists>pc' s'. fork_next cf stack arg (Clear p) s = Inr (pc', s') \<and> fork_ok cf stack arg s0 ts qs pc' s'"
proof -
  have o: "owns s0 ts qs p s" using ok by simp
  let ?s = "(upd_task p (\<lambda>_. task_0) s)\<lparr>lists := (lists s)(run_list_of p := \<lparr>lh_next = 0, lh_prev = 0\<rparr>)\<rparr>"
  note new = owns_new [OF o s0]
  have k: "kinv s ts qs" using o by (simp add: owns_def unpublished_def)
  then have c: "counters_ok s ts" by (simp add: kinv_def fork_inv_def sched_inv_def)
  have "kinv ?s ts qs"
  proof (rule kinv_move [OF k])
    show "tasks ?s q = (tasks s q)\<lparr>t_counter := t_counter (tasks ?s q)\<rparr> \<and>
        0 \<le> sint (t_counter (tasks ?s q)) \<and> sint (t_counter (tasks ?s q)) \<le> 45" if "q \<in> insert (init_task s) (set ts)" for q
      using that new(2) c by (auto simp: counters_ok_def)
    show "lists ?s a = lists s a" if "a \<in> insert (rq_head s) (run_list_of ` set ts)" for a
      using that new(2,5) by auto
  qed (simp_all add: upd_task_def)
  then have "owns s0 ts qs p ?s" using o by (simp add: owns_def unpublished_def upd_task_def)
  then show ?thesis by (simp add: Let_def fresh_task_def task_0_def)
qed

lemma find_slot:
  assumes "\<not> sint (find_empty_task s) < 0" and "g_task s = g_task s0"
  shows "slot s0 (find_empty_task s)"
  using assms by (cases rule: find_empty_task_cases [of s]) (auto simp: slot_def)

lemma own_find:
  assumes s0: "kinv s0 ts qs" and ok: "fork_ok cf stack arg s0 ts qs (Find p) s"
  shows "\<exists>pc' s'. fork_next cf stack arg (Find p) s = Inr (pc', s') \<and> fork_ok cf stack arg s0 ts qs pc' s'"
proof -
  have o: "owns s0 ts qs p s" and f: "fresh_task s p" using ok by simp_all
  note new = owns_new [OF o s0]
  have k: "kinv s ts qs" "g_task s = g_task s0" using o by (simp_all add: owns_def unpublished_def)
  then have c: "current s \<noteq> p" using new(2) by (auto simp: kinv_def fork_inv_def sched_inv_def)
  let ?u = "do_all (copy_stmts cf p stack arg) s"
  have u: "?u = snd (copy_thread cf p stack arg s)" by (simp add: copy_stmts_copy)
  have "ready_child ?u p" if "\<not> (cf AND PF_KTHREAD = 0 \<and> stack \<noteq> 0 \<and> stack AND 15 \<noteq> 0)"
  proof -
    have "\<not> copy_fails cf stack" using that by (auto simp: copy_fails_def)
    then show ?thesis using f child_context_new [of cf stack arg p] page_of_top [OF new(7,6)]
      by (simp add: u copy_thread_eq [OF c] ready_child_def fresh_task_def)
  qed
  then show ?thesis using ok o f find_slot [OF _ k(2)] by (auto simp: Let_def)
qed

lemma copy_stmt_form:
  assumes "f \<in> set (copy_stmts cf p stack arg)"
  shows "(\<exists>g. f s = set_regs (task_pt_regs p) g s) \<or> (\<exists>h. f s = upd_task p (\<lambda>t. t\<lparr>t_cpu_context := h t\<rparr>) s)"
  using assms unfolding copy_stmts_def
  by (simp only: set_append list.set Un_iff insert_iff empty_iff if_distrib [of set] split: if_splits)
    (elim disjE FalseE; hypsubst; (rule disjI1, rule exI, rule refl | rule disjI2, rule exI, rule refl))+

lemma copy_frame:
  assumes "f \<in> set (copy_stmts cf p stack arg)"
  shows "syms (f s) = syms s \<and> cpu (f s) = cpu s \<and> g_task (f s) = g_task s \<and> mem_map (f s) = mem_map s \<and> rq (f s) = rq s \<and>
     lists (f s) = lists s \<and> fork_state.more (f s) = fork_state.more s \<and> irq_masked (f s) = irq_masked s \<and>
     (\<forall>q. q \<noteq> p \<longrightarrow> tasks (f s) q = tasks s q)"
    and "fresh_task (f s) p = fresh_task s p"
  using copy_stmt_form [OF assms, of s] by (auto simp: set_regs_def upd_task_def fresh_task_def)

lemma fill_frame:
  assumes "f \<in> set (fill_stmts p pid)"
  shows "syms (f s) = syms s \<and> cpu (f s) = cpu s \<and> g_task (f s) = g_task s \<and> mem_map (f s) = mem_map s \<and> rq (f s) = rq s \<and>
     lists (f s) = lists s \<and> fork_state.more (f s) = fork_state.more s \<and> irq_masked (f s) = irq_masked s \<and>
     (\<forall>q. q \<noteq> p \<longrightarrow> tasks (f s) q = tasks s q \<or>
        q = current s \<and> tasks (f s) q = (tasks s q)\<lparr>t_counter := signed_drop_bit 1 (t_counter (tasks s q))\<rparr>)"
  using assms by (auto simp: fill_stmts_def upd_task_def split: if_splits)

lemma owns_step:
  assumes o: "owns s0 ts qs p s" and s0: "kinv s0 ts qs"
    and f: "syms s' = syms s \<and> cpu s' = cpu s \<and> g_task s' = g_task s \<and> mem_map s' = mem_map s \<and> rq s' = rq s \<and>
     lists s' = lists s \<and> fork_state.more s' = fork_state.more s \<and> irq_masked s' = irq_masked s"
    and t: "\<And>q. q \<noteq> p \<Longrightarrow> tasks s' q = tasks s q \<or>
        q = current s \<and> tasks s' q = (tasks s q)\<lparr>t_counter := signed_drop_bit 1 (t_counter (tasks s q))\<rparr>"
  shows "owns s0 ts qs p s'"
proof -
  have k: "kinv s ts qs" using o by (simp add: owns_def unpublished_def)
  then have c: "counters_ok s ts" by (simp add: kinv_def fork_inv_def sched_inv_def)
  have "kinv s' ts qs"
  proof (rule kinv_move [OF k])
    show "tasks s' q = (tasks s q)\<lparr>t_counter := t_counter (tasks s' q)\<rparr> \<and>
        0 \<le> sint (t_counter (tasks s' q)) \<and> sint (t_counter (tasks s' q)) \<le> 45" if q: "q \<in> insert (init_task s) (set ts)" for q
    proof -
      have "q \<noteq> p" using q owns_new(2) [OF o s0] by auto
      moreover have "0 \<le> sint (t_counter (tasks s q))" "sint (t_counter (tasks s q)) \<le> 45" using q c by (auto simp: counters_ok_def)
      ultimately show ?thesis using t [of q] by (auto simp: sint_half [unfolded One_nat_def])
    qed
  qed (use f in auto)
  then show ?thesis using o f by (auto simp: owns_def unpublished_def)
qed

lemma own_copy:
  assumes s0: "kinv s0 ts qs" and ok: "fork_ok cf stack arg s0 ts qs (Copy p pid k) s"
  shows "\<exists>pc' s'. fork_next cf stack arg (Copy p pid k) s = Inr (pc', s') \<and> fork_ok cf stack arg s0 ts qs pc' s'"
proof (cases "k < length (copy_stmts cf p stack arg :: ('a irq_state_ext) stmt list)")
  case True
  let ?f = "copy_stmts cf p stack arg ! k :: ('a irq_state_ext) stmt"
  have f: "?f \<in> set (copy_stmts cf p stack arg)" using True by simp
  have "owns s0 ts qs p s" using ok by simp
  then have "owns s0 ts qs p (?f s)" by (rule owns_step [OF _ s0]) (use copy_frame(1) [OF f, of s] in blast)+
  moreover have "fresh_task (?f s) p" using ok copy_frame(2) [OF f, of s] by simp
  ultimately show ?thesis using ok True do_all_drop [OF True, of s] by (auto simp: run_stmts_def)
next
  case False
  then show ?thesis using ok by (auto simp: run_stmts_def)
qed

lemma own_fill:
  assumes s0: "kinv s0 ts qs" and ok: "fork_ok cf stack arg s0 ts qs (Fill p pid k) s"
  shows "\<exists>pc' s'. fork_next cf stack arg (Fill p pid k) s = Inr (pc', s') \<and> fork_ok cf stack arg s0 ts qs pc' s'"
proof (cases "k < 8")
  case True
  let ?f = "fill_stmts p pid ! k :: ('a irq_state_ext) stmt"
  have o: "owns s0 ts qs p s" "ready_child s p" using ok by simp_all
  have f: "?f \<in> set (fill_stmts p pid)" using True by simp
  have o': "owns s0 ts qs p (?f s)" by (rule owns_step [OF o(1) s0]) (use fill_frame [OF f, of s] in blast)+
  have "kinv s ts qs" using o(1) by (simp add: owns_def unpublished_def)
  then have "0 \<le> sint (t_counter (tasks s (current s))) \<and> sint (t_counter (tasks s (current s))) \<le> 45" "current s \<noteq> p"
    using owns_new(2) [OF o(1) s0] by (auto simp: kinv_def fork_inv_def sched_inv_def counters_ok_def)
  then have "ready_child (?f s) p" using o(2) f fork_counter(1) [of "t_counter (tasks s (current s))"]
    by (auto simp: fill_stmts_def ready_child_def fresh_task_def)
  moreover have "t_pid (tasks (?f s) p) = pid" if "k = 1" using that by (simp add: fill_stmts_def)
  moreover have "t_pid (tasks (?f s) p) = t_pid (tasks s p)" if "1 < k"
  proof -
    have "2 \<le> k" using that by simp
    then obtain m where m: "k = 2 + m" using le_Suc_ex by blast
    then have "?f \<in> set (drop 2 (fill_stmts p pid))" using True nth_mem [of m "drop 2 (fill_stmts p pid) :: ('a irq_state_ext) stmt list"] by simp
    then show ?thesis by (auto simp: fill_stmts_def)
  qed
  ultimately have "ready_child (?f s) p \<and> (1 < k + 1 \<longrightarrow> t_pid (tasks (?f s) p) = pid)"
    using ok by (cases "k = 1") auto
  then show ?thesis using ok o' True by (simp add: run_stmts_def)
next
  case False
  moreover have "owns s0 ts qs p s" using ok by simp
  note owns_new [OF this s0]
  moreover have "syms s = syms s0" using ok by (simp add: owns_def unpublished_def)
  ultimately show ?thesis using ok by (simp add: run_stmts_def new_page_def)
qed

lemma walk_rep_outside:
  assumes w: "walk_rep s ts qs" and f: "syms s' = syms s"
    and t: "\<And>q. q \<in> insert (init_task s) (set ts) \<Longrightarrow> t_next_task (tasks s' q) = t_next_task (tasks s q)"
    and l: "\<And>a. a \<in> insert (rq_head s) (run_list_of ` set qs) \<Longrightarrow> lh_next (lists s' a) = lh_next (lists s a)"
  shows "walk_rep s' ts qs"
proof -
  obtain prv prv' where "ring (\<lambda>p. t_next_task (tasks s p)) prv (init_task s) ts"
    "ring (\<lambda>a. lh_next (lists s a)) prv' (rq_head s) (map run_list_of qs)" using w by (auto simp: walk_rep_def)
  then have "ring (\<lambda>p. t_next_task (tasks s' p)) prv (init_task s') ts"
    "ring (\<lambda>a. lh_next (lists s' a)) prv' (rq_head s') (map run_list_of qs)"
    using t l by (subst ring_cong [where nxt' = "\<lambda>p. t_next_task (tasks s p)" and prv' = prv], auto simp: f)
      (subst ring_cong [where nxt' = "\<lambda>a. lh_next (lists s a)" and prv' = prv'], auto simp: f)
  then show ?thesis using w by (auto simp: walk_rep_def)
qed

lemma run_ok_move:
  assumes run: "run_ok s ts qs" and walk: "walk_rep s' ts' qs'" and ne: "qs' \<noteq> []"
    and f: "syms s' = syms s" "cpu s' = cpu s" "fork_state.more s' = fork_state.more s" "irq_masked s' = irq_masked s"
    and old: "\<And>q. q \<in> insert (init_task s) (set ts) \<Longrightarrow> t_state (tasks s' q) = t_state (tasks s q) \<and>
        t_cpu_context (tasks s' q) = t_cpu_context (tasks s q) \<and> t_preempt_count (tasks s' q) = t_preempt_count (tasks s q) \<and>
        t_counter (tasks s' q) = t_counter (tasks s q) \<and> t_priority (tasks s' q) = t_priority (tasks s q)"
    and new: "\<And>q. q \<in> set ts' - set ts \<Longrightarrow> ready_child s' q" and sub: "set ts \<subseteq> set ts'"
  shows "run_ok s' ts' qs'"
proof -
  have "run_inv 0 s ts qs" using run by (simp add: run_ok_def)
  then have "run_inv 0 s' ts' qs'"
    by (rule run_inv_move [OF _ walk f(1,2) old _ sub]) (use new in \<open>auto simp: ready_child_def fresh_task_def suspended_def\<close>)
  then show ?thesis using run ne f(4) only_timer_more [OF f(3)] by (simp add: run_ok_def)
qed

lemma link_made:
  assumes s0: "kinv s0 ts qs" and o: "owns s0 ts qs p s" and pid: "slot s0 pid" "t_pid (tasks s p) = pid"
  shows "made s0 ts qs p pid (finish (link_stmts p pid) p s)"
proof -
  note new = owns_new [OF o s0]
  have k: "kinv s ts qs" "fork_inv 0 s ts qs" "syms s = syms s0" "g_task s = g_task s0"
    using o by (simp_all add: owns_def unpublished_def kinv_def)
  then have rep: "sched_rep s ts qs" "set qs = set ts" by (simp_all add: fork_inv_def sched_inv_def)
  obtain j where j: "j < 128" "pid = word_of_nat j" "g_task s j = 0" using pid(1) k(4) by (auto simp: slot_def)
  have upid: "unat pid = j" using j(1,2) by (simp add: unsigned_of_nat take_bit_nat_eq_self)
  let ?w = "s\<lparr>g_task := (g_task s)(unat pid := p)\<rparr>"
  define u where "u = do_all (link_stmts p pid) s"
  have u: "u = upd_task p (\<lambda>t. t\<lparr>t_state := TASK_RUNNING\<rparr>) (SET_LINKS p ?w)" by (simp add: u_def link_stmts_links)
  have "0 \<notin> set (init_task s # ts)" using k(2) used_page_bounds [of 0 s] by (auto simp: fork_inv_def)
  moreover have "task_ring ?w ts" using rep by (simp add: sched_rep_def task_ring_def)
  ultimately have "task_ring (SET_LINKS p ?w) (ts @ [p])" using new(2,4) by (intro SET_LINKS_ring) simp_all
  then have "sched_rep (SET_LINKS p ?w) (ts @ [p]) qs" using rep new(5) by (auto simp: sched_rep_def)
  then have "sched_rep u (ts @ [p]) qs" by (subst sched_rep_cong [where s = "SET_LINKS p ?w"]) (simp_all add: u)
  moreover have "p \<notin> set qs" using rep(2) new(2) by simp
  ultimately obtain e where e: "enqueue_task p u = Inr e" "sched_rep e (ts @ [p]) (p # qs)" "tasks e = tasks u" "syms e = syms u"
    "mem_map e = mem_map u"
    using enqueue_task_rep [of u "ts @ [p]" qs p] by auto
  have fin: "finish (link_stmts p pid) p s = e"
    using e(1) by (simp add: finish_def insert_stmts_enqueue Let_def flip: u_def split: if_splits)
  have g: "g_task e = (g_task s)(j := p)" using enqueue_task_frame [OF e(1)] by (auto simp: u upid upd_task_def)
  have up: "used_pages e = used_pages s" by (simp add: used_pages_def e(5)) (simp add: u)
  have sy: "syms e = syms s" by (simp add: e(4)) (simp add: u)
  have "registered e (ts @ [p]) (p # qs)"
  proof (rule registered_new [OF k(2) _ j(1,3) e(2) sy g])
    show "p \<notin> set (init_task s # ts)" "insert p (used_pages s) \<subseteq> used_pages e" using new(2,3) up by auto
    show "t_pid (tasks e q) = (if q = p then word_of_nat j else t_pid (tasks s q))" for q
      using pid(2) by (simp add: e(3) u j(2))
  qed
  then show ?thesis using pid(2) new(3) by (simp add: fin made_def g upid k up sy) (simp add: e(3) u)
qed

lemma finish_next:
  "t_next_task (tasks (finish (drop 4 (link_stmts p pid)) p s) q) = t_next_task (tasks s q)"
  by (simp add: finish_def link_stmts_def insert_stmts_def Let_def)

lemma finish_drop: "k < length fs \<Longrightarrow> finish (drop (Suc k) fs) p ((fs ! k) s) = finish (drop k fs) p s"
  by (simp add: finish_def do_all_drop)

lemma made_walk:
  assumes "made s0 ts qs p pid u" and "\<And>q. t_next_task (tasks u q) = t_next_task (tasks s q)" and "syms u = syms s"
    and "walk_rep t ts qs" and "lists s = lists t" and "syms s = syms t"
  shows "walk_rep s (ts @ [p]) qs"
proof -
  have "walk_rep u (ts @ [p]) (p # qs)" using assms(1) sched_rep_walk by (auto simp: made_def registered_def)
  then show ?thesis using assms(2-6) by (auto simp: walk_rep_def)
qed

lemma own_link:
  assumes s0: "kinv s0 ts qs" and ok: "fork_ok cf stack arg s0 ts qs (Link p pid k) s"
  shows "\<exists>pc' s'. fork_next cf stack arg (Link p pid k) s = Inr (pc', s') \<and> fork_ok cf stack arg s0 ts qs pc' s'"
proof (cases "k < 6")
  case False
  then show ?thesis using ok by (auto simp: run_stmts_def split: if_splits)
next
  case True
  let ?f = "link_stmts p pid ! k :: ('a irq_state_ext) stmt"
  have st: "slot s0 pid" "new_page s0 ts p" using ok by simp_all
  have sy: "syms s = syms s0" using ok by (cases "k = 0") (auto simp: owns_def unpublished_def)
  have p: "p \<notin> insert (init_task s) (set ts)" using st(2) by (simp add: new_page_def sy)
  have run: "run_ok s (if k \<le> 3 then ts else ts @ [p]) qs"
    using ok kinv_run_ok by (cases "k = 0") (auto simp: owns_def unpublished_def)
  have m: "made s0 ts qs p pid (finish (drop k (link_stmts p pid)) p s)"
    using ok link_made [OF s0 _ st(1)] by (cases "k = 0") auto
  then have m': "made s0 ts qs p pid (finish (drop (Suc k) (link_stmts p pid)) p (?f s))"
    using True by (simp add: finish_drop)
  have rc: "ready_child s p" if "k \<le> 3" using ok that by (cases "k = 0") auto
  have fr: "syms (?f s) = syms s" "cpu (?f s) = cpu s" "lists (?f s) = lists s" "fork_state.more (?f s) = fork_state.more s"
    "irq_masked (?f s) = irq_masked s"
    using True by (auto simp: link_stmts_def upd_task_def less_Suc_eq numeral_eq_Suc)
  have same: "t_cpu_context (tasks (?f s) q) = t_cpu_context (tasks s q)"
    "t_preempt_count (tasks (?f s) q) = t_preempt_count (tasks s q)"
    "t_counter (tasks (?f s) q) = t_counter (tasks s q)" "t_priority (tasks (?f s) q) = t_priority (tasks s q)"
    "t_state (tasks (?f s) q) = (if k = 5 \<and> q = p then TASK_RUNNING else t_state (tasks s q))" for q
    using True by (auto simp: link_stmts_def less_Suc_eq numeral_eq_Suc split: if_splits)
  have nx: "t_next_task (tasks (?f s) q) = t_next_task (tasks s q)" if "k \<noteq> 3" "q \<noteq> p \<or> k \<noteq> 1" for q
    using that True by (auto simp: link_stmts_def less_Suc_eq numeral_eq_Suc split: if_splits)
  have rc': "ready_child (?f s) p" if "k \<le> 3" using rc [OF that] that same by (simp add: ready_child_def fresh_task_def fr)
  have w: "walk_rep s (if k \<le> 3 then ts else ts @ [p]) qs" using run by (simp add: run_ok_def run_inv_def table_ok_def)
  have ne: "qs \<noteq> []" using run by (simp add: run_ok_def)
  have "run_ok (?f s) (if Suc k \<le> 3 then ts else ts @ [p]) qs"
  proof (rule run_ok_move [OF run _ ne fr(1,2,4,5)])
    show "walk_rep (?f s) (if Suc k \<le> 3 then ts else ts @ [p]) qs"
    proof (cases "k = 3")
      case True
      then have k3: "k = 3" .
      have "syms (?f s) = syms s0" using sy fr(1) by simp
      moreover have "syms (finish (drop (Suc k) (link_stmts p pid)) p (?f s)) = syms s0" using m' by (simp add: made_def)
      ultimately have "walk_rep (?f s) (ts @ [p]) qs"
        using made_walk [OF m', of "?f s" s] finish_next [of p pid "?f s"] w fr(1,3) by (simp add: k3)
      then show ?thesis by (simp add: True)
    next
      case False
      have "walk_rep (?f s) (if k \<le> 3 then ts else ts @ [p]) qs"
      proof (rule walk_rep_outside [OF w fr(1)])
        show "t_next_task (tasks (?f s) q) = t_next_task (tasks s q)"
          if "q \<in> insert (init_task s) (set (if k \<le> 3 then ts else ts @ [p]))" for q
          by (rule nx) (use False that p in \<open>auto split: if_splits\<close>)
      qed (simp add: fr(3))
      then show ?thesis using False by (simp split: if_splits)
    qed
    show "t_state (tasks (?f s) q) = t_state (tasks s q) \<and> t_cpu_context (tasks (?f s) q) = t_cpu_context (tasks s q) \<and>
        t_preempt_count (tasks (?f s) q) = t_preempt_count (tasks s q) \<and> t_counter (tasks (?f s) q) = t_counter (tasks s q) \<and>
        t_priority (tasks (?f s) q) = t_priority (tasks s q)" if "q \<in> insert (init_task s) (set (if k \<le> 3 then ts else ts @ [p]))" for q
      using that run by (auto simp: same run_ok_def run_inv_def table_ok_def)
    show "ready_child (?f s) q" if "q \<in> set (if Suc k \<le> 3 then ts else ts @ [p]) - set (if k \<le> 3 then ts else ts @ [p])" for q
      using that rc' by (auto split: if_splits)
    show "set (if k \<le> 3 then ts else ts @ [p]) \<subseteq> set (if Suc k \<le> 3 then ts else ts @ [p])" by auto
  qed
  then show ?thesis using True st m' rc' sy fr(1) by (simp add: run_stmts_def)
qed


lemma own_enqueue:
  assumes s0: "kinv s0 ts qs" and ok: "fork_ok cf stack arg s0 ts qs (Enqueue p pid) s"
  shows "\<exists>pc' s'. fork_next cf stack arg (Enqueue p pid) s = Inr (pc', s') \<and> fork_ok cf stack arg s0 ts qs pc' s'"
proof -
  let ?nxt = "lh_next (lists s (rq_head s))"
  have run: "run_ok s (ts @ [p]) qs" and m: "made s0 ts qs p pid (finish [] p s)" and sy: "syms s = syms s0" using ok by simp_all
  have "walk_rep s (ts @ [p]) qs" "qs \<noteq> []" using run by (simp_all add: run_ok_def run_inv_def table_ok_def)
  then obtain q where q: "q \<in> set qs" "?nxt = run_list_of q" by (cases qs) (auto simp: walk_rep_def ring_def)
  have rep: "sched_rep (finish [] p s) (ts @ [p]) (p # qs)" "syms (finish [] p s) = syms s" using m sy by (simp_all add: made_def registered_def)
  then have "run_list_of a \<noteq> 0" if "a \<in> set (p # qs)" for a
    using that by (auto simp: sched_rep_def simp del: set_append)
  then have "?nxt \<noteq> 0" "run_list_of p \<noteq> 0" using q by simp_all
  moreover have "rq_head s \<noteq> 0" using rep by (simp add: sched_rep_def list_rep_def)
  moreover have "made s0 ts qs p pid (do_all (insert_stmts p ?nxt) s)" "slot s0 pid" "new_page s0 ts p"
    using m ok by (simp_all add: finish_def)
  ultimately show ?thesis using run sy by (simp add: Let_def)
qed

lemma own_insert:
  assumes s0: "kinv s0 ts qs" and ok: "fork_ok cf stack arg s0 ts qs (Insert p pid nxt k) s"
  shows "\<exists>pc' s'. fork_next cf stack arg (Insert p pid nxt k) s = Inr (pc', s') \<and> fork_ok cf stack arg s0 ts qs pc' s'"
proof (cases "k < 5")
  case False
  then have r: "run_ok s (ts @ [p]) (p # qs)" and m: "made s0 ts qs p pid s" and s: "slot s0 pid" "new_page s0 ts p" using ok by simp_all
  have "kinv s (ts @ [p]) (p # qs)"
    using r m by (simp add: kinv_def run_ok_def made_def fork_inv_registered)
  then show ?thesis using False m s by (auto simp: run_stmts_def)
next
  case True
  let ?f = "insert_stmts p nxt ! k :: ('a irq_state_ext) stmt" and ?l = "run_list_of p"
  have st: "slot s0 pid" "new_page s0 ts p" "syms s = syms s0" using ok by simp_all
  have run: "run_ok s (ts @ [p]) (if k \<le> 3 then qs else p # qs)" using ok by simp
  have "made s0 ts qs p pid (do_all (drop k (insert_stmts p nxt)) s)" using ok by simp
  then have m: "made s0 ts qs p pid (do_all (drop (Suc k) (insert_stmts p nxt)) (?f s))"
    using True by (simp add: do_all_drop)
  have fr: "syms (?f s) = syms s" "cpu (?f s) = cpu s" "tasks (?f s) = tasks s" "fork_state.more (?f s) = fork_state.more s"
    "irq_masked (?f s) = irq_masked s"
    using True by (auto simp: insert_stmts_def less_Suc_eq numeral_eq_Suc)
  have nx: "lh_next (lists (?f s) a) = lh_next (lists s a)" if "k \<noteq> 3" "a \<noteq> ?l \<or> k \<noteq> 1" for a
    using that True by (auto simp: insert_stmts_def less_Suc_eq numeral_eq_Suc split: if_splits)
  have w: "walk_rep s (ts @ [p]) (if k \<le> 3 then qs else p # qs)" using run by (simp add: run_ok_def run_inv_def table_ok_def)
  have ne: "(if Suc k \<le> 3 then qs else p # qs) \<noteq> []" using run by (auto simp: run_ok_def split: if_splits)
  have rep: "sched_rep (do_all (drop (Suc k) (insert_stmts p nxt)) (?f s)) (ts @ [p]) (p # qs)"
    "syms (do_all (drop (Suc k) (insert_stmts p nxt)) (?f s)) = syms s0" using m by (simp_all add: made_def registered_def)
  then have out: "?l \<notin> insert (rq_head s) (run_list_of ` set qs)"
    by (auto simp: sched_rep_def list_rep_def ring_def st(3) [symmetric])
  have "run_ok (?f s) (ts @ [p]) (if Suc k \<le> 3 then qs else p # qs)"
  proof (rule run_ok_move [OF run _ ne fr(1,2,4,5)])
    show "walk_rep (?f s) (ts @ [p]) (if Suc k \<le> 3 then qs else p # qs)"
    proof (cases "k = 3")
      case True
      have "lists (do_all (drop 4 (insert_stmts p nxt)) (?f s)) = lists (?f s)"
        "tasks (do_all (drop 4 (insert_stmts p nxt)) (?f s)) = tasks (?f s)" by (simp_all add: insert_stmts_def)
      then show ?thesis using sched_rep_walk [OF rep(1)] rep(2) fr(1) st(3) True by (simp add: walk_rep_def)
    next
      case False
      have "walk_rep (?f s) (ts @ [p]) (if k \<le> 3 then qs else p # qs)"
      proof (rule walk_rep_outside [OF w fr(1)])
        show "lh_next (lists (?f s) a) = lh_next (lists s a)"
          if "a \<in> insert (rq_head s) (run_list_of ` set (if k \<le> 3 then qs else p # qs))" for a
          by (rule nx) (use False that out in \<open>auto split: if_splits\<close>)
      qed (simp add: fr(3))
      then show ?thesis using False by (simp split: if_splits)
    qed
  qed (simp_all add: fr)
  then show ?thesis using True st m fr(1) by (simp add: run_stmts_def)
qed

lemma fork_ok_own:
  assumes "kinv s0 ts qs" and "fork_ok cf stack arg s0 ts qs pc s"
  shows "\<exists>pc' s'. fork_next cf stack arg pc s = Inr (pc', s') \<and> fork_ok cf stack arg s0 ts qs pc' s'"
proof (cases pc)
  case Alloc
  show ?thesis using assms(2) unfolding Alloc by (rule own_alloc [OF assms(1)])
next
  case (Clear p)
  show ?thesis using assms(2) unfolding Clear by (rule own_clear [OF assms(1)])
next
  case (Find p)
  show ?thesis using assms(2) unfolding Find by (rule own_find [OF assms(1)])
next
  case (Copy p pid k)
  show ?thesis using assms(2) unfolding Copy by (rule own_copy [OF assms(1)])
next
  case (Fill p pid k)
  show ?thesis using assms(2) unfolding Fill by (rule own_fill [OF assms(1)])
next
  case (Link p pid k)
  show ?thesis using assms(2) unfolding Link by (rule own_link [OF assms(1)])
next
  case (Enqueue p pid)
  show ?thesis using assms(2) unfolding Enqueue by (rule own_enqueue [OF assms(1)])
next
  case (Insert p pid nxt k)
  show ?thesis using assms(2) unfolding Insert by (rule own_insert [OF assms(1)])
next
  case (Free p)
  show ?thesis using assms(2) unfolding Free by (rule own_free [OF assms(1)])
next
  case (Done r)
  then show ?thesis using assms(2) by simp
qed

lemma fork_run_ok:
  assumes "fork_run cf stack arg s0 n pc s" and "kinv s0 ts qs"
  shows "fork_ok cf stack arg s0 ts qs pc s"
  using assms(1)
proof induction
  case called
  then show ?case using assms(2) by (simp add: unpublished_def)
next
  case (own n pc s pc' s')
  with fork_ok_own [OF assms(2) own.IH] show ?case by auto
next
  case (event n pc s ev s')
  then show ?case using fork_ok_event [OF assms(2)] by blast
qed

text \<open>The creator takes at most 34 steps.\<close>

fun fork_rank :: "fork_pc \<Rightarrow> nat" where
  "fork_rank Alloc = 34"
| "fork_rank (Clear p) = 33"
| "fork_rank (Find p) = 32"
| "fork_rank (Copy p pid k) = 24 + (7 - k)"
| "fork_rank (Fill p pid k) = 15 + (8 - k)"
| "fork_rank (Link p pid k) = 8 + (6 - k)"
| "fork_rank (Enqueue p pid) = 7"
| "fork_rank (Insert p pid nxt k) = 1 + (5 - k)"
| "fork_rank (Free p) = 1"
| "fork_rank (Done r) = 0"

lemma fork_rank_decreases:
  fixes s :: "'a fork_state_scheme"
  assumes "fork_next cf stack arg pc s = Inr (pc', s')" and "\<forall>r. pc \<noteq> Done r"
  shows "fork_rank pc' < fork_rank pc"
proof -
  have "k < length (copy_stmts cf p stack arg :: 'a stmt list) \<Longrightarrow> 6 - k < 7 - k" for k p
    using copy_stmts_length [where 'a = 'a, of cf p stack arg] by simp
  then show ?thesis using assms
    by (cases pc) (auto simp: run_stmts_def Let_def bindr_eq_Inr split: if_splits prod.splits)
qed

lemma fork_run_rank: "fork_run cf stack arg s0 n pc s \<Longrightarrow> n + fork_rank pc \<le> 34"
proof (induction rule: fork_run.induct)
  case (own n pc s pc' s')
  with fork_rank_decreases [OF own.hyps(4,3)] show ?case by simp
qed simp_all

lemma fork_ok_run: "fork_ok cf stack arg s0 ts qs pc s \<Longrightarrow> \<exists>ts' qs'. run_ok s ts' qs' \<and> set ts \<subseteq> set ts'"
proof (cases pc)
  case (Done x)
  assume "fork_ok cf stack arg s0 ts qs pc s"
  then consider "kinv s ts qs" | p where "kinv s (ts @ [p]) (p # qs)" by (auto simp: Done unpublished_def)
  then show ?thesis by cases (blast dest: kinv_run_ok, fastforce dest: kinv_run_ok)
qed (fastforce simp: owns_def unpublished_def dest: kinv_run_ok split: if_splits)+

lemma fork_run_goes_on:
  assumes "fork_run cf stack arg s0 n pc s" and "kinv s0 ts qs"
  shows "n \<le> 34 \<and> (\<exists>s'. kstep s Interrupt s') \<and> (\<exists>s'. kstep s Yield s') \<and> (\<exists>pc' s'. fork_next cf stack arg pc s = Inr (pc', s'))"
proof (intro conjI)
  note ok = fork_run_ok [OF assms]
  show "n \<le> 34" using fork_run_rank [OF assms(1)] by simp
  obtain ts' qs' where r: "run_ok s ts' qs'" using fork_ok_run [OF ok] by blast
  then have i: "\<not> irq_masked s" "run_inv 0 s ts' qs'" "qs' \<noteq> []" "only_timer s" by (simp_all add: run_ok_def)
  show "\<exists>s'. kstep s Interrupt s'" using interrupt_step [OF r] by (elim exE conjE) (rule exI, rule kstep.interrupt [OF i(1)])
  show "\<exists>s'. kstep s Yield s'" using schedule_step [OF i(2-4)] by (elim exE conjE) (rule exI, rule kstep.yield)
  show "\<exists>pc' s'. fork_next cf stack arg pc s = Inr (pc', s')" using fork_ok_own [OF assms(2) ok] by blast
qed

section \<open>Properties\<close>

text \<open>C5. Thread creation may be preempted at any point. Without interruption the statements are \<open>do_fork\<close>, on every path.
  With interruptions, after the creator has taken \<open>n\<close> steps (at most 34) and the timer and the scheduler have run
  any number of times in between: the timer may interrupt whoever runs, whoever runs may call the scheduler, and the creator may go on, none with
  a fault. When the creator has returned, it has either failed with -1, with the invariant of the
  kernel intact and the same tasks and pages in use as before, or it has registered one new task on a page that was free, under the lowest
  free pid, behind the others in the ring and at the head of the ready queue, with the invariant of the kernel.\<close>

theorem preempted_creation:
  assumes "fork_run cf stack arg s0 n pc s" and "kinv s0 ts qs"
  shows "fork_iter 34 cf stack arg Alloc s0 = bindr (do_fork cf stack arg s0) (\<lambda>(r, t). Inr (Done r, t)) \<and>
     n \<le> 34 \<and> (\<exists>s'. kstep s Interrupt s') \<and> (\<exists>s'. kstep s Yield s') \<and> (\<exists>pc' s'. fork_next cf stack arg pc s = Inr (pc', s')) \<and>
     (\<forall>r. pc = Done r \<longrightarrow>
        r = - 1 \<and> kinv s ts qs \<and> g_task s = g_task s0 \<and> mem_map s = mem_map s0 \<or>
        (\<exists>p j. r = word_of_nat j \<and> j < 128 \<and> g_task s0 j = 0 \<and> {i. i < j \<and> g_task s0 i = 0} = {} \<and> p \<notin> used_pages s0 \<and>
           kinv s (ts @ [p]) (p # qs) \<and> g_task s = (g_task s0)(j := p) \<and> t_pid (tasks s p) = r \<and>
           used_pages s = insert p (used_pages s0)))"
proof (intro conjI allI impI)
  note ok = fork_run_ok [OF assms]
  show "fork_iter 34 cf stack arg Alloc s0 = bindr (do_fork cf stack arg s0) (\<lambda>(r, t). Inr (Done r, t))"
    by (rule fork_steps_eq)
  show "n \<le> 34" "\<exists>s'. kstep s Interrupt s'" "\<exists>s'. kstep s Yield s'" "\<exists>pc' s'. fork_next cf stack arg pc s = Inr (pc', s')"
    using fork_run_goes_on [OF assms] by blast+
  fix r assume "pc = Done r"
  with ok consider (failed) "r = - 1" "unpublished s0 ts qs s" "mem_map s = mem_map s0"
    | (made) p where "slot s0 r" "new_page s0 ts p" "kinv s (ts @ [p]) (p # qs)" "made s0 ts qs p r s" by auto
  then show "r = - 1 \<and> kinv s ts qs \<and> g_task s = g_task s0 \<and> mem_map s = mem_map s0 \<or>
        (\<exists>p j. r = word_of_nat j \<and> j < 128 \<and> g_task s0 j = 0 \<and> {i. i < j \<and> g_task s0 i = 0} = {} \<and> p \<notin> used_pages s0 \<and>
           kinv s (ts @ [p]) (p # qs) \<and> g_task s = (g_task s0)(j := p) \<and> t_pid (tasks s p) = r \<and>
           used_pages s = insert p (used_pages s0))"
  proof cases
    case failed
    then show ?thesis by (simp add: unpublished_def)
  next
    case made
    from made(1) obtain j where j: "r = word_of_nat j" "j < 128" "g_task s0 j = 0" "\<forall>k < j. g_task s0 k \<noteq> 0"
      by (auto simp: slot_def)
    have "unat (word_of_nat j :: s32) = j" by (rule pid_unat [OF j(2)])
    then show ?thesis using made j by (intro disjI2 exI [of _ p] exI [of _ j]) (auto simp: made_def new_page_def)
  qed
qed

theorem preempted_creation_witness:
  "\<exists>pc s s'. fork_run 1 0x83000 5 demo_kernel 1 pc s \<and> kstep s Interrupt s' \<and> (\<exists>t. kstep s' Yield t)"
proof -
  have 0: "fork_run 1 0x83000 5 demo_kernel 0 Alloc demo_kernel" by (rule fork_run.called)
  then obtain pc s where "fork_next 1 0x83000 5 Alloc demo_kernel = Inr (pc, s)" using preempted_creation [OF _ demo_kernel_inv] by blast
  then have 1: "fork_run 1 0x83000 5 demo_kernel 1 pc s" using fork_run.own [OF 0] by simp
  then obtain s' where s': "kstep s Interrupt s'" using preempted_creation [OF _ demo_kernel_inv] by blast
  have "fork_run 1 0x83000 5 demo_kernel 1 pc s'" by (rule fork_run.event [OF 1 s']) simp
  then show ?thesis using preempted_creation [OF _ demo_kernel_inv] 1 s' by blast
qed

end
