(* ===== verification/Fork_Race.thy ===== *)
theory Fork_Race
  imports Preempt
begin

text \<open>
  Two threads that create threads at once, with no lock between them: \<open>do_fork\<close> of \<^verbatim>\<open>kernel/fork.c\<close> called by a task while another one is
  between its search for a free pid and the registration of its new task.
\<close>

section \<open>The rest of a preempted creation\<close>

definition pid_kept :: "u64 \<Rightarrow> 'a fork_state_scheme \<Rightarrow> 'a fork_state_scheme \<Rightarrow> bool" where
  "pid_kept p s s' \<longleftrightarrow> syms s' = syms s \<and> (\<forall>q. q \<noteq> p \<longrightarrow> t_pid (tasks s' q) = t_pid (tasks s q))"

lemma pid_kept_trans: "pid_kept p s s' \<Longrightarrow> pid_kept p s' s'' \<Longrightarrow> pid_kept p s s''"
  by (simp add: pid_kept_def)

lemma do_all_invariant:
  assumes "\<And>f s. f \<in> set fs \<Longrightarrow> P s \<Longrightarrow> P (f s)" and "P s"
  shows "P (do_all fs s)"
  using assms by (induction fs arbitrary: s) auto

lemma copy_fill_kept:
  assumes "fs = copy_stmts cf p stack arg \<or> fs = fill_stmts p pid"
  shows "pid_kept p s (do_all fs s) \<and> lists (do_all fs s) = lists s \<and> g_task (do_all fs s) = g_task s"
proof (rule do_all_invariant [where P = "\<lambda>t. pid_kept p s t \<and> lists t = lists s \<and> g_task t = g_task s"])
  show "pid_kept p s s \<and> lists s = lists s \<and> g_task s = g_task s" by (simp add: pid_kept_def)
  fix f t assume f: "f \<in> set fs" and t: "pid_kept p s t \<and> lists t = lists s \<and> g_task t = g_task s"
  from assms have "pid_kept p t (f t) \<and> lists (f t) = lists t \<and> g_task (f t) = g_task t"
  proof
    assume "fs = copy_stmts cf p stack arg"
    then show ?thesis using copy_frame(1) [of f cf p stack arg t] f by (simp add: pid_kept_def)
  next
    assume "fs = fill_stmts p pid"
    then show ?thesis using fill_frame [of f p pid t] f by (fastforce simp: pid_kept_def)
  qed
  then show "pid_kept p s (f t) \<and> lists (f t) = lists s \<and> g_task (f t) = g_task s" using t pid_kept_trans by auto
qed

lemma fill_pid: "t_pid (tasks (do_all (fill_stmts p pid) s) p) = pid"
  by (simp add: fill_stmts_def upd_task_def)

lemma link_rest:
  "pid_kept p s (do_all (link_stmts p pid) s) \<and> lists (do_all (link_stmts p pid) s) = lists s \<and>
   g_task (do_all (link_stmts p pid) s) = (g_task s)(unat pid := p) \<and>
   t_pid (tasks (do_all (link_stmts p pid) s) p) = t_pid (tasks s p)"
  by (simp add: link_stmts_def pid_kept_def upd_task_def)

lemma insert_rest: "tasks (do_all (insert_stmts p nxt) s) = tasks s \<and> g_task (do_all (insert_stmts p nxt) s) = g_task s"
  by (simp add: insert_stmts_def)

lemma rest_of_creation:
  fixes s :: "'a irq_state_scheme"
  assumes inv: "kinv s ts qs" and p: "run_list_of p \<noteq> 0" and cf: "cf AND PF_KTHREAD \<noteq> 0"
  shows "\<exists>s'. fork_iter 31 cf stack arg (Copy p pid 0) s = Inr (Done pid, s') \<and>
     g_task s' = (g_task s)(unat pid := p) \<and> t_pid (tasks s' p) = pid \<and> (\<forall>q. q \<noteq> p \<longrightarrow> t_pid (tasks s' q) = t_pid (tasks s q))"
proof -
  let ?c = "copy_stmts cf p stack arg" and ?n = "30 - length (copy_stmts cf p stack arg :: 'a irq_state_ext stmt list)"
  let ?s = "do_all (fill_stmts p pid) (do_all ?c s)" let ?t = "do_all (link_stmts p pid) ?s" let ?nxt = "lh_next (lists s (rq_head s))"
  have n: "length (copy_stmts cf p stack arg :: 'a irq_state_ext stmt list) \<le> 7" by (rule copy_stmts_length)
  have c: "pid_kept p s (do_all ?c s)" "lists (do_all ?c s) = lists s" "g_task (do_all ?c s) = g_task s"
    using copy_fill_kept [of ?c cf p stack arg pid s] by auto
  have f: "pid_kept p (do_all ?c s) ?s" "lists ?s = lists s" "g_task ?s = g_task s"
    using copy_fill_kept [of "fill_stmts p pid" cf p stack arg pid "do_all ?c s"] c by auto
  have t: "pid_kept p s ?t" "lists ?t = lists s" "g_task ?t = (g_task s)(unat pid := p)" "t_pid (tasks ?t p) = pid"
    using link_rest [of p ?s pid] f fill_pid [of p pid "do_all ?c s"] pid_kept_trans [OF pid_kept_trans [OF c(1) f(1)]] by auto
  have sy: "rq_head ?t = rq_head s" using t(1) by (simp add: pid_kept_def)
  have "fork_iter 31 cf stack arg (Copy p pid 0) s = fork_iter ?n cf stack arg (Fill p pid 0) (do_all ?c s)"
    using n cf by (subst fork_iter_group [where pc = "Copy p pid" and xs = ?c and n = ?n and after = "Fill p pid 0"]) simp_all
  also have "\<dots> = fork_iter (?n - 9) cf stack arg (Link p pid 0) ?s" using n by (intro fork_iter_group) simp_all
  also have "\<dots> = fork_iter (?n - 16) cf stack arg (Enqueue p pid) ?t" using n by (intro fork_iter_group) simp_all
  also have "\<dots> = bindr (enqueue_task p ?t) (\<lambda>u. Inr (Done pid, u))" using n by (intro enqueue_iter [where n = "?n - 23"]) simp
  finally have run: "fork_iter 31 cf stack arg (Copy p pid 0) s = bindr (enqueue_task p ?t) (\<lambda>u. Inr (Done pid, u))" .
  have rep: "sched_rep s ts qs" "qs \<noteq> []" using inv by (simp_all add: kinv_def fork_inv_def sched_inv_def)
  then have "?nxt \<noteq> 0" "rq_head s \<noteq> 0" by (cases qs; auto simp: sched_rep_def list_rep_def ring_def)+
  then have "enqueue_task p ?t = Inr (do_all (insert_stmts p ?nxt) ?t)" using p t(2) sy by (simp add: insert_stmts_enqueue Let_def)
  then show ?thesis using run t insert_rest [of p ?nxt ?t] by (auto simp: pid_kept_def)
qed

section \<open>The slices between\<close>

inductive slices :: "'a irq_state_scheme \<Rightarrow> 'a irq_state_scheme \<Rightarrow> bool" for s0 where
  none: "slices s0 s0"
| more: "slices s0 s \<Longrightarrow> kstep s ev s' \<Longrightarrow> ev \<in> {Interrupt, Yield} \<Longrightarrow> slices s0 s'"

lemma slices_kinv:
  assumes "slices s s'" and "kinv s ts qs"
  shows "kinv s' ts qs \<and> g_task s' = g_task s"
  using assms
proof (induction rule: slices.induct)
  case (more t ev t')
  then have k: "kinv t ts qs" "fork_inv 0 t ts qs" "g_task t = g_task s" by (simp_all add: kinv_def)
  have q: "run_ok t' ts qs" "untouched ts t t'" using quiet_event [OF more.hyps(2,3) kinv_run_ok [OF k(1)]] by simp_all
  then show ?case using kinv_untouched [OF k(2) q] untouched_agree [OF q(2)] k(3) by (simp add: agree_def)
qed simp

lemma fork_made:
  assumes inv: "kinv s ts qs" and "do_fork cf stack arg s = Inr (r, e)" and "r \<noteq> - 1"
  obtains p where "fst (get_free_page s) = p" "slot s r" "p \<notin> used_pages s" "kinv e (ts @ [p]) (p # qs)" "g_task e = (g_task s)(unat r := p)"
proof -
  have i: "fork_inv 0 s ts qs" using inv by (simp add: kinv_def)
  show ?thesis
  proof (cases rule: do_fork_cases [OF i, of cf stack arg, case_names made failed])
    case (made p s1 j)
    have r: "r = word_of_nat j" and e: "fork_inv 0 e (ts @ [p]) (p # qs)" "g_task e = (g_task s)(j := p)" using made assms(2) by simp_all
    have "kinv e (ts @ [p]) (p # qs)"
      using e only_timer_more [OF do_fork_more [OF assms(2)]] do_fork_masked [OF assms(2)] inv by (simp add: kinv_def)
    moreover have "slot s r" using made r by (auto simp: slot_def)
    moreover have "unat r = j" using pid_unat [OF made(4)] r by simp
    moreover have "p \<notin> used_pages s"
      using made(1,2) by (cases rule: get_free_page_cases [of s]) (auto simp: page_addr_used_iff)
    ultimately show ?thesis using that made(1) e(2) by auto
  next
    case (failed e)
    then show ?thesis using assms by simp
  qed
qed

lemma slot_unique: "slot s pid \<Longrightarrow> slot s' pid' \<Longrightarrow> g_task s' = g_task s \<Longrightarrow> pid' = pid"
  unfolding slot_def by (metis linorder_neqE_nat)

lemma slot_bounds:
  assumes "slot s pid"
  shows "unat pid < 128" "g_task s (unat pid) = 0"
proof -
  from assms obtain j where j: "j < 128" "pid = word_of_nat j" "g_task s j = 0" by (auto simp: slot_def)
  then have "unat pid = j" by (simp add: pid_unat)
  then show "unat pid < 128" "g_task s (unat pid) = 0" using j by simp_all
qed

text \<open>When such a creation begins, and when another succeeds.\<close>

lemma second_page:
  assumes "i < NR_PAGES" and "mem_map s i = 0"
  shows "fst (get_free_page s) \<noteq> 0"
proof (cases rule: get_free_page_cases [of s])
  case (found j)
  then have "page_addr j \<in> used_pages (s\<lparr>mem_map := (mem_map s)(j := 1)\<rparr>)" using used_pages_alloc [of j s] by simp
  from used_page_bounds [OF this] show ?thesis using found(4) by auto
next
  case full
  then show ?thesis using assms by auto
qed

lemma creation_begins:
  assumes "i < NR_PAGES" and "mem_map s i = 0" and "j < 128" and "g_task s j = 0"
  shows "\<exists>p pid s1. fork_run cf stack arg s 3 (Copy p pid 0) s1"
proof -
  obtain p t where p: "get_free_page s = (p, t)" "p \<noteq> 0" using second_page [OF assms(1,2)] by (cases "get_free_page s") auto
  let ?u = "(upd_task p (\<lambda>_. task_0) t)\<lparr>lists := (lists t)(run_list_of p := \<lparr>lh_next = 0, lh_prev = 0\<rparr>)\<rparr>"
  have t: "g_task ?u = g_task s" "current t = current s" "current ?u = current s"
    using p by (cases rule: get_free_page_cases [of s]; auto simp: current_def upd_task_def)+
  have pid: "\<not> sint (find_empty_task ?u) < 0" using assms(3,4) t(1) by (cases rule: find_empty_task_cases [of ?u]) auto
  have "fork_run cf stack arg s (Suc 0) (Clear p) t"
    by (rule fork_run.own [OF fork_run.called]) (simp_all add: p)
  then have "fork_run cf stack arg s (Suc (Suc 0)) (Find p) ?u"
    by (rule fork_run.own) (simp_all add: t(2) Let_def)
  then have "fork_run cf stack arg s (Suc (Suc (Suc 0))) (Copy p (find_empty_task ?u) 0) ?u"
    by (rule fork_run.own) (use pid in \<open>simp_all add: t(3) Let_def\<close>)
  then show ?thesis by (auto simp: numeral_3_eq_3)
qed

lemma made_by:
  assumes "fork_inv k s ts qs" and "fst (get_free_page s) \<noteq> 0" and "{i. i < 128 \<and> g_task s i = 0} \<noteq> {}"
  shows "\<exists>r e. do_fork 1 stack arg s = Inr (r, e) \<and> r \<noteq> - 1"
proof (cases rule: do_fork_cases [OF assms(1), of 1 stack arg, case_names made failed])
  case (made p s1 j e)
  have "(word_of_nat j :: s32) \<noteq> - 1" by (rule pid_not_error [OF made(4)])
  then show ?thesis using made by blast
next
  case failed
  then show ?thesis using assms by (simp add: copy_fails_def)
qed

section \<open>Properties\<close>

text \<open>C29. Two threads that create threads at once share a pid. The first creator is preempted between its search for a free
  pid and the registration (its third step is done, and any interrupts and switches have happened); another task creates
  a thread and succeeds; the first goes on after any further interrupts and switches. Both creators return the same pid, both new tasks
  carry it, and the table of tasks holds only the first creator's: the other one is in no slot, and the invariant of the kernel holds for
  no list of tasks with it.\<close>

theorem creators_share_a_pid:
  assumes "fork_run cf stack arg s0 3 (Copy p pid 0) s1" and "kinv s0 ts qs" and "cf AND PF_KTHREAD \<noteq> 0"
    and "do_fork cf' stack' arg' s1 = Inr (r, s2)" and "r \<noteq> - 1" and "slices s2 s3"
  shows "r = pid \<and> (\<exists>p' s4. p' \<noteq> p \<and> g_task s2 (unat pid) = p' \<and>
     fork_iter 31 cf stack arg (Copy p pid 0) s3 = Inr (Done pid, s4) \<and>
     t_pid (tasks s4 p) = pid \<and> t_pid (tasks s4 p') = pid \<and> g_task s4 (unat pid) = p \<and> (\<forall>i < 128. g_task s4 i \<noteq> p') \<and>
     \<not> (\<exists>ts' qs'. kinv s4 ts' qs' \<and> p' \<in> set ts'))"
proof -
  have o: "owns s0 ts qs p s1" "slot s0 pid" using fork_run_ok [OF assms(1,2)] by simp_all
  note new = owns_new [OF o(1) assms(2)]
  have k1: "kinv s1 ts qs" "g_task s1 = g_task s0" using o(1) by (simp_all add: owns_def unpublished_def)
  obtain p' where p': "slot s1 r" "p' \<notin> used_pages s1" "kinv s2 (ts @ [p']) (p' # qs)" "g_task s2 = (g_task s1)(unat r := p')"
    using fork_made [OF k1(1) assms(4,5)] .
  have r: "r = pid" by (rule slot_unique [OF o(2) p'(1) k1(2)])
  have ne: "p' \<noteq> p" using p'(2) new(3) by auto
  have k3: "kinv s3 (ts @ [p']) (p' # qs)" "g_task s3 = (g_task s1)(unat pid := p')"
    using slices_kinv [OF assms(6) p'(3)] p'(4) r by simp_all
  obtain s4 where s4: "fork_iter 31 cf stack arg (Copy p pid 0) s3 = Inr (Done pid, s4)" "g_task s4 = (g_task s3)(unat pid := p)"
    "t_pid (tasks s4 p) = pid" "\<forall>q. q \<noteq> p \<longrightarrow> t_pid (tasks s4 q) = t_pid (tasks s3 q)"
    using rest_of_creation [OF k3(1) _ assms(3)] new(5) by blast
  have f3: "fork_inv 0 s3 (ts @ [p']) (p' # qs)" using k3(1) by (simp add: kinv_def)
  have p'u: "p' \<in> used_pages s3" using f3 by (simp add: fork_inv_def)
  then have "p' \<noteq> 0" "p' \<noteq> g_task s3 0" using used_page_bounds [of p' s3] f3 by (auto simp: fork_inv_def)
  moreover have "g_task s1 0 \<noteq> 0" using k1(1) by (simp add: kinv_def fork_inv_def)
  then have j: "unat pid < 128" "unat pid \<noteq> 0" using slot_bounds [OF p'(1)] r by (auto intro: ccontr)
  moreover have reg: "unat (t_pid (tasks s3 p')) = i" if "i < 128" "i \<noteq> 0" "g_task s3 i = p'" for i
    using f3 that \<open>p' \<noteq> 0\<close> unfolding fork_inv_def by auto
  ultimately have "unat (t_pid (tasks s3 p')) = unat pid" using k3(2) by simp
  then have pid': "t_pid (tasks s4 p') = pid" using s4(4) ne by (simp add: word_unat_eq_iff)
  have gone: "g_task s4 i \<noteq> p'" if "i < 128" for i
  proof (cases "i = unat pid")
    case False
    then have "g_task s4 i = g_task s3 i" by (simp add: s4(2))
    with reg [OF that] False \<open>unat (t_pid (tasks s3 p')) = unat pid\<close> \<open>p' \<noteq> g_task s3 0\<close> show ?thesis by (cases "i = 0") auto
  qed (simp add: s4(2) ne [symmetric])
  have "p' \<notin> set ts'" if "kinv s4 ts' qs'" for ts' qs'
    using that gone unfolding kinv_def fork_inv_def Let_def by blast
  then show ?thesis using r ne s4(1-3) p'(4) pid' gone by (intro conjI exI [of _ p'] exI [of _ s4]) auto
qed

theorem creators_share_a_pid_witness:
  "\<exists>p pid s1 s2 p' s4. fork_run 1 0x83000 5 demo_kernel 3 (Copy p pid 0) s1 \<and> do_fork 1 0x84000 7 s1 = Inr (pid, s2) \<and>
     fork_iter 31 1 0x83000 5 (Copy p pid 0) s2 = Inr (Done pid, s4) \<and> p' \<noteq> p \<and> t_pid (tasks s4 p) = pid \<and> t_pid (tasks s4 p') = pid"
proof -
  have m: "mem_map demo_kernel = mem_map demo_sched" "g_task demo_kernel 3 = 0"
    by (simp_all add: demo_kernel_def demo_irq_simps demo_fork_simps)
  have free: "mem_map demo_sched 3 = 0" "mem_map demo_sched 4 = 0" by (simp_all add: demo_sched_def)
  obtain p pid s1 where s1: "fork_run 1 0x83000 5 demo_kernel 3 (Copy p pid 0) s1"
    using creation_begins [of 3 demo_kernel 3 1 "0x83000" 5] m free by (auto simp: NR_PAGES_val)
  then have o: "owns demo_kernel [0x400000, 0x401000] [0x401000, 0x400000] p s1"
    and sl: "slot demo_kernel pid" using fork_run_ok [OF s1 demo_kernel_inv] by simp_all
  then have k1: "fork_inv 0 s1 [0x400000, 0x401000] [0x401000, 0x400000]" "g_task s1 = g_task demo_kernel"
    by (simp_all add: owns_def unpublished_def kinv_def)
  from o obtain i where "mem_map s1 = (mem_map demo_kernel)(i := 1)" by (auto simp: owns_def)
  then have "mem_map s1 3 = 0 \<or> mem_map s1 4 = 0" using m(1) free by auto
  then have "fst (get_free_page s1) \<noteq> 0" using second_page [of 3 s1] second_page [of 4 s1] by (auto simp: NR_PAGES_val)
  moreover have "3 \<in> {i. i < 128 \<and> g_task s1 i = 0}" using m(2) k1(2) by simp
  then have "{i. i < 128 \<and> g_task s1 i = 0} \<noteq> {}" by blast
  ultimately obtain r s2 where s2: "do_fork 1 0x84000 7 s1 = Inr (r, s2)" "r \<noteq> - 1" using made_by [OF k1(1)] by blast
  have kt: "(1 :: u64) AND PF_KTHREAD \<noteq> 0" by (simp add: PF_KTHREAD_def)
  obtain p' s4 where "r = pid" "p' \<noteq> p" "fork_iter 31 1 0x83000 5 (Copy p pid 0) s2 = Inr (Done pid, s4)"
    "t_pid (tasks s4 p) = pid" "t_pid (tasks s4 p') = pid"
    using creators_share_a_pid [OF s1 demo_kernel_inv kt s2 slices.none] by blast
  then show ?thesis using s1 s2(1) by blast
qed

end
