(* ===== verification/Head.thy ===== *)
theory Head
  imports Byte_Memory Page_Alloc
begin

text \<open>
  The code from reset to \<open>start_kernel\<close>: \<^verbatim>\<open>arch/arm64/kernel/head.S\<close> with the constants of
  \<^verbatim>\<open>asm/sysregs.h\<close>, \<open>memzero\<close> of \<^verbatim>\<open>kernel/mm.S\<close> and the delay loop of \<^verbatim>\<open>kernel/utils.S\<close>.

  The processor is a record of the registers the code uses. The exception level decides which
  instructions are defined: an access to a register of EL2 from EL1 is an undefined instruction.
\<close>

section \<open>Constants\<close>

definition HCR_RW :: u64 where [layout_defs]: "HCR_RW = push_bit 31 1"
definition HCR_HOST_NVHE_FLAGS :: u64 where [layout_defs]: "HCR_HOST_NVHE_FLAGS = HCR_RW"
definition SCTLR_EE_LITTLE_ENDIAN :: u64 where [layout_defs]: "SCTLR_EE_LITTLE_ENDIAN = push_bit 25 0"
definition SCTLR_EOE_LITTLE_ENDIAN :: u64 where [layout_defs]: "SCTLR_EOE_LITTLE_ENDIAN = push_bit 24 0"
definition SCTLR_MMU_DISABLED :: u64 where [layout_defs]: "SCTLR_MMU_DISABLED = push_bit 0 0"
definition SCTLR_VALUE_MMU_DISABLED :: u64 where [layout_defs]:
  "SCTLR_VALUE_MMU_DISABLED = SCTLR_MMU_DISABLED OR SCTLR_EE_LITTLE_ENDIAN OR SCTLR_EOE_LITTLE_ENDIAN"
definition SPSR_MASK_ALL :: u64 where [layout_defs]: "SPSR_MASK_ALL = push_bit 6 7"
definition SPSR_EL1h :: u64 where [layout_defs]: "SPSR_EL1h = push_bit 0 5"
definition SPSR_EL1 :: u64 where [layout_defs]: "SPSR_EL1 = SPSR_MASK_ALL OR SPSR_EL1h"
definition CurrentEL_EL1 :: u64 where [layout_defs]: "CurrentEL_EL1 = push_bit 2 1"
definition CurrentEL_EL2 :: u64 where [layout_defs]: "CurrentEL_EL2 = push_bit 2 2"
definition CurrentEL_EL3 :: u64 where [layout_defs]: "CurrentEL_EL3 = push_bit 2 3"
definition THREAD_START_SP :: s32 where [layout_defs]: "THREAD_START_SP = THREAD_SIZE - 16"

section \<open>Loops in assembly\<close>

text \<open>\<open>memzero\<close>: a word is stored before the length is tested; \<open>b.gt\<close> after the subtraction is a signed comparison
  of the old length with 8.\<close>

partial_function (option) memzero :: "u64 \<Rightarrow> u64 \<Rightarrow> bmem \<Rightarrow> bmem option" where
  "memzero p len m =
     (let m = store64 p 0 m
      in if 8 < sint len then memzero (p + 8) (len - 8) m else Some m)"

text \<open>The delay loop with the number of its turns.\<close>

partial_function (option) delay_loop :: "u64 \<Rightarrow> nat \<Rightarrow> nat option" where
  "delay_loop n turns = (let n = n - 1 in if n \<noteq> 0 then delay_loop n (Suc turns) else Some (Suc turns))"

section \<open>From reset to the kernel\<close>

record boot_cpu =
  h_mpidr :: u64
  h_el :: u64
  h_hcr :: u64
  h_sctlr :: u64
  h_vbar :: u64
  h_spsr_el2 :: u64
  h_elr_el2 :: u64
  h_pstate :: u64
  h_sp :: u64
  h_mem :: bmem

record boot_symbols =
  bs_vectors :: u64
  bs_bss_begin :: u64
  bs_bss_end :: u64
  bs_sp_addr :: u64
  bs_el1_entry :: u64

text \<open>Where a processor ends up: in \<open>start_kernel\<close>, in the loop of \<open>hang_proc\<close>, at an undefined instruction, behind
  an \<open>eret\<close> of EL3 whose registers this code has not set, or in a loop that does not end.\<close>

datatype boot_outcome = Start_kernel | Hang_proc | Undefined_instruction | Unset_eret | Endless

definition el1_entry :: "boot_symbols \<Rightarrow> boot_cpu \<Rightarrow> boot_outcome \<times> boot_cpu" where
  "el1_entry b c =
     (let c = c\<lparr>h_vbar := bs_vectors b\<rparr>
      in case memzero (bs_bss_begin b) (bs_bss_end b - bs_bss_begin b) (h_mem c) of
           None \<Rightarrow> (Endless, c)
         | Some m \<Rightarrow>
             let c = c\<lparr>h_mem := m\<rparr>
             in (Start_kernel, c\<lparr>h_sp := load64 (bs_sp_addr b) (h_mem c)\<rparr>))"

text \<open>The \<open>eret\<close> of EL2: to EL1 with the state of \<open>SPSR_EL2\<close>, at the address of \<open>el1_entry\<close>.\<close>

definition el2_entry :: "boot_symbols \<Rightarrow> boot_cpu \<Rightarrow> boot_outcome \<times> boot_cpu" where
  "el2_entry b c =
     (if h_el c = CurrentEL_EL1 then (Undefined_instruction, c)
      else
        let c = c\<lparr>h_hcr := HCR_HOST_NVHE_FLAGS\<rparr>;
            c = c\<lparr>h_sctlr := SCTLR_VALUE_MMU_DISABLED\<rparr>;
            c = c\<lparr>h_spsr_el2 := SPSR_EL1\<rparr>;
            c = c\<lparr>h_elr_el2 := bs_el1_entry b\<rparr>;
            c = c\<lparr>h_el := CurrentEL_EL1, h_pstate := h_spsr_el2 c\<rparr>
        in el1_entry b c)"

definition core0_proc :: "boot_symbols \<Rightarrow> boot_cpu \<Rightarrow> boot_outcome \<times> boot_cpu" where
  "core0_proc b c = (if h_el c = CurrentEL_EL3 then (Unset_eret, c) else el2_entry b c)"

definition start_of_image :: "boot_symbols \<Rightarrow> boot_cpu \<Rightarrow> boot_outcome \<times> boot_cpu" where
  "start_of_image b c = (if h_mpidr c AND 0xFF = 0 then core0_proc b c else (Hang_proc, c))"

section \<open>What the loops do\<close>

lemma delay_loop_turns:
  "delay_loop n turns = Some (turns + (if n = 0 then 2 ^ 64 else unat n))"
proof (induction "unat (n - 1)" arbitrary: n turns)
  case 0
  then have "n = 1" by (simp add: unat_eq_0)
  then show ?case by (simp add: delay_loop.simps [of 1])
next
  case (Suc k)
  then have n: "n - 1 \<noteq> 0" by auto
  have u: "unat (n - 1 - 1) = k" using Suc.hyps(2) by (simp only: unat_minus_one [OF n] Suc.hyps(2) [symmetric] diff_Suc_1)
  have "(if n = 0 then 2 ^ 64 else unat n) = Suc (unat (n - 1))"
  proof (cases "n = 0")
    case True
    then show ?thesis by (simp add: unsigned_minus_1_eq_mask mask_eq_exp_minus_1)
  next
    case False
    then show ?thesis by (simp add: unat_minus_one unat_gt_0)
  qed
  with Suc.hyps(1) [of "n - 1" "Suc turns"] u n show ?case by (simp add: delay_loop.simps [of n])
qed

text \<open>\<open>memzero\<close> clears the words that begin before the end of the block, at least one.\<close>

lemma store_zero: "store64 p 0 m = (\<lambda>a. if unat (a - p) < 8 then 0 else m a)"
  by (rule ext) (simp add: store64_def byte_of_def word_less_nat_alt)

lemma sint_diff64:
  fixes len :: u64
  assumes "8 < sint len"
  shows "sint (len - 8) = sint len - 8"
proof -
  have "sint len < 2 ^ 63" using sint_less [of len] by simp
  then have "signed_take_bit 63 (sint len - 8) = sint len - 8" using assms by (intro signed_take_bit_int_eq_self) simp_all
  then show ?thesis by (simp add: sint_word_ariths)
qed

lemma memzero_clears:
  assumes "sint len \<le> 8 * int (Suc n)" and "8 * int n < sint len \<or> n = 0"
  shows "memzero p len m = Some (\<lambda>a. if unat (a - p) < 8 * Suc n then 0 else m a)"
  using assms
proof (induction n arbitrary: p len m)
  case 0
  then show ?case by (simp add: memzero.simps [of p] store_zero)
next
  case (Suc n)
  then have l: "8 * int (Suc n) < sint len" by simp
  then have s: "sint (len - 8) = sint len - 8" by (intro sint_diff64) simp
  have "sint len < 2 ^ 63" using sint_less [of len] by simp
  with l have b: "8 * Suc n < 2 ^ 63" by simp
  have c: "unat (a - p) < 8 * Suc (Suc n) \<longleftrightarrow> unat (a - p) < 8 \<or> unat (a - (p + 8)) < 8 * Suc n" for a
  proof (cases "unat (a - p) < 8")
    case False
    have e: "a - (p + 8) = (a - p) - 8" by simp
    have "unat ((a - p) - 8) = unat (a - p) - 8" using False unat_sub [of 8 "a - p"] by (simp add: word_le_nat_alt)
    then show ?thesis unfolding e using False by auto
  qed simp
  have "memzero (p + 8) (len - 8) (store64 p 0 m) = Some (\<lambda>a. if unat (a - (p + 8)) < 8 * Suc n then 0 else store64 p 0 m a)"
    using Suc.prems(1) l s by (intro Suc.IH) simp_all
  moreover have "8 < sint len" using l by simp
  ultimately have "memzero p len m = Some (\<lambda>a. if unat (a - (p + 8)) < 8 * Suc n then 0 else if unat (a - p) < 8 then 0 else m a)"
    by (simp add: memzero.simps [of p] store_zero cong: if_cong)
  also have "\<dots> = Some (\<lambda>a. if unat (a - p) < 8 * Suc (Suc n) then 0 else m a)"
    by (rule arg_cong [of _ _ Some], rule ext) (simp only: c, simp)
  finally show ?case .
qed

section \<open>Properties\<close>

text \<open>C2. The reset of the first core in EL2: with the bss in the first half of the addresses and the word of the initial stack
  pointer outside it, the kernel is entered with the bss cleared, up to the word in which it ends, and the rest of the memory as it was, in
  EL1 with the exceptions masked and the MMU off, with the vector table set, on the stack in the page of the init task. The other
  cores wait, and a core that starts in EL1 or EL3 does not reach the kernel.\<close>

theorem reset_enters_kernel:
  assumes "n = (unat (bs_bss_end b - bs_bss_begin b) + 7) div 8" and "bs_bss_begin b < bs_bss_end b"
    and "unat (bs_bss_end b - bs_bss_begin b) < 2 ^ 32"
    and "\<forall>k < 8. 8 * n \<le> unat (bs_sp_addr b + word_of_nat k - bs_bss_begin b)"
    and "load64 (bs_sp_addr b) (h_mem c) = task + scast THREAD_START_SP" and "page_aligned task"
  shows "(h_mpidr c AND 0xff = 0 \<and> h_el c = CurrentEL_EL2 \<longrightarrow>
       (\<exists>c'. start_of_image b c = (Start_kernel, c') \<and> h_mem c' = (\<lambda>a. if unat (a - bs_bss_begin b) < 8 * n then 0 else h_mem c a) \<and>
          h_el c' = CurrentEL_EL1 \<and> h_pstate c' = 0x1c5 \<and> \<not> bit (h_sctlr c') 0 \<and> h_vbar c' = bs_vectors b \<and>
          h_sp c' AND NOT (scast (THREAD_SIZE - 1)) = task)) \<and>
     (h_mpidr c AND 0xff \<noteq> 0 \<longrightarrow> start_of_image b c = (Hang_proc, c)) \<and>
     (h_el c \<in> {CurrentEL_EL1, CurrentEL_EL3} \<longrightarrow> fst (start_of_image b c) \<noteq> Start_kernel)"
proof -
  let ?len = "bs_bss_end b - bs_bss_begin b"
  have len: "0 < unat ?len" using assms(2) by (simp add: unat_gt_0) 
  have s: "sint ?len = int (unat ?len)" 
  proof -
    have "uint ?len < 2 ^ 32" using assms(3) of_nat_less_iff [of "unat ?len" "2 ^ 32", where 'a = int] by simp
    then have "uint ?len < 2 ^ 63" by (rule order.strict_trans) simp
    moreover have "- (2 ^ 63) \<le> uint ?len" by (rule order_trans [of _ 0]) simp_all
    ultimately have "signed_take_bit 63 (uint ?len) = uint ?len" by (rule signed_take_bit_int_eq_self [rotated])
    then show ?thesis by (simp add: sint_uint)
  qed
  have "0 < n" using len unfolding assms(1) by linarith
  then obtain j where j: "n = Suc j" by (rule gr0_implies_Suc [THEN exE])
  have "L \<le> 8 * Suc j \<and> 8 * j < L" if "Suc j = (L + 7) div 8" for L j :: nat using that by presburger
  then have "unat ?len \<le> 8 * Suc j \<and> 8 * j < unat ?len" using j assms(1) by metis
  then have "sint ?len \<le> 8 * int (Suc j)" "8 * int j < sint ?len \<or> j = 0" unfolding s by linarith+
  then have z: "memzero (bs_bss_begin b) ?len m = Some (\<lambda>a. if unat (a - bs_bss_begin b) < 8 * n then 0 else m a)" for m
    unfolding j by (rule memzero_clears)
  have sp: "load64 (bs_sp_addr b) (\<lambda>a. if unat (a - bs_bss_begin b) < 8 * n then 0 else h_mem c a) = task + scast THREAD_START_SP"
    unfolding assms(5) [symmetric] using assms(4) by (intro load64_cong) (auto simp: not_less dest: leD)
  have t: "(task + scast THREAD_START_SP) AND NOT (scast (THREAD_SIZE - 1)) = task"
    using page_offset(2) [OF assms(6), of 4080] by (simp add: THREAD_START_SP_def THREAD_SIZE_def)
  have levels: "CurrentEL_EL1 = 4" "CurrentEL_EL2 = 8" "CurrentEL_EL3 = 12" "SPSR_EL1 = 0x1c5" "SCTLR_VALUE_MMU_DISABLED = 0"
    by (simp_all add: layout_defs)
  show ?thesis
    using z sp t by (auto simp: start_of_image_def core0_proc_def el2_entry_def el1_entry_def Let_def levels cong: if_cong)
qed

theorem reset_enters_kernel_witness:
  "\<exists>c'. start_of_image \<lparr>bs_vectors = 0x81800, bs_bss_begin = 0x95000, bs_bss_end = 0x9500c, bs_sp_addr = 0x80100, bs_el1_entry = 0x80040\<rparr>
      \<lparr>h_mpidr = 0x80000000, h_el = 8, h_hcr = 0, h_sctlr = 0x30c50830, h_vbar = 0, h_spsr_el2 = 0, h_elr_el2 = 0, h_pstate = 0x3c9, h_sp = 0,
         h_mem = store64 0x80100 0x90ff0 (\<lambda>_. 1)\<rparr> = (Start_kernel, c') \<and>
     h_pstate c' = 0x1c5 \<and> h_mem c' 0x9500f = 0 \<and> h_mem c' 0x95010 = 1"
proof -
  let ?b = "\<lparr>bs_vectors = 0x81800, bs_bss_begin = 0x95000, bs_bss_end = 0x9500c, bs_sp_addr = 0x80100, bs_el1_entry = 0x80040\<rparr> :: boot_symbols"
  let ?c = "\<lparr>h_mpidr = 0x80000000, h_el = 8, h_hcr = 0, h_sctlr = 0x30c50830, h_vbar = 0, h_spsr_el2 = 0, h_elr_el2 = 0, h_pstate = 0x3c9, h_sp = 0,
         h_mem = store64 0x80100 0x90ff0 (\<lambda>_. 1)\<rparr>"
  have a: "\<forall>k < 8. 8 * 2 \<le> unat (bs_sp_addr ?b + word_of_nat k - bs_bss_begin ?b)" 
  proof (intro allI impI)
    fix k :: nat
    assume "k < 8"
    then consider "k = 0" | "k = 1" | "k = 2" | "k = 3" | "k = 4" | "k = 5" | "k = 6" | "k = 7" by linarith
    then show "8 * 2 \<le> unat (bs_sp_addr ?b + word_of_nat k - bs_bss_begin ?b)" by cases simp_all
  qed
  have s: "load64 (bs_sp_addr ?b) (h_mem ?c) = 0x90000 + scast THREAD_START_SP" by (simp add: THREAD_START_SP_def THREAD_SIZE_def)
  have p: "page_aligned 0x90000" by (simp add: page_aligned_def)
  have "h_mpidr ?c AND 0xff = 0 \<and> h_el ?c = CurrentEL_EL2" by (simp add: CurrentEL_EL2_def)
  moreover have "2 = (unat (bs_bss_end ?b - bs_bss_begin ?b) + 7) div 8" "bs_bss_begin ?b < bs_bss_end ?b"
    "unat (bs_bss_end ?b - bs_bss_begin ?b) < 2 ^ 32" by simp_all
  note reset_enters_kernel [OF this a s p]
  ultimately obtain c' where "start_of_image ?b ?c = (Start_kernel, c')" "h_pstate c' = 0x1c5"
    "h_mem c' = (\<lambda>a. if unat (a - bs_bss_begin ?b) < 8 * 2 then 0 else h_mem ?c a)" by blast
  then show ?thesis by (intro exI [of _ c']) (simp add: store64_def)
qed
end
