(* ===== verification/Entry.thy ===== *)
theory Entry
  imports Kernel
begin

text \<open>
  The assembly of \<^verbatim>\<open>arch/arm64/kernel/entry.S\<close>: the vectors, the save and the restore of the registers
  of an exception, the paths of the system calls and interrupts, \<open>ret_from_fork\<close> and the switch of
  contexts, instruction by instruction, and the call \<open>syscall\<close> of the user library.

  \<^item> \<open>arm\<close> is the part of the processor the code works on: the registers x0 to x30, the stack pointers
    of the two levels, the exception registers, PSTATE as a word, and the memory. \<open>exec\<close> is the effect
    of one instruction; the instructions between two labels are a block, and execution that comes
    to the end of a block goes on in the next one of the file.
  \<^item> The functions in C that the code calls are a parameter: what the compiler makes of them is not code
    of the repository. What the code relies on is the calling convention.
  \<^item> The lemmas relate the exception frame and the saved context in memory to the records \<open>pt_regs\<close> and
    \<open>cpu_context\<close> of the other theories.
\<close>

section \<open>The processor\<close>

record arm =
  a_x :: "nat \<Rightarrow> u64"
  a_sp :: u64
  a_sp_el0 :: u64
  a_elr :: u64
  a_spsr :: u64
  a_esr :: u64
  a_pc :: u64
  a_pstate :: u64
  a_mem :: bmem

definition load32 :: "u64 \<Rightarrow> bmem \<Rightarrow> u32" where
  "load32 a m = foldr (\<lambda>k v. push_bit 8 v OR ucast (m (a + word_of_nat k))) [0..<4] 0"

datatype operand = X nat | SP

datatype sysreg = Sp_el0 | Elr_el1 | Spsr_el1 | Esr_el1

text \<open>The instructions of the file. Offsets are in bytes; the forms with a post-index add to the base after the access.\<close>

datatype instr =
    Stp nat nat operand nat
  | Ldp nat nat operand nat
  | Str nat operand nat
  | Ldr nat operand nat
  | Ldr_w nat operand nat
  | Stp_post nat nat nat nat
  | Ldp_post nat nat nat nat
  | Add operand operand nat
  | Sub operand operand nat
  | Mov operand operand
  | Mov_w nat nat
  | Mov_imm nat nat
  | Mvn nat nat
  | And_reg nat nat nat
  | Lsr nat nat nat
  | Mrs nat sysreg
  | Msr sysreg nat
  | Daifset nat

fun get :: "operand \<Rightarrow> arm \<Rightarrow> u64" where
  "get (X n) c = a_x c n"
| "get SP c = a_sp c"

fun put :: "operand \<Rightarrow> u64 \<Rightarrow> arm \<Rightarrow> arm" where
  "put (X n) v c = c\<lparr>a_x := (a_x c)(n := v)\<rparr>"
| "put SP v c = c\<lparr>a_sp := v\<rparr>"

fun get_sys :: "sysreg \<Rightarrow> arm \<Rightarrow> u64" where
  "get_sys Sp_el0 c = a_sp_el0 c"
| "get_sys Elr_el1 c = a_elr c"
| "get_sys Spsr_el1 c = a_spsr c"
| "get_sys Esr_el1 c = a_esr c"

fun put_sys :: "sysreg \<Rightarrow> u64 \<Rightarrow> arm \<Rightarrow> arm" where
  "put_sys Sp_el0 v c = c\<lparr>a_sp_el0 := v\<rparr>"
| "put_sys Elr_el1 v c = c\<lparr>a_elr := v\<rparr>"
| "put_sys Spsr_el1 v c = c\<lparr>a_spsr := v\<rparr>"
| "put_sys Esr_el1 v c = c\<lparr>a_esr := v\<rparr>"

definition st64 :: "u64 \<Rightarrow> nat \<Rightarrow> u64 \<Rightarrow> arm \<Rightarrow> arm" where
  "st64 a off v c = c\<lparr>a_mem := store64 (a + word_of_nat off) v (a_mem c)\<rparr>"

definition ld64 :: "u64 \<Rightarrow> nat \<Rightarrow> arm \<Rightarrow> u64" where
  "ld64 a off c = load64 (a + word_of_nat off) (a_mem c)"

fun exec :: "instr \<Rightarrow> arm \<Rightarrow> arm" where
  "exec (Stp r1 r2 b off) c = st64 (get b c) (off + 8) (a_x c r2) (st64 (get b c) off (a_x c r1) c)"
| "exec (Ldp r1 r2 b off) c = put (X r2) (ld64 (get b c) (off + 8) c) (put (X r1) (ld64 (get b c) off c) c)"
| "exec (Str r b off) c = st64 (get b c) off (a_x c r) c"
| "exec (Ldr r b off) c = put (X r) (ld64 (get b c) off c) c"
| "exec (Ldr_w r b off) c = put (X r) (ucast (load32 (get b c + word_of_nat off) (a_mem c))) c"
| "exec (Stp_post r1 r2 b n) c =
     put (X b) (a_x c b + word_of_nat n) (st64 (a_x c b) 8 (a_x c r2) (st64 (a_x c b) 0 (a_x c r1) c))"
| "exec (Ldp_post r1 r2 b n) c =
     put (X b) (a_x c b + word_of_nat n) (put (X r2) (ld64 (a_x c b) 8 c) (put (X r1) (ld64 (a_x c b) 0 c) c))"
| "exec (Add d r n) c = put d (get r c + word_of_nat n) c"
| "exec (Sub d r n) c = put d (get r c - word_of_nat n) c"
| "exec (Mov d r) c = put d (get r c) c"
| "exec (Mov_w d r) c = put (X d) (ucast (ucast (a_x c r) :: u32)) c"
| "exec (Mov_imm d n) c = put (X d) (word_of_nat n) c"
| "exec (Mvn d r) c = put (X d) (NOT (a_x c r)) c"
| "exec (And_reg d r1 r2) c = put (X d) (a_x c r1 AND a_x c r2) c"
| "exec (Lsr d r n) c = put (X d) (drop_bit n (a_x c r)) c"
| "exec (Mrs d r) c = put (X d) (get_sys r c) c"
| "exec (Msr r d) c = put_sys r (a_x c d) c"
| "exec (Daifset n) c = c\<lparr>a_pstate := a_pstate c OR push_bit 6 (word_of_nat n)\<rparr>"

definition run :: "instr list \<Rightarrow> arm \<Rightarrow> arm" where
  "run is c = fold exec is c"

lemma run_simps [simp]: "run [] c = c" "run (i # is) c = run is (exec i c)" "run (is @ js) c = run js (run is c)"
  by (simp_all add: run_def)

section \<open>The blocks of the file\<close>

text \<open>The functions in C that the file calls, a thread's function by its address.\<close>

datatype c_fn = Bad_mode | El0_svc_handler | Irq_handler | Preempt_schedule_irq | Schedule | Schedule_tail | At_address u64

datatype label =
    El1_sync_invalid | El1_irq_invalid | El1_fiq_invalid | El1_error_invalid
  | El0_sync_invalid | El0_irq_invalid | El0_fiq_invalid | El0_error_invalid
  | El0_sync | El0_svc | El0_irq | El1_irq | El1_irq_done | El1_preempt
  | Ret_to_user | No_work_pending | Need_sched | Ret_from_fork | Ret_from_fork_done | Cpu_switch_to

datatype line =
    I instr
  | Bl c_fn
  | Bl_asm label label
  | Blr nat
  | B label
  | B_fn c_fn
  | Beq_imm nat nat label
  | Cbz nat label
  | Cbnz nat label
  | Ret nat
  | Eret

definition inv_entry_code :: "nat \<Rightarrow> line list" where
  "inv_entry_code reason = [I (Mov (X 0) SP), I (Mov_imm 1 reason), I (Mrs 2 Esr_el1), B_fn Bad_mode]"

definition S_LR :: nat where "S_LR = 240"
definition S_SP :: nat where "S_SP = 248"
definition S_PC :: nat where "S_PC = 256"
definition THREAD_CPU_CONTEXT :: nat where "THREAD_CPU_CONTEXT = 16"
definition TI_PREEMPT :: nat where "TI_PREEMPT = 148"
definition NEED_RESCHED :: nat where "NEED_RESCHED = 144"

definition kernel_context_save :: "nat \<Rightarrow> instr list" where
  "kernel_context_save el =
     [Sub SP SP (unat S_FRAME_SIZE),
      Stp 0 1 SP (16 * 0), Stp 2 3 SP (16 * 1), Stp 4 5 SP (16 * 2), Stp 6 7 SP (16 * 3), Stp 8 9 SP (16 * 4),
      Stp 10 11 SP (16 * 5), Stp 12 13 SP (16 * 6), Stp 14 15 SP (16 * 7), Stp 16 17 SP (16 * 8), Stp 18 19 SP (16 * 9),
      Stp 20 21 SP (16 * 10), Stp 22 23 SP (16 * 11), Stp 24 25 SP (16 * 12), Stp 26 27 SP (16 * 13), Stp 28 29 SP (16 * 14),
      if el = 0 then Mrs 21 Sp_el0 else Add (X 21) SP (unat S_FRAME_SIZE),
      Mrs 22 Elr_el1, Mrs 23 Spsr_el1, Stp 30 21 SP S_LR, Stp 22 23 SP S_PC]"

definition kernel_context_res :: "nat \<Rightarrow> instr list" where
  "kernel_context_res el =
     [Ldp 21 22 SP S_PC] @ (if el = 0 then [Ldr 23 SP S_SP, Msr Sp_el0 23] else []) @
     [Msr Elr_el1 21, Msr Spsr_el1 22,
      Ldp 0 1 SP (16 * 0), Ldp 2 3 SP (16 * 1), Ldp 4 5 SP (16 * 2), Ldp 6 7 SP (16 * 3), Ldp 8 9 SP (16 * 4),
      Ldp 10 11 SP (16 * 5), Ldp 12 13 SP (16 * 6), Ldp 14 15 SP (16 * 7), Ldp 16 17 SP (16 * 8), Ldp 18 19 SP (16 * 9),
      Ldp 20 21 SP (16 * 10), Ldp 22 23 SP (16 * 11), Ldp 24 25 SP (16 * 12), Ldp 26 27 SP (16 * 13), Ldp 28 29 SP (16 * 14),
      Ldr 30 SP S_LR, Add SP SP (unat S_FRAME_SIZE)]"

text \<open>\<open>tsk\<close> is x28: the bottom of the page of the stack.\<close>

definition get_tsk :: "instr list" where
  "get_tsk = [Mov (X 28) SP, Mov_imm 27 (unat (scast THREAD_SIZE :: u64)), Sub (X 27) (X 27) 1, Mvn 27 27, And_reg 28 28 27]"

definition cpu_switch_code :: "instr list" where
  "cpu_switch_code =
     [Add (X 8) (X 0) THREAD_CPU_CONTEXT, Mov (X 9) SP,
      Stp_post 19 20 8 16, Stp_post 21 22 8 16, Stp_post 23 24 8 16, Stp_post 25 26 8 16, Stp_post 27 28 8 16,
      Stp_post 29 9 8 16, Str 30 (X 8) 0,
      Add (X 8) (X 1) THREAD_CPU_CONTEXT,
      Ldp_post 19 20 8 16, Ldp_post 21 22 8 16, Ldp_post 23 24 8 16, Ldp_post 25 26 8 16, Ldp_post 27 28 8 16,
      Ldp_post 29 9 8 16, Ldr 30 (X 8) 0, Mov SP (X 9)]"

text \<open>The code between a label and the next one, in the order of the file.\<close>

definition entry_code :: "(label \<times> line list) list" where
  "entry_code =
     [(El1_sync_invalid, map I (kernel_context_save 1) @ [I (Mov (X 0) SP), I (Mov_imm 1 0), I (Mrs 2 Esr_el1), Bl Bad_mode] @
        map I (kernel_context_res 1) @ [Eret]),
      (El1_irq_invalid, inv_entry_code 1), (El1_fiq_invalid, inv_entry_code 2), (El1_error_invalid, inv_entry_code 3),
      (El0_sync_invalid, inv_entry_code 0), (El0_irq_invalid, inv_entry_code 1), (El0_fiq_invalid, inv_entry_code 2), (El0_error_invalid, inv_entry_code 3),
      (El0_sync, map I (kernel_context_save 0) @ [I (Mrs 25 Esr_el1), I (Lsr 24 25 26), Beq_imm 24 0x15 El0_svc]),
      (El0_svc, [I (Mov (X 0) SP), Bl El0_svc_handler, B Ret_to_user]),
      (El0_irq, map I (kernel_context_save 0) @ [Bl Irq_handler, B Ret_to_user]),
      (El1_irq, map I (kernel_context_save 1) @ [Bl Irq_handler] @ map I get_tsk @
        [I (Ldr_w 24 (X 28) TI_PREEMPT), Cbnz 24 El1_irq_done, I (Ldr_w 0 (X 28) NEED_RESCHED), Cbz 0 El1_irq_done,
         Bl_asm El1_preempt El1_irq_done]),
      (El1_irq_done, map I (kernel_context_res 1) @ [Eret]),
      (El1_preempt, [I (Mov (X 24) (X 30)), Bl Preempt_schedule_irq, Ret 24]),
      (Ret_to_user, [I (Daifset 2)] @ map I get_tsk @ [I (Ldr_w 24 (X 28) NEED_RESCHED), Cbnz 24 Need_sched]),
      (No_work_pending, map I (kernel_context_res 0) @ [Eret]),
      (Need_sched, [Bl Schedule, B No_work_pending]),
      (Ret_from_fork, [Bl Schedule_tail, Cbz 19 Ret_from_fork_done, I (Mov (X 0) (X 20)), Blr 19]),
      (Ret_from_fork_done, [B Ret_to_user]),
      (Cpu_switch_to, map I cpu_switch_code @ [Ret 30])]"

section \<open>Execution\<close>

text \<open>The ways to leave a block: to the next one, to a label, with \<open>eret\<close>, to an address, or into a function that does not come
  back to this file.\<close>

datatype exit_to = Falls | To_label label | Erets | To_address u64 | To_fn c_fn

text \<open>The functions in C as transformations of the processor, and the addresses of the labels.\<close>

record env =
  e_c :: "c_fn \<Rightarrow> arm \<Rightarrow> arm"
  e_addr :: "label \<Rightarrow> u64"

definition eret :: "arm \<Rightarrow> arm" where
  "eret c = c\<lparr>a_pc := a_elr c, a_pstate := a_spsr c\<rparr>"

fun run_block :: "env \<Rightarrow> line list \<Rightarrow> arm \<Rightarrow> exit_to \<times> arm" where
  "run_block e [] c = (Falls, c)"
| "run_block e (I i # ls) c = run_block e ls (exec i c)"
| "run_block e (Bl f # ls) c = run_block e ls (e_c e f c)"
| "run_block e (Bl_asm l r # ls) c = (To_label l, put (X 30) (e_addr e r) c)"
| "run_block e (Blr n # ls) c = run_block e ls (e_c e (At_address (a_x c n)) c)"
| "run_block e (B l # ls) c = (To_label l, c)"
| "run_block e (B_fn f # ls) c = (To_fn f, c)"
| "run_block e (Beq_imm n v l # ls) c = (if a_x c n = word_of_nat v then (To_label l, c) else run_block e ls c)"
| "run_block e (Cbz n l # ls) c = (if a_x c n = 0 then (To_label l, c) else run_block e ls c)"
| "run_block e (Cbnz n l # ls) c = (if a_x c n \<noteq> 0 then (To_label l, c) else run_block e ls c)"
| "run_block e (Ret n # ls) c = (To_address (a_x c n), c)"
| "run_block e (Eret # ls) c = (Erets, eret c)"

definition block_of :: "label \<Rightarrow> line list" where
  "block_of l = the (map_of entry_code l)"

text \<open>The label after one, in the order of the file.\<close>

fun next_in :: "label list \<Rightarrow> label \<Rightarrow> label option" where
  "next_in (l # l' # ls) k = (if l = k then Some l' else next_in (l' # ls) k)"
| "next_in ls k = None"

definition next_label :: "label \<Rightarrow> label option" where
  "next_label = next_in (map fst entry_code)"

text \<open>At most \<open>n\<close> blocks. A jump to the address of the label after the call in \<open>el1_irq\<close> goes on there.\<close>

fun run_from :: "nat \<Rightarrow> env \<Rightarrow> label \<Rightarrow> arm \<Rightarrow> (exit_to \<times> arm) option" where
  "run_from 0 e l c = None"
| "run_from (Suc n) e l c =
     (case run_block e (block_of l) c of
        (Falls, c) \<Rightarrow> Option.bind (next_label l) (\<lambda>l. run_from n e l c)
      | (To_label l, c) \<Rightarrow> run_from n e l c
      | (To_address a, c) \<Rightarrow> if a = e_addr e El1_irq_done then run_from n e El1_irq_done c else Some (To_address a, c)
      | r \<Rightarrow> Some r)"

section \<open>Exceptions\<close>

datatype source = Current_sp0 | Current_spx | Lower_64 | Lower_32

datatype exception = Sync | Irq | Fiq | Serror

text \<open>The vector table, 128 bytes per entry, in the order of the architecture.\<close>

definition vectors :: "label list" where
  "vectors =
     [El1_sync_invalid, El1_irq_invalid, El1_fiq_invalid, El1_error_invalid,
      El1_sync_invalid, El1_irq, El1_fiq_invalid, El1_error_invalid,
      El0_sync, El0_irq, El0_fiq_invalid, El0_error_invalid,
      El0_sync_invalid, El0_irq_invalid, El0_fiq_invalid, El0_error_invalid]"

fun vector_offset :: "source \<Rightarrow> exception \<Rightarrow> nat" where
  "vector_offset src ex =
     (case src of Current_sp0 \<Rightarrow> 0 | Current_spx \<Rightarrow> 0x200 | Lower_64 \<Rightarrow> 0x400 | Lower_32 \<Rightarrow> 0x600) +
     (case ex of Sync \<Rightarrow> 0 | Irq \<Rightarrow> 0x80 | Fiq \<Rightarrow> 0x100 | Serror \<Rightarrow> 0x180)"

definition vector :: "source \<Rightarrow> exception \<Rightarrow> label" where
  "vector src ex = vectors ! (vector_offset src ex div 128)"

text \<open>What the processor does when it takes an exception to EL1: the preferred return address and PSTATE are saved, the exceptions
  masked, on the stack of EL1. \<open>a_pc\<close> is that address: the instruction that was interrupted or that faulted, for \<open>svc\<close> the one
  behind it.\<close>

definition take_exception :: "u64 \<Rightarrow> arm \<Rightarrow> arm" where
  "take_exception syndrome c = c\<lparr>a_elr := a_pc c, a_spsr := a_pstate c, a_esr := syndrome, a_pstate := 0x3c5\<rparr>"

section \<open>The user library\<close>

definition syscall_stub :: "instr list" where
  "syscall_stub = [Mov_w 8 0, Mov (X 0) (X 1), Mov (X 1) (X 2), Mov (X 2) (X 3), Mov (X 3) (X 4), Mov (X 4) (X 5), Mov (X 5) (X 6), Mov (X 6) (X 7)]"

section \<open>Words in memory\<close>

definition store_words :: "u64 \<Rightarrow> (nat \<times> u64) list \<Rightarrow> bmem \<Rightarrow> bmem" where
  "store_words a kvs m = fold (\<lambda>(k, v). store64 (a + word_of_nat k) v) kvs m"

lemma store_words_simps [simp]:
  "store_words a [] m = m" "store_words a ((k, v) # kvs) m = store_words a kvs (store64 (a + word_of_nat k) v m)"
  by (simp_all add: store_words_def)

text \<open>Words at multiples of 8 from an aligned address.\<close>

lemma aligned8_iff: "a AND 7 = (0 :: u64) \<longleftrightarrow> 8 dvd uint a"
proof -
  have "a AND 7 = 0 \<longleftrightarrow> 8 dvd unat a"
    using unat_and_mask [of a 3] by (simp add: mask_eq_exp_minus_1 word_unat_eq_iff dvd_eq_mod_eq_0)
  then show ?thesis by (simp only: uint_nat) presburger
qed

lemma aligned8_add:
  assumes "a AND 7 = (0 :: u64)" and "8 dvd k"
  shows "(a + word_of_nat k) AND 7 = 0" "(a - word_of_nat k) AND 7 = 0"
proof -
  have a: "8 dvd uint a" and k: "8 dvd int k" using assms int_dvd_int_iff [of 8 k] by (simp_all add: aligned8_iff)
  have m: "8 dvd x mod 2 ^ 64 \<longleftrightarrow> 8 dvd x" for x :: int by (rule dvd_mod_iff) simp
  have u: "uint (word_of_nat k :: u64) = int k mod 2 ^ 64" by (simp add: unsigned_of_nat take_bit_eq_mod zmod_int)
  have "uint (a + word_of_nat k) = (uint a + int k) mod 2 ^ 64" "uint (a - word_of_nat k) = (uint a - int k) mod 2 ^ 64"
    by (simp_all only: uint_word_ariths u) (simp_all add: mod_simps)
  then show "(a + word_of_nat k) AND 7 = 0" "(a - word_of_nat k) AND 7 = 0"
    using dvd_add [OF a k] dvd_diff [OF a k] unfolding aligned8_iff by (simp_all only: m)
qed

lemma load_words:
  assumes "a AND 7 = 0" and "8 dvd j" and "j < 2 ^ 32" and "\<forall>(k, v) \<in> set kvs. 8 dvd k \<and> k < 2 ^ 32"
  shows "load64 (a + word_of_nat j) (store_words a kvs m) =
     (case map_of (rev kvs) j of Some v \<Rightarrow> v | None \<Rightarrow> load64 (a + word_of_nat j) m)"
  using assms(4)
proof (induction kvs arbitrary: m)
  case (Cons kv kvs)
  obtain k v where kv: "kv = (k, v)" by (cases kv)
  have k: "8 dvd k" "k < 2 ^ 32" using Cons.prems kv by auto
  have "load64 (a + word_of_nat j) (store64 (a + word_of_nat k) v m) = (if k = j then v else load64 (a + word_of_nat j) m)"
  proof (cases "k = j")
    case False
    have "(word_of_nat k :: u64) \<noteq> word_of_nat j"
      using False k(2) assms(3) by (simp add: word_unat_eq_iff unsigned_of_nat take_bit_nat_eq_self)
    then show ?thesis using False aligned8_add(1) [OF assms(1)] k(1) assms(2) by (simp add: load64_store64_other)
  qed simp
  then show ?case using Cons kv by (auto simp: map_add_def split: option.split)
qed simp

lemma upto_31: "(\<forall>i < 31 :: nat. P i) \<longleftrightarrow> P 0 \<and> P 1 \<and> P 2 \<and> P 3 \<and> P 4 \<and> P 5 \<and> P 6 \<and> P 7 \<and> P 8 \<and> P 9 \<and> P 10 \<and> P 11 \<and>
     P 12 \<and> P 13 \<and> P 14 \<and> P 15 \<and> P 16 \<and> P 17 \<and> P 18 \<and> P 19 \<and> P 20 \<and> P 21 \<and> P 22 \<and> P 23 \<and> P 24 \<and> P 25 \<and> P 26 \<and>
     P 27 \<and> P 28 \<and> P 29 \<and> P 30"
  by (simp add: numeral_eq_Suc All_less_Suc2 conj_assoc)

lemma upt_31: "[0 ..< 31] = [0, 1, 2, 3, 4, 5, 6, 7, 8, 9, 10, 11, 12, 13, 14, 15, 16, 17, 18, 19, 20, 21, 22, 23, 24, 25, 26, 27, 28, 29, 30]"
  by code_simp

section \<open>The exception frame\<close>

text \<open>The frame at an address: the registers, the stack pointer of the interrupted code, its program counter and its PSTATE,
  at the offsets of \<open>struct pt_regs\<close>. The code of this file does not touch the other fields.\<close>

definition frame_rep :: "bmem \<Rightarrow> u64 \<Rightarrow> pt_regs \<Rightarrow> bool" where
  "frame_rep m a r \<longleftrightarrow> (\<forall>i < 31. load64 (a + word_of_nat (8 * i)) m = r_regs r i) \<and>
     load64 (a + 248) m = r_sp r \<and> load64 (a + 256) m = r_pc r \<and> load64 (a + 264) m = r_pstate r"

definition frame_words :: "pt_regs \<Rightarrow> (nat \<times> u64) list" where
  "frame_words r = map (\<lambda>i. (8 * i, r_regs r i)) [0 ..< 31] @ [(248, r_sp r), (256, r_pc r), (264, r_pstate r)]"

lemma frame_written:
  assumes "a AND 7 = 0"
  shows "frame_rep (store_words a (frame_words r) m) a r"
proof -
  have w: "\<forall>(k, v) \<in> set (frame_words r). 8 dvd k \<and> k < 2 ^ 32" by (auto simp: frame_words_def)
  have d: "distinct (map fst (frame_words r))" by (auto simp: frame_words_def distinct_map comp_def inj_on_def)
  have ld: "load64 (a + word_of_nat j) (store_words a (frame_words r) m) = v" if "(j, v) \<in> set (frame_words r)" for j v
  proof -
    have "8 dvd j" "j < 2 ^ 32" using w that by auto
    moreover have "map_of (rev (frame_words r)) j = Some v"
      by (rule map_of_is_SomeI) (use d that in \<open>simp_all flip: rev_map\<close>)
    ultimately show ?thesis using load_words [OF assms _ _ w, of j m] by simp
  qed
  show ?thesis
    unfolding frame_rep_def
  proof (intro conjI allI impI)
    fix i :: nat assume "i < 31"
    then show "load64 (a + word_of_nat (8 * i)) (store_words a (frame_words r) m) = r_regs r i"
      by (subst ld) (auto simp: frame_words_def)
  next
    show "load64 (a + 248) (store_words a (frame_words r) m) = r_sp r"
      using ld [of 248 "r_sp r"] by (simp add: frame_words_def)
    show "load64 (a + 256) (store_words a (frame_words r) m) = r_pc r"
      using ld [of 256 "r_pc r"] by (simp add: frame_words_def)
    show "load64 (a + 264) (store_words a (frame_words r) m) = r_pstate r"
      using ld [of 264 "r_pstate r"] by (simp add: frame_words_def)
  qed
qed

text \<open>The frame that \<open>kernel_context_save\<close> writes.\<close>

definition saved_frame :: "nat \<Rightarrow> arm \<Rightarrow> pt_regs" where
  "saved_frame el c = pt_regs_0\<lparr>r_regs := a_x c, r_sp := (if el = 0 then a_sp_el0 c else a_sp c), r_pc := a_elr c, r_pstate := a_spsr c\<rparr>"

lemma run_save:
  "\<exists>x. run (kernel_context_save el) c =
     c\<lparr>a_sp := a_sp c - 320, a_x := x, a_mem := store_words (a_sp c - 320) (frame_words (saved_frame el c)) (a_mem c)\<rparr>"
  by (rule exI [of _ "(a_x c)(21 := if el = 0 then a_sp_el0 c else a_sp c, 22 := a_elr c, 23 := a_spsr c)"], cases "el = 0")
     (simp_all add: kernel_context_save_def frame_words_def saved_frame_def S_FRAME_SIZE_def S_LR_def S_PC_def st64_def upt_31)

lemma save_frame:
  assumes "a_sp c AND 7 = 0"
  shows "frame_rep (a_mem (run (kernel_context_save el) c)) (a_sp c - 320) (saved_frame el c)"
proof -
  have "(a_sp c - 320) AND 7 = 0" using aligned8_add(2) [OF assms, of 320] by simp
  then show ?thesis using run_save [of el c] frame_written by auto
qed

lemma fold_upd: "fold (\<lambda>i x. x(i := f i)) is g i = (if i \<in> set is then f i else g i)"
  by (induction "is" arbitrary: g) auto

lemma run_res:
  assumes "frame_rep (a_mem c) (a_sp c) r"
  shows "\<exists>x. run (kernel_context_res el) c = c\<lparr>a_sp := a_sp c + 320, a_x := x, a_elr := r_pc r, a_spsr := r_pstate r,
       a_sp_el0 := if el = 0 then r_sp r else a_sp_el0 c\<rparr> \<and> (\<forall>i < 31. x i = r_regs r i)"
proof -
  let ?x = "fold (\<lambda>i x. x(i := r_regs r i)) [0 ..< 31] ((a_x c)(21 := r_pc r, 22 := r_pstate r, 23 := if el = 0 then r_sp r else a_x c 23))"
  have l: "\<forall>i < 31. load64 (a_sp c + word_of_nat (8 * i)) (a_mem c) = r_regs r i"
    using assms by (auto simp: frame_rep_def)
  note l = l [unfolded upto_31, simplified]
  have f: "load64 (a_sp c + 248) (a_mem c) = r_sp r" "load64 (a_sp c + 256) (a_mem c) = r_pc r" "load64 (a_sp c + 264) (a_mem c) = r_pstate r"
    using assms by (auto simp: frame_rep_def)
  have "run (kernel_context_res el) c = c\<lparr>a_sp := a_sp c + 320, a_x := ?x, a_elr := r_pc r, a_spsr := r_pstate r,
       a_sp_el0 := if el = 0 then r_sp r else a_sp_el0 c\<rparr>"
    by (cases "el = 0") (simp_all add: kernel_context_res_def S_FRAME_SIZE_def S_LR_def S_PC_def S_SP_def ld64_def upt_31 l f)
  moreover have "\<forall>i < 31. ?x i = r_regs r i" by (simp add: fold_upd)
  ultimately show ?thesis by blast
qed

section \<open>The paths of the exceptions\<close>

text \<open>The calling convention: a function in C keeps the stack pointer and the registers x19 to x29; and what the file relies on
  beyond it: a function that is not given the frame does not change it.\<close>

definition obeys :: "env \<Rightarrow> c_fn \<Rightarrow> bool" where
  "obeys e f \<longleftrightarrow> (\<forall>c. a_sp (e_c e f c) = a_sp c \<and> (\<forall>i. 19 \<le> i \<and> i < 30 \<longrightarrow> a_x (e_c e f c) i = a_x c i))"

definition keeps_frame :: "env \<Rightarrow> c_fn \<Rightarrow> bool" where
  "keeps_frame e f \<longleftrightarrow> (\<forall>c r. frame_rep (a_mem c) (a_sp c) r \<longrightarrow> frame_rep (a_mem (e_c e f c)) (a_sp c) r)"

lemma call_keeps:
  assumes "obeys e f"
  shows "a_sp (e_c e f c) = a_sp c" "19 \<le> i \<Longrightarrow> i < 30 \<Longrightarrow> a_x (e_c e f c) i = a_x c i"
  using assms by (simp_all add: obeys_def)

lemma call_frame:
  assumes "obeys e f" and "keeps_frame e f" and "frame_rep (a_mem c) (a_sp c) r"
  shows "frame_rep (a_mem (e_c e f c)) (a_sp (e_c e f c)) r"
  using assms by (simp add: obeys_def keeps_frame_def)

lemma run_block_I [simp]: "run_block e (map I is @ ls) c = run_block e ls (run is c)"
  by (induction "is" arbitrary: c) auto

lemma run_tsk: "run get_tsk c = c\<lparr>a_x := (a_x c)(27 := - 4096, 28 := a_sp c AND NOT 0xfff)\<rparr>"
  by (simp add: get_tsk_def THREAD_SIZE_def fun_upd_twist)

lemma get_tsk_keeps [simp]: "a_sp (run get_tsk c) = a_sp c" "a_mem (run get_tsk c) = a_mem c" "a_x (run get_tsk c) 28 = a_sp c AND NOT 0xfff"
  "i \<noteq> 27 \<Longrightarrow> i \<noteq> 28 \<Longrightarrow> a_x (run get_tsk c) i = a_x c i"
  by (simp_all add: run_tsk)

lemma labels: "next_label El0_sync = Some El0_svc" "next_label El1_irq = Some El1_irq_done" "next_label Ret_to_user = Some No_work_pending"
  "next_label Ret_from_fork = Some Ret_from_fork_done"
  by (simp_all add: next_label_def entry_code_def)

lemmas blocks = block_of_def entry_code_def

text \<open>The end of every path: the frame is loaded.\<close>

lemma res_eret:
  assumes "frame_rep (a_mem c) (a_sp c) r" and "l = El1_irq_done \<or> l = No_work_pending"
  shows "\<exists>c'. run_from (Suc n) e l c = Some (Erets, c') \<and> (\<forall>i < 31. a_x c' i = r_regs r i) \<and> a_sp c' = a_sp c + 320 \<and>
     a_pc c' = r_pc r \<and> a_pstate c' = r_pstate r \<and> a_elr c' = r_pc r \<and> a_spsr c' = r_pstate r \<and> (l = No_work_pending \<longrightarrow> a_sp_el0 c' = r_sp r)"
proof -
  define el :: nat where "el = (if l = El1_irq_done then 1 else 0)"
  obtain x where x: "run (kernel_context_res el) c = c\<lparr>a_sp := a_sp c + 320, a_x := x, a_elr := r_pc r, a_spsr := r_pstate r,
       a_sp_el0 := if el = 0 then r_sp r else a_sp_el0 c\<rparr>" "\<forall>i < 31. x i = r_regs r i"
    using run_res [OF assms(1)] by blast
  have "block_of l = map I (kernel_context_res el) @ [Eret]"
    using assms(2) by (auto simp: blocks el_def)
  then show ?thesis using x by (auto simp: eret_def el_def)
qed

lemma to_user:
  assumes "frame_rep (a_mem c) (a_sp c) r" and "obeys e Schedule" and "keeps_frame e Schedule"
  shows "\<exists>c'. run_from (Suc (Suc (Suc n))) e Ret_to_user c = Some (Erets, c') \<and> (\<forall>i < 31. a_x c' i = r_regs r i) \<and> a_sp c' = a_sp c + 320 \<and>
     a_pc c' = r_pc r \<and> a_pstate c' = r_pstate r \<and> a_elr c' = r_pc r \<and> a_spsr c' = r_pstate r \<and> a_sp_el0 c' = r_sp r"
proof -
  let ?t = "exec (Ldr_w 24 (X 28) NEED_RESCHED) (run get_tsk (exec (Daifset 2) c))"
  have t: "a_sp ?t = a_sp c" "a_mem ?t = a_mem c" by simp_all
  have f: "frame_rep (a_mem ?t) (a_sp ?t) r" using assms(1) by (simp only: t)
  have b: "run_block e (block_of Ret_to_user) c = (if a_x ?t 24 \<noteq> 0 then (To_label Need_sched, ?t) else (Falls, ?t))"
    by (simp add: blocks del: exec.simps)
  show ?thesis
  proof (cases "a_x ?t 24 = 0")
    case True
    then show ?thesis using res_eret [OF f, of No_work_pending "Suc n" e] b t by (auto simp: labels simp del: exec.simps)
  next
    case False
    let ?u = "e_c e Schedule ?t"
    have u: "a_sp ?u = a_sp c" "frame_rep (a_mem ?u) (a_sp ?u) r"
      using call_frame [OF assms(2,3) f] call_keeps(1) [OF assms(2), of ?t] t(1) by (simp_all only: )
    have "run_block e (block_of Need_sched) ?t = (To_label No_work_pending, ?u)" by (simp add: blocks)
    then show ?thesis using False res_eret [OF u(2), of No_work_pending n e] b u(1) by (auto simp: labels simp del: exec.simps)
  qed
qed

text \<open>An interrupt of the kernel up to the label after the check. The check reads \<open>preempt_count\<close> and \<open>need_resched\<close> at the
  bottom of the page of the stack.\<close>

definition preempts :: "arm \<Rightarrow> bool" where
  "preempts c \<longleftrightarrow> load32 ((a_sp c AND NOT 0xfff) + 148) (a_mem c) = 0 \<and> load32 ((a_sp c AND NOT 0xfff) + 144) (a_mem c) \<noteq> 0"

lemma el1_irq_run:
  assumes "obeys e Irq_handler" and "obeys e Preempt_schedule_irq"
  shows "\<exists>c2. a_sp c2 = a_sp c - 320 \<and> a_mem c2 = a_mem (e_c e Irq_handler (run (kernel_context_save 1) c)) \<and>
     run_from (Suc (Suc (Suc n))) e El1_irq c =
       (if preempts (e_c e Irq_handler (run (kernel_context_save 1) c))
        then run_from (Suc n) e El1_irq_done (e_c e Preempt_schedule_irq c2) else run_from (Suc (Suc n)) e El1_irq_done c2)"
proof -
  let ?c0 = "run (kernel_context_save 1) c"
  let ?c1 = "e_c e Irq_handler ?c0"
  let ?t = "run get_tsk ?c1"
  let ?u = "exec (Ldr_w 24 (X 28) TI_PREEMPT) ?t"
  let ?v = "exec (Ldr_w 0 (X 28) NEED_RESCHED) ?u"
  let ?w = "put (X 30) (e_addr e El1_irq_done) ?v"
  let ?y = "put (X 24) (e_addr e El1_irq_done) ?w"
  have sp: "a_sp ?c1 = a_sp c - 320" using run_save [of 1 c] call_keeps(1) [OF assms(1)] by auto
  have u: "a_x ?u 24 = ucast (load32 ((a_sp ?c1 AND NOT 0xfff) + 148) (a_mem ?c1))"
    "a_x ?v 0 = ucast (load32 ((a_sp ?c1 AND NOT 0xfff) + 144) (a_mem ?c1))" by (simp_all add: TI_PREEMPT_def NEED_RESCHED_def)
  have z: "(ucast (w :: u32) :: u64) = 0 \<longleftrightarrow> w = 0" for w by (simp add: word_unat_eq_iff)
  have b: "run_block e (block_of El1_irq) c =
      (if a_x ?u 24 \<noteq> 0 then (To_label El1_irq_done, ?u) else if a_x ?v 0 = 0 then (To_label El1_irq_done, ?v) else (To_label El1_preempt, ?w))"
    by (simp add: blocks del: exec.simps)
  have p: "run_block e (block_of El1_preempt) ?w = (To_address (e_addr e El1_irq_done), e_c e Preempt_schedule_irq ?y)"
    using call_keeps(2) [OF assms(2), of 24 ?y] by (simp add: blocks)
  show ?thesis
  proof (cases "preempts ?c1")
    case True
    then have "a_x ?u 24 = 0" "a_x ?v 0 \<noteq> 0" unfolding preempts_def u z by simp_all
    with True show ?thesis using b p sp by (intro exI [of _ ?y]) (simp del: exec.simps(5) add: exec.simps(5))
  next
    case False
    then consider "a_x ?u 24 \<noteq> 0" | "a_x ?u 24 = 0" "a_x ?v 0 = 0" unfolding preempts_def u z by blast
    then show ?thesis
    proof cases
      case 1
      with False show ?thesis using b sp by (intro exI [of _ ?u]) simp
    next
      case 2
      with False show ?thesis using b sp by (intro exI [of _ ?v]) simp
    qed
  qed
qed

text \<open>The frame of an exception taken in a state of the processor.\<close>

definition taken_frame :: "nat \<Rightarrow> arm \<Rightarrow> pt_regs" where
  "taken_frame el c = pt_regs_0\<lparr>r_regs := a_x c, r_sp := (if el = 0 then a_sp_el0 c else a_sp c), r_pc := a_pc c, r_pstate := a_pstate c\<rparr>"

lemma taken_frame_simps [simp]: "r_regs (taken_frame el c) = a_x c" "r_pc (taken_frame el c) = a_pc c" "r_pstate (taken_frame el c) = a_pstate c"
  "r_sp (taken_frame 0 c) = a_sp_el0 c"
  by (simp_all add: taken_frame_def)

lemma taken:
  fixes el syn c
  defines "c0 \<equiv> run (kernel_context_save el) (take_exception syn c)"
  assumes "a_sp c AND 7 = 0"
  shows "a_sp c0 = a_sp c - 320" "frame_rep (a_mem c0) (a_sp c0) (taken_frame el c)"
proof -
  show s: "a_sp c0 = a_sp c - 320"
    using run_save [of el "take_exception syn c"] unfolding c0_def by (auto simp: take_exception_def)
  have "a_sp (take_exception syn c) AND 7 = 0" using assms(2) by (simp add: take_exception_def)
  from save_frame [OF this, of el] show "frame_rep (a_mem c0) (a_sp c0) (taken_frame el c)"
    unfolding s unfolding c0_def by (simp add: take_exception_def taken_frame_def saved_frame_def cong: if_cong)
qed

definition resumes :: "label \<Rightarrow> arm \<Rightarrow> arm \<Rightarrow> bool" where
  "resumes l c c' \<longleftrightarrow> (\<forall>i < 31. a_x c' i = a_x c i) \<and> a_sp c' = a_sp c \<and> a_pc c' = a_pc c \<and> a_pstate c' = a_pstate c \<and>
     a_elr c' = a_pc c \<and> a_spsr c' = a_pstate c \<and> (l = El0_irq \<longrightarrow> a_sp_el0 c' = a_sp_el0 c)"

lemma el1_irq_resumes:
  assumes "\<And>f. f \<in> {Irq_handler, Preempt_schedule_irq} \<Longrightarrow> obeys e f \<and> keeps_frame e f" and "a_sp c AND 7 = 0"
  shows "\<exists>c'. run_from (Suc (Suc (Suc n))) e El1_irq (take_exception syn c) = Some (Erets, c') \<and> resumes El1_irq c c'"
proof -
  let ?c0 = "run (kernel_context_save 1) (take_exception syn c)"
  let ?c1 = "e_c e Irq_handler ?c0"
  note c0 = taken [OF assms(2), of 1 syn]
  have f1: "frame_rep (a_mem ?c1) (a_sp c - 320) (taken_frame 1 c)"
    using call_frame [OF _ _ c0(2), of e Irq_handler] call_keeps(1) [of e Irq_handler ?c0] assms(1) [of Irq_handler] c0(1) by simp
  obtain c2 where c2: "a_sp c2 = a_sp c - 320" "a_mem c2 = a_mem ?c1"
    "run_from (Suc (Suc (Suc n))) e El1_irq (take_exception syn c) =
       (if preempts ?c1 then run_from (Suc n) e El1_irq_done (e_c e Preempt_schedule_irq c2) else run_from (Suc (Suc n)) e El1_irq_done c2)"
    using el1_irq_run [of e "take_exception syn c" n] assms(1) by (auto simp: take_exception_def)
  let ?c3 = "if preempts ?c1 then e_c e Preempt_schedule_irq c2 else c2"
  have f2: "frame_rep (a_mem c2) (a_sp c2) (taken_frame 1 c)" using f1 c2(1,2) by simp
  have "frame_rep (a_mem ?c3) (a_sp ?c3) (taken_frame 1 c) \<and> a_sp ?c3 = a_sp c - 320"
    using f2 c2(1) call_frame [OF _ _ f2, of e Preempt_schedule_irq] call_keeps(1) [of e Preempt_schedule_irq c2] assms(1) by simp
  then show ?thesis
    using res_eret [of ?c3 "taken_frame 1 c" El1_irq_done n e] res_eret [of ?c3 "taken_frame 1 c" El1_irq_done "Suc n" e] c2(3)
    by (cases "preempts ?c1") (auto simp: resumes_def)
qed

lemma el0_irq_resumes:
  assumes "\<And>f. f \<in> {Irq_handler, Schedule} \<Longrightarrow> obeys e f \<and> keeps_frame e f" and "a_sp c AND 7 = 0"
  shows "\<exists>c'. run_from (Suc (Suc (Suc (Suc n)))) e El0_irq (take_exception syn c) = Some (Erets, c') \<and> resumes El0_irq c c'"
proof -
  let ?c0 = "run (kernel_context_save 0) (take_exception syn c)"
  let ?c1 = "e_c e Irq_handler ?c0"
  note c0 = taken [OF assms(2), of 0 syn]
  have f1: "frame_rep (a_mem ?c1) (a_sp ?c1) (taken_frame 0 c)" "a_sp ?c1 = a_sp c - 320"
    using call_frame [OF _ _ c0(2), of e Irq_handler] call_keeps(1) [of e Irq_handler ?c0] assms(1) [of Irq_handler] c0(1) by simp_all
  have "run_block e (block_of El0_irq) (take_exception syn c) = (To_label Ret_to_user, ?c1)" by (simp add: blocks)
  then show ?thesis
    using to_user [OF f1(1), of e n] assms(1) [of Schedule] f1(2) by (auto simp: resumes_def)
qed

section \<open>The context switch\<close>

definition context_at :: "bmem \<Rightarrow> u64 \<Rightarrow> cpu_context" where
  "context_at m p =
     (let w = (\<lambda>k. load64 (p + 16 + word_of_nat (8 * k)) m)
      in \<lparr>cc_x19 = w 0, cc_x20 = w 1, cc_x21 = w 2, cc_x22 = w 3, cc_x23 = w 4, cc_x24 = w 5, cc_x25 = w 6, cc_x26 = w 7,
          cc_x27 = w 8, cc_x28 = w 9, cc_fp = w 10, cc_sp = w 11, cc_pc = w 12\<rparr>)"

definition regs_context :: "arm \<Rightarrow> cpu_context" where
  "regs_context c = \<lparr>cc_x19 = a_x c 19, cc_x20 = a_x c 20, cc_x21 = a_x c 21, cc_x22 = a_x c 22, cc_x23 = a_x c 23, cc_x24 = a_x c 24,
     cc_x25 = a_x c 25, cc_x26 = a_x c 26, cc_x27 = a_x c 27, cc_x28 = a_x c 28, cc_fp = a_x c 29, cc_sp = a_sp c, cc_pc = a_x c 30\<rparr>"

definition switch_words :: "arm \<Rightarrow> (nat \<times> u64) list" where
  "switch_words c = [(0, a_x c 19), (8, a_x c 20), (16, a_x c 21), (24, a_x c 22), (32, a_x c 23), (40, a_x c 24), (48, a_x c 25),
     (56, a_x c 26), (64, a_x c 27), (72, a_x c 28), (80, a_x c 29), (88, a_sp c), (96, a_x c 30)]"

lemma run_switch:
  fixes c
  defines "m \<equiv> store_words (a_x c 0 + 16) (switch_words c) (a_mem c)"
  shows "a_mem (run cpu_switch_code c) = m" "a_x (run cpu_switch_code c) 0 = a_x c 0"
    "regs_context (run cpu_switch_code c) = context_at m (a_x c 1)"
proof -
  let ?c1 = "run (take 9 cpu_switch_code) c"
  have c1: "a_mem ?c1 = m" "a_x ?c1 0 = a_x c 0" "a_x ?c1 1 = a_x c 1"
    by (simp_all add: cpu_switch_code_def THREAD_CPU_CONTEXT_def st64_def m_def switch_words_def add.assoc)
  have s: "run cpu_switch_code c = run (drop 9 cpu_switch_code) ?c1"
    by (metis append_take_drop_id run_simps(3))
  have d: "a_mem (run (drop 9 cpu_switch_code) d) = a_mem d" "a_x (run (drop 9 cpu_switch_code) d) 0 = a_x d 0"
    "regs_context (run (drop 9 cpu_switch_code) d) = context_at (a_mem d) (a_x d 1)" for d
    by (simp_all add: cpu_switch_code_def THREAD_CPU_CONTEXT_def ld64_def regs_context_def context_at_def Let_def add.assoc)
  show "a_mem (run cpu_switch_code c) = m" "a_x (run cpu_switch_code c) 0 = a_x c 0"
    "regs_context (run cpu_switch_code c) = context_at m (a_x c 1)" unfolding s d c1 by (rule refl)+
qed

lemma load_words_other:
  assumes "a AND 7 = 0" and "b AND 7 = 0" and "\<forall>(k, v) \<in> set kvs. 8 dvd k \<and> a + word_of_nat k \<noteq> b"
  shows "load64 b (store_words a kvs m) = load64 b m"
  using assms(3)
proof (induction kvs arbitrary: m)
  case (Cons kv kvs)
  obtain k v where "kv = (k, v)" by (cases kv)
  with Cons assms(2) aligned8_add(1) [OF assms(1), of k] show ?case by (simp add: load64_store64_other)
qed simp

text \<open>Two words at small offsets in different pages.\<close>

lemma pages_apart:
  fixes p q :: u64
  assumes "page_aligned p" and "page_aligned q" and "p \<noteq> q" and "i < 4096" and "j < 4096"
  shows "p + word_of_nat i \<noteq> q + word_of_nat j"
proof
  assume e: "p + word_of_nat i = q + word_of_nat j"
  show False using page_offset(2) [OF assms(1,4)] page_offset(2) [OF assms(2,5)] assms(3) unfolding e by simp
qed

lemma page_aligned8: "page_aligned p \<Longrightarrow> p AND 7 = 0"
  using and.assoc [of p 4095 7] by (simp add: page_aligned_def)

lemma context_stored:
  assumes "page_aligned p"
  shows "context_at (store_words (p + 16) (switch_words c) m) p = regs_context c"
    "page_aligned q \<Longrightarrow> q \<noteq> p \<Longrightarrow> context_at (store_words (p + 16) (switch_words c) m) q = context_at m q"
proof -
  have al: "(x + 16) AND 7 = 0" if "page_aligned x" for x :: u64
    using aligned8_add(1) [OF page_aligned8 [OF that], of 16] by simp
  have w: "\<forall>(k, v) \<in> set (switch_words c). 8 dvd k \<and> k < 2 ^ 32" by (simp add: switch_words_def)
  have l: "load64 (p + 16 + word_of_nat (8 * k)) (store_words (p + 16) (switch_words c) m) = v"
    if "map_of (rev (switch_words c)) (8 * k) = Some v" "k < 16" for k v
    using load_words [OF al [OF assms] _ _ w, of "8 * k"] that by simp
  show "context_at (store_words (p + 16) (switch_words c) m) p = regs_context c"
    unfolding context_at_def Let_def regs_context_def
    unfolding cpu_context.iffs by (intro conjI; (rule refl | (rule l; simp add: switch_words_def)))
  show "context_at (store_words (p + 16) (switch_words c) m) q = context_at m q" if q: "page_aligned q" "q \<noteq> p"
  proof -
    have w: "load64 (q + 16 + word_of_nat (8 * j)) (store_words (p + 16) (switch_words c) m) = load64 (q + 16 + word_of_nat (8 * j)) m" if "j < 13" for j
    proof (rule load_words_other [OF al [OF assms]])
      show "(q + 16 + word_of_nat (8 * j)) AND 7 = 0" using aligned8_add(1) [OF al [OF q(1)], of "8 * j"] by simp
      have "p + 16 + word_of_nat k \<noteq> q + 16 + word_of_nat (8 * j)" if "k < 4000" for k
        using pages_apart [OF assms q(1), of "16 + k" "16 + 8 * j"] q(2) that \<open>j < 13\<close> by (simp add: add_ac)
      moreover have "\<forall>(k, v) \<in> set (switch_words c). 8 dvd k \<and> k < 4000" by (simp add: switch_words_def)
      ultimately show "\<forall>(k, v) \<in> set (switch_words c). 8 dvd k \<and> p + 16 + word_of_nat k \<noteq> q + 16 + word_of_nat (8 * j)" by blast
    qed
    show ?thesis unfolding context_at_def Let_def cpu_context.iffs by (intro conjI; (rule refl | (rule w; simp)))
  qed
qed

section \<open>The registers and memory of the scheduler's tasks\<close>

text \<open>The processor and the memory hold the contexts of the tasks: the registers those of the running code, the structures at the
  bottom of their pages those that \<open>cpu_switch_to\<close> saved.\<close>

definition holds_tasks :: "arm \<Rightarrow> 'a sched_state_scheme \<Rightarrow> u64 set \<Rightarrow> bool" where
  "holds_tasks c s P \<longleftrightarrow> regs_context c = cpu s \<and> (\<forall>p \<in> P. page_aligned p \<and> context_at (a_mem c) p = t_cpu_context (tasks s p))"

text \<open>The flags that the assembly reads, at their offsets in \<open>task_struct\<close>.\<close>

definition holds_flags :: "bmem \<Rightarrow> 'a sched_state_scheme \<Rightarrow> u64 \<Rightarrow> bool" where
  "holds_flags m s p \<longleftrightarrow> load32 (p + 144) m = t_need_resched (tasks s p) \<and> load32 (p + 148) m = t_preempt_count (tasks s p)"

lemma switch_refines:
  assumes "holds_tasks c s P" and "a_x c 0 \<in> P" and "a_x c 1 \<in> P"
  shows "holds_tasks (run cpu_switch_code c) (cpu_switch_to (a_x c 0) (a_x c 1) s) P"
proof -
  let ?p = "a_x c 0" and ?n = "a_x c 1" and ?d = "run cpu_switch_code c"
  have m: "a_mem ?d = store_words (?p + 16) (switch_words c) (a_mem c)" by (rule run_switch)
  have P: "page_aligned q" "context_at (a_mem c) q = t_cpu_context (tasks s q)" if "q \<in> P" for q
    using assms(1) that by (auto simp: holds_tasks_def)
  have cpu: "regs_context c = cpu s" using assms(1) by (simp add: holds_tasks_def)
  have s: "tasks (cpu_switch_to ?p ?n s) = (tasks s)(?p := (tasks s ?p)\<lparr>t_cpu_context := cpu s\<rparr>)"
    "cpu (cpu_switch_to ?p ?n s) = t_cpu_context (tasks (cpu_switch_to ?p ?n s) ?n)"
    by (simp_all add: cpu_switch_to_def upd_task_def Let_def)
  have q: "context_at (a_mem ?d) q = t_cpu_context (tasks (cpu_switch_to ?p ?n s) q)" if "q \<in> P" for q
    using context_stored(1) [OF P(1) [OF assms(2)], of c "a_mem c"] context_stored(2) [OF P(1) [OF assms(2)], of q c "a_mem c"] P [OF that] cpu unfolding m s(1) by (cases "q = ?p") simp_all
  moreover have "regs_context ?d = context_at (a_mem ?d) ?n" using run_switch(3) [of c] m by simp
  ultimately show ?thesis using assms(3) s(2) P(1) by (simp add: holds_tasks_def)
qed

section \<open>System calls\<close>

text \<open>The fields of the frame in memory are those of a record.\<close>

definition same_frame :: "pt_regs \<Rightarrow> pt_regs \<Rightarrow> bool" where
  "same_frame r r' \<longleftrightarrow> (\<forall>i < 31. r_regs r i = r_regs r' i) \<and> r_sp r = r_sp r' \<and> r_pc r = r_pc r' \<and> r_pstate r = r_pstate r'"

lemma frame_rep_same: "same_frame r r' \<Longrightarrow> frame_rep m a r \<longleftrightarrow> frame_rep m a r'"
  by (auto simp: frame_rep_def same_frame_def)

text \<open>The compiled \<open>el0_svc_handler\<close> does what its model does to the frame, whose address it is given in x0.\<close>

definition runs_handler :: "env \<Rightarrow> u64 \<Rightarrow> 'a fork_state_scheme \<Rightarrow> bool" where
  "runs_handler e a s \<longleftrightarrow> obeys e El0_svc_handler \<and> (\<forall>c s'. el0_svc_handler a s = Inr s' \<longrightarrow>
     a_x c 0 = a \<longrightarrow> frame_rep (a_mem c) a (pt_regs_at s a) \<longrightarrow> frame_rep (a_mem (e_c e El0_svc_handler c)) a (pt_regs_at s' a))"

text \<open>A synchronous exception of the user whatever its syndrome: both ends of the comparison in \<open>el0_sync\<close> are the same label.\<close>

lemma el0_sync_run:
  assumes "runs_handler e (a_sp c - 320) s" and "obeys e Schedule" and "keeps_frame e Schedule" and "a_sp c AND 7 = 0"
    and "same_frame (taken_frame 0 c) (pt_regs_at s (a_sp c - 320))" and "el0_svc_handler (a_sp c - 320) s = Inr s'"
  shows "\<exists>c'. run_from (Suc (Suc (Suc (Suc (Suc n))))) e El0_sync (take_exception syn c) = Some (Erets, c') \<and> a_sp c' = a_sp c \<and>
     same_frame (pt_regs_0\<lparr>r_regs := a_x c', r_sp := a_sp_el0 c', r_pc := a_pc c', r_pstate := a_pstate c'\<rparr>) (pt_regs_at s' (a_sp c - 320))"
proof -
  let ?a = "a_sp c - 320" and ?c0 = "run (kernel_context_save 0) (take_exception syn c)"
  let ?c1 = "exec (Lsr 24 25 26) (exec (Mrs 25 Esr_el1) ?c0)"
  let ?c2 = "exec (Mov (X 0) SP) ?c1"
  let ?c3 = "e_c e El0_svc_handler ?c2"
  note c0 = taken [OF assms(4), of 0 syn]
  have c2: "a_sp ?c2 = ?a" "a_x ?c2 0 = ?a" "a_mem ?c2 = a_mem ?c0" using c0(1) by simp_all
  have "frame_rep (a_mem ?c2) ?a (pt_regs_at s ?a)"
    using c0 frame_rep_same [OF assms(5)] unfolding c2 by simp
  then have f: "frame_rep (a_mem ?c3) ?a (pt_regs_at s' ?a)"
    using assms(1,6) c2(2) unfolding runs_handler_def by blast
  have sp: "a_sp ?c3 = ?a" using assms(1) call_keeps(1) [of e El0_svc_handler ?c2] c2(1) unfolding runs_handler_def by simp
  have "run_block e (block_of El0_sync) (take_exception syn c) = (To_label El0_svc, ?c1) \<or>
      run_block e (block_of El0_sync) (take_exception syn c) = (Falls, ?c1)" by (simp add: blocks del: exec.simps)
  then have r1: "run_from (Suc (Suc (Suc (Suc (Suc n))))) e El0_sync (take_exception syn c) = run_from (Suc (Suc (Suc (Suc n)))) e El0_svc ?c1"
    by (auto simp: labels simp del: exec.simps)
  have "run_block e (block_of El0_svc) ?c1 = (To_label Ret_to_user, ?c3)" by (simp add: blocks del: exec.simps)
  then have r2: "run_from (Suc (Suc (Suc (Suc n)))) e El0_svc ?c1 = run_from (Suc (Suc (Suc n))) e Ret_to_user ?c3"
    by (simp del: exec.simps)
  have "frame_rep (a_mem ?c3) (a_sp ?c3) (pt_regs_at s' ?a)" using f sp by simp
  from to_user [OF this assms(2,3), of n] obtain c' where
    "run_from (Suc (Suc (Suc n))) e Ret_to_user ?c3 = Some (Erets, c')" "\<forall>i<31. a_x c' i = r_regs (pt_regs_at s' ?a) i"
    "a_sp c' = a_sp c" "a_pc c' = r_pc (pt_regs_at s' ?a)" "a_pstate c' = r_pstate (pt_regs_at s' ?a)" "a_sp_el0 c' = r_sp (pt_regs_at s' ?a)"
    by (auto simp: sp simp del: exec.simps run_from.simps)
  then show ?thesis using r1 r2 by (intro exI [of _ c']) (simp add: same_frame_def)
qed

lemma handler_result:
  assumes "el0_svc_handler regs s = Inr s'"
  shows "(sysno regs s = 5 \<longrightarrow> r_regs (pt_regs_at s' regs) 0 = (if fst (get_free_page s) = 0 then - 1 else fst (get_free_page s))) \<and>
     (sysno regs s = 4 \<longrightarrow> (\<exists>pid t. do_fork (r_regs (pt_regs_at s regs) 0) (r_regs (pt_regs_at s regs) 1) (r_regs (pt_regs_at s regs) 2) (entered regs s) =
        Inr (pid, t) \<and> r_regs (pt_regs_at s' regs) 0 = scast pid)) \<and>
     (sysno regs s \<notin> {4, 5} \<longrightarrow> r_regs (pt_regs_at s' regs) 0 = - 1)"
proof -
  have res: "r_regs (pt_regs_at (result regs x t) regs) 0 = x" for x and t :: "'a fork_state_scheme" by (simp add: result_def set_regs_def)
  have page: "fst (get_free_page (entered regs s)) = fst (get_free_page s)" by (rule get_free_page_fst) simp
  show ?thesis
    using assms unfolding svc_dispatched Let_def
    by (cases "sysno regs s = 4"; cases "sysno regs s = 5")
      (auto simp: res page bindr_eq_Inr split_def split: if_splits)
qed

lemma user_call:
  assumes "runs_handler e (a_sp c - 320) s" and "obeys e Schedule" and "keeps_frame e Schedule" and "a_sp c AND 7 = 0"
    and "fork_inv k s ts qs" and "a_sp c - 320 = task_pt_regs (current s)"
    and "same_frame (taken_frame 0 c) (pt_regs_at s (a_sp c - 320))"
    and "no = ucast (a_x c 8)" and "0 \<le> sint (no :: s32)"
  shows "\<exists>c'. run_from 5 e El0_sync (take_exception syn c) = Some (Erets, c') \<and> a_sp c' = a_sp c \<and> a_sp_el0 c' = a_sp_el0 c \<and>
     a_pc c' = a_pc c \<and> a_pstate c' = a_pstate c \<and> (\<forall>i. 0 < i \<and> i < 31 \<longrightarrow> a_x c' i = a_x c i) \<and>
     (no = 5 \<longrightarrow> a_x c' 0 = (if fst (get_free_page s) = 0 then - 1 else fst (get_free_page s))) \<and>
     (no = 4 \<longrightarrow> (\<exists>pid t. do_fork (a_x c 0) (a_x c 1) (a_x c 2) (entered (a_sp c - 320) s) = Inr (pid, t) \<and> a_x c' 0 = scast pid)) \<and>
     (no \<notin> {4, 5} \<longrightarrow> a_x c' 0 = - 1)"
proof -
  let ?a = "a_sp c - 320"
  have x: "a_x c i = r_regs (pt_regs_at s ?a) i" if "i < 31" for i using assms(7) that by (simp add: same_frame_def)
  have no: "sysno ?a s = no" using x [of 8] assms(8) by (simp add: sysno_def)
  obtain y s' where s': "el0_svc_handler ?a s = Inr s'"
    "pt_regs_at s' ?a = (pt_regs_at s ?a)\<lparr>r_regs := (r_regs (pt_regs_at s ?a))(0 := y), r_orig_x0 := r_regs (pt_regs_at s ?a) 0,
       r_syscallno := ucast (r_regs (pt_regs_at s ?a) 8)\<rparr>"
    using svc_safe_run [OF assms(5,6)] assms(9) no unfolding sysno_def by blast
  have five: "Suc (Suc (Suc (Suc (Suc 0)))) = 5" by simp
  from el0_sync_run [OF assms(1-4,7) s'(1), of 0 syn, unfolded five] obtain c' where c': "run_from 5 e El0_sync (take_exception syn c) = Some (Erets, c')"
    "a_sp c' = a_sp c" "same_frame (pt_regs_0\<lparr>r_regs := a_x c', r_sp := a_sp_el0 c', r_pc := a_pc c', r_pstate := a_pstate c'\<rparr>) (pt_regs_at s' ?a)"
    by blast
  have x': "a_x c' i = r_regs (pt_regs_at s' ?a) i" if "i < 31" for i using c'(3) that by (simp add: same_frame_def)
  have y: "a_x c' 0 = r_regs (pt_regs_at s' ?a) 0" using x' [of 0] by simp
  have "a_x c' i = a_x c i" if "0 < i" "i < 31" for i using x [OF that(2)] x' [OF that(2)] that(1) s'(2) by simp
  moreover have "a_sp_el0 c' = a_sp_el0 c \<and> a_pc c' = a_pc c \<and> a_pstate c' = a_pstate c"
    using c'(3) assms(7) unfolding s'(2) by (simp add: same_frame_def)
  ultimately show ?thesis
    using c'(1,2) handler_result [OF s'(1)] x [of 0] x [of 1] x [of 2] unfolding no by (intro exI [of _ c']) (simp add: y)
qed

lemma run_keeps_elr:
  assumes "\<forall>i \<in> set is. \<forall>r d. i \<noteq> Msr r d"
  shows "a_elr (run is c) = a_elr c \<and> a_spsr (run is c) = a_spsr c"
  using assms
proof (induction "is" arbitrary: c)
  case (Cons i "is")
  have p: "a_elr (put b v d) = a_elr d" "a_spsr (put b v d) = a_spsr d" for b v d by (cases b; simp)+
  have "a_elr (exec i c) = a_elr c \<and> a_spsr (exec i c) = a_spsr c"
    using Cons.prems by (cases i) (simp_all add: p st64_def)
  with Cons show ?case by simp
qed simp

section \<open>Properties\<close>

text \<open>C11. An interrupt is transparent: whatever the compiled functions do within the calling convention and the frame, and
  whether or not the task is preempted, the interrupted code of the kernel or of the user goes on with its registers, stack
  pointer, program counter and PSTATE - of the user also its own stack pointer.\<close>

theorem interrupt_transparent:
  assumes "\<And>f. f \<in> {Irq_handler, Preempt_schedule_irq, Schedule} \<Longrightarrow> obeys e f \<and> keeps_frame e f" and "a_sp c AND 7 = 0"
    and "src \<in> {Current_spx, Lower_64}"
  shows "\<exists>c'. run_from 4 e (vector src Irq) (take_exception syn c) = Some (Erets, c') \<and>
     (\<forall>i < 31. a_x c' i = a_x c i) \<and> a_sp c' = a_sp c \<and> a_pc c' = a_pc c \<and> a_pstate c' = a_pstate c \<and>
     (src = Lower_64 \<longrightarrow> a_sp_el0 c' = a_sp_el0 c)"
proof -
  have n: "(4 :: nat) = Suc (Suc (Suc (Suc 0)))" by simp
  have v: "vector Current_spx Irq = El1_irq" "vector Lower_64 Irq = El0_irq" by (simp_all add: vector_def vectors_def)
  show ?thesis
  proof (cases "src = Lower_64")
    case True
    then show ?thesis using el0_irq_resumes [of e c 0 syn] assms(1,2) unfolding n by (auto simp: v resumes_def simp del: run_from.simps)
  next
    case False
    then have s: "src = Current_spx" using assms(3) by simp
    then show ?thesis using el1_irq_resumes [of e c "Suc 0" syn] assms(1,2) unfolding n by (auto simp: v resumes_def simp del: run_from.simps)
  qed
qed

text \<open>C22. The decision in \<open>el1_irq\<close> after the handler: the two loads from the page of the stack and the branches on them lead to
  \<open>preempt_schedule_irq\<close> exactly in the states in which the model of the scheduler calls it.\<close>

theorem el1_irq_decides:
  fixes s :: "'a sched_state_scheme"
  assumes "obeys e Irq_handler" and "obeys e Preempt_schedule_irq"
    and "c1 = e_c e Irq_handler (run (kernel_context_save 1) c)"
    and "regs_context c1 = cpu s" and "holds_flags (a_mem c1) s (current s)"
  shows "\<exists>c2. a_mem c2 = a_mem c1 \<and> a_sp c2 = a_sp c1 \<and>
     run_from 3 e El1_irq c = (if el1_irq_exit s = Inr (None, s) then run_from 2 e El1_irq_done c2
       else run_from 1 e El1_irq_done (e_c e Preempt_schedule_irq c2)) \<and>
     (el1_irq_exit s = Inr (None, s) \<or> el1_irq_exit s = bindr (preempt_schedule_irq s) (\<lambda>(out, s). Inr (Some out, s)))"
proof -
  have "a_sp c1 = cc_sp (cpu s)" using arg_cong [OF assms(4), of cc_sp] by (simp add: regs_context_def)
  then have "a_sp c1 AND NOT 0xfff = current s" by (simp add: current_def THREAD_SIZE_def)
  then have p: "preempts c1 \<longleftrightarrow> t_preempt_count (tasks s (current s)) = 0 \<and> t_need_resched (tasks s (current s)) \<noteq> 0"
    using assms(5) unfolding preempts_def holds_flags_def by simp
  have x: "el1_irq_exit s = Inr (None, s) \<longleftrightarrow> \<not> preempts c1"
    unfolding p el1_irq_exit_def Let_def by (auto simp: bindr_eq_Inr split_def)
  have sp: "a_sp c1 = a_sp c - 320" using run_save [of 1 c] call_keeps(1) [OF assms(1)] unfolding assms(3) by auto
  show ?thesis
    using el1_irq_run [OF assms(1,2), of c 0] x sp p unfolding assms(3) [symmetric]
    by (auto simp: eval_nat_numeral el1_irq_exit_def Let_def simp del: run_from.simps)
qed


text \<open>C13. The assembly of the context switch implements the one of the scheduler's model: from a processor and a memory that hold
  the registers of the running code and the saved contexts of the tasks, to those after the switch; it returns to
  where the next task was suspended, with the previous task in x0.\<close>

theorem cpu_switch_to_refines:
  fixes s :: "'a sched_state_scheme"
  assumes "holds_tasks c s P" and "prev \<in> P" and "nxt \<in> P" and "a_x c 0 = prev" and "a_x c 1 = nxt"
    and "cc_pc (cpu (cpu_switch_to prev nxt s)) \<noteq> e_addr e El1_irq_done"
  shows "\<exists>c'. run_from 1 e Cpu_switch_to c = Some (To_address (cc_pc (cpu (cpu_switch_to prev nxt s))), c') \<and>
     holds_tasks c' (cpu_switch_to prev nxt s) P \<and> a_x c' 0 = prev"
proof -
  let ?c' = "run cpu_switch_code c"
  have h: "holds_tasks ?c' (cpu_switch_to prev nxt s) P" using switch_refines [of c s P] assms(1-5) by simp
  then have "regs_context ?c' = cpu (cpu_switch_to prev nxt s)" by (simp add: holds_tasks_def)
  from arg_cong [OF this, of cc_pc] have pc: "a_x ?c' 30 = cc_pc (cpu (cpu_switch_to prev nxt s))" by (simp add: regs_context_def)
  have "run_block e (block_of Cpu_switch_to) c = (To_address (a_x ?c' 30), ?c')" by (simp add: blocks)
  then show ?thesis using h pc assms(4,6) run_switch(2) [of c] by (intro exI [of _ ?c']) simp
qed

text \<open>C12. A system call of the user library from its call to its return: \<open>syscall(no, ...)\<close> returns in x0 the page for
  \<open>malloc\<close>, the pid for \<open>clone\<close> with the three arguments after the number, and -1 for every other number that is not
  negative; the other registers, the stack pointer, the program counter (the instruction behind the \<open>svc\<close>) and PSTATE are those with which it was raised.\<close>

theorem user_syscall:
  fixes s :: "'a fork_state_scheme"
  assumes "runs_handler e (a_sp c - 320) s" and "obeys e Schedule" and "keeps_frame e Schedule" and "a_sp c AND 7 = 0"
    and "fork_inv k s ts qs" and "a_sp c - 320 = task_pt_regs (current s)"
    and "d = run syscall_stub c" and "same_frame (taken_frame 0 d) (pt_regs_at s (a_sp c - 320))"
    and "no = ucast (a_x c 0)" and "0 \<le> sint (no :: s32)"
  shows "\<exists>d'. run_from 5 e (vector Lower_64 Sync) (take_exception syn d) = Some (Erets, d') \<and> a_sp d' = a_sp c \<and> a_sp_el0 d' = a_sp_el0 c \<and>
     a_pc d' = a_pc d \<and> a_pstate d' = a_pstate c \<and> (\<forall>i. 0 < i \<and> i < 31 \<longrightarrow> a_x d' i = a_x d i) \<and>
     (no = 5 \<longrightarrow> a_x d' 0 = (if fst (get_free_page s) = 0 then - 1 else fst (get_free_page s))) \<and>
     (no = 4 \<longrightarrow> (\<exists>pid t. do_fork (a_x c 1) (a_x c 2) (a_x c 3) (entered (a_sp c - 320) s) = Inr (pid, t) \<and> a_x d' 0 = scast pid)) \<and>
     (no \<notin> {4, 5} \<longrightarrow> a_x d' 0 = - 1)"
proof -
  have d: "a_sp d = a_sp c" "a_sp_el0 d = a_sp_el0 c" "a_pstate d = a_pstate c" "a_x d 0 = a_x c 1" "a_x d 1 = a_x c 2" "a_x d 2 = a_x c 3"
    "a_x d 8 = ucast (ucast (a_x c 0) :: u32)"
    by (simp_all add: assms(7) syscall_stub_def)
  have "no = ucast (a_x d 8)" unfolding d assms(9) by (intro bit_word_eqI) (simp add: bit_simps)
  moreover have "vector Lower_64 Sync = El0_sync" by (simp add: vector_def vectors_def)
  ultimately show ?thesis
    using user_call [of e d s k ts qs no syn] assms(1-6,8,10) unfolding d by simp
qed


text \<open>C14. The second return of \<open>clone\<close>: when the new task runs for the first time, at \<open>ret_from_fork\<close> with the context that
  \<open>clone\<close> gave it, it enters user space behind the system call of its parent, with 0 in x0, the parent's
  other registers and PSTATE, on the stack that the parent chose.\<close>

theorem child_returns_to_user:
  fixes s :: "'a fork_state_scheme"
  assumes "fork_inv k s ts qs" and "regs = task_pt_regs (current s)" and "parent = pt_regs_at s regs"
    and "ucast (r_regs parent 8) = (4 :: s32)" and "r_regs parent 0 AND 1 = 0" and "r_regs parent 1 \<noteq> 0" and "r_regs parent 1 AND 15 = 0"
    and "p = fst (get_free_page s)" and "p \<noteq> 0" and "{i. i < 128 \<and> g_task s i = 0} \<noteq> {}"
    and "el0_svc_handler regs s = Inr s'"
    and "\<And>f. f \<in> {Schedule_tail, Schedule} \<Longrightarrow> obeys e f \<and> keeps_frame e f"
    and "regs_context c = (t_cpu_context (tasks s' p))" and "frame_rep (a_mem c) (task_pt_regs p) (pt_regs_at s' (task_pt_regs p))"
  shows "\<exists>c'. run_from 5 e Ret_from_fork c = Some (Erets, c') \<and> a_x c' 0 = 0 \<and> (\<forall>i. 0 < i \<and> i < 31 \<longrightarrow> a_x c' i = r_regs parent i) \<and>
     a_pc c' = r_pc parent \<and> a_pstate c' = r_pstate parent \<and> a_sp_el0 c' = r_regs parent 1 \<and> a_sp c' = task_pt_regs p + 320"
proof -
  note a = assms(1,2) assms(4-7) [unfolded assms(3)] assms(9) [unfolded assms(8)] assms(10)
  have child: "pt_regs_at s' (task_pt_regs p) = parent\<lparr>r_regs := (r_regs parent)(0 := 0), r_sp := r_regs parent 1,
       r_orig_x0 := r_regs parent 0, r_syscallno := sysno regs s\<rparr>"
    "t_cpu_context (tasks s' p) = cpu_context_0\<lparr>cc_sp := task_pt_regs p, cc_pc := sym_ret_from_fork (syms s)\<rparr>"
    using svc_clone_run [OF a] assms(11) unfolding assms(3) assms(8) by (metis sum.inject(2))+
  have c: "a_x c 19 = 0" "a_sp c = task_pt_regs p"
    using arg_cong [OF assms(13), of cc_x19] arg_cong [OF assms(13), of cc_sp] unfolding child(2)
    by (simp_all add: regs_context_def cpu_context_0_def)
  let ?d = "e_c e Schedule_tail c"
  have k: "obeys e Schedule_tail" "keeps_frame e Schedule_tail" "obeys e Schedule" "keeps_frame e Schedule" using assms(12) by simp_all
  have f: "frame_rep (a_mem c) (a_sp c) (pt_regs_at s' (task_pt_regs p))" using assms(14) c(2) by simp
  have d: "a_x ?d 19 = 0" "a_sp ?d = task_pt_regs p" "frame_rep (a_mem ?d) (a_sp ?d) (pt_regs_at s' (task_pt_regs p))"
    using call_keeps(1) [OF k(1), of c] call_keeps(2) [OF k(1), of 19 c] c call_frame [OF k(1,2) f] by simp_all
  have "run_block e (block_of Ret_from_fork) c = (To_label Ret_from_fork_done, ?d)"
    "run_block e (block_of Ret_from_fork_done) ?d = (To_label Ret_to_user, ?d)" using d(1) by (simp_all add: blocks)
  then have r: "run_from 5 e Ret_from_fork c = run_from (Suc (Suc (Suc 0))) e Ret_to_user ?d"
    by (simp add: eval_nat_numeral del: run_from.simps(1)) 
  show ?thesis using to_user [OF d(3) k(3,4), of 0] unfolding r d(2) child(1) by auto
qed

text \<open>C20. An interrupt in the restore of a frame: once ELR and SPSR are written, an interrupt that is taken before the \<open>eret\<close>
  leaves its own return address in ELR, so the \<open>eret\<close> does not go to where the frame says but back to the interrupted
  instruction of the restore, in the mode of the kernel - the return to user space after a reschedule runs this code with interrupts enabled.\<close>

theorem restore_interrupted:
  assumes "\<And>f. f \<in> {Irq_handler, Preempt_schedule_irq} \<Longrightarrow> obeys e f \<and> keeps_frame e f"
    and "frame_rep (a_mem c) (a_sp c) r" and "5 \<le> n" and "c1 = run (take n (kernel_context_res 0)) c" and "a_sp c1 AND 7 = 0"
  shows "\<exists>c2. run_from 4 e (vector Current_spx Irq) (take_exception syn c1) = Some (Erets, c2) \<and>
     a_pc (eret (run (kernel_context_res 0) c)) = r_pc r \<and> a_pstate (eret (run (kernel_context_res 0) c)) = r_pstate r \<and>
     a_pc (eret (run (drop n (kernel_context_res 0)) c2)) = a_pc c1 \<and> a_pstate (eret (run (drop n (kernel_context_res 0)) c2)) = a_pstate c1"
proof -
  have four: "Suc (Suc (Suc (Suc 0))) = 4" by simp
  have v: "vector Current_spx Irq = El1_irq" by (simp add: vector_def vectors_def)
  obtain c2 where c2: "run_from 4 e El1_irq (take_exception syn c1) = Some (Erets, c2)" "resumes El1_irq c1 c2"
    using el1_irq_resumes [OF assms(1,5), of "Suc 0" syn, unfolded four] by blast
  have "\<forall>i \<in> set (drop 5 (kernel_context_res 0)). \<forall>r d. i \<noteq> Msr r d" by (simp add: kernel_context_res_def)
  then have "\<forall>i \<in> set (drop n (kernel_context_res 0)). \<forall>r d. i \<noteq> Msr r d"
    using set_drop_subset_set_drop [OF assms(3), of "kernel_context_res 0"] by blast
  from run_keeps_elr [OF this, of c2] have "a_pc (eret (run (drop n (kernel_context_res 0)) c2)) = a_pc c1"
    "a_pstate (eret (run (drop n (kernel_context_res 0)) c2)) = a_pstate c1"
    using c2(2) by (simp_all add: eret_def resumes_def)
  moreover have "a_pc (eret (run (kernel_context_res 0) c)) = r_pc r" "a_pstate (eret (run (kernel_context_res 0) c)) = r_pstate r"
    using run_res [OF assms(2), of 0] by (auto simp: eret_def)
  ultimately show ?thesis using c2(1) unfolding v by blast
qed

text \<open>The vector table: every exception but an interrupt of the kernel and an interrupt or synchronous exception of the user goes
  to \<open>bad_mode\<close> with the interrupted stack pointer, the number of its kind and the syndrome.\<close>

theorem unhandled_vectors:
  assumes "(src, ex) \<notin> {(Current_spx, Irq), (Lower_64, Sync), (Lower_64, Irq), (Current_sp0, Sync), (Current_spx, Sync)}"
  shows "\<exists>c'. run_from 1 e (vector src ex) c = Some (To_fn Bad_mode, c') \<and> a_x c' 0 = a_sp c \<and>
     a_x c' 1 = (case ex of Sync \<Rightarrow> 0 | Irq \<Rightarrow> 1 | Fiq \<Rightarrow> 2 | Serror \<Rightarrow> 3) \<and> a_x c' 2 = a_esr c"
  using assms by (cases src; cases ex) (simp_all add: vector_def vectors_def blocks inv_entry_code_def)

section \<open>Concrete states\<close>

text \<open>Functions in C that do nothing but what the lemmas ask of them: the handler of system calls writes the frame of its model.\<close>

definition demo_env :: "fork_state \<Rightarrow> env" where
  "demo_env s = \<lparr>e_c = (\<lambda>f c. if f = El0_svc_handler
       then c\<lparr>a_mem := store_words (a_x c 0) (frame_words (case el0_svc_handler (a_x c 0) s of Inr s' \<Rightarrow> pt_regs_at s' (a_x c 0) | Inl _ \<Rightarrow> pt_regs_0)) (a_mem c)\<rparr>
       else c), e_addr = (\<lambda>_. 0x80000)\<rparr>"

lemma demo_env_keeps: "f \<noteq> El0_svc_handler \<Longrightarrow> obeys (demo_env s) f \<and> keeps_frame (demo_env s) f"
  by (simp add: demo_env_def obeys_def keeps_frame_def)

lemma demo_env_runs: "a AND 7 = 0 \<Longrightarrow> runs_handler (demo_env s) a s"
  by (auto simp: runs_handler_def demo_env_def obeys_def frame_written)

definition demo_arm :: arm where
  "demo_arm = \<lparr>a_x = word_of_nat, a_sp = 0x91000, a_sp_el0 = 0x8ff0, a_elr = 0, a_spsr = 0, a_esr = 0, a_pc = 0x84000, a_pstate = 0, a_mem = (\<lambda>_. 0)\<rparr>"

lemma load64_zero: "load64 a (\<lambda>_. 0) = 0"
  by (rule bit_word_eqI) (simp add: bit_load64)

text \<open>A state of the kernel in whose frame a user task is with these registers.\<close>

definition demo_user :: "arm \<Rightarrow> fork_state" where
  "demo_user d = set_regs (task_pt_regs 0x90000) (\<lambda>_. taken_frame 0 d) demo_fork"

lemma demo_user_ready:
  assumes "a_sp d = 0x91000"
  shows "fork_inv 0 (demo_user d) [0x400000, 0x401000] [0x401000, 0x400000]" "a_sp d - 320 = task_pt_regs (current (demo_user d))"
    "same_frame (taken_frame 0 d) (pt_regs_at (demo_user d) (a_sp d - 320))" "runs_handler (demo_env (demo_user d)) (a_sp d - 320) (demo_user d)"
proof -
  have p: "task_pt_regs 0x90000 = 0x90ec0" by (simp add: task_pt_regs_def S_FRAME_SIZE_def THREAD_SIZE_def)
  show "fork_inv 0 (demo_user d) [0x400000, 0x401000] [0x401000, 0x400000]" by (simp add: demo_user_def demo_fork_inv)
  show "a_sp d - 320 = task_pt_regs (current (demo_user d))" using assms p by (simp add: demo_user_def demo_fork_simps)
  show "same_frame (taken_frame 0 d) (pt_regs_at (demo_user d) (a_sp d - 320))"
    using assms p by (simp add: demo_user_def set_regs_def same_frame_def)
  show "runs_handler (demo_env (demo_user d)) (a_sp d - 320) (demo_user d)" using assms by (intro demo_env_runs) simp
qed

theorem interrupt_transparent_witness:
  "\<exists>c'. run_from 4 (demo_env demo_fork) (vector Lower_64 Irq) (take_exception 0 demo_arm) = Some (Erets, c') \<and> a_x c' 21 = 21 \<and> a_pc c' = 0x84000"
proof -
  have k: "f \<in> {Irq_handler, Preempt_schedule_irq, Schedule} \<Longrightarrow> obeys (demo_env demo_fork) f \<and> keeps_frame (demo_env demo_fork) f" for f
    by (rule demo_env_keeps) auto
  have "a_sp demo_arm AND 7 = 0" "a_pc demo_arm = 0x84000" "a_x demo_arm 21 = 21" by (simp_all add: demo_arm_def)
  with interrupt_transparent [OF k, of demo_arm Lower_64 0] show ?thesis by auto
qed

theorem el1_irq_decides_witness:
  "\<exists>e c2. e_c e Irq_handler = (\<lambda>c. c\<lparr>a_mem := (\<lambda>a. if a = 0x90090 then 1 else 0)\<rparr>) \<and>
     run_from 3 e El1_irq demo_arm = run_from 1 e El1_irq_done (e_c e Preempt_schedule_irq c2)"
proof -
  let ?m = "\<lambda>a :: u64. if a = 0x90090 then 1 else 0 :: u8"
  let ?e = "\<lparr>e_c = (\<lambda>f c. if f = Irq_handler then c\<lparr>a_mem := ?m\<rparr> else c), e_addr = (\<lambda>_. 0)\<rparr>"
  let ?c1 = "e_c ?e Irq_handler (run (kernel_context_save 1) demo_arm)"
  let ?s = "demo_fork\<lparr>cpu := regs_context ?c1, tasks := (\<lambda>p. task_0\<lparr>t_need_resched := 1\<rparr>)\<rparr>"
  have o: "obeys ?e Irq_handler" "obeys ?e Preempt_schedule_irq" by (simp_all add: obeys_def)
  have r: "regs_context ?c1 = cpu ?s" by simp
  have "a_sp ?c1 = 0x90ec0" using run_save [of 1 demo_arm] by (auto simp: demo_arm_def)
  then have cur: "current ?s = 0x90000" by (simp add: current_def regs_context_def THREAD_SIZE_def)
  have f: "holds_flags (a_mem ?c1) ?s (current ?s)" unfolding cur by (simp add: holds_flags_def load32_def task_0_def upt_rec)
  have "el1_irq_exit ?s \<noteq> Inr (None, ?s)" by (auto simp: el1_irq_exit_def Let_def task_0_def bindr_eq_Inr split_def)
  with el1_irq_decides [OF o refl r f] obtain c2 where "run_from 3 ?e El1_irq demo_arm = run_from 1 ?e El1_irq_done (e_c ?e Preempt_schedule_irq c2)"
    by auto
  then show ?thesis by (intro exI [of _ ?e] exI [of _ c2]) simp
qed

theorem cpu_switch_to_refines_witness:
  "\<exists>c'. run_from 1 (demo_env demo_fork) Cpu_switch_to (demo_arm\<lparr>a_x := (a_x demo_arm)(0 := 0x90000, 1 := 0x400000)\<rparr>) = Some (To_address 0, c') \<and> a_x c' 0 = 0x90000"
proof -
  let ?c = "demo_arm\<lparr>a_x := (a_x demo_arm)(0 := 0x90000, 1 := 0x400000)\<rparr>"
  let ?s = "demo_fork\<lparr>cpu := regs_context ?c, tasks := (\<lambda>p. task_0\<lparr>t_cpu_context := context_at (a_mem ?c) p\<rparr>)\<rparr>"
  have h: "holds_tasks ?c ?s {0x90000, 0x400000}" by (simp add: holds_tasks_def page_aligned_def)
  have z: "cc_pc (cpu (cpu_switch_to 0x90000 0x400000 ?s)) = 0"
    by (simp add: cpu_switch_to_def upd_task_def Let_def context_at_def demo_arm_def load64_zero)
  show ?thesis using cpu_switch_to_refines [OF h, of "0x90000" "0x400000" "demo_env demo_fork"] unfolding z by (auto simp: demo_env_def)
qed

theorem user_syscall_witness:
  "\<exists>d'. run_from 5 (demo_env (demo_user (run syscall_stub (demo_arm\<lparr>a_x := (a_x demo_arm)(0 := 5)\<rparr>)))) (vector Lower_64 Sync)
      (take_exception 0x56000000 (run syscall_stub (demo_arm\<lparr>a_x := (a_x demo_arm)(0 := 5)\<rparr>))) = Some (Erets, d') \<and> a_x d' 0 = 0x402000"
proof -
  let ?c = "demo_arm\<lparr>a_x := (a_x demo_arm)(0 := 5)\<rparr>" let ?d = "run syscall_stub ?c"
  have sp: "a_sp ?d = 0x91000" "a_sp ?c = 0x91000" by (simp_all add: syscall_stub_def demo_arm_def)
  note r = demo_user_ready [OF sp(1), unfolded sp]
  have page: "fst (get_free_page (demo_user ?d)) = 0x402000"
    using demo_fork_page get_free_page_fst [of "demo_user ?d" demo_fork] by (simp add: demo_user_def set_regs_def)
  have no: "(ucast (a_x ?c 0) :: s32) = 5" by simp
  show ?thesis
    using user_syscall [of "demo_env (demo_user ?d)" ?c "demo_user ?d" 0 "[0x400000, 0x401000]" "[0x401000, 0x400000]" ?d 5 "0x56000000"] r page
      demo_env_keeps [of Schedule "demo_user ?d"] no
    unfolding sp by auto
qed


theorem child_returns_to_user_witness:
  "\<exists>s' c c'. el0_svc_handler (task_pt_regs 0x90000) (demo_svc 4) = Inr s' \<and> regs_context c = t_cpu_context (tasks s' 0x402000) \<and>
     run_from 5 (demo_env (demo_svc 4)) Ret_from_fork c = Some (Erets, c') \<and> a_x c' 0 = 0 \<and> a_sp_el0 c' = 0x7ff0"
proof -
  let ?r = "task_pt_regs 0x90000"
  have page: "fst (get_free_page (demo_svc 4)) = 0x402000"
    using demo_fork_page get_free_page_fst [of "demo_svc 4" demo_fork] by (simp add: demo_svc_def set_regs_def)
  have slot: "{i. i < 128 \<and> g_task (demo_svc 4) i = 0} \<noteq> {}" using demo_fork_slot by (simp add: demo_svc_def set_regs_def)
  have regs: "?r = task_pt_regs (current (demo_svc 4))" by (simp add: demo_svc_current)
  obtain s' where s': "el0_svc_handler ?r (demo_svc 4) = Inr s'"
    using svc_clone_run [OF demo_svc_inv regs] page slot by (auto simp: demo_svc_frame)
  define q where "q = task_pt_regs 0x402000"
  let ?cc = "t_cpu_context (tasks s' 0x402000)"
  let ?c = "\<lparr>a_x = (\<lambda>i. 0)(19 := cc_x19 ?cc, 20 := cc_x20 ?cc, 21 := cc_x21 ?cc, 22 := cc_x22 ?cc, 23 := cc_x23 ?cc, 24 := cc_x24 ?cc,
       25 := cc_x25 ?cc, 26 := cc_x26 ?cc, 27 := cc_x27 ?cc, 28 := cc_x28 ?cc, 29 := cc_fp ?cc, 30 := cc_pc ?cc), a_sp = cc_sp ?cc,
       a_sp_el0 = 0, a_elr = 0, a_spsr = 0, a_esr = 0, a_pc = 0, a_pstate = 0, a_mem = store_words q (frame_words (pt_regs_at s' q)) (\<lambda>_. 0)\<rparr>"
  have al: "q AND 7 = 0" by (simp add: q_def task_pt_regs_def S_FRAME_SIZE_def THREAD_SIZE_def)
  have m: "frame_rep (a_mem ?c) (task_pt_regs 0x402000) (pt_regs_at s' (task_pt_regs 0x402000))"
    by (simp add: frame_written [OF al] flip: q_def)
  have rc: "regs_context ?c = ?cc" by (simp add: regs_context_def)
  have k: "f \<in> {Schedule_tail, Schedule} \<Longrightarrow> obeys (demo_env (demo_svc 4)) f \<and> keeps_frame (demo_env (demo_svc 4)) f" for f
    by (rule demo_env_keeps) auto
  have "\<exists>c'. run_from 5 (demo_env (demo_svc 4)) Ret_from_fork ?c = Some (Erets, c') \<and> a_x c' 0 = 0 \<and> a_sp_el0 c' = 0x7ff0"
    using child_returns_to_user [OF demo_svc_inv regs refl _ _ _ _ page [symmetric] _ slot s' k rc m]
    by (auto simp: demo_svc_frame)
  then show ?thesis using s' rc by blast
qed

theorem restore_interrupted_witness:
  "\<exists>c c2. run_from 4 (demo_env demo_fork) (vector Current_spx Irq) (take_exception 0 (run (take 6 (kernel_context_res 0)) c)) = Some (Erets, c2) \<and>
     a_pc (eret (run (kernel_context_res 0) c)) = 0x1000 \<and> a_pc (eret (run (drop 6 (kernel_context_res 0)) c2)) = 0x84000"
proof -
  let ?r = "pt_regs_0\<lparr>r_pc := 0x1000\<rparr>"
  let ?c = "demo_arm\<lparr>a_sp := 0x90ec0, a_mem := store_words 0x90ec0 (frame_words ?r) (\<lambda>_. 0)\<rparr>"
  have k: "f \<in> {Irq_handler, Preempt_schedule_irq} \<Longrightarrow> obeys (demo_env demo_fork) f \<and> keeps_frame (demo_env demo_fork) f" for f
    by (rule demo_env_keeps) auto
  have f: "frame_rep (a_mem ?c) (a_sp ?c) ?r" by (simp add: frame_written)
  have s: "a_sp (run (take 6 (kernel_context_res 0)) ?c) = 0x90ec0" "a_pc (run (take 6 (kernel_context_res 0)) ?c) = 0x84000"
    by (simp_all add: kernel_context_res_def demo_arm_def)
  have n: "(5 :: nat) \<le> 6" by simp
  show ?thesis using restore_interrupted [OF k f n refl, of 0] unfolding s by auto
qed

theorem unhandled_vectors_witness:
  "\<exists>c'. run_from 1 (demo_env demo_fork) (vector Lower_64 Serror) demo_arm = Some (To_fn Bad_mode, c') \<and> a_x c' 1 = 3"
  using unhandled_vectors [of Lower_64 Serror "demo_env demo_fork" demo_arm] by auto
end
