(* ===== verification/User_Lib.thy ===== *)
theory User_Lib
  imports Entry
begin

text \<open>
  The user library, \<^verbatim>\<open>usr/user_syscall.c\<close> over the assembly of \<^verbatim>\<open>usr/syscall.S\<close>.
\<close>

definition NR_malloc :: s32 where "NR_malloc = 5"

text \<open>A call of \<open>syscall\<close> in C, with the number and the arguments in the registers: the stub, the exception, the kernel up
  to its \<open>eret\<close>. \<open>None\<close> is a kernel that does not return to the user.\<close>

definition syscall :: "env \<Rightarrow> u64 \<Rightarrow> arm \<Rightarrow> arm option" where
  "syscall e syn c =
     (case run_from 5 e (vector Lower_64 Sync) (take_exception syn (run syscall_stub c)) of
        Some (Erets, d) \<Rightarrow> Some d
      | _ \<Rightarrow> None)"

definition my_malloc :: "env \<Rightarrow> u64 \<Rightarrow> arm \<Rightarrow> (u64 \<times> arm) option" where
  "my_malloc e syn c = map_option (\<lambda>d. (a_x d 0, d)) (syscall e syn (put (X 0) (ucast NR_malloc) c))"

text \<open>\<open>__clone\<close> ends after three moves; the execution goes on with what the linker places behind them, a
  parameter. The upper half of the register of an \<open>int\<close> argument is taken as 0.\<close>

definition clone_stub :: "instr list" where
  "clone_stub = [Mov (X 10) (X 0), Mov (X 11) (X 2), Mov (X 12) (X 3)]"

definition clone :: "(arm \<Rightarrow> arm option) \<Rightarrow> u64 \<Rightarrow> u64 \<Rightarrow> s32 \<Rightarrow> u64 \<Rightarrow> arm \<Rightarrow> (s32 \<times> arm) option" where
  "clone behind fn child_stack flags arg c =
     map_option (\<lambda>d. (ucast (a_x d 0), d))
       (behind (run clone_stub (put (X 0) fn (put (X 1) child_stack (put (X 2) (ucast flags) (put (X 3) arg c))))))"

text \<open>\<open>my_malloc\<close> returns the first free page, or -1 when there is none, and keeps the stack.\<close>

lemma my_malloc_page:
  assumes "runs_handler e (a_sp c - 320) s" and "obeys e Schedule" and "keeps_frame e Schedule" and "a_sp c AND 7 = 0"
    and "fork_inv k s ts qs" and "a_sp c - 320 = task_pt_regs (current s)"
    and d: "d = run syscall_stub (put (X 0) (ucast NR_malloc) c)" and "same_frame (taken_frame 0 d) (pt_regs_at s (a_sp c - 320))"
  shows "\<exists>d'. my_malloc e syn c = Some (if fst (get_free_page s) = 0 then - 1 else fst (get_free_page s), d') \<and>
     a_sp d' = a_sp c \<and> a_sp_el0 d' = a_sp_el0 c \<and> (\<forall>i. 9 \<le> i \<and> i < 31 \<longrightarrow> a_x d' i = a_x c i)"
proof -
  have r: "a_sp d = a_sp c" "a_sp_el0 d = a_sp_el0 c" "a_x d 8 = 5" "\<And>i. 9 \<le> i \<Longrightarrow> a_x d i = a_x c i"
    by (simp_all add: d syscall_stub_def NR_malloc_def)
  have "vector Lower_64 Sync = El0_sync" by (simp add: vector_def vectors_def)
  with user_call [of e d s k ts qs 5 syn] assms(1-6,8) obtain d' where
    "run_from 5 e (vector Lower_64 Sync) (take_exception syn d) = Some (Erets, d')" "a_sp d' = a_sp c" "a_sp_el0 d' = a_sp_el0 c"
    "\<forall>i. 0 < i \<and> i < 31 \<longrightarrow> a_x d' i = a_x d i"
    "a_x d' 0 = (if fst (get_free_page s) = 0 then - 1 else fst (get_free_page s))"
    unfolding r by auto
  then show ?thesis using r(4) by (intro exI [of _ d']) (simp add: my_malloc_def syscall_def d)
qed

text \<open>The moves of \<open>__clone\<close> keep the function, the stack, the flags and the argument, in x10, x1, x11 and x12, and put no
  number of a system call into x8: a call that raised \<open>svc\<close> there would be the one whose number the caller left in x8.\<close>

lemma clone_moves:
  assumes "d = run clone_stub (put (X 0) fn (put (X 1) child_stack (put (X 2) (ucast flags) (put (X 3) arg c))))"
  shows "a_x d 10 = fn" "a_x d 1 = child_stack" "a_x d 11 = ucast (flags :: s32)" "a_x d 12 = arg" "a_x d 8 = a_x c 8"
  by (simp_all add: assms clone_stub_def)

end
