(* ===== verification/Kernel_Runs.thy ===== *)
theory Kernel_Runs
  imports Preempt
begin

text \<open>
  The runs of the kernel as a whole: the events of \<open>Kernel\<close> and the preempted creations of \<open>Preempt\<close> in any order. What
  every run keeps, and that no event is refused.
\<close>

section \<open>Runs\<close>

text \<open>A creation by \<open>kernel_thread\<close> may be interrupted and preempted between its statements any number of times; its result is
  the state in which the creator has returned.\<close>

inductive krun :: "'a irq_state_scheme \<Rightarrow> 'a irq_state_scheme \<Rightarrow> bool" for s0 where
  start: "krun s0 s0"
| event: "krun s0 s \<Longrightarrow> kstep s ev s' \<Longrightarrow> krun s0 s'"
| preempted: "krun s0 s \<Longrightarrow> fork_run (flags OR PF_KTHREAD) fn arg s n (Done r) s' \<Longrightarrow> krun s0 s'"

lemma created_kinv:
  assumes "fork_run cf fn arg s n (Done r) s'" and "kinv s ts qs"
  shows "\<exists>ts' qs'. kinv s' ts' qs' \<and> set ts \<subseteq> set ts'"
proof -
  from fork_run_ok [OF assms] consider "kinv s' ts qs" | p where "kinv s' (ts @ [p]) (p # qs)" by (auto simp: unpublished_def)
  then show ?thesis by cases (blast, fastforce)
qed

lemma krun_kinv:
  "krun s0 s \<Longrightarrow> kinv s0 ts qs \<Longrightarrow> \<exists>ts' qs'. kinv s ts' qs' \<and> set ts \<subseteq> set ts'"
proof (induction rule: krun.induct)
  case start
  then show ?case by blast
next
  case (event s ev s')
  then obtain ts1 qs1 where 1: "kinv s ts1 qs1" "set ts \<subseteq> set ts1" by blast
  from kstep_kinv [OF event.hyps(2) 1(1)] 1(2) show ?case by (meson subset_trans)
next
  case (preempted s flags fn arg n r s')
  then obtain ts1 qs1 where 1: "kinv s ts1 qs1" "set ts \<subseteq> set ts1" by blast
  from created_kinv [OF preempted.hyps(2) 1(1)] 1(2) show ?case by (meson subset_trans)
qed

section \<open>The init task\<close>

lemma init_not_listed: "run_ok s ts qs \<Longrightarrow> init_task s \<notin> set ts"
  by (auto simp: run_ok_def run_inv_def table_ok_def walk_rep_def ring_def)

lemma fork_ok_syms: "fork_ok cf stack arg s0 ts qs pc s \<Longrightarrow> syms s = syms s0"
  by (cases pc) (auto simp: owns_def unpublished_def made_def split: if_splits)

lemma do_all_cpu:
  assumes "\<And>f s. f \<in> set fs \<Longrightarrow> cpu (f s) = cpu s"
  shows "cpu (do_all fs s) = cpu s"
  using assms by (induction fs arbitrary: s) auto

lemma stmt_cpu:
  fixes s :: "'a irq_state_scheme"
  shows "f \<in> set (copy_stmts cf p stack arg) \<Longrightarrow> cpu (f s) = cpu s"
    and "f \<in> set (fill_stmts p pid) \<Longrightarrow> cpu (f s) = cpu s"
    and "f \<in> set (link_stmts p pid) \<Longrightarrow> cpu (f s) = cpu s"
    and "f \<in> set (insert_stmts p nxt) \<Longrightarrow> cpu (f s) = cpu s"
  using copy_frame(1) [of f cf p stack arg s] fill_frame [of f p pid s]
  by (auto simp: link_stmts_def insert_stmts_def upd_task_def)

lemma run_stmts_cpu:
  assumes "\<And>f. f \<in> set xs \<Longrightarrow> cpu (f s) = cpu s" and "run_stmts xs k pc after s = (pc', s')"
  shows "cpu s' = cpu s"
  using assms nth_mem [of k xs] by (auto simp: run_stmts_def split: if_splits)

lemma fork_next_cpu:
  fixes s :: "'a irq_state_scheme"
  assumes "fork_next cf stack arg pc s = Inr (pc', s')"
  shows "cpu s' = cpu s"
proof (cases pc)
  case Alloc
  then show ?thesis using assms by (cases rule: get_free_page_cases [of s]) (auto split: if_splits)
next
  case (Clear p)
  then show ?thesis using assms by (auto simp: upd_task_def)
next
  case (Free p)
  then show ?thesis using assms by (auto simp: bindr_eq_Inr free_page_def Let_def split: if_splits)
qed (use assms in \<open>auto simp: Let_def stmt_cpu dest!: run_stmts_cpu [rotated] split: if_splits\<close>)

text \<open>A task other than init is never followed by init.\<close>

lemma fork_run_not_init:
  assumes "fork_run cf stack arg s0 n pc s" and "kinv s0 ts qs" and "current s0 \<noteq> init_task s0"
  shows "current s \<noteq> init_task s0"
  using assms
proof (induction rule: fork_run.induct)
  case (own n pc s pc' s')
  then show ?case using fork_next_cpu [OF own.hyps(4)] by (simp add: current_def)
next
  case (event n pc s ev s')
  have ok: "fork_ok cf stack arg s0 ts qs pc s" by (rule fork_run_ok [OF event.hyps(1) event.prems(1)])
  obtain ts' qs' where r: "run_ok s ts' qs'" using fork_ok_run [OF ok] by blast
  have "current s' \<in> insert (current s) (set ts')" using quiet_event [OF event.hyps(2,3) r] by (simp add: untouched_def)
  moreover have "init_task s0 \<notin> set ts'" using init_not_listed [OF r] fork_ok_syms [OF ok] by simp
  ultimately show ?case using event by auto
qed simp

lemma kinv_listed: "kinv s ts qs \<Longrightarrow> current s \<noteq> init_task s \<longleftrightarrow> current s \<in> set ts"
  using init_not_listed [OF kinv_run_ok, of s ts qs] by (auto simp: kinv_def fork_inv_def sched_inv_def)

lemma krun_not_init:
  assumes "krun s0 s" and "kinv s0 ts qs" and "current s0 \<noteq> init_task s0"
  shows "current s \<noteq> init_task s"
  using assms
proof (induction rule: krun.induct)
  case (event s ev s')
  then have c: "current s \<noteq> init_task s" by blast
  obtain ts1 qs1 where k: "kinv s ts1 qs1" using krun_kinv [OF event.hyps(1) event.prems(1)] by blast
  obtain ts2 qs2 where k2: "kinv s' ts2 qs2" "set ts1 \<subseteq> set ts2" "current s' \<in> insert (current s) (set ts2)"
    using kstep_kinv [OF event.hyps(2) k] by blast
  then show ?case using c kinv_listed [OF k] kinv_listed [OF k2(1)] by auto
next
  case (preempted s flags fn arg n r s')
  then have c: "current s \<noteq> init_task s" by blast
  obtain ts1 qs1 where k: "kinv s ts1 qs1" using krun_kinv [OF preempted.hyps(1) preempted.prems(1)] by blast
  have "current s' \<noteq> init_task s" by (rule fork_run_not_init [OF preempted.hyps(2) k c])
  then show ?case using fork_ok_syms [OF fork_run_ok [OF preempted.hyps(2) k]] by simp
qed simp

lemma yield_leaves_init:
  assumes "kinv s ts qs" and "kstep s Yield s'"
  shows "current s' \<noteq> init_task s'"
proof -
  have k: "run_inv 0 s ts qs" "qs \<noteq> []" "only_timer s" using kinv_run_ok [OF assms(1)] by (simp_all add: run_ok_def)
  from schedule_run [OF k(1,2)] obtain out t where t: "schedule s = Inr (out, t)" "run_inv 0 t ts qs"
    "is_best (\<lambda>p. goodness p t) qs (current t)" by blast
  with assms(2) have s': "s' = resume (Some out) t" by (auto elim: yieldE)
  then have "current s' = current t" "init_task s' = init_task t"
    by (cases "(Some out, t)" rule: resume.cases; simp add: current_def)+
  moreover have "current t \<in> set ts" by (rule chosen_task [OF t(2,3)])
  moreover have "init_task t \<notin> set ts" using t(2) by (auto simp: run_inv_def table_ok_def walk_rep_def ring_def)
  ultimately show ?thesis by auto
qed

section \<open>Properties\<close>

text \<open>C3. From a state of the running kernel, with a task in the ready queue, interrupts on and the timer the only
  interrupt with a handler, every sequence of interrupts in the kernel and in user mode, calls of the scheduler, system calls with any register
  contents and a number that is not negative (a negative one faults, see the next property), and thread creations, each of them interrupted and preempted by calls of the scheduler any number of times between its statements,
  keeps the invariants of the process table, the ready queue, the pids and the allocator; no task is lost. Inside a creation what the
  scheduler and the interrupts rely on holds, and no task is lost. Two creations do not overlap in these runs.\<close>

theorem kernel_safe:
  assumes "krun s0 s" and "kinv s0 ts qs"
  shows "\<exists>ts' qs'. kinv s ts' qs' \<and> fork_inv 0 s ts' qs' \<and> set ts \<subseteq> set ts' \<and> current s \<in> insert (init_task s) (set ts') \<and>
     (\<forall>flags fn arg n pc t. fork_run (flags OR PF_KTHREAD) fn arg s n pc t \<longrightarrow> (\<exists>us vs. run_ok t us vs \<and> set ts' \<subseteq> set us))"
proof -
  obtain ts' qs' where k: "kinv s ts' qs'" "set ts \<subseteq> set ts'" using krun_kinv [OF assms] by blast
  moreover have i: "fork_inv 0 s ts' qs'" using k(1) by (simp only: kinv_def)
  moreover have "current s \<in> insert (init_task s) (set ts')" using i by (simp only: fork_inv_def sched_inv_def)
  moreover have "\<exists>us vs. run_ok t us vs \<and> set ts' \<subseteq> set us" if "fork_run (flags OR PF_KTHREAD) fn arg s n pc t" for flags fn arg n pc t
    by (rule fork_ok_run [OF fork_run_ok [OF that k(1)]])
  ultimately show ?thesis by blast
qed

text \<open>C4. In every state that these runs reach, an interrupt, a call of the scheduler, the creation of a thread and, in a user task, whatever
  its registers hold, an interrupt has a next state: it neither faults nor loops. A system call has one exactly when its number is not negative; a
  negative number reads outside the table of system calls. At any point of a preempted creation an interrupt, a call of the
  scheduler and the next statement of the creator have a next state, and the creator takes at most 34 steps.\<close>

theorem kernel_progress:
  assumes "krun s0 s" and "kinv s0 ts qs"
  shows "(\<exists>s'. kstep s Interrupt s') \<and> (\<exists>s'. kstep s Yield s') \<and> (\<exists>s'. kstep s (Create fn arg flags) s') \<and>
     (cc_sp (cpu s) = task_pt_regs (current s) \<longrightarrow> (\<exists>s'. kstep s (User_interrupt r) s') \<and>
       ((\<exists>s'. kstep s (Svc r) s') \<longleftrightarrow> 0 \<le> sint (ucast (r_regs r 8) :: s32)) \<and>
       (sint (ucast (r_regs r 8) :: s32) < 0 \<longrightarrow> el0_svc (user_entry r s) = Inl Out_of_bounds)) \<and>
     (\<forall>n pc t. fork_run (flags OR PF_KTHREAD) fn arg s n pc t \<longrightarrow> n \<le> 34 \<and> (\<exists>t'. kstep t Interrupt t') \<and> (\<exists>t'. kstep t Yield t') \<and>
        (\<exists>pc' t'. fork_next (flags OR PF_KTHREAD) fn arg pc t = Inr (pc', t')))"
proof -
  obtain ts' qs' where k: "kinv s ts' qs'" using krun_kinv [OF assms] by blast
  then have ok: "run_ok s ts' qs'" by (rule kinv_run_ok)
  then have i: "\<not> irq_masked s" by (simp add: run_ok_def)
  have 0: "\<forall>n pc t. fork_run (flags OR PF_KTHREAD) fn arg s n pc t \<longrightarrow> n \<le> 34 \<and> (\<exists>t'. kstep t Interrupt t') \<and> (\<exists>t'. kstep t Yield t') \<and>
        (\<exists>pc' t'. fork_next (flags OR PF_KTHREAD) fn arg pc t = Inr (pc', t'))" using fork_run_goes_on [OF _ k] by blast
  have 1: "(\<exists>s'. kstep s Interrupt s') \<and> (\<exists>s'. kstep s Yield s')" using fork_run_goes_on [OF fork_run.called k] by blast
  have 3: "\<exists>s'. kstep s (Create fn arg flags) s'" using create_step [OF k, of fn arg flags]
    by (elim exE conjE) (rule exI, rule kstep.create)
  note u = user_entry_kinv [OF k, of r]
  have 4: "\<exists>s'. kstep s (User_interrupt r) s'" if c: "cc_sp (cpu s) = task_pt_regs (current s)"
    using user_interrupt_step [OF kinv_run_ok [OF u]] by (elim exE conjE) (rule exI, rule kstep.user_interrupt [OF i c])
  have no: "sysno (cc_sp (cpu (user_entry r s))) (user_entry r s) = ucast (r_regs r 8)" by simp
  have 5: "\<exists>s'. kstep s (Svc r) s'" if c: "cc_sp (cpu s) = task_pt_regs (current s)" "0 \<le> sint (ucast (r_regs r 8) :: s32)"
  proof -
    have "0 \<le> sint (sysno (cc_sp (cpu (user_entry r s))) (user_entry r s))" unfolding no by (rule c(2))
    with svc_step [OF u] c(1) obtain out s' where "el0_svc (user_entry r s) = Inr (out, s')" by fastforce
    from kstep.svc [OF c(1) this] show ?thesis ..
  qed
  have 6: "el0_svc (user_entry r s) = Inl Out_of_bounds" if "sint (ucast (r_regs r 8) :: s32) < 0"
    by (rule svc_negative) (simp only: no that)
  then have "\<not> kstep s (Svc r) s'" if "sint (ucast (r_regs r 8) :: s32) < 0" for s' using that by (auto elim: svcE)
  with 0 1 3 4 5 6 show ?thesis by (meson not_le)
qed

theorem kernel_safe_witness:
  "\<exists>s. kstep demo_kernel Interrupt s \<and> (\<exists>s'. kstep s Yield s' \<and> (\<exists>ts qs. fork_inv 0 s' ts qs \<and> {0x400000, 0x401000} \<subseteq> set ts))"
proof -
  note g = fork_run_goes_on [OF fork_run.called]
  obtain s where s: "kstep demo_kernel Interrupt s" using g [OF demo_kernel_inv] by blast
  then have r: "krun demo_kernel s" by (blast intro: krun.intros)
  obtain ts qs where "kinv s ts qs" using kstep_kinv [OF s demo_kernel_inv] by blast
  then obtain s' where "kstep s Yield s'" using g by blast
  moreover from this r have "krun demo_kernel s'" by (blast intro: krun.intros)
  ultimately show ?thesis using s kernel_safe [OF _ demo_kernel_inv, of s'] by fastforce
qed

theorem kernel_progress_witness:
  "\<exists>s. kstep demo_kernel (Create 0x83000 5 0) s"
  using kernel_progress [OF krun.start demo_kernel_inv] by blast

end
