(* ===== verification/Printk.thy ===== *)
theory Printk
  imports Uart
begin

text \<open>
  Formatted output, \<^verbatim>\<open>lib/printk.c\<close>. The format is the list of its characters that are still to be
  read (its end is the null byte), the output is the list of characters written to the buffer so
  far. \<open>base\<close>, a local of \<open>myprintf\<close> that keeps its value from one conversion to the next and is not
  initialised before the first, is an option in the state of the loop. Reading an argument that was
  not passed, using a number as a string pointer and writing past a buffer are faults.
  \<open>int\<close> locals that only count columns are integers: their overflow is undefined in C.
\<close>

section \<open>Flags and characters\<close>

definition ZEROPAD :: s32 where "ZEROPAD = 1"
definition SIGN :: s32 where "SIGN = 2"
definition PLUS :: s32 where "PLUS = 4"
definition SPACE :: s32 where "SPACE = 8"
definition LEFT :: s32 where "LEFT = 16"
definition SPECIAL :: s32 where "SPECIAL = 32"
definition SMALL :: s32 where "SMALL = 64"

lemmas printk_flags = ZEROPAD_def SIGN_def PLUS_def SPACE_def LEFT_def SPECIAL_def SMALL_def

definition peek :: "string \<Rightarrow> char" where
  "peek fmt = (case fmt of [] \<Rightarrow> CHR 0x00 | c # cs \<Rightarrow> c)"

definition is_digit :: "char \<Rightarrow> bool" where
  "is_digit c \<longleftrightarrow> c \<in> set ''0123456789''"

definition digit_val :: "char \<Rightarrow> int" where
  "digit_val c = of_char c - of_char (CHR ''0'')"

text \<open>The C string in a list of characters: up to the first null byte.\<close>

definition cstr :: "string \<Rightarrow> string" where
  "cstr s = takeWhile (\<lambda>c. c \<noteq> CHR 0x00) s"

section \<open>number\<close>

function digits_lsb :: "string \<Rightarrow> u64 \<Rightarrow> u64 \<Rightarrow> string" where
  "digits_lsb digits base num =
     (if num \<noteq> 0 \<and> 2 \<le> base
      then digits ! unat (num mod base) # digits_lsb digits base (num div base) else [])"
  by pat_completeness auto
termination
proof (relation "measure (\<lambda>(digits, base, num). unat num)", goal_cases)
  case (2 digits base num)
  then have "1 < unat base" "0 < unat num"
    by (simp_all add: word_le_nat_alt unat_gt_0)
  then have "unat num div unat base < unat num" by (intro div_less_dividend)
  then show ?case by (simp add: unat_div)
qed simp

declare digits_lsb.simps [simp del]

text \<open>\<open>while (size-- > 0) *str++ = c\<close>, and \<open>while (i < precision--) *str++ = '0'\<close>.\<close>

function pad_while :: "char \<Rightarrow> int \<Rightarrow> string \<times> int" where
  "pad_while c sz =
     (if 0 < sz then (let (out, sz) = pad_while c (sz - 1) in (c # out, sz)) else ([], sz - 1))"
  by pat_completeness auto
termination by (relation "measure (\<lambda>(c, sz). nat sz)") auto

function zeros_while :: "int \<Rightarrow> int \<Rightarrow> string" where
  "zeros_while i precision = (if i < precision then CHR ''0'' # zeros_while i (precision - 1) else [])"
  by pat_completeness auto
termination by (relation "measure (\<lambda>(i, p). nat (p - i))") auto

declare pad_while.simps [simp del] zeros_while.simps [simp del]

definition number :: "u64 \<Rightarrow> int \<Rightarrow> int \<Rightarrow> int \<Rightarrow> s32 \<Rightarrow> string option" where
  "number num base sz precision type =
     (let digits = (if type AND SMALL \<noteq> 0 then ''0123456789abcdefghijklmnopqrstuvwxyz''
                    else ''0123456789ABCDEFGHIJKLMNOPQRSTUVWXYZ'');
          type = (if type AND LEFT \<noteq> 0 then type AND NOT ZEROPAD else type)
      in if base < 2 \<or> 36 < base then None
         else
           let c = (if type AND ZEROPAD \<noteq> 0 then CHR ''0'' else CHR '' '');
               (sign, num, sz) =
                 (if type AND SIGN \<noteq> 0 then
                    if sint num < 0 then (''-'', - num, sz)
                    else if type AND PLUS \<noteq> 0 then (''+'', num, sz - 1)
                    else if type AND SPACE \<noteq> 0 then ('' '', num, sz - 1)
                    else ('''', num, sz)
                  else ('''', num, sz));
               sz = (if type AND SPECIAL \<noteq> 0 then
                       if base = 16 then sz - 2 else if base = 8 then sz - 1 else sz
                     else sz);
               tmp = (if num = 0 then ''0'' else digits_lsb digits (word_of_int base) num);
               i = int (length tmp);
               precision = (if i > precision then i else precision);
               sz = sz - precision;
               (pad1, sz) = (if type AND (ZEROPAD + LEFT) = 0 then pad_while (CHR '' '') sz else ('''', sz));
               prefix = (if type AND SPECIAL \<noteq> 0 then
                           if base = 8 then ''0'' else if base = 16 then [CHR ''0'', digits ! 33] else ''''
                         else '''');
               (pad2, sz) = (if type AND LEFT = 0 then pad_while c sz else ('''', sz));
               zs = zeros_while i precision;
               (pad3, sz) = pad_while (CHR '' '') sz
           in Some (pad1 @ sign @ prefix @ pad2 @ zs @ rev tmp @ pad3))"

section \<open>myprintf\<close>

record printf_state =
  p_out :: string
  p_args :: "varg list"
  p_base :: "int option"
  p_stores :: "(u64 \<times> u8) list"

definition emit :: "string \<Rightarrow> printf_state \<Rightarrow> printf_state" where
  "emit cs st = st\<lparr>p_out := p_out st @ cs\<rparr>"

fun scan_number :: "string \<Rightarrow> int \<Rightarrow> string \<times> int" where
  "scan_number [] tmp = ([], tmp)"
| "scan_number (c # cs) tmp = (if is_digit c then scan_number cs (tmp * 10 + digit_val c) else (c # cs, tmp))"

fun scan_flags :: "string \<Rightarrow> s32 \<Rightarrow> string \<times> s32" where
  "scan_flags [] flags = ([], flags)"
| "scan_flags (c # cs) flags =
     (if c = CHR ''-'' then scan_flags cs (flags OR LEFT)
      else if c = CHR ''+'' then scan_flags cs (flags OR PLUS)
      else if c = CHR '' '' then scan_flags cs (flags OR SPACE)
      else if c = CHR ''#'' then scan_flags cs (flags OR SPECIAL)
      else if c = CHR ''0'' then scan_flags cs (flags OR ZEROPAD)
      else (c # cs, flags))"

definition va_word :: "printf_state \<Rightarrow> (u64 \<times> printf_state) res" where
  "va_word st = (case p_args st of
     [] \<Rightarrow> Inl Uninit_read
   | Arg_word w # as \<Rightarrow> Inr (w, st\<lparr>p_args := as\<rparr>)
   | Arg_str _ # as \<Rightarrow> Inl Bad_pointer)"

definition va_string :: "printf_state \<Rightarrow> (string \<times> printf_state) res" where
  "va_string st = (case p_args st of
     [] \<Rightarrow> Inl Uninit_read
   | Arg_str s # as \<Rightarrow> Inr (cstr s, st\<lparr>p_args := as\<rparr>)
   | Arg_word w # as \<Rightarrow> if w = 0 then Inr (''<NULL>'', st\<lparr>p_args := as\<rparr>) else Inl Bad_pointer)"

definition va_int :: "printf_state \<Rightarrow> (int \<times> printf_state) res" where
  "va_int st = bindr (va_word st) (\<lambda>(w, st). Inr (sint (ucast w :: s32), st))"

text \<open>The width, then the precision; at a \<open>*\<close> the format pointer stays where it is.\<close>

definition parse_width :: "string \<Rightarrow> s32 \<Rightarrow> printf_state \<Rightarrow> (string \<times> s32 \<times> int \<times> printf_state) res" where
  "parse_width fmt flags st =
     (if is_digit (peek fmt) then (let (fmt, w) = scan_number fmt 0 in Inr (fmt, flags, w, st))
      else if peek fmt = CHR ''*'' then
        bindr (va_int st) (\<lambda>(w, st).
          if w < 0 then Inr (fmt, flags OR LEFT, - w, st) else Inr (fmt, flags, w, st))
      else Inr (fmt, flags, - 1, st))"

definition parse_precision :: "string \<Rightarrow> printf_state \<Rightarrow> (string \<times> int \<times> printf_state) res" where
  "parse_precision fmt st =
     (if peek fmt = CHR ''.'' then
        let fmt = tl fmt
        in bindr (if is_digit (peek fmt) then (let (fmt, p) = scan_number fmt 0 in Inr (fmt, p, st))
                  else if peek fmt = CHR ''*'' then bindr (va_int st) (\<lambda>(p, st). Inr (fmt, p, st))
                  else Inr (fmt, - 1, st))
             (\<lambda>(fmt, p, st). Inr (fmt, if p < 0 then 0 else p, st))
      else Inr (fmt, - 1, st))"

definition parse_qualifier :: "string \<Rightarrow> string \<times> char option" where
  "parse_qualifier fmt =
     (if peek fmt = CHR ''h'' \<or> peek fmt = CHR ''l'' \<or> peek fmt = CHR ''L'' then
        let qualifier = peek fmt; fmt = tl fmt
        in if qualifier = CHR ''l'' \<and> peek fmt = CHR ''l'' then (tl fmt, Some (CHR ''L''))
           else (fmt, Some qualifier)
      else (fmt, None))"

text \<open>\<open>while (--field_width > 0)\<close> of the character conversion, and \<open>while (len < field_width--)\<close> of the
  string conversion.\<close>

function pad_char :: "int \<Rightarrow> string \<times> int" where
  "pad_char w = (let w = w - 1 in if 0 < w then (let (out, w) = pad_char w in (CHR '' '' # out, w)) else ([], w))"
  by pat_completeness auto
termination by (relation "measure nat") auto

function pad_string :: "int \<Rightarrow> int \<Rightarrow> string \<times> int" where
  "pad_string len w = (if len < w then (let (out, w) = pad_string len (w - 1) in (CHR '' '' # out, w)) else ([], w - 1))"
  by pat_completeness auto
termination by (relation "measure (\<lambda>(len, w). nat (w - len))") auto

declare pad_char.simps [simp del] pad_string.simps [simp del]

definition conv_char :: "s32 \<Rightarrow> int \<Rightarrow> printf_state \<Rightarrow> printf_state res" where
  "conv_char flags w st =
     (let (pad1, w) = (if flags AND LEFT = 0 then pad_char w else ('''', w));
          st = emit pad1 st
      in bindr (va_word st) (\<lambda>(c, st).
           let st = emit [char_of (unat (ucast c :: u8))] st; (pad2, w) = pad_char w
           in Inr (emit pad2 st)))"

definition conv_string :: "s32 \<Rightarrow> int \<Rightarrow> int \<Rightarrow> printf_state \<Rightarrow> printf_state res" where
  "conv_string flags w precision st =
     bindr (va_string st) (\<lambda>(s, st).
       let len = int (length s);
           len = (if precision < 0 then len else if len > precision then precision else len);
           (pad1, w) = (if flags AND LEFT = 0 then pad_string len w else ('''', w));
           (pad2, w) = pad_string len w
       in Inr (emit (pad1 @ take (nat len) s @ pad2) st))"

definition conv_number :: "s32 \<Rightarrow> int \<Rightarrow> int \<Rightarrow> char option \<Rightarrow> printf_state \<Rightarrow> printf_state res" where
  "conv_number flags w precision qualifier st =
     bindr (va_word st) (\<lambda>(v, st).
       let num =
         (if qualifier = Some (CHR ''L'') \<or> qualifier = Some (CHR ''l'') then v
          else if qualifier = Some (CHR ''h'') then
            if flags AND SIGN \<noteq> 0 then scast (ucast v :: 16 word) else ucast (ucast v :: 16 word)
          else
            if flags AND SIGN \<noteq> 0 then scast (ucast v :: s32) else ucast (ucast v :: u32))
       in case p_base st of None \<Rightarrow> Inl Uninit_read
          | Some base \<Rightarrow> (case number num base w precision flags of
              None \<Rightarrow> Inl Null_deref | Some out \<Rightarrow> Inr (emit out st)))"

text \<open>One conversion, from the character after the percent sign; with the rest of the format.\<close>

definition conversion :: "string \<Rightarrow> printf_state \<Rightarrow> (string \<times> printf_state) res" where
  "conversion fmt st =
     (let (fmt, flags) = scan_flags fmt 0
      in bindr (parse_width fmt flags st) (\<lambda>(fmt, flags, w, st).
         bindr (parse_precision fmt st) (\<lambda>(fmt, precision, st).
         let (fmt, qualifier) = parse_qualifier fmt; c = peek fmt; rest = tl fmt
         in if c = CHR ''c'' then bindr (conv_char flags w st) (\<lambda>st. Inr (rest, st))
            else if c = CHR ''s'' then bindr (conv_string flags w precision st) (\<lambda>st. Inr (rest, st))
            else if c = CHR ''n'' then
              bindr (va_word st) (\<lambda>(ip, st).
                Inr (rest, st\<lparr>p_stores := p_stores st @ [(ip, word_of_nat (length (p_out st)))]\<rparr>))
            else if c = CHR ''p'' then
              let (flags, w) = (if w = - 1 then (flags OR ZEROPAD, 2 * 8) else (flags, w))
              in bindr (va_word st) (\<lambda>(v, st).
                   case number v 16 w precision flags of
                     None \<Rightarrow> Inl Null_deref | Some out \<Rightarrow> Inr (rest, emit out st))
            else
              let (flags, st, rest) =
                (if c = CHR ''o'' then (flags, st\<lparr>p_base := Some 8\<rparr>, rest)
                 else if c = CHR ''x'' then (flags OR SMALL, st\<lparr>p_base := Some 16\<rparr>, rest)
                 else if c = CHR ''X'' then (flags, st\<lparr>p_base := Some 16\<rparr>, rest)
                 else if c = CHR ''d'' \<or> c = CHR ''i'' then (flags OR SIGN, st\<lparr>p_base := Some 10\<rparr>, rest)
                 else if c = CHR ''u'' then (flags, st\<lparr>p_base := Some 10\<rparr>, rest)
                 else
                   let st = (if c \<noteq> CHR ''%'' then emit ''%'' st else st)
                   in if c \<noteq> CHR 0x00 then (flags, emit [c] st, rest) else (flags, st, []))
              in bindr (conv_number flags w precision qualifier st) (\<lambda>st. Inr (rest, st)))))"

lemma scan_number_shorter: "length (fst (scan_number fmt t)) \<le> length fmt"
  by (induction fmt t rule: scan_number.induct) auto

lemma scan_flags_shorter: "length (fst (scan_flags fmt f)) \<le> length fmt"
  by (induction fmt f rule: scan_flags.induct) auto

lemma parse_width_shorter: "parse_width fmt f st = Inr (fmt', r) \<Longrightarrow> length fmt' \<le> length fmt"
  using scan_number_shorter [of fmt 0]
  by (auto simp: parse_width_def bindr_eq_Inr split: if_splits prod.splits)

lemma parse_precision_shorter: "parse_precision fmt st = Inr (fmt', r) \<Longrightarrow> length fmt' \<le> length fmt"
  using scan_number_shorter [of "tl fmt" 0]
  by (auto simp: parse_precision_def Let_def bindr_eq_Inr split: if_splits prod.splits)

lemma parse_qualifier_shorter: "parse_qualifier fmt = (fmt', r) \<Longrightarrow> length fmt' \<le> length fmt"
  by (auto simp: parse_qualifier_def Let_def split: if_splits)

lemma conversion_shorter:
  assumes "conversion fmt st = Inr (rest, st')"
  shows "length rest \<le> length fmt"
proof -
  obtain f1 flags where 1: "scan_flags fmt 0 = (f1, flags)" by fastforce
  from assms obtain f2 flags2 w st2 where 2: "parse_width f1 flags st = Inr (f2, flags2, w, st2)"
    by (auto simp: conversion_def 1 bindr_eq_Inr)
  from assms obtain f3 p st3 where 3: "parse_precision f2 st2 = Inr (f3, p, st3)"
    by (auto simp: conversion_def 1 2 bindr_eq_Inr)
  obtain f4 q where 4: "parse_qualifier f3 = (f4, q)" by fastforce
  from assms have "rest = tl f4 \<or> rest = []"
    by (auto simp: conversion_def 1 2 3 4 bindr_eq_Inr Let_def split: if_splits option.splits)
  moreover have "length f4 \<le> length fmt"
    using scan_flags_shorter [of fmt 0] parse_width_shorter [OF 2] parse_precision_shorter [OF 3]
      parse_qualifier_shorter [OF 4] by (simp add: 1)
  ultimately show ?thesis by auto
qed

function printf_loop :: "string \<Rightarrow> printf_state \<Rightarrow> printf_state res" where
  "printf_loop fmt st =
     (if peek fmt = CHR 0x00 then Inr st
      else if peek fmt \<noteq> CHR ''%'' then printf_loop (tl fmt) (emit [peek fmt] st)
      else case conversion (tl fmt) st of
          Inl e \<Rightarrow> Inl e
        | Inr (rest, st) \<Rightarrow> printf_loop rest st)"
  by pat_completeness auto
termination
proof (relation "measure (\<lambda>(fmt, st). length fmt)", goal_cases)
  case (2 fmt st)
  then show ?case by (cases fmt) (auto simp: peek_def)
next
  case (3 fmt st x rest st')
  then have "fmt \<noteq> []" by (auto simp: peek_def)
  with conversion_shorter [of "tl fmt" st rest st'] 3 show ?case by (cases fmt) auto
qed simp

declare printf_loop.simps [simp del]

definition myprintf :: "string \<Rightarrow> varg list \<Rightarrow> printf_state res" where
  "myprintf fmt args = printf_loop fmt \<lparr>p_out = [], p_args = args, p_base = None, p_stores = []\<rparr>"

section \<open>printk\<close>

datatype printk_status = PRINTK_STATUS_DOWN | PRINTK_STATUS_READY

record console_state = machine +
  print_buf :: "nat \<Rightarrow> u8"
  log_buf :: "nat \<Rightarrow> u8"
  g_printk_status :: printk_status
  g_record :: nat
  g_record_len :: nat

definition CONSOLE_PRINT_BUFFER_SIZE :: nat where "CONSOLE_PRINT_BUFFER_SIZE = 1024"
definition LOG_BUF_LEN :: nat where "LOG_BUF_LEN = 2 ^ 17"

text \<open>\<open>myprintf\<close> gets the size of \<open>print_buf\<close> and does not use it: a byte too many, with the null byte,
  is written outside. Its stores through \<open>%n\<close> go to memory.\<close>

definition format :: "string \<Rightarrow> varg list \<Rightarrow> 'a console_state_scheme \<Rightarrow> (nat \<times> 'a console_state_scheme) res" where
  "format fmt args s =
     bindr (myprintf fmt args) (\<lambda>st.
       let len = length (p_out st)
       in if CONSOLE_PRINT_BUFFER_SIZE \<le> len then Inl Out_of_bounds
          else Inr (len, s\<lparr>print_buf := (\<lambda>i. if i < len then of_char (p_out st ! i) else if i = len then 0 else print_buf s i),
                    mem := fold (\<lambda>(a, v) m. m(a := v)) (p_stores st) (mem s)\<rparr>))"

primrec put_from :: "nat \<Rightarrow> nat \<Rightarrow> (nat \<Rightarrow> u8) \<Rightarrow> 'a machine_scheme \<Rightarrow> 'a machine_scheme option" where
  "put_from 0 i b s = Some s"
| "put_from (Suc n) i b s =
     Option.bind (putchar (b i) s) (\<lambda>s. if CONSOLE_PRINT_BUFFER_SIZE < i then Some s else put_from n (Suc i) b s)"

definition printk :: "string \<Rightarrow> varg list \<Rightarrow> 'a console_state_scheme \<Rightarrow> (s32 \<times> 'a console_state_scheme) res" where
  "printk fmt args s =
     bindr (format fmt args s) (\<lambda>(len, s).
       if g_printk_status s = PRINTK_STATUS_DOWN then
         if LOG_BUF_LEN < g_record s + len then Inl Out_of_bounds
         else
           let s = s\<lparr>log_buf := (\<lambda>i. if g_record s \<le> i \<and> i < g_record s + len then print_buf s (i - g_record s) else log_buf s i)\<rparr>;
               s = s\<lparr>g_record := len\<rparr>;
               s = s\<lparr>g_record_len := g_record_len s + len\<rparr>
           in Inr (0, s)
       else bindr (returns (put_from len 0 (print_buf s) s)) (\<lambda>s. Inr (word_of_nat len, s)))"

primrec replay_from :: "nat \<Rightarrow> nat \<Rightarrow> (nat \<Rightarrow> u8) \<Rightarrow> 'a machine_scheme \<Rightarrow> 'a machine_scheme res" where
  "replay_from 0 i b s = Inr s"
| "replay_from (Suc n) i b s =
     (if LOG_BUF_LEN \<le> i then Inl Out_of_bounds
      else bindr (returns (putchar (b i) s)) (replay_from n (Suc i) b))"

definition init_printk_done :: "'a console_state_scheme \<Rightarrow> 'a console_state_scheme res" where
  "init_printk_done s =
     (let s = s\<lparr>g_printk_status := PRINTK_STATUS_READY\<rparr>
      in bindr (replay_from (g_record_len s) 0 (log_buf s) s) (\<lambda>s.
           Inr (s\<lparr>g_record := 0, g_record_len := 0\<rparr>)))"

section \<open>What number prints\<close>

lemma pad_while_eq: "pad_while c sz = (replicate (nat sz) c, if 0 < sz then - 1 else sz - 1)"
proof (induction c sz rule: pad_while.induct)
  case (1 c sz)
  show ?case
  proof (cases "0 < sz")
    case True
    then have "nat sz = Suc (nat (sz - 1))" by simp
    with True 1 show ?thesis by (simp add: pad_while.simps [of c sz])
  qed (simp add: pad_while.simps [of c sz])
qed

lemma zeros_while_eq: "zeros_while i p = replicate (nat (p - i)) CHR ''0''"
proof (induction i p rule: zeros_while.induct)
  case (1 i p)
  show ?case
  proof (cases "i < p")
    case True
    then have "nat (p - i) = Suc (nat (p - 1 - i))" by simp
    with True 1 show ?thesis by (simp add: zeros_while.simps [of i p])
  qed (simp add: zeros_while.simps [of i p])
qed

definition digit_value :: "char \<Rightarrow> nat" where
  "digit_value c = (let k = of_char c in if k < 58 then k - 48 else if k < 91 then k - 55 else k - 87)"

primrec value_lsb :: "nat \<Rightarrow> string \<Rightarrow> nat" where
  "value_lsb b [] = 0"
| "value_lsb b (c # cs) = digit_value c + b * value_lsb b cs"

text \<open>The number a list of digits denotes, most significant first.\<close>

definition numeral_value :: "nat \<Rightarrow> string \<Rightarrow> nat" where
  "numeral_value b cs = foldl (\<lambda>v c. v * b + digit_value c) 0 cs"

lemma numeral_value_rev: "numeral_value b (rev cs) = value_lsb b cs"
  by (induction cs) (simp_all add: numeral_value_def)

definition lower_digits :: string where "lower_digits = ''0123456789abcdefghijklmnopqrstuvwxyz''"
definition upper_digits :: string where "upper_digits = ''0123456789ABCDEFGHIJKLMNOPQRSTUVWXYZ''"

lemma map_digit_value:
  "map digit_value lower_digits = [0..<36]" "map digit_value upper_digits = [0..<36]"
  by (simp_all add: lower_digits_def upper_digits_def digit_value_def upt_rec)

lemma digits_values: "k < 36 \<Longrightarrow> digit_value (lower_digits ! k) = k \<and> digit_value (upper_digits ! k) = k"
proof -
  assume k: "k < 36"
  have "length lower_digits = 36" "length upper_digits = 36"
    using map_digit_value [THEN arg_cong [where f = length]] by simp_all
  with k map_digit_value [THEN arg_cong [where f = "\<lambda>xs. xs ! k"]] show ?thesis by simp
qed

definition digit_table :: "string \<Rightarrow> bool" where
  "digit_table ds \<longleftrightarrow> ds = lower_digits \<or> ds = upper_digits"

lemma digit_table_value: "digit_table ds \<Longrightarrow> k < 36 \<Longrightarrow> digit_value (ds ! k) = k"
  using digits_values by (auto simp: digit_table_def)

lemma digits_lsb_value:
  assumes "digit_table ds" and "2 \<le> b" and "b \<le> 36"
  shows "value_lsb (unat b) (digits_lsb ds b num) = unat num"
  using assms
proof (induction ds b num rule: digits_lsb.induct)
  case (1 ds b num)
  show ?case
  proof (cases "num = 0")
    case True
    then show ?thesis by (simp add: digits_lsb.simps [of ds b])
  next
    case False
    have b: "2 \<le> unat b" "unat b \<le> 36" using 1(3,4) by (simp_all add: word_le_nat_alt)
    have "unat (num mod b) < 36" using b by (simp add: unat_mod) (meson mod_less_divisor order_less_le_trans zero_less_numeral less_le_trans)
    with 1 False show ?thesis
      by (simp add: digits_lsb.simps [of ds b num] digit_table_value unat_mod unat_div)
  qed
qed

lemma digits_lsb_length:
  assumes "2 \<le> b" and "num \<noteq> 0"
  shows "0 < length (digits_lsb ds b num) \<and> 2 ^ (length (digits_lsb ds b num) - 1) \<le> unat num"
  using assms
proof (induction ds b num rule: digits_lsb.induct)
  case (1 ds b num)
  have b: "2 \<le> unat b" using 1(2) by (simp add: word_le_nat_alt)
  show ?case
  proof (cases "num div b = 0")
    case True
    with 1(2,3) show ?thesis
      by (simp add: digits_lsb.simps [of ds b num] digits_lsb.simps [of ds b 0] unat_gt_0 Suc_le_eq)
  next
    case False
    with 1 have IH: "0 < length (digits_lsb ds b (num div b))" "2 ^ (length (digits_lsb ds b (num div b)) - 1) \<le> unat num div unat b"
      by (simp_all add: unat_div)
    have "unat num div unat b * 2 \<le> unat num"
      using b by (metis div_times_less_eq_dividend le_trans mult_le_mono2)
    with IH(2) have "2 * 2 ^ (length (digits_lsb ds b (num div b)) - 1) \<le> unat num" by simp
    with IH(1) 1(2,3) show ?thesis
      by (simp add: digits_lsb.simps [of ds b num] flip: power_Suc)
  qed
qed

lemma digits_lsb_last:
  assumes "digit_table ds" and "2 \<le> b" and "b \<le> 36" and "num \<noteq> 0"
  shows "digit_value (last (digits_lsb ds b num)) \<noteq> 0"
  using assms
proof (induction ds b num rule: digits_lsb.induct)
  case (1 ds b num)
  have b: "2 \<le> unat b" "unat b \<le> 36" using 1(3,4) by (simp_all add: word_le_nat_alt)
  show ?case
  proof (cases "num div b = 0")
    case True
    then have "unat num div unat b = 0" by (metis unat_div unat_0)
    then have lt: "unat num < unat b" using b by (simp add: div_eq_0_iff)
    then have "num mod b = num" by (simp add: word_unat_eq_iff unat_mod)
    moreover have "digit_value (ds ! unat num) = unat num" using lt b 1(2) by (intro digit_table_value) simp_all
    ultimately show ?thesis using True 1(3,5)
      by (simp add: digits_lsb.simps [of ds b num] digits_lsb.simps [of ds b 0] unat_eq_0)
  next
    case False
    with 1 digits_lsb_length [of b "num div b" ds] show ?thesis
      by (simp add: digits_lsb.simps [of ds b num])
  qed
qed

text \<open>The parts of what \<open>number\<close> prints.\<close>

definition sign_of :: "s32 \<Rightarrow> u64 \<Rightarrow> string" where
  "sign_of type num = (if type AND SIGN = 0 then ''''
     else if sint num < 0 then ''-'' else if type AND PLUS \<noteq> 0 then ''+'' else if type AND SPACE \<noteq> 0 then '' '' else '''')"

definition magnitude :: "s32 \<Rightarrow> u64 \<Rightarrow> u64" where
  "magnitude type num = (if type AND SIGN \<noteq> 0 \<and> sint num < 0 then - num else num)"

definition digit_chars :: "s32 \<Rightarrow> string" where
  "digit_chars type = (if type AND SMALL \<noteq> 0 then lower_digits else upper_digits)"

definition number_digits :: "s32 \<Rightarrow> u64 \<Rightarrow> int \<Rightarrow> string" where
  "number_digits type num base = (if magnitude type num = 0 then ''0''
     else digits_lsb (digit_chars type) (word_of_int base) (magnitude type num))"

definition number_prefix :: "s32 \<Rightarrow> int \<Rightarrow> string" where
  "number_prefix type base = (if type AND SPECIAL = 0 then '''' else if base = 8 then ''0''
     else if base = 16 then [CHR ''0'', digit_chars type ! 33] else '''')"

text \<open>The columns the sign takes from the width: none for a minus sign.\<close>

definition sign_columns :: "s32 \<Rightarrow> u64 \<Rightarrow> int" where
  "sign_columns type num = (if sint num < 0 then 0 else int (length (sign_of type num)))"

lemma left_clear:
  fixes t :: s32
  shows "(t AND NOT ZEROPAD) AND LEFT = t AND LEFT" "(t AND NOT ZEROPAD) AND SIGN = t AND SIGN"
    "(t AND NOT ZEROPAD) AND PLUS = t AND PLUS" "(t AND NOT ZEROPAD) AND SPACE = t AND SPACE"
    "(t AND NOT ZEROPAD) AND SPECIAL = t AND SPECIAL" "(t AND NOT ZEROPAD) AND ZEROPAD = 0"
    "t AND LEFT \<noteq> 0 \<Longrightarrow> (t AND NOT ZEROPAD) AND (ZEROPAD + LEFT) \<noteq> 0"
    "t AND LEFT = 0 \<Longrightarrow> t AND (ZEROPAD + LEFT) = 0 \<longleftrightarrow> t AND ZEROPAD = 0"
    "t AND LEFT \<noteq> 0 \<Longrightarrow> t AND (ZEROPAD + LEFT) \<noteq> 0"
proof -
  have d: "NOT ZEROPAD AND LEFT = LEFT" "NOT ZEROPAD AND SIGN = SIGN" "NOT ZEROPAD AND PLUS = PLUS"
    "NOT ZEROPAD AND SPACE = SPACE" "NOT ZEROPAD AND SPECIAL = SPECIAL" "NOT ZEROPAD AND ZEROPAD = 0"
    "NOT ZEROPAD AND (ZEROPAD + LEFT) = LEFT"
    by (simp_all add: printk_flags)
  have e: "ZEROPAD + LEFT = ZEROPAD OR LEFT" "(ZEROPAD + LEFT) AND LEFT = LEFT"
    by (simp_all add: printk_flags)
  show "(t AND NOT ZEROPAD) AND LEFT = t AND LEFT" "(t AND NOT ZEROPAD) AND SIGN = t AND SIGN"
    "(t AND NOT ZEROPAD) AND PLUS = t AND PLUS" "(t AND NOT ZEROPAD) AND SPACE = t AND SPACE"
    "(t AND NOT ZEROPAD) AND SPECIAL = t AND SPECIAL" "(t AND NOT ZEROPAD) AND ZEROPAD = 0"
    "t AND LEFT \<noteq> 0 \<Longrightarrow> (t AND NOT ZEROPAD) AND (ZEROPAD + LEFT) \<noteq> 0"
    by (simp_all only: and.assoc d) simp_all
  show "t AND LEFT = 0 \<Longrightarrow> t AND (ZEROPAD + LEFT) = 0 \<longleftrightarrow> t AND ZEROPAD = 0"
    by (simp add: e(1) bit.conj_disj_distrib)
  show "t AND LEFT \<noteq> 0 \<Longrightarrow> t AND (ZEROPAD + LEFT) \<noteq> 0"
  proof
    assume "t AND LEFT \<noteq> 0" and z: "t AND (ZEROPAD + LEFT) = 0"
    have "t AND LEFT = (t AND (ZEROPAD + LEFT)) AND LEFT" by (simp only: and.assoc e(2))
    then have "t AND LEFT = 0" by (simp only: z) simp
    with \<open>t AND LEFT \<noteq> 0\<close> show False ..
  qed
qed

lemma number_closed:
  assumes "2 \<le> base" and "base \<le> 36"
  shows "number num base sz prec type = Some (
     let ds = number_digits type num base; p = max (int (length ds)) prec;
         room = nat (sz - sign_columns type num - int (length (number_prefix type base)) - p)
     in (if type AND (ZEROPAD + LEFT) = 0 then replicate room (CHR '' '') else '''') @ sign_of type num @
        number_prefix type base @ (if type AND LEFT = 0 \<and> type AND ZEROPAD \<noteq> 0 then replicate room (CHR ''0'') else '''') @
        replicate (nat (p - int (length ds))) (CHR ''0'') @ rev ds @
        (if type AND LEFT \<noteq> 0 then replicate room (CHR '' '') else ''''))"
proof -
  define ds where "ds = number_digits type num base"
  have ds: "(if magnitude type num = 0 then ''0'' else digits_lsb (digit_chars type) (word_of_int base) (magnitude type num)) = ds"
    by (simp add: ds_def number_digits_def)
  define p where "p = max (int (length ds)) prec"
  have p: "(if prec < int (length ds) then int (length ds) else prec) = p" by (simp add: p_def)
  have sg: "(if t AND SIGN \<noteq> 0 then if sint num < 0 then (''-'', - num, sz)
         else if t AND PLUS \<noteq> 0 then (''+'', num, sz - 1) else if t AND SPACE \<noteq> 0 then ('' '', num, sz - 1) else ('''', num, sz)
       else ('''', num, sz)) = (sign_of t num, magnitude t num, sz - sign_columns t num)" for t
    by (auto simp: sign_of_def magnitude_def sign_columns_def)
  have sp: "(if t AND SPECIAL \<noteq> 0 then if base = 16 then k - 2 else if base = 8 then k - 1 else k else k)
      = k - int (length (number_prefix type base))" if "t AND SPECIAL = type AND SPECIAL" for k t
    using that by (simp add: number_prefix_def)
  have pre: "(if t AND SPECIAL \<noteq> 0 then if base = 8 then ''0'' else if base = 16 then [CHR ''0'', digit_chars type ! 33] else '''' else '''')
      = number_prefix type base" if "t AND SPECIAL = type AND SPECIAL" for t
    using that by (simp add: number_prefix_def)
  have lc: "sign_of (type AND NOT ZEROPAD) num = sign_of type num" "magnitude (type AND NOT ZEROPAD) num = magnitude type num"
    "sign_columns (type AND NOT ZEROPAD) num = sign_columns type num"
    by (simp_all add: sign_of_def magnitude_def sign_columns_def left_clear)
  note base = digit_chars_def [unfolded lower_digits_def upper_digits_def, symmetric]
  show ?thesis
  proof (cases "type AND LEFT = 0")
    case True
    then show ?thesis
      using assms unfolding number_def base
      by (cases "magnitude type num = 0"; simp add: sg lc sp pre number_digits_def pad_while_eq zeros_while_eq
          left_clear Let_def max_def)
  next
    case False
    then show ?thesis
      using assms unfolding number_def base
      by (cases "magnitude type num = 0"; simp add: sg lc sp pre number_digits_def pad_while_eq zeros_while_eq
          left_clear Let_def max_def)
  qed
qed

lemma number_digits_props:
  assumes "2 \<le> base" and "base \<le> 36"
  shows "numeral_value (nat base) (rev (number_digits type num base)) = unat (magnitude type num)"
    and "0 < length (number_digits type num base)" and "length (number_digits type num base) \<le> 64"
    and "magnitude type num \<noteq> 0 \<Longrightarrow> digit_value (hd (rev (number_digits type num base))) \<noteq> 0"
proof -
  define b :: u64 where "b = word_of_int base"
  let ?m = "magnitude type num"
  have ub: "unat b = nat base" using assms by (simp add: b_def unsigned_of_int take_bit_int_eq_self nat_less_iff)
  have b: "2 \<le> b" "b \<le> 36" using assms ub by (simp_all add: word_le_nat_alt)
  have t: "digit_table (digit_chars type)" by (simp add: digit_table_def digit_chars_def)
  have d0: "digit_value CHR ''0'' = 0" by (simp add: digit_value_def)
  show "numeral_value (nat base) (rev (number_digits type num base)) = unat ?m"
    using digits_lsb_value [OF t b, of ?m] d0
    by (simp add: numeral_value_rev number_digits_def ub flip: b_def)
  show "0 < length (number_digits type num base)"
    using digits_lsb_length [OF b(1), of ?m "digit_chars type"] by (auto simp: number_digits_def simp flip: b_def)
  show "length (number_digits type num base) \<le> 64"
  proof (cases "?m = 0")
    case False
    have "2 ^ (length (digits_lsb (digit_chars type) b ?m) - 1) \<le> unat ?m"
      using digits_lsb_length [OF b(1) False] by simp
    also have "\<dots> < 2 ^ 64" using unsigned_less [of ?m, where 'a = nat] by simp
    finally have "length (digits_lsb (digit_chars type) b ?m) - 1 < 64"
      by (rule power_less_imp_less_exp [rotated]) simp
    with False show ?thesis by (simp add: number_digits_def flip: b_def)
  qed (simp add: number_digits_def)
  assume nz: "?m \<noteq> 0"
  with digits_lsb_last [OF t b nz] digits_lsb_length [OF b(1) nz] show "digit_value (hd (rev (number_digits type num base))) \<noteq> 0"
    by (simp add: number_digits_def hd_rev flip: b_def)
qed

lemma number_plain:
  assumes "2 \<le> base" and "base \<le> 36" and "type AND SPECIAL = 0"
  shows "number num base (- 1) (- 1) type = Some (sign_of type num @ rev (number_digits type num base))"
proof -
  have "max (int (length (number_digits type num base))) (- 1) = int (length (number_digits type num base))" by simp
  moreover have "nat (- 1 - sign_columns type num - int (length (number_prefix type base)) - int (length (number_digits type num base))) = 0"
    by (simp add: sign_columns_def)
  moreover have "number_prefix type base = ''''" using assms(3) by (simp add: number_prefix_def)
  ultimately show ?thesis using assms(1,2) by (simp add: number_closed Let_def)
qed

text \<open>A decimal numeral with an optional minus sign.\<close>

definition int_value :: "string \<Rightarrow> int" where
  "int_value cs = (if cs \<noteq> '''' \<and> hd cs = CHR ''-'' then - int (numeral_value 10 (tl cs)) else int (numeral_value 10 cs))"

lemma unat_magnitude: "int (unat (magnitude SIGN num)) = \<bar>sint num\<bar>"
proof -
  have "magnitude SIGN num = word_of_int \<bar>sint num\<bar>"
    by (auto simp: magnitude_def printk_flags)
  then have "int (unat (magnitude SIGN num)) = take_bit 64 \<bar>sint num\<bar>"
    by (simp add: unsigned_of_int)
  also have "\<dots> = \<bar>sint num\<bar>"
    using sint_ge [of num] sint_lt [of num] by (intro take_bit_int_eq_self) auto
  finally show ?thesis .
qed

lemma digits_lsb_set:
  assumes "length ds = 36" and "2 \<le> b" and "b \<le> 36"
  shows "set (digits_lsb ds b m) \<subseteq> set ds"
  using assms
proof (induction ds b m rule: digits_lsb.induct)
  case (1 ds b m)
  have "2 \<le> unat b" "unat b \<le> 36" using 1(3,4) by (simp_all add: word_le_nat_alt)
  then have "unat (m mod b) < 36" by (simp add: unat_mod) (meson mod_less_divisor order_less_le_trans zero_less_numeral less_le_trans)
  with 1 show ?case by (auto simp: digits_lsb.simps [of ds b m])
qed

lemma number_signed:
  "\<exists>out. number num 10 (- 1) (- 1) SIGN = Some out \<and> int_value out = sint num \<and> length out \<le> 65"
proof -
  let ?ds = "rev (number_digits SIGN num 10)"
  have eq: "number num 10 (- 1) (- 1) SIGN = Some (sign_of SIGN num @ ?ds)"
    by (rule number_plain) (simp_all add: printk_flags)
  note props = number_digits_props [of 10 SIGN num, simplified]
  have nn: "?ds \<noteq> ''''" using props(2) by auto
  have h: "hd ?ds \<noteq> CHR ''-''"
  proof (cases "magnitude SIGN num = 0")
    case True
    then show ?thesis by (simp add: number_digits_def)
  next
    case False
    have "hd ?ds \<in> set (number_digits SIGN num 10)" using nn by (metis hd_in_set set_rev)
    moreover have "set (digits_lsb upper_digits 10 m) \<subseteq> set upper_digits" for m
      by (rule digits_lsb_set) (simp_all add: upper_digits_def)
    moreover have "CHR ''-'' \<notin> set upper_digits" by (simp add: upper_digits_def)
    moreover have "digit_chars SIGN = upper_digits" by (simp add: digit_chars_def printk_flags)
    ultimately have "hd ?ds \<in> set upper_digits" using False by (simp add: number_digits_def) blast
    with \<open>CHR ''-'' \<notin> set upper_digits\<close> show ?thesis by metis
  qed
  have v: "int (numeral_value 10 ?ds) = \<bar>sint num\<bar>" using props(1) unat_magnitude by simp
  have s: "sign_of SIGN num = (if sint num < 0 then ''-'' else '''')" by (simp add: sign_of_def printk_flags)
  show ?thesis using nn h v s props(3) by (auto simp: eq int_value_def)
qed

section \<open>Literal text and strings\<close>

definition plain :: "string \<Rightarrow> bool" where
  "plain cs \<longleftrightarrow> CHR 0x00 \<notin> set cs \<and> CHR ''%'' \<notin> set cs"

lemma emit_simps [simp]:
  "emit a (emit b st) = emit (b @ a) st" "emit '''' st = st" "p_out (emit a st) = p_out st @ a"
  "p_args (emit a st) = p_args st" "p_base (emit a st) = p_base st" "p_stores (emit a st) = p_stores st"
  by (simp_all add: emit_def)

lemma printf_loop_plain: "plain cs \<Longrightarrow> printf_loop (cs @ fmt) st = printf_loop fmt (emit cs st)"
proof (induction cs arbitrary: st)
  case Nil
  then show ?case by simp
next
  case (Cons c cs)
  then have "plain cs" "c \<noteq> CHR 0x00" "c \<noteq> CHR ''%''" by (auto simp: plain_def)
  with Cons.IH [of "emit [c] st"] show ?case
    by (simp add: printf_loop.simps [of "c # cs @ fmt"] peek_def)
qed

lemma printf_loop_Nil [simp]: "printf_loop '''' st = Inr st"
  by (simp add: printf_loop.simps [of "''''"] peek_def)

lemma printf_loop_conversion:
  "printf_loop (CHR ''%'' # fmt) st = (case conversion fmt st of Inl e \<Rightarrow> Inl e | Inr (rest, st) \<Rightarrow> printf_loop rest st)"
  by (simp add: printf_loop.simps [of "CHR ''%'' # fmt"] peek_def)

lemma pad_string_none: "w \<le> len \<Longrightarrow> pad_string len w = ('''', w - 1)"
  by (simp add: pad_string.simps)

lemma conversion_s:
  "conversion (CHR ''s'' # rest) st = bindr (va_string st) (\<lambda>(s, st). Inr (rest, emit s st))"
proof -
  have "take (nat (int (length s))) s = s" for s :: string by simp
  then show ?thesis
    by (cases "va_string st")
      (simp_all add: conversion_def peek_def is_digit_def parse_width_def parse_precision_def parse_qualifier_def
        conv_string_def pad_string_none Let_def split: prod.splits)
qed

lemma conversion_d:
  "conversion (CHR ''d'' # rest) st = bindr (va_word st) (\<lambda>(v, st).
     case number (scast (ucast v :: s32)) 10 (- 1) (- 1) SIGN of
       None \<Rightarrow> Inl Null_deref | Some out \<Rightarrow> Inr (rest, emit out (st\<lparr>p_base := Some 10\<rparr>)))"
proof -
  have "va_word (st\<lparr>p_base := b\<rparr>) = bindr (va_word st) (\<lambda>(v, st). Inr (v, st\<lparr>p_base := b\<rparr>))" for b
    by (auto simp: va_word_def split: list.splits varg.splits)
  moreover have "0 OR SIGN = SIGN" "SIGN \<noteq> 0" by (simp_all add: printk_flags)
  ultimately show ?thesis
    by (cases "va_word st")
      (auto simp: conversion_def peek_def is_digit_def parse_width_def parse_precision_def parse_qualifier_def
        conv_number_def Let_def split: option.splits)
qed

section \<open>What a format prints\<close>

text \<open>The numeral of a number in a base, as a reference for \<open>number\<close>.\<close>

fun numeral_of :: "string \<Rightarrow> nat \<Rightarrow> nat \<Rightarrow> string" where
  "numeral_of ds b n = (if b < 2 \<or> n < b then [ds ! n] else numeral_of ds b (n div b) @ [ds ! (n mod b)])"

declare numeral_of.simps [simp del]

definition decimal :: "int \<Rightarrow> string" where
  "decimal i = (if i < 0 then ''-'' else '''') @ numeral_of lower_digits 10 (nat \<bar>i\<bar>)"

definition hexadecimal :: "nat \<Rightarrow> string" where
  "hexadecimal n = numeral_of lower_digits 16 n"

lemma digits_lsb_numeral:
  assumes "2 \<le> b" and "m \<noteq> 0"
  shows "rev (digits_lsb ds b m) = numeral_of ds (unat b) (unat m)"
  using assms
proof (induction ds b m rule: digits_lsb.induct)
  case (1 ds b m)
  have b: "2 \<le> unat b" using 1(2) by (simp add: word_le_nat_alt)
  show ?case
  proof (cases "m div b = 0")
    case True
    then have "unat m div unat b = 0" by (simp add: unat_div flip: unat_eq_zero)
    then have "unat m < unat b" using b by (simp add: div_eq_0_iff)
    then show ?thesis using 1(2,3) True
      by (simp add: digits_lsb.simps [of ds b m] digits_lsb.simps [of ds b 0] numeral_of.simps [of ds "unat b"] unat_mod)
  next
    case False
    then have "unat m div unat b \<noteq> 0" by (simp add: unat_div flip: unat_eq_zero)
    then have "\<not> unat m < unat b" by auto
    then show ?thesis using 1 b False
      by (simp add: digits_lsb.simps [of ds b m] numeral_of.simps [of ds "unat b" "unat m"] unat_mod unat_div)
  qed
qed

lemma upper_lower_digits: "n < 10 \<Longrightarrow> upper_digits ! n = lower_digits ! n"
  by (auto simp: upper_digits_def lower_digits_def less_Suc_eq numeral_eq_Suc)

lemma numeral_of_upper: "numeral_of upper_digits 10 n = numeral_of lower_digits 10 n"
proof (induction n rule: less_induct)
  case (less n)
  then show ?case by (cases "n < 10") (simp_all add: numeral_of.simps [of _ 10 n] upper_lower_digits)
qed

lemma number_prints:
  assumes "2 \<le> base" and "base \<le> 36" and "type AND SPECIAL = 0"
  shows "number num base (- 1) (- 1) type = Some (sign_of type num @ numeral_of (digit_chars type) (nat base) (unat (magnitude type num)))"
proof -
  have b: "unat (word_of_int base :: u64) = nat base" "2 \<le> (word_of_int base :: u64)"
    using assms by (simp_all add: unsigned_of_int take_bit_int_eq_self nat_less_iff word_le_nat_alt)
  have "digit_chars type ! 0 = CHR ''0''" by (simp add: digit_chars_def lower_digits_def upper_digits_def)
  then have "rev (number_digits type num base) = numeral_of (digit_chars type) (nat base) (unat (magnitude type num))"
    using digits_lsb_numeral [OF b(2), of "magnitude type num" "digit_chars type"] b(1) assms(1)
    by (simp add: number_digits_def numeral_of.simps [of _ _ 0])
  then show ?thesis using number_plain [OF assms] by simp
qed

text \<open>A format in pieces: literal text and conversions with their arguments.\<close>

datatype piece = Lit string | Str string | Dec u64 | Unsigned u64 | Hex u64 | Long_unsigned u64 | Long_hex u64

fun fmt_of :: "piece \<Rightarrow> string" where
  "fmt_of (Lit cs) = cs"
| "fmt_of (Str s) = ''%s''"
| "fmt_of (Dec v) = ''%d''"
| "fmt_of (Unsigned v) = ''%u''"
| "fmt_of (Hex v) = ''%x''"
| "fmt_of (Long_unsigned v) = ''%lu''"
| "fmt_of (Long_hex v) = ''%lx''"

fun args_of :: "piece \<Rightarrow> varg list" where
  "args_of (Lit cs) = []"
| "args_of (Str s) = [Arg_str s]"
| "args_of (Dec v) = [Arg_word v]"
| "args_of (Unsigned v) = [Arg_word v]"
| "args_of (Hex v) = [Arg_word v]"
| "args_of (Long_unsigned v) = [Arg_word v]"
| "args_of (Long_hex v) = [Arg_word v]"

text \<open>What a piece prints. Without \<open>l\<close> a number is read as 32 bits.\<close>

fun text_of :: "piece \<Rightarrow> string" where
  "text_of (Lit cs) = cs"
| "text_of (Str s) = cstr s"
| "text_of (Dec v) = decimal (sint (ucast v :: s32))"
| "text_of (Unsigned v) = decimal (uint (ucast v :: u32))"
| "text_of (Hex v) = hexadecimal (unat (ucast v :: u32))"
| "text_of (Long_unsigned v) = decimal (uint v)"
| "text_of (Long_hex v) = hexadecimal (unat v)"

fun plain_piece :: "piece \<Rightarrow> bool" where
  "plain_piece (Lit cs) = plain cs"
| "plain_piece _ = True"

lemma number_decimal: "number num 10 (- 1) (- 1) SIGN = Some (decimal (sint num))"
proof -
  have "nat \<bar>sint num\<bar> = unat (magnitude SIGN num)" by (metis unat_magnitude nat_int)
  moreover have "digit_chars SIGN = upper_digits" "sign_of SIGN num = (if sint num < 0 then ''-'' else '''')"
    by (simp_all add: digit_chars_def sign_of_def printk_flags)
  ultimately show ?thesis
    by (subst number_prints) (simp_all add: decimal_def numeral_of_upper, simp add: printk_flags)
qed

lemma number_unsigned: "number num 10 (- 1) (- 1) 0 = Some (decimal (uint num))"
  by (subst number_prints) (simp_all add: decimal_def numeral_of_upper sign_of_def digit_chars_def magnitude_def)

lemma number_hex: "number num 16 (- 1) (- 1) SMALL = Some (hexadecimal (unat num))"
  by (subst number_prints) (simp_all add: hexadecimal_def sign_of_def digit_chars_def magnitude_def printk_flags)

lemma va_word_base: "va_word (st\<lparr>p_base := b\<rparr>) = bindr (va_word st) (\<lambda>(v, st). Inr (v, st\<lparr>p_base := b\<rparr>))"
  by (auto simp: va_word_def split: list.splits varg.splits)

lemma sint_scast_32: "sint (scast (w :: s32) :: u64) = sint w"
  using sint_ge [of w] sint_lt [of w] by (simp add: signed_scast_eq signed_take_bit_int_eq_self)

lemma uint_ucast_32: "uint (ucast (w :: u32) :: u64) = uint w" "unat (ucast (w :: u32) :: u64) = unat w"
  using uint_lt2p [of w] by (simp_all add: unsigned_ucast_eq take_bit_word_beyond_length_eq take_bit_int_eq_self)

lemmas conversion_steps = conversion_def peek_def is_digit_def parse_width_def parse_precision_def parse_qualifier_def
  conv_number_def Let_def va_word_base va_word_def emit_def bindr_assoc

lemma piece_printed:
  assumes "plain_piece p" and "p_args st = args_of p @ args"
  shows "\<exists>b. printf_loop (fmt_of p @ fmt) st = printf_loop fmt (st\<lparr>p_out := p_out st @ text_of p, p_args := args, p_base := b\<rparr>)"
proof (cases p)
  case (Lit cs)
  then show ?thesis using assms printf_loop_plain [of cs fmt st] by (intro exI [of _ "p_base st"]) (cases st, simp add: emit_def)
next
  case (Str s)
  then show ?thesis using assms by (intro exI [of _ "p_base st"]) (cases st, simp add: printf_loop_conversion conversion_s va_string_def emit_def)
next
  case (Dec v)
  then show ?thesis using assms
    by (intro exI [of _ "Some 10"]) (cases st, simp add: printf_loop_conversion conversion_d va_word_def emit_def number_decimal sint_scast_32)
next
  case (Unsigned v)
  have "number (ucast (ucast v :: u32)) 10 (- 1) (- 1) 0 = Some (text_of p)" by (simp add: number_unsigned uint_ucast_32 Unsigned)
  then show ?thesis using assms Unsigned
    by (intro exI [of _ "Some 10"]) (cases st, simp add: printf_loop_conversion conversion_steps printk_flags)
next
  case (Hex v)
  have "number (ucast (ucast v :: u32)) 16 (- 1) (- 1) SMALL = Some (text_of p)" by (simp add: number_hex uint_ucast_32 Hex)
  then show ?thesis using assms Hex
    by (intro exI [of _ "Some 16"]) (cases st, simp add: printf_loop_conversion conversion_steps printk_flags)
next
  case (Long_unsigned v)
  have "number v 10 (- 1) (- 1) 0 = Some (text_of p)" by (simp add: number_unsigned Long_unsigned)
  then show ?thesis using assms Long_unsigned
    by (intro exI [of _ "Some 10"]) (cases st, simp add: printf_loop_conversion conversion_steps printk_flags)
next
  case (Long_hex v)
  have "number v 16 (- 1) (- 1) SMALL = Some (text_of p)" by (simp add: number_hex Long_hex)
  then show ?thesis using assms Long_hex
    by (intro exI [of _ "Some 16"]) (cases st, simp add: printf_loop_conversion conversion_steps printk_flags)
qed

lemma pieces_printed:
  assumes "\<forall>p \<in> set ps. plain_piece p" and "p_args st = concat (map args_of ps)"
  shows "\<exists>b. printf_loop (concat (map fmt_of ps)) st = Inr (st\<lparr>p_out := p_out st @ concat (map text_of ps), p_args := [], p_base := b\<rparr>)"
  using assms
proof (induction ps arbitrary: st)
  case Nil
  then show ?case by (intro exI [of _ "p_base st"]) (cases st, simp)
next
  case (Cons p ps)
  from Cons.prems piece_printed [of p st "concat (map args_of ps)" "concat (map fmt_of ps)"] obtain b where
    "printf_loop (concat (map fmt_of (p # ps))) st =
       printf_loop (concat (map fmt_of ps)) (st\<lparr>p_out := p_out st @ text_of p, p_args := concat (map args_of ps), p_base := b\<rparr>)"
    by auto
  with Cons.IH [of "st\<lparr>p_out := p_out st @ text_of p, p_args := concat (map args_of ps), p_base := b\<rparr>"] Cons.prems(1)
  show ?case by simp
qed

lemma myprintf_pieces:
  assumes "\<forall>p \<in> set ps. plain_piece p"
  shows "\<exists>b. myprintf (concat (map fmt_of ps)) (concat (map args_of ps)) =
     Inr \<lparr>p_out = concat (map text_of ps), p_args = [], p_base = b, p_stores = []\<rparr>"
  using pieces_printed [OF assms, of "\<lparr>p_out = [], p_args = concat (map args_of ps), p_base = None, p_stores = []\<rparr>"]
  by (simp add: myprintf_def)

section \<open>Output on the console\<close>

lemma put_from_sent:
  assumes "uart_live s" and "i + n \<le> 1024"
  shows "\<exists>s'. put_from n i b s = Some s' \<and> sent (crlf (map b [i..<i + n])) s s'"
  using assms
proof (induction n arbitrary: i s)
  case 0
  then show ?case by (simp add: crlf_def sent_Nil)
next
  case (Suc n)
  from putchar_sent [OF Suc.prems(1), of "b i"] obtain s1 where
    s1: "putchar (b i) s = Some s1" "sent (crlf [b i]) s s1" by blast
  from Suc.IH [of s1 "Suc i"] Suc.prems sent_live [OF s1(2)] obtain s2 where
    s2: "put_from n (Suc i) b s1 = Some s2" "sent (crlf (map b [Suc i..<i + Suc n])) s1 s2" by auto
  have "crlf [b i] @ crlf (map b [Suc i..<i + Suc n]) = crlf (map b [i..<i + Suc n])"
    by (simp add: crlf_def upt_conv_Cons del: upt_Suc)
  with sent_trans [OF s1(2) s2(2)] s1(1) s2(1) Suc.prems(2) show ?case
    by (simp add: CONSOLE_PRINT_BUFFER_SIZE_def)
qed

text \<open>The bytes of the characters the format produces.\<close>

definition bytes_of :: "string \<Rightarrow> u8 list" where
  "bytes_of cs = map of_char cs"

lemma format_ok:
  assumes "myprintf fmt args = Inr st" and "length (p_out st) < 1024" and "p_stores st = []"
  shows "\<exists>b. format fmt args s = Inr (length (p_out st), s\<lparr>print_buf := b\<rparr>) \<and>
     map b [0..<length (p_out st)] = bytes_of (p_out st)"
  using assms by (auto simp: format_def CONSOLE_PRINT_BUFFER_SIZE_def Let_def bytes_of_def intro!: nth_equalityI)

lemma printk_ready:
  assumes "myprintf fmt args = Inr st" and "length (p_out st) < 1024" and "p_stores st = []"
    and "g_printk_status s = PRINTK_STATUS_READY" and "uart_live s"
  shows "\<exists>s'. printk fmt args s = Inr (word_of_nat (length (p_out st)), s') \<and>
     tx s' = tx s @ map ucast (crlf (bytes_of (p_out st))) \<and> mem s' = mem s"
proof -
  let ?n = "length (p_out st)"
  from format_ok [OF assms(1-3), of s] obtain b where
    b: "format fmt args s = Inr (?n, s\<lparr>print_buf := b\<rparr>)" "map b [0..<?n] = bytes_of (p_out st)" by blast
  have "uart_live (s\<lparr>print_buf := b\<rparr>)" using assms(5) by (simp add: uart_live_def)
  from put_from_sent [OF this, of 0 ?n b] assms(2) b(2) obtain s' where
    s': "put_from ?n 0 b (s\<lparr>print_buf := b\<rparr>) = Some s'" "sent (crlf (bytes_of (p_out st))) (s\<lparr>print_buf := b\<rparr>) s'" by auto
  have "tx (s\<lparr>print_buf := b\<rparr>) = tx s" by (simp add: tx_def)
  with s' assms(4) show ?thesis by (auto simp: printk_def b(1) sent_def)
qed

section \<open>The early log\<close>

definition recorded :: "'a console_state_scheme \<Rightarrow> u8 list" where
  "recorded s = map (log_buf s) [0..<g_record_len s]"

text \<open>A message before the console is ready is copied to the place \<open>g_record\<close> points at.\<close>

lemma printk_early:
  assumes "myprintf fmt args = Inr st" and "length (p_out st) < 1024" and "p_stores st = []"
    and "g_printk_status s = PRINTK_STATUS_DOWN" and "g_record s + length (p_out st) \<le> 131072"
  shows "\<exists>s'. printk fmt args s = Inr (0, s') \<and> g_record s' = length (p_out st) \<and>
     g_record_len s' = g_record_len s + length (p_out st) \<and> g_printk_status s' = PRINTK_STATUS_DOWN \<and>
     log_buf s' = (\<lambda>i. if g_record s \<le> i \<and> i < g_record s + length (p_out st)
       then bytes_of (p_out st) ! (i - g_record s) else log_buf s i) \<and> hw_trace s' = hw_trace s \<and> io_dev s' = io_dev s"
proof -
  let ?n = "length (p_out st)"
  from format_ok [OF assms(1-3), of s] obtain b where
    b: "format fmt args s = Inr (?n, s\<lparr>print_buf := b\<rparr>)" "map b [0..<?n] = bytes_of (p_out st)" by blast
  have "b j = bytes_of (p_out st) ! j" if "j < ?n" for j
    using b(2) that by (metis add_cancel_left_left diff_zero length_upt nth_map_upt)
  then have "(\<lambda>i. if g_record s \<le> i \<and> i < g_record s + ?n then b (i - g_record s) else log_buf s i) =
      (\<lambda>i. if g_record s \<le> i \<and> i < g_record s + ?n then bytes_of (p_out st) ! (i - g_record s) else log_buf s i)"
    by (intro ext) auto
  with b(1) assms(4,5) show ?thesis by (simp add: printk_def LOG_BUF_LEN_def Let_def cong: if_cong)
qed

lemma replay_from_sent:
  assumes "uart_live s" and "i + n \<le> 131072"
  shows "\<exists>s'. replay_from n i b s = Inr s' \<and> sent (crlf (map b [i..<i + n])) s s'"
  using assms
proof (induction n arbitrary: i s)
  case 0
  then show ?case by (simp add: crlf_def sent_Nil)
next
  case (Suc n)
  from putchar_sent [OF Suc.prems(1), of "b i"] obtain s1 where
    s1: "putchar (b i) s = Some s1" "sent (crlf [b i]) s s1" by blast
  from Suc.IH [of s1 "Suc i"] Suc.prems sent_live [OF s1(2)] obtain s2 where
    s2: "replay_from n (Suc i) b s1 = Inr s2" "sent (crlf (map b [Suc i..<i + Suc n])) s1 s2" by auto
  have "crlf [b i] @ crlf (map b [Suc i..<i + Suc n]) = crlf (map b [i..<i + Suc n])"
    by (simp add: crlf_def upt_conv_Cons del: upt_Suc)
  with sent_trans [OF s1(2) s2(2)] s1(1) s2(1) Suc.prems(2) show ?case
    by (simp add: LOG_BUF_LEN_def)
qed

lemma init_printk_replays:
  assumes "uart_live s" and "g_record_len s \<le> 131072"
  shows "\<exists>s'. init_printk_done s = Inr s' \<and> tx s' = tx s @ map ucast (crlf (recorded s)) \<and>
     g_printk_status s' = PRINTK_STATUS_READY \<and> g_record s' = 0 \<and> g_record_len s' = 0"
proof -
  let ?s = "s\<lparr>g_printk_status := PRINTK_STATUS_READY\<rparr>"
  have "uart_live ?s" using assms(1) by (simp add: uart_live_def)
  from replay_from_sent [OF this, of 0 "g_record_len s" "log_buf s"] assms(2) obtain s1 where
    s1: "replay_from (g_record_len s) 0 (log_buf s) ?s = Inr s1" "sent (crlf (recorded s)) ?s s1"
    by (auto simp: recorded_def)
  have "tx ?s = tx s" "tx (s1\<lparr>g_record := 0, g_record_len := 0\<rparr>) = tx s1" by (simp_all add: tx_def)
  with s1 show ?thesis by (auto simp: init_printk_done_def Let_def sent_def)
qed

section \<open>A concrete state\<close>

definition demo_console :: "printk_status \<Rightarrow> console_state" where
  "demo_console status = machine.extend demo_uart
     (console_state.fields (\<lambda>_. 0) (\<lambda>_. 0) status 0 0)"

lemma demo_console_simps:
  "uart_live (demo_console st)" "g_printk_status (demo_console st) = st" "g_record (demo_console st) = 0"
  "g_record_len (demo_console st) = 0" "tx (demo_console st) = []"
  using demo_uart_live
  by (simp_all add: demo_console_def uart_live_def machine.extend_def console_state.fields_def tx_def)
    (simp add: demo_uart_def machine0_def map_filter_def)

section \<open>Properties\<close>

text \<open>C32. Printing a number and reading it back: for every base the code accepts, with no width, precision
  or prefix, \<open>number\<close> returns the numeral of the number in that base, without leading zeros and in at most 64
  digits, so that its temporary array of 128 characters is large enough.\<close>

theorem number_roundtrip:
  assumes "2 \<le> base" and "base \<le> 36" and "type AND SPECIAL = 0" and "type AND SIGN = 0"
  shows "\<exists>out. number num base (- 1) (- 1) type = Some out \<and> numeral_value (nat base) out = unat num \<and>
     0 < length out \<and> length out \<le> 64 \<and> (num = 0 \<or> digit_value (hd out) \<noteq> 0)"
proof -
  have "magnitude type num = num" "sign_of type num = ''''" using assms(4) by (simp_all add: magnitude_def sign_of_def)
  with number_plain [OF assms(1-3), of num] number_digits_props [OF assms(1,2), of type num]
  show ?thesis by (cases "num = 0") simp_all
qed

theorem number_roundtrip_witness:
  "\<exists>out. number 0x1F4 16 (- 1) (- 1) SMALL = Some out \<and> numeral_value 16 out = 500"
  using number_roundtrip [of 16 SMALL "0x1F4"] by (auto simp: printk_flags)

text \<open>The width: a number fills exactly the requested columns, or takes the columns it needs when that is
  more; but the minus sign of a negative number is not counted, so that it takes one column more.\<close>

theorem number_width:
  assumes "2 \<le> base" and "base \<le> 36"
  shows "\<exists>out. number num base sz prec type = Some out \<and>
     int (length out) = (if type AND SIGN \<noteq> 0 \<and> sint num < 0 then 1 else 0) +
       max sz ((if type AND SIGN = 0 \<or> sint num < 0 then 0 else int (length (sign_of type num))) +
         int (length (number_prefix type base)) + max (int (length (number_digits type num base))) prec)"
proof -
  let ?d = "int (length (number_digits type num base))" and ?x = "int (length (number_prefix type base))"
  let ?room = "nat (sz - sign_columns type num - ?x - max ?d prec)"
  have "int (length (the (number num base sz prec type))) =
      int ?room + int (length (sign_of type num)) + ?x + max ?d prec"
    using assms by (auto simp: number_closed Let_def left_clear)
  moreover have "int (length (sign_of type num)) = (if type AND SIGN \<noteq> 0 \<and> sint num < 0 then 1 else 0) + sign_columns type num"
    "sign_columns type num = (if type AND SIGN = 0 \<or> sint num < 0 then 0 else int (length (sign_of type num)))"
    by (auto simp: sign_columns_def sign_of_def)
  ultimately have "int (length (the (number num base sz prec type))) = (if type AND SIGN \<noteq> 0 \<and> sint num < 0 then 1 else 0) +
      max sz (sign_columns type num + ?x + max ?d prec)" by linarith
  with assms \<open>sign_columns type num = _\<close> show ?thesis
    by (intro exI [of _ "the (number num base sz prec type)"]) (simp add: number_closed Let_def)
qed

theorem number_width_witness:
  "\<exists>out. number (- 5) 10 4 (- 1) SIGN = Some out \<and> length out = 5"
proof -
  have "number_digits SIGN (- 5) 10 = ''5''"
    by (simp add: number_digits_def magnitude_def printk_flags digit_chars_def upper_digits_def
        digits_lsb.simps [of _ 10 5] digits_lsb.simps [of _ 10 0])
  with number_width [of 10 "- 5" 4 "- 1" SIGN] show ?thesis by (auto simp: printk_flags number_prefix_def)
qed

text \<open>A format of literal text around one \<open>%s\<close> or \<open>%d\<close> prints the text around the string, or around the
  decimal numeral of the argument read as a 32-bit signed integer.\<close>

theorem myprintf_string_and_decimal:
  assumes "plain pre" and "plain post"
  shows "(\<exists>st. myprintf (pre @ ''%s'' @ post) [Arg_str s] = Inr st \<and> p_out st = pre @ cstr s @ post) \<and>
     (\<exists>st out. myprintf (pre @ ''%d'' @ post) [Arg_word v] = Inr st \<and> p_out st = pre @ out @ post \<and>
        int_value out = sint (ucast v :: s32) \<and> length out \<le> 65)"
proof (intro conjI)
  have fin: "printf_loop post st = Inr (emit post st)" for st
    using printf_loop_plain [OF assms(2), of "''''" st] by simp
  show "\<exists>st. myprintf (pre @ ''%s'' @ post) [Arg_str s] = Inr st \<and> p_out st = pre @ cstr s @ post"
    by (simp add: myprintf_def printf_loop_plain [OF assms(1)] printf_loop_conversion conversion_s va_string_def fin)
  obtain out where o: "number (scast (ucast v :: s32)) 10 (- 1) (- 1) SIGN = Some out"
    "int_value out = sint (scast (ucast v :: s32) :: u64)" "length out \<le> 65"
    using number_signed by blast
  have "sint (scast (ucast v :: s32) :: u64) = sint (ucast v :: s32)"
    using sint_ge [of "ucast v :: s32"] sint_lt [of "ucast v :: s32"]
    by (simp add: signed_scast_eq signed_take_bit_int_eq_self)
  with o show "\<exists>st out. myprintf (pre @ ''%d'' @ post) [Arg_word v] = Inr st \<and> p_out st = pre @ out @ post \<and>
      int_value out = sint (ucast v :: s32) \<and> length out \<le> 65"
    by (intro exI [of _ "\<lparr>p_out = pre @ out @ post, p_args = [], p_base = Some 10, p_stores = []\<rparr>"] exI [of _ out])
      (simp add: myprintf_def printf_loop_plain [OF assms(1)] printf_loop_conversion conversion_d va_word_def fin emit_def)
qed

theorem myprintf_string_and_decimal_witness:
  "\<exists>st. myprintf ''pid %s!'' [Arg_str ''ab''] = Inr st \<and> p_out st = ''pid ab!''"
  using myprintf_string_and_decimal [of "''pid ''" "''!''" "''ab''" 0] by (simp add: plain_def cstr_def)

text \<open>A doubled percent sign after literal text is not printable: the default case of the conversion falls
  through to the output of a number in a base that no conversion has set.\<close>

theorem myprintf_percent_faults:
  assumes "plain pre"
  shows "\<exists>e. myprintf (pre @ ''%%'' @ post) args = Inl e \<and> (e = Uninit_read \<or> e = Bad_pointer)"
proof -
  have "conversion (CHR ''%'' # post) (emit pre \<lparr>p_out = [], p_args = args, p_base = None, p_stores = []\<rparr>) \<in> {Inl Uninit_read, Inl Bad_pointer}"
    by (auto simp: conversion_def peek_def is_digit_def parse_width_def parse_precision_def parse_qualifier_def
        conv_number_def Let_def va_word_def split: list.splits varg.splits)
  then show ?thesis
    by (auto simp: myprintf_def printf_loop_plain [OF assms] printf_loop_conversion)
qed

theorem myprintf_percent_faults_witness: "\<exists>e. myprintf ''100%% '' [] = Inl e"
  using myprintf_percent_faults [of "''100''" "'' ''" "[]"] by (auto simp: plain_def)

text \<open>C33. Once the console is ready, \<open>printk\<close> of a format made of literal text and the conversions \<open>%s\<close>, \<open>%d\<close>, \<open>%u\<close>, \<open>%x\<close>,
  \<open>%lu\<close> and \<open>%lx\<close>, in any number and order, with the arguments they take, sends exactly the text with each string up to its first
  null byte, each number in decimal or hexadecimal without leading zeros, read as 32 bits when there is no \<open>l\<close>, and each line
  feed preceded by a carriage return, and returns the number of characters, if they are fewer than 1024.\<close>

theorem printk_prints:
  assumes "\<forall>p \<in> set ps. plain_piece p" and "length (concat (map text_of ps)) < 1024"
    and "g_printk_status s = PRINTK_STATUS_READY" and "uart_live s"
  shows "\<exists>s'. printk (concat (map fmt_of ps)) (concat (map args_of ps)) s = Inr (word_of_nat (length (concat (map text_of ps))), s') \<and>
     tx s' = tx s @ map ucast (crlf (bytes_of (concat (map text_of ps)))) \<and> mem s' = mem s"
proof -
  obtain b where "myprintf (concat (map fmt_of ps)) (concat (map args_of ps)) =
     Inr \<lparr>p_out = concat (map text_of ps), p_args = [], p_base = b, p_stores = []\<rparr>" using myprintf_pieces [OF assms(1)] by blast
  from printk_ready [OF this] assms(2-4) show ?thesis by simp
qed

lemma demo_numerals: "decimal (- 7) = ''-7''" "decimal 42 = ''42''" "hexadecimal 0x1f = ''1f''"
  by (simp_all add: decimal_def hexadecimal_def numeral_of.simps lower_digits_def)

theorem printk_prints_witness:
  "\<exists>s'. printk (''pid %d %s 0x%x'' @ [CHR 0x0A]) [Arg_word (- 7), Arg_str ''ab'', Arg_word 0x1f] (demo_console PRINTK_STATUS_READY) = Inr (15, s') \<and>
     tx s' = map ucast (bytes_of ''pid -7 ab 0x1f'') @ [13, 10]"
proof -
  let ?ps = "[Lit ''pid '', Dec (- 7), Lit '' '', Str ''ab'', Lit '' 0x'', Hex 0x1f, Lit [CHR 0x0A]]"
  have 1: "\<forall>p \<in> set ?ps. plain_piece p" by (simp add: plain_def)
  have 2: "concat (map text_of ?ps) = ''pid -7 ab 0x1f'' @ [CHR 0x0A]" by (simp add: demo_numerals cstr_def)
  have 3: "length (concat (map text_of ?ps)) < 1024" unfolding 2 by simp
  from printk_prints [OF 1 3, of "demo_console PRINTK_STATUS_READY"] show ?thesis unfolding 2
    by (auto simp: demo_console_simps bytes_of_def crlf_def)
qed

text \<open>\<open>printk\<close> writes outside its buffer for every string of 1024 characters or more: the size that
  \<open>myprintf\<close> is given bounds nothing.\<close>

theorem printk_overflow:
  assumes "1024 \<le> length (cstr str)"
  shows "printk ''%s'' [Arg_str str] s = Inl Out_of_bounds"
proof -
  have "myprintf ''%s'' [Arg_str str] = Inr \<lparr>p_out = cstr str, p_args = [], p_base = None, p_stores = []\<rparr>"
    by (simp add: myprintf_def printf_loop_conversion conversion_s va_string_def emit_def)
  with assms show ?thesis by (simp add: printk_def format_def CONSOLE_PRINT_BUFFER_SIZE_def)
qed

theorem printk_overflow_witness:
  "printk ''%s'' [Arg_str (replicate 1024 (CHR ''a''))] (demo_console PRINTK_STATUS_READY) = Inl Out_of_bounds"
  by (rule printk_overflow) (simp add: cstr_def takeWhile_replicate)

text \<open>The log of early messages: the first two messages after the start are recorded one after the other
  and come out complete when the console is initialised; a third one is written over the second, at the
  length of the second instead of behind it, so that the end of the record is never written.\<close>

theorem early_log_two_messages:
  assumes "plain a" and "plain b" and "plain c" and "a \<noteq> ''''" and "c \<noteq> ''''"
    and "length a < 1024" and "length b < 1024" and "length c < 1024"
    and "g_printk_status s = PRINTK_STATUS_DOWN" and "g_record s = 0" and "g_record_len s = 0" and "uart_live s"
  shows "\<exists>s1 s2 s3 r. printk a [] s = Inr (0, s1) \<and> printk b [] s1 = Inr (0, s2) \<and> printk c [] s2 = Inr (0, s3) \<and>
     recorded s2 = bytes_of (a @ b) \<and>
     init_printk_done s2 = Inr r \<and> tx r = tx s @ map ucast (crlf (bytes_of (a @ b))) \<and>
     length (recorded s3) = length (a @ b @ c) \<and> last (recorded s3) = log_buf s (length (a @ b @ c) - 1)"
proof -
  have p: "myprintf m [] = Inr \<lparr>p_out = m, p_args = [], p_base = None, p_stores = []\<rparr>" if "plain m" for m
    using printf_loop_plain [OF that, of "''''"] by (simp add: myprintf_def emit_def)
  obtain s1 where s1: "printk a [] s = Inr (0, s1)" "g_record s1 = length a" "g_record_len s1 = length a"
    "g_printk_status s1 = PRINTK_STATUS_DOWN" "log_buf s1 = (\<lambda>i. if i < length a then bytes_of a ! i else log_buf s i)"
    "hw_trace s1 = hw_trace s" "io_dev s1 = io_dev s"
    using printk_early [OF p [OF assms(1)], of s] assms(6,9,10,11) by (auto cong: if_cong)
  obtain s2 where s2: "printk b [] s1 = Inr (0, s2)" "g_record s2 = length b" "g_record_len s2 = length a + length b"
    "g_printk_status s2 = PRINTK_STATUS_DOWN"
    "log_buf s2 = (\<lambda>i. if length a \<le> i \<and> i < length a + length b then bytes_of b ! (i - length a) else log_buf s1 i)"
    "hw_trace s2 = hw_trace s" "io_dev s2 = io_dev s"
    using printk_early [OF p [OF assms(2)], of s1] assms(6,7) s1 by (auto cong: if_cong)
  obtain s3 where s3: "printk c [] s2 = Inr (0, s3)" "g_record_len s3 = length a + length b + length c"
    "log_buf s3 = (\<lambda>i. if length b \<le> i \<and> i < length b + length c then bytes_of c ! (i - length b) else log_buf s2 i)"
    using printk_early [OF p [OF assms(3)], of s2] assms(7,8) s2 by (auto cong: if_cong)
  have rec: "recorded s2 = bytes_of (a @ b)"
    by (rule nth_equalityI) (auto simp: recorded_def s2(3,5) s1(5) bytes_of_def nth_append)
  have "uart_live s2" using assms(12) s2(7) by (simp add: uart_live_def)
  moreover have "g_record_len s2 \<le> 131072" using assms(6,7) s2(3) by simp
  ultimately obtain r where r: "init_printk_done s2 = Inr r" "tx r = tx s2 @ map ucast (crlf (recorded s2))"
    using init_printk_replays by blast
  have "tx s2 = tx s" by (simp add: tx_def s2(6))
  moreover have "last (recorded s3) = log_buf s3 (length a + length b + length c - 1)"
    using assms(4) by (simp add: recorded_def s3(2) last_map)
  then have "last (recorded s3) = log_buf s (length a + length b + length c - 1)"
    using assms(4,5) by (auto simp: s3(3) s2(5) s1(5) Suc_le_eq simp flip: length_greater_0_conv)
  ultimately show ?thesis
    using s1(1) s2(1) s3(1) rec r
    by (intro exI [of _ s1] exI [of _ s2] exI [of _ s3] exI [of _ r]) (simp add: recorded_def s3(2) add.assoc)
qed

theorem early_log_two_messages_witness:
  "\<exists>s1 s2 s3. printk ''ab'' [] (demo_console PRINTK_STATUS_DOWN) = Inr (0, s1) \<and> printk ''c'' [] s1 = Inr (0, s2) \<and>
     printk ''d'' [] s2 = Inr (0, s3) \<and> recorded s2 = bytes_of ''abc'' \<and> last (recorded s3) = 0"
proof -
  have "log_buf (demo_console PRINTK_STATUS_DOWN) i = 0" for i
    by (simp add: demo_console_def machine.extend_def console_state.fields_def)
  with early_log_two_messages [of "''ab''" "''c''" "''d''" "demo_console PRINTK_STATUS_DOWN"] show ?thesis
    by (auto simp: plain_def demo_console_simps)
qed

end
