(* ===== verification/Pgtable.thy ===== *)
theory Pgtable
  imports Byte_Memory Page_Alloc
begin

text \<open>
  The translation tables: the constants of \<^verbatim>\<open>asm/pgtable_hwdef.h\<close> and \<^verbatim>\<open>asm/pgtable_prot.h\<close>, the
  accessors of \<^verbatim>\<open>asm/pgtable.h\<close>, and the translation the hardware makes with a table of this format
  (4 levels, 4 KB granule, 48-bit addresses). The one-field structures \<open>pgd_t\<close>, \<open>pud_t\<close>, \<open>pmd_t\<close> and
  \<open>pte_t\<close> are their 64-bit value, a pointer to one is the address of its 8 bytes in the memory.
  The second half abstracts from the bytes: \<open>ent\<close> is an entry of a table, \<open>tab\<close> the table used
  for an address at a level, \<open>pt_inv\<close> says that the tables form a tree of used pages. The
  functions of mmu.c are proved on this level.
\<close>

section \<open>asm/pgtable_hwdef.h\<close>

definition VA_BITS :: nat where "VA_BITS = 48"

definition PGDIR_SHIFT :: nat where "PGDIR_SHIFT = 39"
definition PGDIR_SIZE :: u64 where "PGDIR_SIZE = push_bit PGDIR_SHIFT 1"
definition PGDIR_MASK :: u64 where "PGDIR_MASK = NOT (PGDIR_SIZE - 1)"
definition PTRS_PER_PGD :: s32 where "PTRS_PER_PGD = push_bit (VA_BITS - PGDIR_SHIFT) 1"

definition PUD_SHIFT :: nat where "PUD_SHIFT = 30"
definition PUD_SIZE :: u64 where "PUD_SIZE = push_bit PUD_SHIFT 1"
definition PUD_MASK :: u64 where "PUD_MASK = NOT (PUD_SIZE - 1)"
definition PTRS_PER_PUD :: s32 where "PTRS_PER_PUD = push_bit (PGDIR_SHIFT - PUD_SHIFT) 1"

definition PMD_SHIFT :: nat where "PMD_SHIFT = 21"
definition PMD_SIZE :: u64 where "PMD_SIZE = push_bit PMD_SHIFT 1"
definition PMD_MASK :: u64 where "PMD_MASK = NOT (PMD_SIZE - 1)"
definition PTRS_PER_PMD :: s32 where "PTRS_PER_PMD = push_bit (PUD_SHIFT - PMD_SHIFT) 1"

definition PTRS_PER_PTE :: s32 where "PTRS_PER_PTE = push_bit (PMD_SHIFT - 12) 1"

definition PG_SECTION_SIZE :: u64 where "PG_SECTION_SIZE = push_bit PMD_SHIFT 1"
definition PG_SECTION_MASK :: u64 where "PG_SECTION_MASK = NOT (PG_SECTION_SIZE - 1)"

definition PUD_TYPE_TABLE :: u64 where "PUD_TYPE_TABLE = push_bit 0 3"
definition PUD_TYPE_MASK :: u64 where "PUD_TYPE_MASK = push_bit 0 3"
definition PUD_TYPE_SECT :: u64 where "PUD_TYPE_SECT = push_bit 0 1"
definition PMD_TYPE_MASK :: u64 where "PMD_TYPE_MASK = push_bit 0 3"
definition PMD_TYPE_TABLE :: u64 where "PMD_TYPE_TABLE = push_bit 0 3"
definition PMD_TYPE_SECT :: u64 where "PMD_TYPE_SECT = push_bit 0 1"

definition PTE_TYPE_PAGE :: u64 where "PTE_TYPE_PAGE = push_bit 0 3"
definition PTE_TABLE_BIT :: u64 where "PTE_TABLE_BIT = push_bit 1 1"
definition PTE_USER :: u64 where "PTE_USER = push_bit 6 1"
definition PTE_RDONLY :: u64 where "PTE_RDONLY = push_bit 7 1"
definition PTE_SHARED :: u64 where "PTE_SHARED = push_bit 8 3"
definition PTE_AF :: u64 where "PTE_AF = push_bit 10 1"
definition PTE_NG :: u64 where "PTE_NG = push_bit 11 1"
definition PTE_DBM :: u64 where "PTE_DBM = push_bit 51 1"
definition PTE_CONT :: u64 where "PTE_CONT = push_bit 52 1"
definition PTE_PXN :: u64 where "PTE_PXN = push_bit 53 1"
definition PTE_UXN :: u64 where "PTE_UXN = push_bit 54 1"

definition PTE_ADDR_MASK :: u64 where
  "PTE_ADDR_MASK = push_bit PAGE_SHIFT (push_bit (48 - PAGE_SHIFT) 1 - 1)"

definition PTE_ATTRINDX :: "u64 \<Rightarrow> u64" where "PTE_ATTRINDX t = push_bit 2 t"

definition MT_DEVICE_nGnRnE :: u64 where "MT_DEVICE_nGnRnE = 0"
definition MT_DEVICE_nGnRE :: u64 where "MT_DEVICE_nGnRE = 1"
definition MT_DEVICE_GRE :: u64 where "MT_DEVICE_GRE = 2"
definition MT_NORMAL_NC :: u64 where "MT_NORMAL_NC = 3"
definition MT_NORMAL :: u64 where "MT_NORMAL = 4"
definition MT_NORMAL_WT :: u64 where "MT_NORMAL_WT = 5"

section \<open>asm/pgtable_prot.h\<close>

definition PTE_WRITE :: u64 where "PTE_WRITE = PTE_DBM"
definition PTE_DIRTY :: u64 where "PTE_DIRTY = push_bit 55 1"
definition PROT_DEFAULT :: u64 where "PROT_DEFAULT = PTE_TYPE_PAGE OR PTE_AF OR PTE_SHARED"

definition PROT_DEVICE_nGnRnE :: u64 where
  "PROT_DEVICE_nGnRnE = PROT_DEFAULT OR PTE_PXN OR PTE_UXN OR PTE_DIRTY OR PTE_WRITE OR PTE_ATTRINDX MT_DEVICE_nGnRnE"
definition PROT_NORMAL :: u64 where
  "PROT_NORMAL = PROT_DEFAULT OR PTE_PXN OR PTE_UXN OR PTE_DIRTY OR PTE_WRITE OR PTE_ATTRINDX MT_NORMAL"
definition PAGE_KERNEL_ROX :: u64 where
  "PAGE_KERNEL_ROX = (PROT_NORMAL AND NOT (PTE_WRITE OR PTE_PXN)) OR PTE_RDONLY"
definition PAGE_KERNEL :: u64 where "PAGE_KERNEL = PROT_NORMAL"

lemmas pt_consts = VA_BITS_def PGDIR_SHIFT_def PGDIR_SIZE_def PGDIR_MASK_def PTRS_PER_PGD_def PUD_SHIFT_def PUD_SIZE_def
  PUD_MASK_def PTRS_PER_PUD_def PMD_SHIFT_def PMD_SIZE_def PMD_MASK_def PTRS_PER_PMD_def PTRS_PER_PTE_def
  PG_SECTION_SIZE_def PG_SECTION_MASK_def PAGE_SHIFT_def

lemmas type_consts = PUD_TYPE_TABLE_def PUD_TYPE_MASK_def PUD_TYPE_SECT_def PMD_TYPE_MASK_def PMD_TYPE_TABLE_def
  PMD_TYPE_SECT_def PTE_TYPE_PAGE_def PTE_TABLE_BIT_def

lemmas prot_consts = PTE_USER_def PTE_RDONLY_def PTE_SHARED_def PTE_AF_def PTE_NG_def PTE_DBM_def PTE_CONT_def PTE_PXN_def
  PTE_UXN_def PTE_ATTRINDX_def MT_DEVICE_nGnRnE_def MT_NORMAL_def PTE_WRITE_def PTE_DIRTY_def PROT_DEFAULT_def
  PROT_DEVICE_nGnRnE_def PROT_NORMAL_def PAGE_KERNEL_ROX_def PAGE_KERNEL_def type_consts

section \<open>asm/pgtable.h\<close>

definition pgd_index :: "u64 \<Rightarrow> u64" where
  "pgd_index addr = drop_bit PGDIR_SHIFT addr AND scast (PTRS_PER_PGD - 1)"
definition pud_index :: "u64 \<Rightarrow> u64" where
  "pud_index addr = drop_bit PUD_SHIFT addr AND scast (PTRS_PER_PUD - 1)"
definition pmd_index :: "u64 \<Rightarrow> u64" where
  "pmd_index addr = drop_bit PMD_SHIFT addr AND scast (PTRS_PER_PMD - 1)"
definition pte_index :: "u64 \<Rightarrow> u64" where
  "pte_index addr = drop_bit PAGE_SHIFT addr AND scast (PTRS_PER_PTE - 1)"

definition pgd_addr_end :: "u64 \<Rightarrow> u64 \<Rightarrow> u64" where
  "pgd_addr_end addr e = (let b = (addr + PGDIR_SIZE) AND PGDIR_MASK in if b - 1 < e - 1 then b else e)"
definition pud_addr_end :: "u64 \<Rightarrow> u64 \<Rightarrow> u64" where
  "pud_addr_end addr e = (let b = (addr + PUD_SIZE) AND PUD_MASK in if b - 1 < e - 1 then b else e)"
definition pmd_addr_end :: "u64 \<Rightarrow> u64 \<Rightarrow> u64" where
  "pmd_addr_end addr e = (let b = (addr + PMD_SIZE) AND PMD_MASK in if b - 1 < e - 1 then b else e)"

definition pgd_none :: "u64 \<Rightarrow> bool" where "pgd_none v \<longleftrightarrow> v = 0"
definition pud_none :: "u64 \<Rightarrow> bool" where "pud_none v \<longleftrightarrow> v = 0"
definition pmd_none :: "u64 \<Rightarrow> bool" where "pmd_none v \<longleftrightarrow> v = 0"
definition pte_none :: "u64 \<Rightarrow> bool" where "pte_none v \<longleftrightarrow> v = 0"
definition pmd_sect :: "u64 \<Rightarrow> bool" where "pmd_sect v \<longleftrightarrow> v AND PMD_TYPE_MASK = PMD_TYPE_SECT"
definition pud_sect :: "u64 \<Rightarrow> bool" where "pud_sect v \<longleftrightarrow> v AND PUD_TYPE_MASK = PUD_TYPE_SECT"

definition pgd_page_paddr :: "u64 \<Rightarrow> u64" where "pgd_page_paddr v = v AND PTE_ADDR_MASK"
definition pud_page_paddr :: "u64 \<Rightarrow> u64" where "pud_page_paddr v = v AND PTE_ADDR_MASK"
definition pmd_page_paddr :: "u64 \<Rightarrow> u64" where "pmd_page_paddr v = v AND PTE_ADDR_MASK"

definition pgd_offset_raw :: "u64 \<Rightarrow> u64 \<Rightarrow> u64" where
  "pgd_offset_raw pgd addr = pgd + 8 * pgd_index addr"
definition pud_offset_phys :: "u64 \<Rightarrow> u64 \<Rightarrow> 'a machine_scheme \<Rightarrow> u64" where
  "pud_offset_phys pgdp addr s = pgd_page_paddr (load64 pgdp (mem s)) + pud_index addr * 8"
definition pmd_offset_phys :: "u64 \<Rightarrow> u64 \<Rightarrow> 'a machine_scheme \<Rightarrow> u64" where
  "pmd_offset_phys pudp addr s = pud_page_paddr (load64 pudp (mem s)) + pmd_index addr * 8"
definition pte_offset_phys :: "u64 \<Rightarrow> u64 \<Rightarrow> 'a machine_scheme \<Rightarrow> u64" where
  "pte_offset_phys pmdp addr s = pmd_page_paddr (load64 pmdp (mem s)) + pte_index addr * 8"

definition pfn_pmd :: "u64 \<Rightarrow> u64 \<Rightarrow> u64" where "pfn_pmd pfn prot = push_bit PMD_SHIFT pfn OR prot"
definition pfn_pte :: "u64 \<Rightarrow> u64 \<Rightarrow> u64" where "pfn_pte pfn prot = push_bit PAGE_SHIFT pfn OR prot"
definition mk_sect_prot :: "u64 \<Rightarrow> u64" where "mk_sect_prot prot = prot AND NOT PTE_TABLE_BIT"

definition dsb :: "string \<Rightarrow> 'a machine_scheme \<Rightarrow> 'a machine_scheme" where
  "dsb opt s = hw_emit (Insn (''dsb '' @ opt)) s"

definition set_pgd :: "u64 \<Rightarrow> u64 \<Rightarrow> 'a machine_scheme \<Rightarrow> 'a machine_scheme" where
  "set_pgd pgdp v s = dsb ''ishst'' (s\<lparr>mem := store64 pgdp v (mem s)\<rparr>)"
definition set_pud :: "u64 \<Rightarrow> u64 \<Rightarrow> 'a machine_scheme \<Rightarrow> 'a machine_scheme" where
  "set_pud pudp v s = dsb ''ishst'' (s\<lparr>mem := store64 pudp v (mem s)\<rparr>)"
definition set_pmd :: "u64 \<Rightarrow> u64 \<Rightarrow> 'a machine_scheme \<Rightarrow> 'a machine_scheme" where
  "set_pmd pmdp v s = dsb ''ishst'' (s\<lparr>mem := store64 pmdp v (mem s)\<rparr>)"
definition set_pte :: "u64 \<Rightarrow> u64 \<Rightarrow> 'a machine_scheme \<Rightarrow> 'a machine_scheme" where
  "set_pte ptep v s = dsb ''ishst'' (s\<lparr>mem := store64 ptep v (mem s)\<rparr>)"

section \<open>The translation\<close>

text \<open>The table walk of the hardware from a table with \<open>r\<close> levels below it: the output address and the
  attributes of the entry that ends the walk, or None for a translation fault.\<close>

definition ix :: "nat \<Rightarrow> u64 \<Rightarrow> nat" where
  "ix r va = unat va div 2 ^ (12 + 9 * r) mod 512"

definition ent :: "bmem \<Rightarrow> u64 \<Rightarrow> nat \<Rightarrow> u64" where
  "ent m t i = load64 (t + 8 * word_of_nat i) m"

definition walk_output :: "nat \<Rightarrow> u64 \<Rightarrow> u64 \<Rightarrow> u64 \<times> u64" where
  "walk_output r e va =
     (((e AND PTE_ADDR_MASK) AND NOT (mask (12 + 9 * r))) OR (va AND mask (12 + 9 * r)),
      (e AND NOT PTE_ADDR_MASK) AND NOT 3)"

primrec walk :: "nat \<Rightarrow> bmem \<Rightarrow> u64 \<Rightarrow> u64 \<Rightarrow> (u64 \<times> u64) option" where
  "walk 0 m t va =
     (let e = ent m t (ix 0 va) in if e AND 3 = 3 then Some (walk_output 0 e va) else None)"
| "walk (Suc r) m t va =
     (let e = ent m t (ix (Suc r) va)
      in if e AND 3 = 3 then walk r m (e AND PTE_ADDR_MASK) va
         else if e AND 3 = 1 \<and> r < 2 then Some (walk_output (Suc r) e va)
         else None)"

definition translate :: "bmem \<Rightarrow> u64 \<Rightarrow> u64 \<Rightarrow> (u64 \<times> u64) option" where
  "translate m pgd va = walk 3 m pgd va"

section \<open>Indices and bounds as natural numbers\<close>

lemma unat_mask_index:
  "drop_bit n (va :: u64) AND 511 = word_of_nat (unat va div 2 ^ n mod 512)"
proof -
  have "(511 :: u64) = mask 9" by (simp add: mask_eq_exp_minus_1)
  then have "unat (drop_bit n va AND 511) = unat (drop_bit n va) mod 2 ^ 9" by (simp only: unat_and_mask)
  also have "unat (drop_bit n va) = unat va div 2 ^ n" unfolding unat_drop_bit_eq by (simp only: drop_bit_eq_div)
  finally show ?thesis by (simp add: word_unat_eq_iff unsigned_of_nat take_bit_nat_eq_self)
qed

lemma index_ix:
  "pgd_index va = word_of_nat (ix 3 va)" "pud_index va = word_of_nat (ix 2 va)"
  "pmd_index va = word_of_nat (ix 1 va)" "pte_index va = word_of_nat (ix 0 va)"
  by (simp_all add: pgd_index_def pud_index_def pmd_index_def pte_index_def ix_def pt_consts unat_mask_index)

lemma ix_less [simp]: "ix r va < 512"
  by (simp add: ix_def)

text \<open>The end of the block of \<open>2 ^ n\<close> bytes around \<open>a\<close>, cut at \<open>e\<close>.\<close>

definition block_end :: "nat \<Rightarrow> nat \<Rightarrow> nat \<Rightarrow> nat" where
  "block_end n a e = min ((a div 2 ^ n + 1) * 2 ^ n) e"

lemma addr_end_nat:
  fixes addr e :: u64
  assumes "unat addr < unat e" and "unat e \<le> 2 ^ 48" and "n \<le> 39"
  defines "b \<equiv> (addr + push_bit n 1) AND NOT (push_bit n 1 - 1)"
  shows "unat (if b - 1 < e - 1 then b else e) = block_end n (unat addr) (unat e)"
proof -
  have p: "(2 :: nat) ^ n \<le> 2 ^ 39" using assms(3) by (intro power_increasing) simp_all
  have pb: "push_bit n (1 :: u64) = 2 ^ n" by (simp add: push_bit_eq_mult)
  have up: "unat (push_bit n (1 :: u64)) = 2 ^ n"
    unfolding unsigned_push_bit_eq using p assms(3) by (simp add: push_bit_eq_mult take_bit_nat_eq_self)
  have "unat b = unat (addr + push_bit n 1) div 2 ^ n * 2 ^ n"
    using unat_and_not_mask [of "addr + push_bit n 1" n] by (simp add: b_def pb mask_eq_exp_minus_1)
  also have "unat (addr + push_bit n 1) = unat addr + 2 ^ n"
    using assms(1,2) p up by (subst unat_add_lem') simp_all
  finally have b: "unat b = (unat addr div 2 ^ n + 1) * 2 ^ n" by (simp only: div_add_self2 power_not_zero zero_neq_numeral not_False_eq_True)
  have "0 < (2 :: nat) ^ n" by simp
  then have b0: "0 < unat b" unfolding b by (metis add_gr_0 nat_0_less_mult_iff zero_less_one)
  have "unat (x - 1) = unat x - 1" if "0 < unat x" for x :: u64
    using that by (intro unat_minus_one) auto
  then have "b - 1 < e - 1 \<longleftrightarrow> unat b < unat e"
    using b0 assms(1) by (simp add: word_less_nat_alt) linarith
  then show ?thesis by (auto simp: block_end_def b min_def)
qed

lemma addr_end_unat:
  assumes "unat addr < unat e" and "unat e \<le> 2 ^ 48"
  shows "unat (pgd_addr_end addr e) = block_end 39 (unat addr) (unat e)"
    "unat (pud_addr_end addr e) = block_end 30 (unat addr) (unat e)"
    "unat (pmd_addr_end addr e) = block_end 21 (unat addr) (unat e)"
  using addr_end_nat [OF assms, of 39] addr_end_nat [OF assms, of 30] addr_end_nat [OF assms, of 21]
  unfolding pgd_addr_end_def pud_addr_end_def pmd_addr_end_def pt_consts Let_def by auto

lemma block_end_bounds:
  assumes "a < e"
  shows "a < block_end n a e" "block_end n a e \<le> e" "(block_end n a e - 1) div 2 ^ n = a div 2 ^ n"
proof -
  let ?p = "2 ^ n :: nat"
  have p: "0 < ?p" by simp
  have d: "a div ?p * ?p \<le> a" "a < (a div ?p + 1) * ?p"
    using dividend_less_div_times [of ?p a] p by (auto simp: algebra_simps)
  show 1: "a < block_end n a e" "block_end n a e \<le> e" using assms d by (simp_all only: block_end_def min_less_iff_conj min.cobounded2)
  have "a div ?p * ?p \<le> block_end n a e - 1" using 1 d by linarith
  moreover have "block_end n a e \<le> (a div ?p + 1) * ?p" by (simp only: block_end_def min.cobounded1)
  then have "block_end n a e - 1 < (a div ?p + 1) * ?p" using 1 by linarith
  ultimately show "(block_end n a e - 1) div ?p = a div ?p"
    by (intro div_nat_eqI) (auto simp: algebra_simps)
qed

section \<open>Entries and tables\<close>

lemma page_aligned_add8:
  "page_aligned t \<Longrightarrow> i < 512 \<Longrightarrow> unat (t + 8 * word_of_nat i) = unat t + 8 * i"
proof -
  assume t: "page_aligned t" and i: "i < 512"
  have "unat t < 2 ^ 64" using unsigned_less [of t, where 'a = nat] by simp
  moreover have "unat t mod 4096 = 0" using t by (simp add: page_aligned_iff)
  then obtain q where q: "unat t = 4096 * q" by (metis mod_0_imp_dvd dvd_def)
  ultimately have "unat t + 4096 \<le> 2 ^ 64" by simp
  moreover have "unat (8 * word_of_nat i :: u64) = 8 * i"
    using i by (simp add: unat_word_ariths unsigned_of_nat take_bit_nat_eq_self)
  ultimately show ?thesis using i by (subst unat_add_lem') simp_all
qed

lemma entry_addr_inj:
  assumes "page_aligned t" and "i < 512" and "page_aligned t'" and "i' < 512"
    and "t + 8 * word_of_nat i = t' + 8 * word_of_nat i'"
  shows "t = t' \<and> i = i'"
proof -
  have "unat t + 8 * i = unat t' + 8 * i'" using page_aligned_add8 assms by metis
  moreover obtain q q' where q: "unat t = 4096 * q" "unat t' = 4096 * q'"
    using assms(1,3) unfolding page_aligned_iff mod_eq_0_iff_dvd by (auto elim!: dvdE)
  ultimately have e: "4096 * q + 8 * i = 4096 * q' + 8 * i'" by simp
  have "(4096 * q + 8 * i) div 4096 = q" "(4096 * q' + 8 * i') div 4096 = q'" using assms(2,4) by simp_all
  with e have "q = q'" by simp
  with e q have "unat t = unat t' \<and> i = i'" by simp
  then show ?thesis by (simp add: word_unat_eq_iff)
qed

lemma entry_aligned8: "page_aligned t \<Longrightarrow> i < 512 \<Longrightarrow> (t + 8 * word_of_nat i) AND 7 = 0"
proof -
  assume a: "page_aligned t" "i < 512"
  then obtain q where "unat t = 4096 * q" unfolding page_aligned_iff mod_eq_0_iff_dvd by (auto elim!: dvdE)
  then have "unat t + 8 * i = 8 * (512 * q + i)" by simp
  then have "(unat t + 8 * i) mod 8 = 0" by (simp only: mod_mult_self1_is_0)
  moreover have "(7 :: u64) = mask 3" by (simp add: mask_eq_exp_minus_1)
  ultimately have "unat ((t + 8 * word_of_nat i) AND 7) = 0"
    using page_aligned_add8 [OF a] by (simp only: unat_and_mask) simp
  then show ?thesis by (simp add: unat_eq_0)
qed

lemma ent_store:
  assumes "page_aligned t" and "i < 512" and "page_aligned t'" and "i' < 512"
  shows "ent (store64 (t + 8 * word_of_nat i) v m) t' i' = (if t' = t \<and> i' = i then v else ent m t' i')"
proof (cases "t' = t \<and> i' = i")
  case True
  then show ?thesis by (simp add: ent_def)
next
  case False
  then have "t + 8 * word_of_nat i \<noteq> t' + 8 * word_of_nat i'" using entry_addr_inj assms by metis
  with False show ?thesis
    using load64_store64_other entry_aligned8 assms unfolding ent_def by metis
qed


lemma page_aligned_cases:
  assumes "page_aligned x"
  obtains q where "unat x = 4096 * q" "unat x + 4096 \<le> 2 ^ 64"
proof -
  obtain q where q: "unat x = 4096 * q" using assms unfolding page_aligned_iff mod_eq_0_iff_dvd by (auto elim!: dvdE)
  moreover have "unat x < 2 ^ 64" using unsigned_less [of x, where 'a = nat] by simp
  ultimately show thesis by (intro that) simp_all
qed

lemma unat_entry_byte:
  "page_aligned t \<Longrightarrow> i < 512 \<Longrightarrow> k < 8 \<Longrightarrow> unat (t + 8 * word_of_nat i + word_of_nat k) = unat t + (8 * i + k)"
proof -
  assume a: "page_aligned t" "i < 512" "k < 8"
  from a(1) obtain q where q: "unat t + 4096 \<le> 2 ^ 64" by (rule page_aligned_cases)
  have "unat (word_of_nat k :: u64) = k" using a(3) by (simp add: unsigned_of_nat take_bit_nat_eq_self)
  then show ?thesis using page_aligned_add8 [OF a(1,2)] q a by (subst unat_add_lem') simp_all
qed

text \<open>A byte of an entry lies in a page exactly when the entry's table is that page.\<close>

lemma entry_byte_in_page:
  assumes "page_aligned t" and "i < 512" and "k < 8" and "page_aligned p"
  shows "t + 8 * word_of_nat i + word_of_nat k - p < 4096 \<longleftrightarrow> t = p"
proof -
  define j where "j = t + 8 * word_of_nat i + word_of_nat k - p"
  from assms(1) obtain q where q: "unat t = 4096 * q" by (rule page_aligned_cases)
  from assms(4) obtain r where r: "unat p = 4096 * r" "unat p + 4096 \<le> 2 ^ 64" by (rule page_aligned_cases)
  have pj: "t + 8 * word_of_nat i + word_of_nat k = p + j" by (simp add: j_def)
  have a: "unat (p + j) = 4096 * q + (8 * i + k)"
    using unat_entry_byte [OF assms(1-3)] q by (simp only: pj)
  show ?thesis unfolding j_def [symmetric]
  proof
    assume "j < 4096"
    then have j: "unat j < 4096" by (simp add: word_less_nat_alt)
    have "unat (p + j) = unat p + unat j" using r(2) j by (intro unat_add_lem') simp
    then have e: "4096 * q + (8 * i + k) = 4096 * r + unat j" using a r(1) by simp
    have "(4096 * q + (8 * i + k)) div 4096 = q" "(4096 * r + unat j) div 4096 = r" using assms(2,3) j by simp_all
    with e q r(1) have "unat t = unat p" by simp
    then show "t = p" by (simp add: word_unat_eq_iff)
  next
    assume "t = p"
    then have "j = 8 * word_of_nat i + word_of_nat k" by (simp add: j_def)
    moreover have "unat (8 * word_of_nat i + word_of_nat k :: u64) = 8 * i + k"
      using assms(2,3) by (simp add: unat_word_ariths unsigned_of_nat take_bit_nat_eq_self)
    ultimately have "unat j < 4096" using assms(2,3) by simp
    then show "j < 4096" by (simp add: word_less_nat_alt)
  qed
qed

lemma ent_clear:
  assumes "page_aligned p" and "page_aligned t" and "i < 512"
  shows "ent (\<lambda>a. if a - p < 4096 then 0 else m a) t i = (if t = p then 0 else ent m t i)"
proof (cases "t = p")
  case True
  then have "ent (\<lambda>a. if a - p < 4096 then 0 else m a) t i = load64 (t + 8 * word_of_nat i) (\<lambda>_. 0)"
    unfolding ent_def using entry_byte_in_page [OF assms(2,3) _ assms(1)] by (intro load64_cong) simp
  also have "\<dots> = 0" by (rule bit_word_eqI) (simp add: bit_load64)
  finally show ?thesis using True by simp
next
  case False
  then show ?thesis
    unfolding ent_def using entry_byte_in_page [OF assms(2,3) _ assms(1)] by (simp, intro load64_cong) simp
qed

lemma clear_page:
  assumes "page_aligned p"
  shows "memset p 0 PAGE_SIZE m = Inr (\<lambda>a. if a - p < 4096 then 0 else m a)"
proof -
  from assms obtain q where "unat p = 4096 * q" by (rule page_aligned_cases)
  then have "unat p mod 2 ^ 4 = 0" by simp
  moreover have "(15 :: u64) = mask 4" by (simp add: mask_eq_exp_minus_1)
  ultimately have "unat (p AND 15) = 0" by (simp only: unat_and_mask)
  then show ?thesis using memset_fill [of p PAGE_SIZE 0 m] by (simp cong: if_cong)
qed

section \<open>The tree of tables\<close>

text \<open>The table that the walk for \<open>va\<close> uses at depth \<open>d\<close>, and the number of the block of addresses
  that share it.\<close>

definition pre :: "nat \<Rightarrow> u64 \<Rightarrow> nat" where
  "pre d va = unat va mod 2 ^ 48 div 2 ^ (48 - 9 * d)"

primrec tab :: "nat \<Rightarrow> bmem \<Rightarrow> u64 \<Rightarrow> u64 \<Rightarrow> u64 option" where
  "tab 0 m pgd va = Some pgd"
| "tab (Suc d) m pgd va =
     (case tab d m pgd va of
        None \<Rightarrow> None
      | Some t \<Rightarrow> let e = ent m t (ix (3 - d) va) in if e AND 3 = 3 then Some (e AND PTE_ADDR_MASK) else None)"

lemma ix_pre: "d \<le> 3 \<Longrightarrow> ix (3 - d) va = pre (Suc d) va mod 512"
proof -
  assume "d \<le> 3"
  then have n: "12 + 9 * (3 - d) = 48 - 9 * Suc d" "min (48 - (48 - 9 * Suc d)) 9 = 9" by simp_all
  have "unat va mod 2 ^ 48 div 2 ^ (48 - 9 * Suc d) mod 512 = take_bit 9 (drop_bit (48 - 9 * Suc d) (take_bit 48 (unat va)))"
    by (simp add: take_bit_eq_mod drop_bit_eq_div)
  also have "\<dots> = take_bit 9 (drop_bit (48 - 9 * Suc d) (unat va))"
    by (simp only: drop_bit_take_bit take_bit_take_bit n(2) min.commute [of 9])
  finally show ?thesis unfolding ix_def pre_def n(1) by (simp add: take_bit_eq_mod drop_bit_eq_div)
qed

lemma pre_small: "unat va < 2 ^ 48 \<Longrightarrow> pre d va = unat va div 2 ^ (48 - 9 * d)"
  by (simp add: pre_def)

lemma pre_div: "d \<le> 3 \<Longrightarrow> pre d va = pre (Suc d) va div 512"
proof -
  assume d: "d \<le> 3"
  then have "d = 0 \<or> d = 1 \<or> d = 2 \<or> d = 3" by linarith
  then have "(2 :: nat) ^ (48 - 9 * d) = 2 ^ (48 - 9 * Suc d) * 512" by auto
  then show ?thesis by (simp only: pre_def div_mult2_eq)
qed

lemma pre_eq_iff:
  "d \<le> 3 \<Longrightarrow> pre (Suc d) va = pre (Suc d) va' \<longleftrightarrow> pre d va = pre d va' \<and> ix (3 - d) va = ix (3 - d) va'"
  by (metis ix_pre pre_div div_mult_mod_eq)

lemma pre_mono: "d \<le> d' \<Longrightarrow> d' \<le> 4 \<Longrightarrow> pre d' va = pre d' va' \<Longrightarrow> pre d va = pre d va'"
proof (induction d' arbitrary: d)
  case 0
  then show ?case by simp
next
  case (Suc d')
  show ?case
  proof (cases "d = Suc d'")
    case False
    have "d' \<le> 3" using Suc.prems(2) by simp
    from pre_eq_iff [OF this] Suc.prems(3) have e: "pre d' va = pre d' va'" by blast
    show ?thesis by (rule Suc.IH [OF _ _ e]) (use Suc.prems False in linarith)+
  qed (simp only: Suc.prems(3))
qed

lemma tab_cong: "d \<le> 4 \<Longrightarrow> pre d va = pre d va' \<Longrightarrow> tab d m pgd va = tab d m pgd va'"
proof (induction d)
  case 0
  then show ?case by simp
next
  case (Suc d)
  then show ?case using pre_eq_iff [of d va va'] by (simp split: option.split)
qed

definition pt_inv :: "bmem \<Rightarrow> u64 \<Rightarrow> u64 set \<Rightarrow> bool" where
  "pt_inv m pgd U \<longleftrightarrow>
     page_aligned pgd \<and> pgd \<notin> U \<and> (\<forall>p \<in> U. page_aligned p \<and> unat p < 2 ^ 48) \<and>
     (\<forall>d va t. d < 3 \<longrightarrow> tab (Suc d) m pgd va = Some t \<longrightarrow> t \<in> U) \<and>
     (\<forall>d d' va va' t. d \<le> 3 \<longrightarrow> d' \<le> 3 \<longrightarrow> tab d m pgd va = Some t \<longrightarrow> tab d' m pgd va' = Some t \<longrightarrow>
        d = d' \<and> pre d va = pre d va') \<and>
     (\<forall>d va t. d \<le> 3 \<longrightarrow> tab d m pgd va = Some t \<longrightarrow>
        (let e = ent m t (ix (3 - d) va) in e = 0 \<or> e AND 3 = 3 \<or> d = 2 \<and> e AND 3 = 1))"

lemma pt_inv_tab_page:
  assumes "pt_inv m pgd U" and "tab d m pgd va = Some t" and "d \<le> 3"
  shows "page_aligned t" "d = 0 \<and> t = pgd \<or> 0 < d \<and> t \<in> U"
proof -
  show "d = 0 \<and> t = pgd \<or> 0 < d \<and> t \<in> U"
  proof (cases d)
    case (Suc k)
    have "k < 3 \<Longrightarrow> tab (Suc k) m pgd va = Some t \<Longrightarrow> t \<in> U" using assms(1) unfolding pt_inv_def by blast
    then show ?thesis using Suc assms(2,3) by simp
  qed (use assms in simp)
  then show "page_aligned t" using assms(1) unfolding pt_inv_def by auto
qed

lemma pt_inv_inj:
  "pt_inv m pgd U \<Longrightarrow> tab d m pgd va = Some t \<Longrightarrow> tab d' m pgd va' = Some t \<Longrightarrow> d \<le> 3 \<Longrightarrow> d' \<le> 3 \<Longrightarrow>
     d = d' \<and> pre d va = pre d va'"
  unfolding pt_inv_def by blast

lemma pt_inv_entry:
  "pt_inv m pgd U \<Longrightarrow> tab d m pgd va = Some t \<Longrightarrow> d \<le> 3 \<Longrightarrow>
     ent m t (ix (3 - d) va) = 0 \<or> ent m t (ix (3 - d) va) AND 3 = 3 \<or> d = 2 \<and> ent m t (ix (3 - d) va) AND 3 = 1"
  unfolding pt_inv_def Let_def by blast

text \<open>A change of the tables: the entry for \<open>a\<close> at depth \<open>d\<close> becomes \<open>v\<close>, where a table installed by \<open>v\<close>
  is a cleared page \<open>p\<close> that was not in use.\<close>

definition changed :: "bmem \<Rightarrow> u64 \<Rightarrow> nat \<Rightarrow> u64 \<Rightarrow> u64 \<Rightarrow> u64 option \<Rightarrow> bmem \<Rightarrow> bool" where
  "changed m t d a v fresh m' \<longleftrightarrow>
     (\<forall>t' i. page_aligned t' \<longrightarrow> i < 512 \<longrightarrow> ent m' t' i =
        (if t' = t \<and> i = ix (3 - d) a then v else if fresh = Some t' then 0 else ent m t' i))"

lemma tab_changed:
  assumes inv: "pt_inv m pgd U" and t: "tab d m pgd a = Some t" and d: "d \<le> 3"
    and ch: "changed m t d a v fresh m'" and fr: "\<And>p. fresh = Some p \<Longrightarrow> p \<notin> insert pgd U \<and> page_aligned p"
    and v: "if fresh = None then d = 3 \<or> v AND 3 \<noteq> 3 else v AND 3 = 3 \<and> fresh = Some (v AND PTE_ADDR_MASK)"
    and j: "j \<le> 3"
  shows "tab j m' pgd va =
     (if d < j \<and> pre (Suc d) va = pre (Suc d) a then (if j = Suc d then fresh else None) else tab j m pgd va)"
  using j
proof (induction j)
  case 0
  then show ?case by simp
next
  case (Suc j)
  then have IH: "tab j m' pgd va =
     (if d < j \<and> pre (Suc d) va = pre (Suc d) a then (if j = Suc d then fresh else None) else tab j m pgd va)" by simp
  have entj: "ent m' t' (ix (3 - j) va) = (if t' = t \<and> ix (3 - j) va = ix (3 - d) a then v
      else if fresh = Some t' then 0 else ent m t' (ix (3 - j) va))" if "page_aligned t'" for t'
    using ch that by (simp add: changed_def)
  show ?case
  proof (cases "d < j \<and> pre (Suc d) va = pre (Suc d) a")
    case True
    show ?thesis
    proof (cases "j = Suc d")
      case False
      with True IH show ?thesis by simp
    next
      case jd: True
      show ?thesis
      proof (cases fresh)
        case None
        with True IH show ?thesis by simp
      next
        case (Some p)
        then have "p \<noteq> t" using fr pt_inv_tab_page [OF inv t d] by auto
        with Some fr entj [of p] have "ent m' p (ix (3 - j) va) = 0" by simp
        with True jd IH Some show ?thesis by simp
      qed
    qed
  next
    case False
    then have tj: "tab j m' pgd va = tab j m pgd va" by (rule trans [OF IH if_not_P])
    show ?thesis
    proof (cases "tab j m pgd va")
      case None
      have "\<not> (d < Suc j \<and> pre (Suc d) va = pre (Suc d) a)"
      proof
        assume "d < Suc j \<and> pre (Suc d) va = pre (Suc d) a"
        with False have jd: "j = d" "pre (Suc d) va = pre (Suc d) a" by auto
        then have "pre d va = pre d a" using pre_eq_iff d by blast
        then have "tab d m pgd va = Some t" using t tab_cong [of d va a] d by simp
        with None jd show False by simp
      qed
      with None tj show ?thesis by simp
    next
      case (Some t')
      note pg = pt_inv_tab_page [OF inv Some]
      have al: "page_aligned t'" and nf: "fresh \<noteq> Some t'" using pg Suc.prems fr by auto
      show ?thesis
      proof (cases "d = j \<and> pre (Suc d) va = pre (Suc d) a")
        case True
        then have p: "pre d va = pre d a" "ix (3 - j) va = ix (3 - d) a" using pre_eq_iff d by auto
        then have "t' = t" using Some True t tab_cong [of d va a] d by simp
        with entj [OF al] p have "ent m' t' (ix (3 - j) va) = v" by simp
        with tj Some True v Suc.prems show ?thesis by (auto split: if_splits)
      next
        case F: False
        have "\<not> (t' = t \<and> ix (3 - j) va = ix (3 - d) a)"
        proof
          assume e: "t' = t \<and> ix (3 - j) va = ix (3 - d) a"
          with pt_inv_inj [OF inv Some _ _ d] t Suc.prems have "j = d" "pre j va = pre j a" by auto
          with e F pre_eq_iff d show False by blast
        qed
        with entj [OF al] nf have en: "ent m' t' (ix (3 - j) va) = ent m t' (ix (3 - j) va)" by auto
        have n: "\<not> (d < Suc j \<and> pre (Suc d) va = pre (Suc d) a)"
        proof
          assume c: "d < Suc j \<and> pre (Suc d) va = pre (Suc d) a"
          then have "d = j \<or> d < j" by linarith
          with c F False show False by blast
        qed
        show ?thesis unfolding if_not_P [OF n] tab.simps tj Some option.case en ..
      qed
    qed
  qed
qed


text \<open>The walk, level by level.\<close>

definition leaf :: "nat \<Rightarrow> u64 \<Rightarrow> u64 \<Rightarrow> (u64 \<times> u64) option" where
  "leaf r e va = (if e AND 3 = (if r = 0 then 3 else 1) \<and> r < 3 then Some (walk_output r e va) else None)"

lemma translate_tab:
  "translate m pgd va =
     (case tab 3 m pgd va of Some t \<Rightarrow> leaf 0 (ent m t (ix 0 va)) va
      | None \<Rightarrow> (case tab 2 m pgd va of Some t \<Rightarrow> leaf 1 (ent m t (ix 1 va)) va
        | None \<Rightarrow> (case tab 1 m pgd va of Some t \<Rightarrow> leaf 2 (ent m t (ix 2 va)) va | None \<Rightarrow> None)))"
  by (simp add: translate_def leaf_def numeral_3_eq_3 numeral_2_eq_2 Let_def)

lemma changed_ent:
  "changed m t d a v fresh m' \<Longrightarrow> page_aligned t' \<Longrightarrow> ent m' t' (ix r va) =
     (if t' = t \<and> ix r va = ix (3 - d) a then v else if fresh = Some t' then 0 else ent m t' (ix r va))"
  by (simp add: changed_def)

text \<open>Entries of other blocks, read through the tables in use, are the same.\<close>

lemma changed_other:
  assumes inv: "pt_inv m pgd U" and t: "tab d m pgd a = Some t" and d: "d \<le> 3"
    and ch: "changed m t d a v fresh m'" and fr: "\<And>p. fresh = Some p \<Longrightarrow> p \<notin> insert pgd U"
    and t': "tab j m pgd va = Some t'" and j: "j \<le> 3"
    and ne: "\<not> (j = d \<and> pre (Suc d) va = pre (Suc d) a)"
  shows "ent m' t' (ix (3 - j) va) = ent m t' (ix (3 - j) va)"
proof -
  note pg = pt_inv_tab_page [OF inv t' j]
  have "fresh \<noteq> Some t'" using pg fr by auto
  moreover have "\<not> (t' = t \<and> ix (3 - j) va = ix (3 - d) a)"
  proof
    assume e: "t' = t \<and> ix (3 - j) va = ix (3 - d) a"
    with pt_inv_inj [OF inv t' _ j d] t have "j = d" "pre j va = pre d a" by auto
    with e ne pre_eq_iff [OF d] show False by blast
  qed
  ultimately show ?thesis using changed_ent [OF ch pg(1)] by auto
qed

lemma changed_here:
  assumes inv: "pt_inv m pgd U" and t: "tab d m pgd a = Some t" and d: "d \<le> 3" and ch: "changed m t d a v fresh m'"
    and p: "pre (Suc d) va = pre (Suc d) a"
  shows "tab d m pgd va = Some t" "ent m' t (ix (3 - d) va) = v" "ent m t (ix (3 - d) va) = ent m t (ix (3 - d) a)"
proof -
  have q: "pre d va = pre d a" "ix (3 - d) va = ix (3 - d) a" using p pre_eq_iff [OF d] by auto
  then show "tab d m pgd va = Some t" using t tab_cong [of d va a] d by simp
  show "ent m' t (ix (3 - d) va) = v" using changed_ent [OF ch pt_inv_tab_page(1) [OF inv t d]] q by simp
  show "ent m t (ix (3 - d) va) = ent m t (ix (3 - d) a)" using q by simp
qed

text \<open>Through an entry that is not a table nothing is reached.\<close>

lemma tab_below:
  assumes "tab d m pgd va = Some t" and "ent m t (ix (3 - d) va) AND 3 \<noteq> 3" and "d < j"
  shows "tab j m pgd va = None"
  using assms(3)
proof (induction j)
  case (Suc j)
  show ?case
  proof (cases "j = d")
    case True
    then show ?thesis using assms by simp
  next
    case False
    then show ?thesis using Suc by simp
  qed
qed simp

text \<open>Two states of the tables that agree on the walk for \<open>va\<close>.\<close>

lemma translate_same:
  assumes "\<And>j. j \<le> 3 \<Longrightarrow> tab j m' pgd va = tab j m pgd va"
    and "\<And>j t. j \<le> 3 \<Longrightarrow> tab j m pgd va = Some t \<Longrightarrow> ent m' t (ix (3 - j) va) = ent m t (ix (3 - j) va)"
  shows "translate m' pgd va = translate m pgd va"
  unfolding translate_tab using assms(1) [of 3] assms(1) [of 2] assms(1) [of 1]
    assms(2) [of 3] assms(2) [of 2] assms(2) [of 1] by (simp split: option.split)

lemma translate_other:
  assumes inv: "pt_inv m pgd U" and t: "tab d m pgd a = Some t" and d: "d \<le> 3"
    and ch: "changed m t d a v fresh m'" and fr: "\<And>p. fresh = Some p \<Longrightarrow> p \<notin> insert pgd U \<and> page_aligned p"
    and v: "if fresh = None then d = 3 \<or> v AND 3 \<noteq> 3 else v AND 3 = 3 \<and> fresh = Some (v AND PTE_ADDR_MASK)"
    and ne: "pre (Suc d) va \<noteq> pre (Suc d) a"
  shows "translate m' pgd va = translate m pgd va"
proof (rule translate_same)
  fix j :: nat assume j: "j \<le> 3"
  then show "tab j m' pgd va = tab j m pgd va"
    using tab_changed [OF inv t d ch fr v j, of va] ne by simp
  fix t' assume "tab j m pgd va = Some t'"
  then show "ent m' t' (ix (3 - j) va) = ent m t' (ix (3 - j) va)"
    using changed_other [OF inv t d ch _ _ j] fr ne by blast
qed


lemma translate_at:
  assumes "tab d m pgd va = Some t" and "d \<le> 3" and "\<And>j. d < j \<Longrightarrow> j \<le> 3 \<Longrightarrow> tab j m pgd va = None"
  shows "translate m pgd va = (if d = 0 then None else leaf (3 - d) (ent m t (ix (3 - d) va)) va)"
proof -
  from assms(2) consider "d = 0" | "d = 1" | "d = 2" | "d = 3" by linarith
  then show ?thesis
    using assms(1) assms(3) [of 1] assms(3) [of 2] assms(3) [of 3] by cases (simp_all add: translate_tab)
qed

lemma leaf_0 [simp]: "leaf r 0 va = None"
  by (simp add: leaf_def)

lemma translate_leaf:
  assumes inv: "pt_inv m pgd U" and t: "tab d m pgd a = Some t" and d: "d \<le> 3"
    and ch: "changed m t d a v None m'" and v: "d = 3 \<or> v AND 3 \<noteq> 3" and p: "pre (Suc d) va = pre (Suc d) a" and d0: "d \<noteq> 0"
  shows "translate m' pgd va = leaf (3 - d) v va"
proof -
  note T = tab_changed [OF inv t d ch, simplified, OF v]
  have "tab d m' pgd va = Some t" using T [of d va] changed_here(1) [OF inv t d ch p] d by simp
  moreover have "tab j m' pgd va = None" if "d < j" "j \<le> 3" for j using T [of j va] that p by simp
  ultimately show ?thesis
    using translate_at [of d m' pgd va t] changed_here(2) [OF inv t d ch p] d d0 by simp
qed

lemma translate_install:
  assumes inv: "pt_inv m pgd U" and t: "tab d m pgd a = Some t" and d: "d \<le> 2"
    and ch: "changed m t d a v (Some p) m'" and fr: "p \<notin> insert pgd U \<and> page_aligned p"
    and v: "v AND 3 = 3 \<and> p = v AND PTE_ADDR_MASK" and z: "ent m t (ix (3 - d) a) = 0"
  shows "translate m' pgd va = translate m pgd va"
proof -
  have d3: "d \<le> 3" using d by simp
  have vv: "if Some p = None then d = 3 \<or> v AND 3 \<noteq> 3 else v AND 3 = 3 \<and> Some p = Some (v AND PTE_ADDR_MASK)"
    using v by simp
  show ?thesis
  proof (cases "pre (Suc d) va = pre (Suc d) a")
    case False
    show ?thesis by (rule translate_other [OF inv t d3 ch _ vv False]) (use fr in simp)
  next
    case True
    note H = changed_here [OF inv t d3 ch True]
    have "tab j m pgd va = None" if "d < j" for j by (rule tab_below [OF H(1) _ that]) (simp add: H(3) z)
    then have m0: "translate m pgd va = None" using translate_at [OF H(1) d3] H(3) z by simp
    have T: "tab j m' pgd va = (if d < j then (if j = Suc d then Some p else None) else tab j m pgd va)" if "j \<le> 3" for j
      using tab_changed [OF inv t d3 ch _ vv that, of va] fr True by simp
    have "p \<noteq> t" using fr pt_inv_tab_page(2) [OF inv t d3] by auto
    then have e: "ent m' p (ix (3 - Suc d) va) = 0" using changed_ent [OF ch, of p] fr by auto
    have "translate m' pgd va = (if Suc d = 0 then None else leaf (3 - Suc d) (ent m' p (ix (3 - Suc d) va)) va)"
      by (rule translate_at) (use T d in \<open>simp_all del: tab.simps\<close>)
    then show ?thesis using m0 e by simp
  qed
qed

lemma pt_inv_changed:
  assumes inv: "pt_inv m pgd U" and t: "tab d m pgd a = Some t" and d: "d \<le> 3"
    and ch: "changed m t d a v fresh m'"
    and fr: "\<And>p. fresh = Some p \<Longrightarrow> p \<notin> insert pgd U \<and> page_aligned p"
    and lt: "\<And>p. fresh = Some p \<Longrightarrow> unat p < 2 ^ 48 \<and> d < 3"
    and v: "if fresh = None then d = 3 \<or> v AND 3 \<noteq> 3 else v AND 3 = 3 \<and> fresh = Some (v AND PTE_ADDR_MASK)"
    and shape: "v = 0 \<or> v AND 3 = 3 \<or> d = 2 \<and> v AND 3 = 1"
  shows "pt_inv m' pgd (U \<union> set_option fresh)"
proof -
  note T = tab_changed [OF inv t d ch fr v]
  have old: "tab j m pgd va = Some t' \<and> \<not> (d < j \<and> pre (Suc d) va = pre (Suc d) a) \<or>
      j = Suc d \<and> pre (Suc d) va = pre (Suc d) a \<and> fresh = Some t'"
    if "tab j m' pgd va = Some t'" "j \<le> 3" for j va t'
    using T [OF _ that(2), of va] that(1) by (auto split: if_splits)
  have fresh_new: "\<not> (fresh = Some t' \<and> tab j m pgd va = Some t')" if "j \<le> 3" for j va t'
    using fr pt_inv_tab_page(2) [OF inv _ that] by blast
  have "t' \<in> U \<union> set_option fresh" if "j < 3" "tab (Suc j) m' pgd va = Some t'" for j va t'
  proof -
    have "Suc j \<le> 3" using that(1) by simp
    from old [OF that(2) this] pt_inv_tab_page(2) [OF inv _ this, of va t'] show ?thesis by auto
  qed
  moreover have "j = j' \<and> pre j va = pre j va'"
    if "j \<le> 3" "j' \<le> 3" "tab j m' pgd va = Some t'" "tab j' m' pgd va' = Some t'" for j j' va va' t'
    using old [OF that(3,1)] old [OF that(4,2)] fresh_new that(1,2) pt_inv_inj [OF inv _ _ that(1,2)] by metis
  moreover have "let e = ent m' t' (ix (3 - j) va) in e = 0 \<or> e AND 3 = 3 \<or> j = 2 \<and> e AND 3 = 1"
    if j3: "j \<le> 3" and t': "tab j m' pgd va = Some t'" for j va t'
  proof -
    from old [OF t' j3] consider (new) "j = Suc d" "fresh = Some t'"
      | (here) "tab j m pgd va = Some t'" "j = d" "pre (Suc d) va = pre (Suc d) a"
      | (other) "tab j m pgd va = Some t'" "\<not> (j = d \<and> pre (Suc d) va = pre (Suc d) a)" by blast
    then show ?thesis
    proof cases
      case new
      then have "t' \<noteq> t" "page_aligned t'" using fr pt_inv_tab_page(2) [OF inv t d] by auto
      then show ?thesis using changed_ent [OF ch] new by (simp add: Let_def)
    next
      case here
      then have "t' = t" using changed_here(1) [OF inv t d ch here(3)] by simp
      then show ?thesis using changed_here(2) [OF inv t d ch here(3)] here shape by (auto simp: Let_def)
    next
      case other
      have "ent m' t' (ix (3 - j) va) = ent m t' (ix (3 - j) va)"
        using changed_other [OF inv t d ch _ other(1) j3 other(2)] fr by blast
      then show ?thesis using pt_inv_entry [OF inv other(1) j3] by (simp only: Let_def)
    qed
  qed
  moreover have "page_aligned pgd \<and> pgd \<notin> U \<union> set_option fresh \<and> (\<forall>p \<in> U \<union> set_option fresh. page_aligned p \<and> unat p < 2 ^ 48)"
    using inv fr lt unfolding pt_inv_def by (cases fresh) auto
  ultimately show ?thesis unfolding pt_inv_def by blast
qed

end
