(* ===== verification/Mmu.thy ===== *)
theory Mmu
  imports Pgtable
begin

text \<open>
  \<^verbatim>\<open>mach-rpi/mmu.c\<close>: the functions that fill the translation tables and switch the MMU on. The
  symbols of the linker script are arguments. A do-while loop over a pointer and an address is a
  partial function: when the addresses do not meet, it does not end.
\<close>

section \<open>Filling the tables\<close>

definition NO_BLOCK_MAPPINGS :: u64 where "NO_BLOCK_MAPPINGS = push_bit 0 1"

definition early_pgtable_alloc :: "'a page_state_scheme \<Rightarrow> (u64 \<times> 'a page_state_scheme) res" where
  "early_pgtable_alloc s =
     (let (phys, s) = get_free_page s
      in bindr (memset phys 0 PAGE_SIZE (mem s)) (\<lambda>m. Inr (phys, s\<lparr>mem := m\<rparr>)))"

type_synonym 's alloc_fn = "'s \<Rightarrow> (u64 \<times> 's) res"

partial_function (option) pte_loop :: "u64 \<Rightarrow> u64 \<Rightarrow> u64 \<Rightarrow> u64 \<Rightarrow> u64 \<Rightarrow> 'a page_state_scheme \<Rightarrow> 'a page_state_scheme option" where
  "pte_loop ptep addr e phys prot s =
     (if addr + scast PAGE_SIZE \<noteq> e then
        pte_loop (ptep + 8) (addr + scast PAGE_SIZE) e (phys + scast PAGE_SIZE) prot
          (set_pte ptep (pfn_pte (drop_bit PAGE_SHIFT phys) prot) s)
      else Some (set_pte ptep (pfn_pte (drop_bit PAGE_SHIFT phys) prot) s))"

definition alloc_init_pte ::
    "u64 \<Rightarrow> u64 \<Rightarrow> u64 \<Rightarrow> u64 \<Rightarrow> u64 \<Rightarrow> 'a page_state_scheme alloc_fn \<Rightarrow> u64 \<Rightarrow> 'a page_state_scheme \<Rightarrow> 'a page_state_scheme res" where
  "alloc_init_pte pmdp addr e phys prot alloc flags s =
     bindr (if pmd_none (load64 pmdp (mem s)) then
              bindr (alloc s) (\<lambda>(pte_phys, s). Inr (set_pmd pmdp (pte_phys OR PMD_TYPE_TABLE) s))
            else Inr s) (\<lambda>s.
       returns (pte_loop (pte_offset_phys pmdp addr s) addr e phys prot s))"

definition pmd_set_section :: "u64 \<Rightarrow> u64 \<Rightarrow> u64 \<Rightarrow> 'a page_state_scheme \<Rightarrow> 'a page_state_scheme" where
  "pmd_set_section pmdp phys prot s =
     (let sect_prot = PMD_TYPE_SECT OR mk_sect_prot prot
      in set_pmd pmdp (pfn_pmd (drop_bit PMD_SHIFT phys) sect_prot) s)"

definition pmd_step ::
    "u64 \<Rightarrow> u64 \<Rightarrow> u64 \<Rightarrow> u64 \<Rightarrow> u64 \<Rightarrow> 'a page_state_scheme alloc_fn \<Rightarrow> u64 \<Rightarrow> 'a page_state_scheme \<Rightarrow> 'a page_state_scheme res" where
  "pmd_step pmdp addr next phys prot alloc flags s =
     (if (addr OR next OR phys) AND NOT PG_SECTION_MASK = 0 \<and> flags AND NO_BLOCK_MAPPINGS = 0
      then Inr (pmd_set_section pmdp phys prot s)
      else alloc_init_pte pmdp addr next phys prot alloc flags s)"

text \<open>The loop of the three upper levels: \<open>bound\<close> is the end of the entry's range, \<open>step\<close> fills it.\<close>

partial_function (option) level_loop ::
    "(u64 \<Rightarrow> u64 \<Rightarrow> u64) \<Rightarrow> (u64 \<Rightarrow> u64 \<Rightarrow> u64 \<Rightarrow> u64 \<Rightarrow> 's \<Rightarrow> 's res) \<Rightarrow> u64 \<Rightarrow> u64 \<Rightarrow> u64 \<Rightarrow> u64 \<Rightarrow> 's \<Rightarrow> 's res option" where
  "level_loop bound step p addr e phys s =
     (case step p addr (bound addr e) phys s of
        Inl err \<Rightarrow> Some (Inl err)
      | Inr s \<Rightarrow>
          if bound addr e \<noteq> e then level_loop bound step (p + 8) (bound addr e) e (phys + (bound addr e - addr)) s
          else Some (Inr s))"

definition run_loop :: "'s res option \<Rightarrow> 's res" where
  "run_loop r = (case r of None \<Rightarrow> Inl Diverges | Some r \<Rightarrow> r)"

definition alloc_init_pmd ::
    "u64 \<Rightarrow> u64 \<Rightarrow> u64 \<Rightarrow> u64 \<Rightarrow> u64 \<Rightarrow> 'a page_state_scheme alloc_fn \<Rightarrow> u64 \<Rightarrow> 'a page_state_scheme \<Rightarrow> 'a page_state_scheme res" where
  "alloc_init_pmd pudp addr e phys prot alloc flags s =
     bindr (if pud_none (load64 pudp (mem s)) then
              bindr (alloc s) (\<lambda>(pmd_phys, s). Inr (set_pud pudp (pmd_phys OR PUD_TYPE_TABLE) s))
            else Inr s) (\<lambda>s.
       run_loop (level_loop pmd_addr_end (\<lambda>pmdp addr next phys. pmd_step pmdp addr next phys prot alloc flags)
         (pmd_offset_phys pudp addr s) addr e phys s))"

definition alloc_init_pud ::
    "u64 \<Rightarrow> u64 \<Rightarrow> u64 \<Rightarrow> u64 \<Rightarrow> u64 \<Rightarrow> 'a page_state_scheme alloc_fn \<Rightarrow> u64 \<Rightarrow> 'a page_state_scheme \<Rightarrow> 'a page_state_scheme res" where
  "alloc_init_pud pgdp addr e phys prot alloc flags s =
     bindr (if pgd_none (load64 pgdp (mem s)) then
              bindr (alloc s) (\<lambda>(pud_phys, s). Inr (set_pgd pgdp (pud_phys OR PUD_TYPE_TABLE) s))
            else Inr s) (\<lambda>s.
       run_loop (level_loop pud_addr_end (\<lambda>pudp addr next phys. alloc_init_pmd pudp addr next phys prot alloc flags)
         (pud_offset_phys pgdp addr s) addr e phys s))"

definition create_pgd_mapping ::
    "u64 \<Rightarrow> u64 \<Rightarrow> u64 \<Rightarrow> u64 \<Rightarrow> u64 \<Rightarrow> 'a page_state_scheme alloc_fn \<Rightarrow> u64 \<Rightarrow> 'a page_state_scheme \<Rightarrow> 'a page_state_scheme res" where
  "create_pgd_mapping pgdir phys virt sz prot alloc flags s =
     (let pgdp = pgd_offset_raw pgdir virt;
          phys = phys AND scast PAGE_MASK;
          addr = virt AND scast PAGE_MASK;
          e = PAGE_ALIGN (virt + sz)
      in run_loop (level_loop pgd_addr_end (\<lambda>pgdp addr next phys. alloc_init_pud pgdp addr next phys prot alloc flags)
           pgdp addr e phys s))"

definition create_identity_mapping :: "u64 \<Rightarrow> u64 \<Rightarrow> u64 \<Rightarrow> 'a page_state_scheme \<Rightarrow> 'a page_state_scheme res" where
  "create_identity_mapping idmap_pgd_dir text_boot_start text_end s =
     (let start = text_boot_start; e = text_end
      in bindr (create_pgd_mapping idmap_pgd_dir start start (e - start) PAGE_KERNEL_ROX early_pgtable_alloc 0 s) (\<lambda>s.
           let start = PAGE_ALIGN text_end; e = scast TOTAL_MEMORY
           in create_pgd_mapping idmap_pgd_dir start start (e - start) PAGE_KERNEL early_pgtable_alloc 0 s))"

definition DEVICE_SIZE :: u64 where "DEVICE_SIZE = 0x2000000"
definition MMIO_BASE :: u64 where "MMIO_BASE = 0xFE000000"

definition create_mmio_mapping :: "u64 \<Rightarrow> 'a page_state_scheme \<Rightarrow> 'a page_state_scheme res" where
  "create_mmio_mapping idmap_pgd_dir s =
     create_pgd_mapping idmap_pgd_dir MMIO_BASE MMIO_BASE DEVICE_SIZE PROT_DEVICE_nGnRnE early_pgtable_alloc 0 s"

section \<open>Switching the MMU on\<close>

definition MAIR :: "u64 \<Rightarrow> u64 \<Rightarrow> u64" where "MAIR attr mt = push_bit (unat (mt * 8)) attr"

definition TCR_TxSZ :: "u64 \<Rightarrow> u64" where "TCR_TxSZ x = push_bit 0 (64 - x) OR push_bit 16 (64 - x)"
definition TCR_TG_FLAGS :: u64 where "TCR_TG_FLAGS = push_bit 14 0 OR push_bit 30 2"
definition TCR_IPS_SHIFT :: nat where "TCR_IPS_SHIFT = 32"
definition ID_AA64MMFR0_PARANGE_48 :: u64 where "ID_AA64MMFR0_PARANGE_48 = 5"
definition ID_AA64MMFR0_TGRAN4_SHIFT :: nat where "ID_AA64MMFR0_TGRAN4_SHIFT = 28"
definition ID_AA64MMFR0_TGRAN4_SUPPORTED :: s32 where "ID_AA64MMFR0_TGRAN4_SUPPORTED = 0"
definition SCTLR_ELx_M :: u64 where "SCTLR_ELx_M = push_bit 0 1"

definition cpu_init :: "'a machine_scheme \<Rightarrow> 'a machine_scheme" where
  "cpu_init s =
     (let s = hw_emit (Insn ''tlbi vmalle1'') s;
          s = dsb ''nsh'' s;
          s = write_sysreg (push_bit 20 3) ''cpacr_el1'' s;
          s = write_sysreg (push_bit 12 1) ''mdscr_el1'' s;
          mair = MAIR 0x00 MT_DEVICE_nGnRnE OR MAIR 0x04 MT_DEVICE_nGnRE OR MAIR 0x0c MT_DEVICE_GRE OR
                 MAIR 0x44 MT_NORMAL_NC OR MAIR 0xff MT_NORMAL OR MAIR 0xbb MT_NORMAL_WT;
          s = write_sysreg mair ''mair_el1'' s;
          tcr = TCR_TxSZ (word_of_nat VA_BITS) OR TCR_TG_FLAGS;
          (tmp, s) = read_sysreg ''ID_AA64MMFR0_EL1'' s;
          parang = tmp AND 0xf;
          parang = (if ID_AA64MMFR0_PARANGE_48 < parang then ID_AA64MMFR0_PARANGE_48 else parang);
          tcr = tcr OR push_bit TCR_IPS_SHIFT parang
      in write_sysreg tcr ''tcr_el1'' s)"

definition enable_mmu :: "u64 \<Rightarrow> 'a machine_scheme \<Rightarrow> s32 \<times> 'a machine_scheme" where
  "enable_mmu idmap_pgd_dir s =
     (let (tmp, s) = read_sysreg ''ID_AA64MMFR0_EL1'' s;
          tgran4 = ucast (drop_bit ID_AA64MMFR0_TGRAN4_SHIFT tmp AND 0xf) :: s32
      in if tgran4 \<noteq> ID_AA64MMFR0_TGRAN4_SUPPORTED then (- 1, s)
         else
           let s = write_sysreg idmap_pgd_dir ''ttbr0_el1'' s;
               s = hw_emit (Insn ''isb'') s;
               s = write_sysreg SCTLR_ELx_M ''sctlr_el1'' s;
               s = hw_emit (Insn ''isb'') s;
               s = hw_emit (Insn ''ic iallu'') s;
               s = dsb ''nsh'' s;
               s = hw_emit (Insn ''isb'') s
           in (0, s))"

definition paging_init :: "u64 \<Rightarrow> u64 \<Rightarrow> u64 \<Rightarrow> 'a page_state_scheme \<Rightarrow> 'a page_state_scheme res" where
  "paging_init idmap_pgd_dir text_boot_start text_end s =
     bindr (memset idmap_pgd_dir 0 PAGE_SIZE (mem s)) (\<lambda>m.
     bindr (create_identity_mapping idmap_pgd_dir text_boot_start text_end (s\<lparr>mem := m\<rparr>)) (\<lambda>s.
     bindr (create_mmio_mapping idmap_pgd_dir s) (\<lambda>s.
       let s = cpu_init s;
           (_, s) = enable_mmu idmap_pgd_dir s
       in Inr (printk_call ''Enable mmu done\<newline>'' [] s))))"

section \<open>Entries as words\<close>

lemma bit_addr_mask: "bit PTE_ADDR_MASK i \<longleftrightarrow> 12 \<le> i \<and> i < 48"
proof -
  have "PTE_ADDR_MASK = push_bit 12 (mask 36)" by (simp add: PTE_ADDR_MASK_def PAGE_SHIFT_def mask_eq_exp_minus_1)
  then have "bit PTE_ADDR_MASK i \<longleftrightarrow> bit (push_bit 12 (mask 36) :: u64) i" by (simp only:)
  then show ?thesis by (auto simp: bit_push_bit_iff bit_mask_iff)
qed

lemma three_bits: "bit (3 :: u64) i \<longleftrightarrow> i < 2"
proof -
  have "(3 :: u64) = mask 2" by (simp add: mask_eq_exp_minus_1)
  then have "bit (3 :: u64) i \<longleftrightarrow> bit (mask 2 :: u64) i" by (simp only:)
  then show ?thesis by (auto simp: bit_mask_iff)
qed

definition prot_ok :: "u64 \<Rightarrow> bool" where
  "prot_ok prot \<longleftrightarrow> prot AND PTE_ADDR_MASK = 0 \<and> prot AND 3 = 3"

text \<open>An address of a block of \<open>2 ^ n\<close> bytes below \<open>2 ^ 48\<close>.\<close>

definition block_addr :: "nat \<Rightarrow> u64 \<Rightarrow> bool" where
  "block_addr n x \<longleftrightarrow> unat x < 2 ^ 48 \<and> 2 ^ n dvd unat x"

lemma bit_block_addr:
  assumes "block_addr n x" and "bit x i"
  shows "n \<le> i \<and> i < 48"
proof -
  have "bit (unat x) i" using assms(2) by (simp add: bit_unsigned_iff)
  then have "bit (take_bit 48 (unat x)) i" using assms(1) by (simp add: block_addr_def take_bit_nat_eq_self)
  then have "i < 48" by (simp add: bit_take_bit_iff)
  moreover have "take_bit n (unat x) = 0" using assms(1) by (simp add: block_addr_def take_bit_eq_mod mod_eq_0_iff_dvd)
  then have "n \<le> i" using \<open>bit (unat x) i\<close> by (metis bit_0_eq bit_take_bit_iff bot_apply bot_bool_def not_le)
  ultimately show ?thesis by simp
qed

lemma bit_and_zero: "(x :: u64) AND y = 0 \<Longrightarrow> bit x i \<Longrightarrow> \<not> bit y i"
  by (metis bit_0_eq bit_and_iff bot_apply bot_bool_def)

lemma table_entry:
  assumes "page_aligned p" and "unat p < 2 ^ 48"
  shows "(p OR 3) AND 3 = 3" "(p OR 3) AND PTE_ADDR_MASK = p"
proof -
  have b: "block_addr 12 p" using assms by (simp add: block_addr_def page_aligned_iff mod_eq_0_iff_dvd)
  show "(p OR 3) AND 3 = 3" by (rule bit_word_eqI) (auto simp: bit_simps)
  show "(p OR 3) AND PTE_ADDR_MASK = p"
    by (rule bit_word_eqI) (simp only: bit_and_iff bit_or_iff bit_addr_mask three_bits, use bit_block_addr [OF b] in fastforce)
qed

text \<open>The entry of a page or a section: its type, and what a walk that ends there gives.\<close>

lemma block_entry:
  assumes ph: "block_addr n ph" and n: "12 \<le> n" and q: "q AND PTE_ADDR_MASK = 0"
  shows "push_bit n (drop_bit n ph) = ph" "(ph OR q) AND 3 = q AND 3"
    "((ph OR q) AND PTE_ADDR_MASK) AND NOT (mask n) = ph"
    "((ph OR q) AND NOT PTE_ADDR_MASK) AND NOT 3 = q AND NOT 3"
proof -
  note b = bit_block_addr [OF ph]
  have q': "bit q i \<Longrightarrow> \<not> (12 \<le> i \<and> i < 48)" for i using bit_and_zero [OF q] by (simp add: bit_addr_mask)
  show "push_bit n (drop_bit n ph) = ph"
    by (rule bit_word_eqI) (use b in \<open>auto simp: bit_push_bit_iff bit_drop_bit_eq\<close>)
  show "(ph OR q) AND 3 = q AND 3"
  proof (rule bit_word_eqI)
    fix i
    have "\<not> bit ph i" if "i < 2" using b [of i] n that by linarith
    then show "bit ((ph OR q) AND 3) i = bit (q AND 3) i" by (simp only: bit_and_iff bit_or_iff three_bits) blast
  qed
  show "((ph OR q) AND PTE_ADDR_MASK) AND NOT (mask n) = ph"
  proof (rule bit_word_eqI)
    fix i assume "i < LENGTH(64)"
    then show "bit (((ph OR q) AND PTE_ADDR_MASK) AND NOT (mask n)) i = bit ph i"
      using b [of i] q' [of i] n by (simp only: bit_and_iff bit_or_iff bit_not_iff bit_addr_mask bit_mask_iff) auto
  qed
  show "((ph OR q) AND NOT PTE_ADDR_MASK) AND NOT 3 = q AND NOT 3"
  proof (rule bit_word_eqI)
    fix i assume "i < LENGTH(64)"
    then show "bit (((ph OR q) AND NOT PTE_ADDR_MASK) AND NOT 3) i = bit (q AND NOT 3) i"
      using b [of i] q' [of i] n by (simp only: bit_and_iff bit_or_iff bit_not_iff bit_addr_mask three_bits) auto
  qed
qed

lemma block_output:
  assumes ph: "block_addr n ph" and a: "2 ^ n dvd a" and va: "a \<le> unat va" "unat va < a + 2 ^ n" and n: "n < 48"
  shows "ph OR (va AND mask n) = word_of_nat (unat ph + (unat va - a))"
proof -
  have o: "unat (va AND mask n) = unat va - a"
  proof -
    obtain q where q: "a = 2 ^ n * q" using a by (rule dvdE)
    have "unat va = 2 ^ n * q + (unat va - a)" using va q by simp
    then have "unat va mod 2 ^ n = (2 ^ n * q + (unat va - a)) mod 2 ^ n" by simp
    also have "\<dots> = (unat va - a) mod 2 ^ n" by (simp only: mod_mult_self4)
    also have "\<dots> = unat va - a" by (rule mod_less) (use va in linarith)
    finally show ?thesis by (simp only: unat_and_mask)
  qed
  have "ph OR (va AND mask n) = ph + (va AND mask n)"
    by (rule disjunctive_add [symmetric], simp only: bit_and_iff bit_mask_iff)
      (use bit_block_addr [OF ph] in \<open>fastforce simp: not_less\<close>)
  also have "\<dots> = word_of_nat (unat ph + unat (va AND mask n))" by simp
  finally show ?thesis by (simp only: o)
qed

lemma page_walk:
  assumes "block_addr 12 ph" and "2 ^ 12 dvd a" and "a \<le> unat va" and "unat va < a + 2 ^ 12" and "prot_ok prot"
  shows "leaf 0 (pfn_pte (drop_bit PAGE_SHIFT ph) prot) va = Some (word_of_nat (unat ph + (unat va - a)), prot AND NOT 3)"
proof -
  have q: "prot AND PTE_ADDR_MASK = 0" "prot AND 3 = 3" using assms(5) by (simp_all add: prot_ok_def)
  note e = block_entry [OF assms(1) _ q(1)]
  have "12 \<le> (12 :: nat)" by simp
  note e = e [OF this]
  have p: "pfn_pte (drop_bit PAGE_SHIFT ph) prot = ph OR prot" by (simp only: pfn_pte_def PAGE_SHIFT_def e(1))
  show ?thesis unfolding p leaf_def walk_output_def
    using e(2-4) q(2) block_output [OF assms(1-4)] by simp
qed

lemma section_walk:
  assumes "block_addr 21 ph" and "2 ^ 21 dvd a" and "a \<le> unat va" and "unat va < a + 2 ^ 21" and "prot_ok prot"
  defines "v \<equiv> pfn_pmd (drop_bit PMD_SHIFT ph) (PMD_TYPE_SECT OR mk_sect_prot prot)"
  shows "v AND 3 = 1" "leaf 1 v va = Some (word_of_nat (unat ph + (unat va - a)), prot AND NOT 3)"
proof -
  let ?q = "PMD_TYPE_SECT OR mk_sect_prot prot"
  have q: "prot AND PTE_ADDR_MASK = 0" "prot AND 3 = 3" using assms(5) by (simp_all add: prot_ok_def)
  have b: "bit (1 :: u64) i \<longleftrightarrow> i = 0" "bit (2 :: u64) i \<longleftrightarrow> i = 1" for i
    using bit_push_bit_iff [of 1 "1 :: u64" i] by (auto simp: bit_1_iff)
  have c: "?q = 1 OR (prot AND NOT 2)" by (simp add: PMD_TYPE_SECT_def mk_sect_prot_def PTE_TABLE_BIT_def)
  have q0: "?q AND PTE_ADDR_MASK = 0"
    unfolding c by (rule bit_word_eqI)
      (use bit_and_zero [OF q(1)] in \<open>auto simp: bit_and_iff bit_or_iff bit_not_iff b bit_addr_mask\<close>)
  have q1: "?q AND 3 = 1" unfolding c by (rule bit_word_eqI) (simp only: bit_and_iff bit_or_iff bit_not_iff b three_bits, auto)
  have q2: "?q AND NOT 3 = prot AND NOT 3"
    unfolding c by (rule bit_word_eqI) (simp only: bit_and_iff bit_or_iff bit_not_iff b three_bits, auto)
  have "12 \<le> (21 :: nat)" by simp
  note e = block_entry [OF assms(1) this q0]
  have v: "v = ph OR ?q" by (simp only: v_def pfn_pmd_def PMD_SHIFT_def e(1))
  show 1: "v AND 3 = 1" unfolding v by (simp only: e(2) q1)
  show "leaf 1 v va = Some (word_of_nat (unat ph + (unat va - a)), prot AND NOT 3)"
    using 1 e(3,4) q2 block_output [OF assms(1-4)] unfolding leaf_def walk_output_def v by simp
qed


section \<open>What a mapping step does\<close>

definition free_pages :: "'a page_state_scheme \<Rightarrow> nat" where
  "free_pages s = card {i. i < NR_PAGES \<and> mem_map s i = 0}"

text \<open>Pages are taken from the lowest on: no page is free below one that was taken.\<close>

definition low_first :: "(nat \<Rightarrow> u8) \<Rightarrow> (nat \<Rightarrow> u8) \<Rightarrow> bool" where
  "low_first mm mm' \<longleftrightarrow> (\<forall>i. mm i \<noteq> 0 \<longrightarrow> mm' i \<noteq> 0) \<and> (\<forall>i j. mm i = 0 \<longrightarrow> mm' i \<noteq> 0 \<longrightarrow> mm' j = 0 \<longrightarrow> i < j)"

lemma low_first_refl [simp]: "low_first mm mm"
  by (simp add: low_first_def)

lemma low_first_trans: "low_first a b \<Longrightarrow> low_first b c \<Longrightarrow> low_first a c"
  unfolding low_first_def by blast

lemma low_first_alloc: "(\<And>k. k < i \<Longrightarrow> mm k \<noteq> 0) \<Longrightarrow> low_first mm (mm(i := 1))"
  unfolding low_first_def by (auto simp: nat_neq_iff split: if_splits)

definition touched :: "'a page_state_scheme \<Rightarrow> 'a page_state_scheme \<Rightarrow> bool" where
  "touched s s' \<longleftrightarrow> (\<exists>m mm es. s' = s\<lparr>mem := m, mem_map := mm, hw_trace := hw_trace s @ es\<rparr> \<and> set es \<subseteq> range Insn \<and>
     low_first (mem_map s) mm)"

definition tables_ok :: "u64 \<Rightarrow> 'a page_state_scheme \<Rightarrow> bool" where
  "tables_ok pgd s \<longleftrightarrow> unat pgd < 4194304 \<and> pt_inv (mem s) pgd (used_pages s)"

definition unmapped :: "u64 \<Rightarrow> nat \<Rightarrow> nat \<Rightarrow> 'a page_state_scheme \<Rightarrow> bool" where
  "unmapped pgd a e s \<longleftrightarrow> (\<forall>va. unat va < 2 ^ 48 \<longrightarrow> a \<le> unat va \<longrightarrow> unat va < e \<longrightarrow> translate (mem s) pgd va = None)"

text \<open>From \<open>s\<close> to \<open>s'\<close> the addresses from \<open>a\<close> to \<open>e\<close> are mapped to those from \<open>ph\<close>, no other translation
  changes, and at most \<open>k\<close> pages are taken.\<close>

definition mapped :: "u64 \<Rightarrow> nat \<Rightarrow> nat \<Rightarrow> nat \<Rightarrow> u64 \<Rightarrow> nat \<Rightarrow> 'a page_state_scheme \<Rightarrow> 'a page_state_scheme \<Rightarrow> bool" where
  "mapped pgd a e ph prot k s s' \<longleftrightarrow>
     tables_ok pgd s' \<and> touched s s' \<and> used_pages s \<subseteq> used_pages s' \<and> free_pages s \<le> free_pages s' + k \<and>
     (\<forall>va. unat va < 2 ^ 48 \<longrightarrow> translate (mem s') pgd va =
        (if a \<le> unat va \<and> unat va < e then Some (word_of_nat (ph + (unat va - a)), prot AND NOT 3)
         else translate (mem s) pgd va)) \<and>
     (\<forall>j va t. j \<le> 2 \<longrightarrow> tab j (mem s) pgd va = Some t \<longrightarrow> tab j (mem s') pgd va = Some t)"

lemma touched_refl [simp]: "touched s s"
proof -
  have "s = s\<lparr>mem := mem s, mem_map := mem_map s, hw_trace := hw_trace s @ []\<rparr> \<and> set [] \<subseteq> range Insn \<and> low_first (mem_map s) (mem_map s)" by simp
  then show ?thesis unfolding touched_def by blast
qed

lemma touched_trans:
  assumes "touched a b" and "touched b c"
  shows "touched a c"
proof -
  obtain m mm es where b: "b = a\<lparr>mem := m, mem_map := mm, hw_trace := hw_trace a @ es\<rparr>" "set es \<subseteq> range Insn" "low_first (mem_map a) mm"
    using assms(1) by (auto simp: touched_def)
  obtain m' mm' es' where c: "c = b\<lparr>mem := m', mem_map := mm', hw_trace := hw_trace b @ es'\<rparr>" "set es' \<subseteq> range Insn" "low_first (mem_map b) mm'"
    using assms(2) by (auto simp: touched_def)
  have "c = a\<lparr>mem := m', mem_map := mm', hw_trace := hw_trace a @ es @ es'\<rparr> \<and> set (es @ es') \<subseteq> range Insn \<and>
      low_first (mem_map a) mm'" using b(2) c(2) low_first_trans [OF b(3), of mm'] c(3) by (simp add: c(1) b(1))
  then show ?thesis unfolding touched_def by blast
qed

text \<open>A page that is free while fewer pages lie above it than are still free stays free.\<close>

lemma touched_high_page:
  assumes "touched s s'" and "mem_map s i = 0" and "i < NR_PAGES" and "NR_PAGES - i \<le> free_pages s'"
  shows "mem_map s' i = 0"
proof (rule ccontr)
  assume n: "mem_map s' i \<noteq> 0"
  have l: "low_first (mem_map s) (mem_map s')" using assms(1) by (auto simp: touched_def)
  have "{j. j < NR_PAGES \<and> mem_map s' j = 0} \<subseteq> {Suc i ..< NR_PAGES}" using l assms(2) n by (auto simp: low_first_def Suc_le_eq)
  then have "free_pages s' \<le> card {Suc i ..< NR_PAGES}" unfolding free_pages_def by (rule card_mono [rotated]) simp
  then show False using assms(3,4) by simp
qed

lemma mapped_trans:
  assumes "mapped pgd a b ph prot k s s1" and "mapped pgd b e (ph + (b - a)) prot l s1 s2" and "a \<le> b" and "b \<le> e"
  shows "mapped pgd a e ph prot (k + l) s s2"
  unfolding mapped_def
proof (intro conjI allI impI)
  show "touched s s2" using assms(1,2) touched_trans unfolding mapped_def by blast
  show "tables_ok pgd s2" "used_pages s \<subseteq> used_pages s2" "free_pages s \<le> free_pages s2 + (k + l)"
    using assms(1,2) unfolding mapped_def by auto
  show "tab j (mem s2) pgd va = Some t" if "j \<le> 2" "tab j (mem s) pgd va = Some t" for j va t
    using assms(1,2) that unfolding mapped_def by blast
  fix va :: u64 assume va: "unat va < 2 ^ 48"
  have 2: "translate (mem s2) pgd va = (if b \<le> unat va \<and> unat va < e then Some (word_of_nat (ph + (b - a) + (unat va - b)), prot AND NOT 3)
         else translate (mem s1) pgd va)" using assms(2) va unfolding mapped_def by blast
  have 1: "translate (mem s1) pgd va = (if a \<le> unat va \<and> unat va < b then Some (word_of_nat (ph + (unat va - a)), prot AND NOT 3)
         else translate (mem s) pgd va)" using assms(1) va unfolding mapped_def by blast
  have "ph + (b - a) + (unat va - b) = ph + (unat va - a)" if "b \<le> unat va" using assms(3) that by simp
  with 1 2 assms(3,4) show "translate (mem s2) pgd va = (if a \<le> unat va \<and> unat va < e then Some (word_of_nat (ph + (unat va - a)), prot AND NOT 3)
         else translate (mem s) pgd va)" by auto
qed

lemma mapped_unmapped:
  "mapped pgd a b ph prot k s s1 \<Longrightarrow> unmapped pgd c e s \<Longrightarrow> b \<le> c \<Longrightarrow> unmapped pgd c e s1"
  unfolding mapped_def unmapped_def by auto

lemma mapped_tab: "mapped pgd a b ph prot k s s1 \<Longrightarrow> j \<le> 2 \<Longrightarrow> tab j (mem s) pgd va = Some t \<Longrightarrow> tab j (mem s1) pgd va = Some t"
  unfolding mapped_def by blast

lemma mapped_weaken: "mapped pgd a e ph prot k s s1 \<Longrightarrow> k \<le> l \<Longrightarrow> mapped pgd a e ph prot l s s1"
  unfolding mapped_def by auto

section \<open>One entry\<close>

lemma dsb_simps [simp]:
  "mem (dsb opt s) = mem s" "mem_map (dsb opt s) = mem_map s" "hw_trace (dsb opt s) = hw_trace s @ [Insn (''dsb '' @ opt)]"
  by (simp_all add: dsb_def hw_emit_def)

lemma touched_store: "touched s (dsb opt (s\<lparr>mem := m\<rparr>))"
proof -
  have "dsb opt (s\<lparr>mem := m\<rparr>) = s\<lparr>mem := m, mem_map := mem_map s, hw_trace := hw_trace s @ [Insn (''dsb '' @ opt)]\<rparr> \<and>
      set [Insn (''dsb '' @ opt)] \<subseteq> range Insn \<and> low_first (mem_map s) (mem_map s)" by (simp add: dsb_def hw_emit_def)
  then show ?thesis unfolding touched_def by blast
qed

lemma used_pages_cong: "mem_map s' = mem_map s \<Longrightarrow> used_pages s' = used_pages s"
  by (simp add: used_pages_def)

lemma free_pages_cong: "mem_map s' = mem_map s \<Longrightarrow> free_pages s' = free_pages s"
  by (simp add: free_pages_def)

lemma changed_store:
  assumes "page_aligned t"
  shows "changed m t d a v None (store64 (t + 8 * word_of_nat (ix (3 - d) a)) v m)"
  unfolding changed_def using ent_store [OF assms ix_less] by simp

text \<open>Writing the entry of a page (depth 3) or of a section (depth 2) maps its block.\<close>

lemma store_leaf_mapped:
  fixes s :: "'a page_state_scheme"
  assumes ok: "tables_ok pgd s" and t: "tab d (mem s) pgd a = Some t" and a: "unat a < 2 ^ 48" "2 ^ n dvd unat a"
    and d: "d = 3 \<and> n = 12 \<or> d = 2 \<and> n = 21 \<and> v AND 3 = 1"
    and v: "\<And>va. unat a \<le> unat va \<Longrightarrow> unat va < unat a + 2 ^ n \<Longrightarrow>
       leaf (3 - d) v va = Some (word_of_nat (ph + (unat va - unat a)), prot AND NOT 3)"
  shows "mapped pgd (unat a) (unat a + 2 ^ n) ph prot 0 s
     (dsb opt (s\<lparr>mem := store64 (t + 8 * word_of_nat (ix (3 - d) a)) v (mem s)\<rparr>))" (is "mapped _ _ _ _ _ _ _ ?s")
proof -
  let ?m = "store64 (t + 8 * word_of_nat (ix (3 - d) a)) v (mem s)"
  have inv: "pt_inv (mem s) pgd (used_pages s)" using ok by (simp add: tables_ok_def)
  have d3: "d \<le> 3" and d0: "d \<noteq> 0" using d by auto
  have ch: "changed (mem s) t d a v None ?m" by (rule changed_store [OF pt_inv_tab_page(1) [OF inv t d3]])
  have vv: "d = 3 \<or> v AND 3 \<noteq> 3" using d by auto
  have n: "48 - 9 * Suc d = n" using d by auto
  have same: "pre (Suc d) va = pre (Suc d) a \<longleftrightarrow> unat a \<le> unat va \<and> unat va < unat a + 2 ^ n" if "unat va < 2 ^ 48" for va
  proof -
    have "pre (Suc d) va = unat va div 2 ^ n" "pre (Suc d) a = unat a div 2 ^ n"
      using pre_small [OF that, of "Suc d"] pre_small [OF a(1), of "Suc d"] by (simp_all only: n)
    moreover obtain q where q: "unat a = 2 ^ n * q" using a(2) by (rule dvdE)
    moreover have "unat va div 2 ^ n = q \<longleftrightarrow> 2 ^ n * q \<le> unat va \<and> unat va < 2 ^ n * q + 2 ^ n"
    proof
      assume "unat va div 2 ^ n = q"
      then have "unat va = 2 ^ n * q + unat va mod 2 ^ n" by (metis mult_div_mod_eq)
      moreover have "unat va mod 2 ^ n < 2 ^ n" by simp
      ultimately show "2 ^ n * q \<le> unat va \<and> unat va < 2 ^ n * q + 2 ^ n" by linarith
    next
      assume "2 ^ n * q \<le> unat va \<and> unat va < 2 ^ n * q + 2 ^ n"
      then show "unat va div 2 ^ n = q" by (intro div_nat_eqI) (auto simp: algebra_simps)
    qed
    ultimately show ?thesis by (simp add: q)
  qed
  have U: "used_pages ?s = used_pages s" "free_pages ?s = free_pages s" by (rule used_pages_cong free_pages_cong, simp)+
  have "pt_inv ?m pgd (used_pages s)"
  proof -
    have "leaf (3 - d) v a \<noteq> None" using v [of a] by simp
    then have "d = 3 \<Longrightarrow> v AND 3 = 3" by (simp add: leaf_def split: if_splits)
    then show ?thesis using pt_inv_changed [OF inv t d3 ch] vv d by auto
  qed
  then have "tables_ok pgd ?s" using ok U by (simp add: tables_ok_def)
  moreover have "translate ?m pgd va = (if unat a \<le> unat va \<and> unat va < unat a + 2 ^ n
      then Some (word_of_nat (ph + (unat va - unat a)), prot AND NOT 3) else translate (mem s) pgd va)" if va: "unat va < 2 ^ 48" for va
  proof (cases "pre (Suc d) va = pre (Suc d) a")
    case True
    then have r: "unat a \<le> unat va" "unat va < unat a + 2 ^ n" using same [OF va] by auto
    have "translate ?m pgd va = leaf (3 - d) v va" by (rule translate_leaf [OF inv t d3 ch vv True d0])
    then show ?thesis using v [OF r] r by simp
  next
    case False
    then have nr: "\<not> (unat a \<le> unat va \<and> unat va < unat a + 2 ^ n)" using same [OF va] by blast
    show ?thesis unfolding if_not_P [OF nr]
      by (rule translate_other [OF inv t d3 ch _ _ False]) (use vv in simp_all)
  qed
  moreover have "tab j ?m pgd va = Some t'" if "j \<le> 2" "tab j (mem s) pgd va = Some t'" for j va t'
    using tab_changed [OF inv t d3 ch, of j va] vv d that by auto
  ultimately show ?thesis using touched_store [of s opt ?m] U unfolding mapped_def by simp
qed


text \<open>Moving to the next entry of the same table.\<close>

lemma next_slot:
  assumes b: "unat b = (unat a div 2 ^ (12 + 9 * r) + 1) * 2 ^ (12 + 9 * r)"
    and same: "unat b div 2 ^ (21 + 9 * r) = unat a div 2 ^ (21 + 9 * r)"
  shows "ix r b = Suc (ix r a)"
proof -
  define P where "P = (2 :: nat) ^ (12 + 9 * r)"
  have P: "0 < P" by (simp add: P_def)
  have "(2 :: nat) ^ (21 + 9 * r) = P * 512" by (simp add: P_def power_add)
  then have s: "unat b div P div 512 = unat a div P div 512" using same by (simp only: div_mult2_eq)
  have bp: "unat b div P = Suc (unat a div P)" using b P by (simp add: P_def [symmetric])
  have "Suc (unat a div P) mod 512 = Suc (unat a div P mod 512)"
    using s unfolding bp by (metis div_Suc mod_Suc n_not_Suc_n)
  then show ?thesis unfolding ix_def P_def [symmetric] bp .
qed

lemma same_pre:
  assumes "unat a < 2 ^ 48" and "unat b < 2 ^ 48" and "unat b div 2 ^ (48 - 9 * d) = unat a div 2 ^ (48 - 9 * d)"
  shows "pre d b = pre d a"
  using assms by (simp add: pre_small)

declare pte_loop.simps [simp del]

lemma pte_loop_mapped:
  assumes "tables_ok pgd s" and "tab 3 (mem s) pgd a = Some t" and "unat e \<le> 2 ^ 48" and "prot_ok prot"
    and "unat e = unat a + 4096 * Suc n" and "4096 dvd unat a" and "(unat e - 1) div 2 ^ 21 = unat a div 2 ^ 21"
    and "4096 dvd unat ph" and "unat ph + 4096 * Suc n \<le> 2 ^ 48"
  shows "\<exists>s'. pte_loop (t + 8 * word_of_nat (ix 0 a)) a e ph prot s = Some s' \<and> mapped pgd (unat a) (unat e) (unat ph) prot 0 s s'"
  using assms
proof (induction n arbitrary: a ph s)
  case (0 a ph s)
  let ?v = "pfn_pte (drop_bit PAGE_SHIFT ph) prot"
  let ?s1 = "set_pte (t + 8 * word_of_nat (ix 0 a)) ?v s"
  have a: "unat a < 2 ^ 48" "2 ^ 12 dvd unat a" "block_addr 12 ph" using 0 by (simp_all add: block_addr_def)
  have "mapped pgd (unat a) (unat a + 2 ^ 12) (unat ph) prot 0 s (dsb ''ishst'' (s\<lparr>mem := store64 (t + 8 * word_of_nat (ix (3 - 3) a)) ?v (mem s)\<rparr>))"
    by (rule store_leaf_mapped [OF 0(1,2) a(1,2)]) (use page_walk [OF a(3,2) _ _ 0(4)] in simp_all)
  then have "mapped pgd (unat a) (unat e) (unat ph) prot 0 s ?s1" using 0(5) by (simp add: set_pte_def)
  moreover have "e = a + 4096" using 0(5) by (simp add: word_unat_eq_iff unat_word_ariths) (use 0(3) in simp)
  ultimately show ?case by (simp add: pte_loop.simps [of _ a])
next
  case (Suc n a ph s)
  let ?v = "pfn_pte (drop_bit PAGE_SHIFT ph) prot" and ?p = "t + 8 * word_of_nat (ix 0 a)"
  let ?s1 = "set_pte ?p ?v s"
  have ua: "unat (a + 4096) = unat a + 4096" and up: "unat (ph + 4096) = unat ph + 4096"
    using Suc.prems(3,5,9) by (simp_all add: unat_word_ariths)
  have a: "unat a < 2 ^ 48" "2 ^ 12 dvd unat a" "block_addr 12 ph" "unat (a + 4096) < 2 ^ 48"
    using Suc.prems ua by (simp_all add: block_addr_def)
  have "mapped pgd (unat a) (unat a + 2 ^ 12) (unat ph) prot 0 s (dsb ''ishst'' (s\<lparr>mem := store64 (t + 8 * word_of_nat (ix (3 - 3) a)) ?v (mem s)\<rparr>))"
    by (rule store_leaf_mapped [OF Suc.prems(1,2) a(1,2)]) (use page_walk [OF a(3,2) _ _ Suc.prems(4)] in simp_all)
  then have m1: "mapped pgd (unat a) (unat (a + 4096)) (unat ph) prot 0 s ?s1" by (simp add: set_pte_def ua)
  have blk: "unat (a + 4096) div 2 ^ 21 = unat a div 2 ^ 21"
  proof -
    have "unat a div 2 ^ 21 \<le> unat (a + 4096) div 2 ^ 21" "unat (a + 4096) div 2 ^ 21 \<le> (unat e - 1) div 2 ^ 21"
      using Suc.prems(5) ua by (intro div_le_mono; simp)+
    with Suc.prems(7) show ?thesis by simp
  qed
  obtain q where q: "unat a = 4096 * q" using Suc.prems(6) by (rule dvdE)
  have i: "ix 0 (a + 4096) = Suc (ix 0 a)" by (rule next_slot) (use blk ua q in simp_all)
  have inv: "pt_inv (mem s) pgd (used_pages s)" using Suc.prems(1) by (simp add: tables_ok_def)
  have "changed (mem s) t 3 a ?v None (mem ?s1)"
    using changed_store [OF pt_inv_tab_page(1) [OF inv Suc.prems(2)], of "mem s" 3 a ?v] by (simp add: set_pte_def)
  from tab_changed [OF inv Suc.prems(2) _ this, of 3 "a + 4096"] have "tab 3 (mem ?s1) pgd (a + 4096) = tab 3 (mem s) pgd (a + 4096)" by simp
  also have "\<dots> = Some t"
    using tab_cong [OF _ same_pre [OF a(1,4), of 3], of "mem s" pgd] blk Suc.prems(2) by simp
  finally have t1: "tab 3 (mem ?s1) pgd (a + 4096) = Some t" .
  have "\<exists>s'. pte_loop (t + 8 * word_of_nat (ix 0 (a + 4096))) (a + 4096) e (ph + 4096) prot ?s1 = Some s' \<and>
      mapped pgd (unat (a + 4096)) (unat e) (unat (ph + 4096)) prot 0 ?s1 s'"
    by (rule Suc.IH) (use m1 t1 Suc.prems blk ua up in \<open>auto simp: mapped_def\<close>)
  then obtain s' where s': "pte_loop (t + 8 * word_of_nat (ix 0 (a + 4096))) (a + 4096) e (ph + 4096) prot ?s1 = Some s'"
    "mapped pgd (unat (a + 4096)) (unat e) (unat (ph + 4096)) prot 0 ?s1 s'" by blast
  have ne: "a + 4096 \<noteq> e" using Suc.prems(5) ua by auto
  have "t + 8 * word_of_nat (ix 0 (a + 4096)) = ?p + 8" by (simp add: i algebra_simps)
  with s'(1) have "pte_loop (?p + 8) (a + 4096) e (ph + 4096) prot ?s1 = Some s'" by (simp only:)
  then have "pte_loop ?p a e ph prot s = Some s'" using ne by (simp add: pte_loop.simps [of _ a])
  moreover have "mapped pgd (unat a) (unat e) (unat ph) prot (0 + 0) s s'"
    by (rule mapped_trans [OF m1]) (use s'(2) ua up Suc.prems(5) in simp_all)
  ultimately show ?case by auto
qed

section \<open>The loop of the upper levels\<close>

text \<open>The number of blocks of \<open>2 ^ n\<close> bytes that the addresses from \<open>a\<close> to \<open>e\<close> meet.\<close>

definition nblocks :: "nat \<Rightarrow> nat \<Rightarrow> nat \<Rightarrow> nat" where
  "nblocks n a e = (e - 1) div 2 ^ n - a div 2 ^ n + 1"

lemma nblocks_split:
  assumes "a < b" and "b < e" and "2 ^ n dvd b"
  shows "nblocks n a b + nblocks n b e = nblocks n a e"
proof -
  obtain q where q: "b = 2 ^ n * q" using assms(3) by (rule dvdE)
  have q0: "0 < q" using assms(1) q by (cases q) auto
  have "(b - 1) div 2 ^ n = q - 1"
  proof -
    define P where "P = (2 :: nat) ^ n"
    have P: "0 < P" by (simp add: P_def)
    obtain k where k: "q = Suc k" using q0 by (cases q) auto
    have "b = P * k + P" using q k by (simp add: P_def)
    then have "P * k \<le> b - 1" "b - 1 < P * Suc k" using P by simp_all
    then have "(b - 1) div P = k" by (intro div_nat_eqI) (simp_all add: mult.commute)
    then show ?thesis by (simp add: P_def k)
  qed
  moreover have "b div 2 ^ n = q" by (simp add: q)
  moreover have "a div 2 ^ n \<le> (b - 1) div 2 ^ n" "b div 2 ^ n \<le> (e - 1) div 2 ^ n" using assms(1,2) by (intro div_le_mono; simp)+
  ultimately show ?thesis using q0 by (simp add: nblocks_def)
qed

declare level_loop.simps [simp del]

lemma level_loop_mapped:
  fixes step :: "u64 \<Rightarrow> u64 \<Rightarrow> u64 \<Rightarrow> u64 \<Rightarrow> 'a page_state_scheme \<Rightarrow> 'a page_state_scheme res"
  assumes n: "n = 12 + 9 * (3 - d)" and d: "d \<le> 2"
    and bound: "\<And>a e. unat a < unat e \<Longrightarrow> unat e \<le> 2 ^ 48 \<Longrightarrow> unat (bound a e) = block_end n (unat a) (unat e)"
    and cost: "\<And>a b e. a < b \<Longrightarrow> b < e \<Longrightarrow> 2 ^ n dvd b \<Longrightarrow> c a b + c b e = (c a e :: nat)"
    and step: "\<And>a nx ph s. tables_ok pgd s \<Longrightarrow> tab d (mem s) pgd a = Some t \<Longrightarrow> unmapped pgd (unat a) (unat nx) s \<Longrightarrow>
       unat a < unat nx \<Longrightarrow> unat nx \<le> 2 ^ 48 \<Longrightarrow> (unat nx - 1) div 2 ^ n = unat a div 2 ^ n \<Longrightarrow>
       4096 dvd unat a \<Longrightarrow> 4096 dvd unat nx \<Longrightarrow> 4096 dvd unat ph \<Longrightarrow> unat ph + (unat nx - unat a) \<le> 2 ^ 48 \<Longrightarrow>
       c (unat a) (unat nx) \<le> free_pages s \<Longrightarrow>
       \<exists>s'. step (t + 8 * word_of_nat (ix (3 - d) a)) a nx ph s = Inr s' \<and>
         mapped pgd (unat a) (unat nx) (unat ph) prot (c (unat a) (unat nx)) s s'"
    and ok: "tables_ok pgd s" and t: "tab d (mem s) pgd a = Some t" and un: "unmapped pgd (unat a) (unat e) s"
    and lt: "unat a < unat e" "unat e \<le> 2 ^ 48" and blk: "(unat e - 1) div 2 ^ (n + 9) = unat a div 2 ^ (n + 9)"
    and al: "4096 dvd unat a" "4096 dvd unat e" "4096 dvd unat ph" and ph: "unat ph + (unat e - unat a) \<le> 2 ^ 48"
    and fr: "c (unat a) (unat e) \<le> free_pages s"
  shows "\<exists>s'. level_loop bound step (t + 8 * word_of_nat (ix (3 - d) a)) a e ph s = Some (Inr s') \<and>
     mapped pgd (unat a) (unat e) (unat ph) prot (c (unat a) (unat e)) s s'"
  using ok t un lt(1) blk al ph fr
proof (induction "unat e - unat a" arbitrary: a ph s rule: less_induct)
  case less
  let ?b = "bound a e" and ?p = "t + 8 * word_of_nat (ix (3 - d) a)"
  note prems = less.prems
  have b: "unat ?b = block_end n (unat a) (unat e)" by (rule bound [OF prems(4) lt(2)])
  note bb = block_end_bounds [OF prems(4), of n, folded b]
  have "12 \<le> n" by (simp add: n)
  then have "(4096 :: nat) dvd 2 ^ n" using le_imp_power_dvd [of 12 n "2 :: nat"] by simp
  then have alb: "4096 dvd unat ?b"
    using prems(7) unfolding b block_end_def min_def by (auto intro: dvd_mult)
  show ?case
  proof (cases "?b = e")
    case True
    obtain s' where "step ?p a e ph s = Inr s'" "mapped pgd (unat a) (unat e) (unat ph) prot (c (unat a) (unat e)) s s'"
      using step [OF prems(1-4) lt(2) _ prems(6-10)] bb(3) True by auto
    with True show ?thesis by (simp add: level_loop.simps [of _ _ _ a])
  next
    case False
    then have be: "unat ?b < unat e" using bb(2) by (auto simp: word_unat_eq_iff)
    then have bn: "unat ?b = (unat a div 2 ^ n + 1) * 2 ^ n" using b by (simp add: block_end_def min_def split: if_splits)
    then have dv: "2 ^ n dvd unat ?b" by simp
    have co: "c (unat a) (unat ?b) + c (unat ?b) (unat e) = c (unat a) (unat e)" by (rule cost [OF bb(1) be dv])
    have un1: "unmapped pgd (unat a) (unat ?b) s" using prems(3) be unfolding unmapped_def by auto
    obtain s1 where s1: "step ?p a ?b ph s = Inr s1" "mapped pgd (unat a) (unat ?b) (unat ph) prot (c (unat a) (unat ?b)) s s1"
      using step [OF prems(1,2) un1 bb(1) _ bb(3) prems(6) alb prems(8)] be lt(2) prems(9,10) co by fastforce
    let ?ph = "ph + (?b - a)"
    have ub: "unat (?b - a) = unat ?b - unat a" using bb(1) by (simp add: unat_sub word_le_nat_alt)
    then have uph: "unat ?ph = unat ph + (unat ?b - unat a)" using prems(9) be by (subst unat_add_lem') simp_all
    have n9: "21 + 9 * (3 - d) = n + 9" "48 - 9 * d = n + 9" using n d by simp_all
    have sameblk: "unat ?b div 2 ^ (n + 9) = unat a div 2 ^ (n + 9)"
    proof -
      have "unat a div 2 ^ (n + 9) \<le> unat ?b div 2 ^ (n + 9)" "unat ?b div 2 ^ (n + 9) \<le> (unat e - 1) div 2 ^ (n + 9)"
        using bb(1) be by (intro div_le_mono; simp)+
      with prems(5) show ?thesis by simp
    qed
    have "pre d ?b = pre d a" by (rule same_pre) (use lt be bb(1) sameblk n9 in simp_all)
    then have "tab d (mem s) pgd ?b = Some t" using tab_cong [of d ?b a "mem s" pgd] d prems(2) by simp
    then have t1: "tab d (mem s1) pgd ?b = Some t" by (rule mapped_tab [OF s1(2) d])
    have ix1: "ix (3 - d) ?b = Suc (ix (3 - d) a)"
      by (rule next_slot) (use bn n sameblk in \<open>simp_all only: n9 n\<close>)
    have "\<exists>s'. level_loop bound step (t + 8 * word_of_nat (ix (3 - d) ?b)) ?b e ?ph s1 = Some (Inr s') \<and>
        mapped pgd (unat ?b) (unat e) (unat ?ph) prot (c (unat ?b) (unat e)) s1 s'"
    proof (rule less.hyps)
      show "unat e - unat ?b < unat e - unat a" using bb(1) be by simp
      show "tables_ok pgd s1" using s1(2) by (simp add: mapped_def)
      have "unmapped pgd (unat ?b) (unat e) s" using prems(3) bb(1) unfolding unmapped_def by auto
      then show "unmapped pgd (unat ?b) (unat e) s1" by (rule mapped_unmapped [OF s1(2)]) simp
      show "4096 dvd unat ?ph" unfolding uph using prems(6,8) alb by (simp add: dvd_diff_nat)
      show "c (unat ?b) (unat e) \<le> free_pages s1" using s1(2) prems(10) co by (simp add: mapped_def)
    qed (use t1 be alb prems(5,7,9) sameblk uph bb(1) in simp_all)
    then obtain s' where s': "level_loop bound step (t + 8 * word_of_nat (ix (3 - d) ?b)) ?b e ?ph s1 = Some (Inr s')"
      "mapped pgd (unat ?b) (unat e) (unat ?ph) prot (c (unat ?b) (unat e)) s1 s'" by blast
    have "t + 8 * word_of_nat (ix (3 - d) ?b) = ?p + 8" by (simp add: ix1 algebra_simps)
    with s'(1) have "level_loop bound step (?p + 8) ?b e ?ph s1 = Some (Inr s')" by (simp only:)
    then have "level_loop bound step ?p a e ph s = Some (Inr s')"
      using s1(1) False by (simp add: level_loop.simps [of _ _ _ a])
    moreover have "mapped pgd (unat a) (unat e) (unat ph) prot (c (unat a) (unat e)) s s'"
      using mapped_trans [OF s1(2) s'(2) [unfolded uph]] bb(1) be co by simp
    ultimately show ?thesis by blast
  qed
qed

text \<open>The pages a mapping may need: one for each second, third and last level table it meets.\<close>

definition pmd_cost :: "nat \<Rightarrow> nat \<Rightarrow> nat" where "pmd_cost a e = nblocks 30 a e + nblocks 21 a e"
definition pud_cost :: "nat \<Rightarrow> nat \<Rightarrow> nat" where "pud_cost a e = nblocks 39 a e + pmd_cost a e"

lemma nblocks_one: "(e - 1) div 2 ^ n = a div 2 ^ n \<Longrightarrow> nblocks n a e = 1"
  by (simp add: nblocks_def)

lemma section_aligned: "(x :: u64) AND NOT PG_SECTION_MASK = 0 \<Longrightarrow> 2 ^ 21 dvd unat x"
proof -
  assume "x AND NOT PG_SECTION_MASK = 0"
  moreover have "NOT PG_SECTION_MASK = mask 21" by (simp add: PG_SECTION_MASK_def PG_SECTION_SIZE_def PMD_SHIFT_def mask_eq_exp_minus_1)
  ultimately have "unat x mod 2 ^ 21 = unat (0 :: u64)" by (simp only: unat_and_mask [symmetric])
  then have "unat x mod 2 ^ 21 = 0" by (simp only: unat_0)
  then show ?thesis by (rule mod_0_imp_dvd)
qed

text \<open>Page boundaries around an address.\<close>

definition page_down :: "nat \<Rightarrow> nat" where "page_down x = x div 4096 * 4096"
definition page_up :: "nat \<Rightarrow> nat" where "page_up x = (x + 4095) div 4096 * 4096"

lemma page_down_le: "page_down x \<le> x"
  by (simp add: page_down_def)

lemma page_up_ge: "x \<le> page_up x"
proof -
  have "(x + 4095) div 4096 * 4096 + (x + 4095) mod 4096 = x + 4095" by (rule div_mult_mod_eq)
  moreover have "(x + 4095) mod 4096 < 4096" by simp
  ultimately show ?thesis unfolding page_up_def by linarith
qed

lemma page_up_least: "x \<le> y \<Longrightarrow> 4096 dvd y \<Longrightarrow> page_up x \<le> y"
proof -
  assume "x \<le> y" "4096 dvd y"
  then obtain q where q: "y = 4096 * q" by (auto elim: dvdE)
  have "(x + 4095) div 4096 \<le> (4096 * q + 4095) div 4096" using \<open>x \<le> y\<close> q by (intro div_le_mono) simp
  also have "\<dots> = q" by simp
  finally show ?thesis by (simp add: page_up_def q)
qed

lemma unat_page_down:
  fixes x :: u64
  shows "unat (x AND scast PAGE_MASK) = page_down (unat x)"
proof -
  have m: "scast PAGE_MASK = (NOT (mask 12) :: u64)" by (simp add: mask_eq_exp_minus_1)
  show ?thesis unfolding m unat_and_not_mask by (simp add: page_down_def)
qed

lemma unat_page_up: "unat x \<le> 2 ^ 48 \<Longrightarrow> unat (PAGE_ALIGN x) = page_up (unat x)"
proof -
  assume "unat x \<le> 2 ^ 48"
  then have "unat (x + 4095) = unat x + 4095" by (subst unat_add_lem') simp_all
  moreover have "PAGE_ALIGN x = (x + 4095) AND scast PAGE_MASK" by (simp add: PAGE_ALIGN_def algebra_simps)
  ultimately show ?thesis using unat_page_down [of "x + 4095"] by (simp add: page_down_def page_up_def del: page_consts)
qed

section \<open>The contract of the function that allocates tables\<close>

locale table_allocator =
  fixes alloc :: "'a page_state_scheme \<Rightarrow> (u64 \<times> 'a page_state_scheme) res"
  assumes alloc_table: "0 < free_pages s \<Longrightarrow> \<exists>p s'. alloc s = Inr (p, s') \<and> p \<notin> used_pages s \<and>
     page_aligned p \<and> 4194304 \<le> unat p \<and> unat p < 2 ^ 48 \<and> used_pages s' = insert p (used_pages s) \<and>
     free_pages s = Suc (free_pages s') \<and> touched s s' \<and>
     (\<forall>t i. page_aligned t \<longrightarrow> i < 512 \<longrightarrow> ent (mem s') t i = (if t = p then 0 else ent (mem s) t i))"
begin

text \<open>An empty entry at one of the upper levels gets a fresh table; nothing is mapped by that.\<close>

lemma install_table:
  assumes ok: "tables_ok pgd s" and t: "tab d (mem s) pgd a = Some t" and d: "d \<le> 2"
    and z: "ent (mem s) t (ix (3 - d) a) = 0" and fr: "0 < free_pages s"
  shows "\<exists>p s1. alloc s = Inr (p, s1) \<and>
     (let s2 = dsb opt (s1\<lparr>mem := store64 (t + 8 * word_of_nat (ix (3 - d) a)) (p OR 3) (mem s1)\<rparr>)
      in mapped pgd c c ph prot 1 s s2 \<and> tab (Suc d) (mem s2) pgd a = Some p \<and>
         ent (mem s2) t (ix (3 - d) a) = p OR 3)"
proof -
  have inv: "pt_inv (mem s) pgd (used_pages s)" and pgd: "unat pgd < 4194304" using ok by (simp_all add: tables_ok_def)
  have d3: "d \<le> 3" using d by simp
  from alloc_table [OF fr] obtain p s1 where s1: "alloc s = Inr (p, s1)" "p \<notin> used_pages s" "page_aligned p"
    "4194304 \<le> unat p" "unat p < 2 ^ 48" "used_pages s1 = insert p (used_pages s)" "free_pages s = Suc (free_pages s1)"
    "touched s s1" and e1: "\<And>t i. page_aligned t \<Longrightarrow> i < 512 \<Longrightarrow> ent (mem s1) t i = (if t = p then 0 else ent (mem s) t i)"
    by blast
  have p: "p \<notin> insert pgd (used_pages s) \<and> page_aligned p" using s1(2-4) pgd by auto
  note te = table_entry [OF s1(3,5)]
  let ?m = "store64 (t + 8 * word_of_nat (ix (3 - d) a)) (p OR 3) (mem s1)"
  let ?s2 = "dsb opt (s1\<lparr>mem := ?m\<rparr>)"
  have tal: "page_aligned t" by (rule pt_inv_tab_page(1) [OF inv t d3])
  have ch: "changed (mem s) t d a (p OR 3) (Some p) ?m"
    unfolding changed_def using ent_store [OF tal ix_less] e1 by auto
  have v: "(p OR 3) AND 3 = 3 \<and> p = (p OR 3) AND PTE_ADDR_MASK" using te by simp
  have vv: "if Some p = None then d = 3 \<or> (p OR 3) AND 3 \<noteq> 3
      else (p OR 3) AND 3 = 3 \<and> Some p = Some ((p OR 3) AND PTE_ADDR_MASK)" using te by simp
  have frs: "\<And>q. Some p = Some q \<Longrightarrow> q \<notin> insert pgd (used_pages s) \<and> page_aligned q" using p by simp
  have U: "used_pages ?s2 = insert p (used_pages s)" "free_pages s = Suc (free_pages ?s2)"
    using s1(6,7) used_pages_cong [of ?s2 s1] free_pages_cong [of ?s2 s1] by simp_all
  have "pt_inv ?m pgd (used_pages s \<union> set_option (Some p))"
    by (rule pt_inv_changed [OF inv t d3 ch frs _ vv]) (use s1(5) d te in auto)
  then have "tables_ok pgd ?s2" using pgd U by (simp add: tables_ok_def)
  moreover have "translate ?m pgd va = translate (mem s) pgd va" for va
    by (rule translate_install [OF inv t d ch p v z])
  moreover have T: "tab j ?m pgd va = (if d < j \<and> pre (Suc d) va = pre (Suc d) a
      then (if j = Suc d then Some p else None) else tab j (mem s) pgd va)" if "j \<le> 3" for j va
    by (rule tab_changed [OF inv t d3 ch frs vv that])
  have "tab j ?m pgd va = Some t'" if "j \<le> 2" "tab j (mem s) pgd va = Some t'" for j va t'
  proof -
    have "\<not> (d < j \<and> pre (Suc d) va = pre (Suc d) a)"
    proof
      assume c: "d < j \<and> pre (Suc d) va = pre (Suc d) a"
      note H = changed_here [OF inv t d3 ch conjunct2 [OF c]]
      have "tab j (mem s) pgd va = None" by (rule tab_below [OF H(1) _ conjunct1 [OF c]]) (simp add: H(3) z)
      with that show False by simp
    qed
    then show ?thesis using T [of j va] that by auto
  qed
  moreover have "tab (Suc d) ?m pgd a = Some p" using T [of "Suc d" a] d by (simp del: tab.simps)
  moreover have "ent ?m t (ix (3 - d) a) = p OR 3" using changed_ent [OF ch tal] by auto
  moreover have "touched s ?s2" using s1(8) touched_store touched_trans by blast
  ultimately have "mapped pgd c c ph prot 1 s ?s2 \<and> tab (Suc d) (mem ?s2) pgd a = Some p \<and>
         ent (mem ?s2) t (ix (3 - d) a) = p OR 3"
    using U unfolding mapped_def by (auto simp del: tab.simps)
  with s1(1) show ?thesis unfolding Let_def by blast
qed

lemma ensure_table:
  assumes ok: "tables_ok pgd s" and t: "tab d (mem s) pgd a = Some t" and d: "d \<le> 2"
    and e: "e = ent (mem s) t (ix (3 - d) a)" and ns: "e AND 3 \<noteq> 1" and fr: "0 < free_pages s"
  shows "\<exists>s2 p. (if e = 0 then bindr (alloc s) (\<lambda>(x, s).
              Inr (dsb opt (s\<lparr>mem := store64 (t + 8 * word_of_nat (ix (3 - d) a)) (x OR 3) (mem s)\<rparr>)))
            else Inr s) = Inr s2 \<and> mapped pgd c c ph prot 1 s s2 \<and> tab (Suc d) (mem s2) pgd a = Some p \<and>
            load64 (t + 8 * word_of_nat (ix (3 - d) a)) (mem s2) AND PTE_ADDR_MASK = p"
proof (cases "e = 0")
  case True
  then have z: "ent (mem s) t (ix (3 - d) a) = 0" by (simp only: e)
  obtain p s1 where s1: "alloc s = Inr (p, s1)"
    and s2: "let s2 = dsb opt (s1\<lparr>mem := store64 (t + 8 * word_of_nat (ix (3 - d) a)) (p OR 3) (mem s1)\<rparr>)
      in mapped pgd c c ph prot 1 s s2 \<and> tab (Suc d) (mem s2) pgd a = Some p \<and> ent (mem s2) t (ix (3 - d) a) = p OR 3"
    using install_table [OF ok t d z fr, of opt c ph prot] by blast
  define s' where "s' = dsb opt (s1\<lparr>mem := store64 (t + 8 * word_of_nat (ix (3 - d) a)) (p OR 3) (mem s1)\<rparr>)"
  have s': "mapped pgd c c ph prot 1 s s'" "tab (Suc d) (mem s') pgd a = Some p" "ent (mem s') t (ix (3 - d) a) = p OR 3"
    using s2 unfolding Let_def s'_def by blast+
  have ok': "pt_inv (mem s') pgd (used_pages s')" using s'(1) by (simp add: mapped_def tables_ok_def)
  have "p \<in> used_pages s'" using pt_inv_tab_page(2) [OF ok' s'(2)] d by simp
  then have "page_aligned p" "unat p < 2 ^ 48" using ok' unfolding pt_inv_def by auto
  then have "load64 (t + 8 * word_of_nat (ix (3 - d) a)) (mem s') AND PTE_ADDR_MASK = p"
    using s'(3) table_entry(2) by (simp only: ent_def)
  with s1 s'(1,2) True show ?thesis unfolding s'_def by (intro exI [of _ s'] exI [of _ p]) (simp add: s'_def del: tab.simps)
next
  case False
  have inv: "pt_inv (mem s) pgd (used_pages s)" using ok by (simp add: tables_ok_def)
  have d3: "d \<le> 3" using d by simp
  have "e AND 3 = 3" using pt_inv_entry [OF inv t d3] False ns unfolding e by blast
  then have "tab (Suc d) (mem s) pgd a = Some (e AND PTE_ADDR_MASK)" using t by (simp add: e)
  moreover have "mapped pgd c c ph prot 1 s s" using ok by (auto simp: mapped_def)
  moreover have "load64 (t + 8 * word_of_nat (ix (3 - d) a)) (mem s) = e" by (simp only: e ent_def)
  ultimately show ?thesis using False by (intro exI [of _ s] exI [of _ "e AND PTE_ADDR_MASK"]) (simp del: tab.simps)
qed

text \<open>An entry that maps a section translates its addresses.\<close>

lemma unmapped_no_section:
  assumes ok: "tables_ok pgd s" and t: "tab d (mem s) pgd a = Some t" and d: "d \<le> 2" and un: "translate (mem s) pgd a = None"
  shows "ent (mem s) t (ix (3 - d) a) AND 3 \<noteq> 1"
proof
  assume s: "ent (mem s) t (ix (3 - d) a) AND 3 = 1"
  have inv: "pt_inv (mem s) pgd (used_pages s)" using ok by (simp add: tables_ok_def)
  have d2: "d = 2" using pt_inv_entry [OF inv t] s d by auto
  have "tab j (mem s) pgd a = None" if "d < j" for j by (rule tab_below [OF t _ that]) (simp add: s)
  then have "translate (mem s) pgd a = leaf (3 - d) (ent (mem s) t (ix (3 - d) a)) a" using translate_at [OF t] d2 by simp
  moreover have "leaf (3 - d) (ent (mem s) t (ix (3 - d) a)) a \<noteq> None" using s d2 by (simp add: leaf_def)
  ultimately show False using un by simp
qed

lemma alloc_init_pte_mapped:
  assumes ok: "tables_ok pgd s" and t: "tab 2 (mem s) pgd a = Some t" and un: "unmapped pgd (unat a) (unat e) s"
    and lt: "unat a < unat e" "unat e \<le> 2 ^ 48" and blk: "(unat e - 1) div 2 ^ 21 = unat a div 2 ^ 21"
    and al: "4096 dvd unat a" "4096 dvd unat e" "4096 dvd unat ph" and ph: "unat ph + (unat e - unat a) \<le> 2 ^ 48"
    and prot: "prot_ok prot" and fr: "0 < free_pages s"
  shows "\<exists>s'. alloc_init_pte (t + 8 * word_of_nat (ix 1 a)) a e ph prot alloc flags s = Inr s' \<and>
     mapped pgd (unat a) (unat e) (unat ph) prot 1 s s'"
proof -
  obtain x y where xy: "unat a = 4096 * x" "unat e = 4096 * y" using al(1,2) by (auto elim!: dvdE)
  then have "x < y" using lt(1) by simp
  then obtain n where "y = Suc (x + n)" using less_imp_Suc_add by blast
  with xy have n: "unat e = unat a + 4096 * Suc n" by simp
  let ?p = "t + 8 * word_of_nat (ix 1 a)"
  have one: "3 - 2 = (1 :: nat)" and three: "Suc 2 = 3" by simp_all
  have "translate (mem s) pgd a = None" using un lt by (simp add: unmapped_def)
  from ensure_table [OF ok t order_refl refl unmapped_no_section [OF ok t order_refl this] fr, of "''ishst''" "unat a" "unat ph" prot]
  obtain s2 p where s2: "(if load64 ?p (mem s) = 0 then bindr (alloc s) (\<lambda>(x, s).
              Inr (dsb ''ishst'' (s\<lparr>mem := store64 ?p (x OR 3) (mem s)\<rparr>))) else Inr s) = Inr s2"
    and m2: "mapped pgd (unat a) (unat a) (unat ph) prot 1 s s2" and t2: "tab 3 (mem s2) pgd a = Some p"
    and p2: "load64 ?p (mem s2) AND PTE_ADDR_MASK = p"
    unfolding one three ent_def by blast
  have "tables_ok pgd s2" using m2 by (simp add: mapped_def)
  from pte_loop_mapped [OF this t2 lt(2) prot n al(1) blk al(3)] ph n obtain s' where
    s': "pte_loop (p + 8 * word_of_nat (ix 0 a)) a e ph prot s2 = Some s'" "mapped pgd (unat a) (unat e) (unat ph) prot 0 s2 s'" by auto
  have "mapped pgd (unat a) (unat e) (unat ph) prot (1 + 0) s s'"
    by (rule mapped_trans [OF m2]) (use s'(2) lt in simp_all)
  moreover have "pte_offset_phys ?p a s2 = p + 8 * word_of_nat (ix 0 a)"
    by (simp only: pte_offset_phys_def pmd_page_paddr_def p2 index_ix mult.commute [of _ 8])
  with s'(1) have "alloc_init_pte ?p a e ph prot alloc flags s = Inr s'"
    unfolding alloc_init_pte_def pmd_none_def set_pmd_def PMD_TYPE_TABLE_def push_bit_0_id id_apply s2 bindr_simps by simp
  ultimately show ?thesis by auto
qed

lemma pmd_step_mapped:
  assumes ok: "tables_ok pgd s" and t: "tab 2 (mem s) pgd a = Some t" and un: "unmapped pgd (unat a) (unat e) s"
    and lt: "unat a < unat e" "unat e \<le> 2 ^ 48" and blk: "(unat e - 1) div 2 ^ 21 = unat a div 2 ^ 21"
    and al: "4096 dvd unat a" "4096 dvd unat e" "4096 dvd unat ph" and ph: "unat ph + (unat e - unat a) \<le> 2 ^ 48"
    and prot: "prot_ok prot" and fr: "0 < free_pages s"
  shows "\<exists>s'. pmd_step (t + 8 * word_of_nat (ix 1 a)) a e ph prot alloc flags s = Inr s' \<and>
     mapped pgd (unat a) (unat e) (unat ph) prot 1 s s'"
proof (cases "(a OR e OR ph) AND NOT PG_SECTION_MASK = 0 \<and> flags AND NO_BLOCK_MAPPINGS = 0")
  case False
  then have "pmd_step (t + 8 * word_of_nat (ix 1 a)) a e ph prot alloc flags s =
      alloc_init_pte (t + 8 * word_of_nat (ix 1 a)) a e ph prot alloc flags s" by (simp only: pmd_step_def if_False)
  then show ?thesis using alloc_init_pte_mapped [OF assms] by simp
next
  case True
  then have "(a AND NOT PG_SECTION_MASK) OR (e AND NOT PG_SECTION_MASK) OR (ph AND NOT PG_SECTION_MASK) = 0"
    by (simp only: bit.conj_disj_distrib2)
  then have z: "a AND NOT PG_SECTION_MASK = 0" "e AND NOT PG_SECTION_MASK = 0" "ph AND NOT PG_SECTION_MASK = 0"
    by (simp_all add: or_eq_0_iff)
  note dv = z [THEN section_aligned]
  obtain x y where xy: "unat a = 2 ^ 21 * x" "unat e = 2 ^ 21 * y" using dv(1,2) by (auto elim!: dvdE)
  have "(unat e - 1) div 2 ^ 21 = y - 1" using xy lt(1) by (cases y) (simp_all add: div_nat_eqI)
  moreover have "unat a div 2 ^ 21 = x" by (simp only: xy(1) nonzero_mult_div_cancel_left power_not_zero zero_neq_numeral simp_thms)
  ultimately have e: "unat e = unat a + 2 ^ 21" using blk xy lt(1) by (cases y) simp_all
  have a48: "unat a < 2 ^ 48" and phb: "block_addr 21 ph" using lt ph dv(3) e by (simp_all add: block_addr_def)
  let ?v = "pfn_pmd (drop_bit PMD_SHIFT ph) (PMD_TYPE_SECT OR mk_sect_prot prot)"
  have one: "3 - 2 = (1 :: nat)" by simp
  have "?v AND 3 = 1" by (rule section_walk(1) [OF phb dv(1) order_refl _ prot]) simp
  then have "mapped pgd (unat a) (unat a + 2 ^ 21) (unat ph) prot 0 s
     (dsb ''ishst'' (s\<lparr>mem := store64 (t + 8 * word_of_nat (ix (3 - 2) a)) ?v (mem s)\<rparr>))"
    using section_walk(2) [OF phb dv(1) _ _ prot] by (intro store_leaf_mapped [OF ok t a48 dv(1)]) (simp_all only: one simp_thms disj_ac)
  then have "mapped pgd (unat a) (unat e) (unat ph) prot 1 s (pmd_set_section (t + 8 * word_of_nat (ix 1 a)) ph prot s)"
    unfolding e one pmd_set_section_def Let_def set_pmd_def by (rule mapped_weaken) simp
  with True show ?thesis by (simp add: pmd_step_def)
qed

lemma alloc_init_pmd_mapped:
  assumes ok: "tables_ok pgd s" and t: "tab 1 (mem s) pgd a = Some t" and un: "unmapped pgd (unat a) (unat e) s"
    and lt: "unat a < unat e" "unat e \<le> 2 ^ 48" and blk: "(unat e - 1) div 2 ^ 30 = unat a div 2 ^ 30"
    and al: "4096 dvd unat a" "4096 dvd unat e" "4096 dvd unat ph" and ph: "unat ph + (unat e - unat a) \<le> 2 ^ 48"
    and prot: "prot_ok prot" and fr: "pmd_cost (unat a) (unat e) \<le> free_pages s"
  shows "\<exists>s'. alloc_init_pmd (t + 8 * word_of_nat (ix 2 a)) a e ph prot alloc flags s = Inr s' \<and>
     mapped pgd (unat a) (unat e) (unat ph) prot (pmd_cost (unat a) (unat e)) s s'"
proof -
  let ?p = "t + 8 * word_of_nat (ix 2 a)"
  have cost: "pmd_cost (unat a) (unat e) = 1 + nblocks 21 (unat a) (unat e)"
    using nblocks_one [OF blk] by (simp add: pmd_cost_def)
  have two: "3 - 1 = (2 :: nat)" "Suc 1 = 2" "3 - 2 = (1 :: nat)" by simp_all
  have "translate (mem s) pgd a = None" using un lt by (simp add: unmapped_def)
  from ensure_table [OF ok t _ refl unmapped_no_section [OF ok t _ this], of "''ishst''" "unat a" "unat ph" prot] fr cost
  obtain s2 p where s2: "(if load64 ?p (mem s) = 0 then bindr (alloc s) (\<lambda>(x, s).
              Inr (dsb ''ishst'' (s\<lparr>mem := store64 ?p (x OR 3) (mem s)\<rparr>))) else Inr s) = Inr s2"
    and m2: "mapped pgd (unat a) (unat a) (unat ph) prot 1 s s2" and t2: "tab 2 (mem s2) pgd a = Some p"
    and p2: "load64 ?p (mem s2) AND PTE_ADDR_MASK = p"
    unfolding two ent_def by fastforce
  let ?step = "\<lambda>pmdp addr next phys. pmd_step pmdp addr next phys prot alloc flags"
  have "\<exists>s'. level_loop pmd_addr_end ?step (p + 8 * word_of_nat (ix (3 - 2) a)) a e ph s2 = Some (Inr s') \<and>
      mapped pgd (unat a) (unat e) (unat ph) prot (nblocks 21 (unat a) (unat e)) s2 s'"
  proof (rule level_loop_mapped [where n = 21])
    fix a nx ph :: u64 and s :: "'a page_state_scheme"
    assume h: "tables_ok pgd s" "tab 2 (mem s) pgd a = Some p" "unmapped pgd (unat a) (unat nx) s" "unat a < unat nx" "unat nx \<le> 2 ^ 48"
      "(unat nx - 1) div 2 ^ 21 = unat a div 2 ^ 21" "4096 dvd unat a" "4096 dvd unat nx" "4096 dvd unat ph"
      "unat ph + (unat nx - unat a) \<le> 2 ^ 48" and f: "nblocks 21 (unat a) (unat nx) \<le> free_pages s"
    show "\<exists>s'. pmd_step (p + 8 * word_of_nat (ix (3 - 2) a)) a nx ph prot alloc flags s = Inr s' \<and>
        mapped pgd (unat a) (unat nx) (unat ph) prot (nblocks 21 (unat a) (unat nx)) s s'"
      using pmd_step_mapped [OF h prot] f nblocks_one [OF h(6)] unfolding two by simp
  next
    show "tables_ok pgd s2" using m2 by (simp add: mapped_def)
    show "unmapped pgd (unat a) (unat e) s2" by (rule mapped_unmapped [OF m2 un]) simp
    show "nblocks 21 (unat a) (unat e) \<le> free_pages s2" using m2 fr cost by (simp add: mapped_def)
  qed (use t2 lt al ph blk addr_end_unat(3) nblocks_split in simp_all)
  then obtain s' where s': "level_loop pmd_addr_end ?step (p + 8 * word_of_nat (ix 1 a)) a e ph s2 = Some (Inr s')"
    "mapped pgd (unat a) (unat e) (unat ph) prot (nblocks 21 (unat a) (unat e)) s2 s'" unfolding two by blast
  have "mapped pgd (unat a) (unat e) (unat ph) prot (1 + nblocks 21 (unat a) (unat e)) s s'"
    by (rule mapped_trans [OF m2]) (use s'(2) lt in simp_all)
  moreover have "pmd_offset_phys ?p a s2 = p + 8 * word_of_nat (ix 1 a)"
    by (simp only: pmd_offset_phys_def pud_page_paddr_def p2 index_ix mult.commute [of _ 8])
  with s'(1) have "alloc_init_pmd ?p a e ph prot alloc flags s = Inr s'"
    unfolding alloc_init_pmd_def pud_none_def set_pud_def PUD_TYPE_TABLE_def push_bit_0_id id_apply s2 bindr_simps
    by (simp only: run_loop_def option.case)
  ultimately show ?thesis unfolding cost by blast
qed

lemma alloc_init_pud_mapped:
  assumes ok: "tables_ok pgd s" and t: "tab 0 (mem s) pgd a = Some t" and un: "unmapped pgd (unat a) (unat e) s"
    and lt: "unat a < unat e" "unat e \<le> 2 ^ 48" and blk: "(unat e - 1) div 2 ^ 39 = unat a div 2 ^ 39"
    and al: "4096 dvd unat a" "4096 dvd unat e" "4096 dvd unat ph" and ph: "unat ph + (unat e - unat a) \<le> 2 ^ 48"
    and prot: "prot_ok prot" and fr: "pud_cost (unat a) (unat e) \<le> free_pages s"
  shows "\<exists>s'. alloc_init_pud (t + 8 * word_of_nat (ix 3 a)) a e ph prot alloc flags s = Inr s' \<and>
     mapped pgd (unat a) (unat e) (unat ph) prot (pud_cost (unat a) (unat e)) s s'"
proof -
  let ?p = "t + 8 * word_of_nat (ix 3 a)"
  have cost: "pud_cost (unat a) (unat e) = 1 + pmd_cost (unat a) (unat e)"
    using nblocks_one [OF blk] by (simp add: pud_cost_def)
  have two: "3 - 0 = (3 :: nat)" "Suc 0 = 1" "3 - 1 = (2 :: nat)" by simp_all
  have "translate (mem s) pgd a = None" using un lt by (simp add: unmapped_def)
  from ensure_table [OF ok t _ refl unmapped_no_section [OF ok t _ this], of "''ishst''" "unat a" "unat ph" prot] fr cost
  obtain s2 p where s2: "(if load64 ?p (mem s) = 0 then bindr (alloc s) (\<lambda>(x, s).
              Inr (dsb ''ishst'' (s\<lparr>mem := store64 ?p (x OR 3) (mem s)\<rparr>))) else Inr s) = Inr s2"
    and m2: "mapped pgd (unat a) (unat a) (unat ph) prot 1 s s2" and t2: "tab 1 (mem s2) pgd a = Some p"
    and p2: "load64 ?p (mem s2) AND PTE_ADDR_MASK = p"
    unfolding two ent_def by fastforce
  let ?step = "\<lambda>pudp addr next phys. alloc_init_pmd pudp addr next phys prot alloc flags"
  have "\<exists>s'. level_loop pud_addr_end ?step (p + 8 * word_of_nat (ix (3 - 1) a)) a e ph s2 = Some (Inr s') \<and>
      mapped pgd (unat a) (unat e) (unat ph) prot (pmd_cost (unat a) (unat e)) s2 s'"
  proof (rule level_loop_mapped [where n = 30])
    fix a nx ph :: u64 and s :: "'a page_state_scheme"
    assume h: "tables_ok pgd s" "tab 1 (mem s) pgd a = Some p" "unmapped pgd (unat a) (unat nx) s" "unat a < unat nx" "unat nx \<le> 2 ^ 48"
      "(unat nx - 1) div 2 ^ 30 = unat a div 2 ^ 30" "4096 dvd unat a" "4096 dvd unat nx" "4096 dvd unat ph"
      "unat ph + (unat nx - unat a) \<le> 2 ^ 48" and f: "pmd_cost (unat a) (unat nx) \<le> free_pages s"
    show "\<exists>s'. alloc_init_pmd (p + 8 * word_of_nat (ix (3 - 1) a)) a nx ph prot alloc flags s = Inr s' \<and>
        mapped pgd (unat a) (unat nx) (unat ph) prot (pmd_cost (unat a) (unat nx)) s s'"
      using alloc_init_pmd_mapped [OF h prot f] unfolding two .
  next
    fix a b e :: nat
    assume "a < b" "b < e" and dv: "2 ^ 30 dvd b"
    moreover have "2 ^ 21 dvd b" by (rule dvd_trans [OF _ dv]) simp
    ultimately show "pmd_cost a b + pmd_cost b e = pmd_cost a e"
      using nblocks_split [of a b e 30] nblocks_split [of a b e 21] by (simp add: pmd_cost_def)
  next
    show "tables_ok pgd s2" using m2 by (simp add: mapped_def)
    show "unmapped pgd (unat a) (unat e) s2" by (rule mapped_unmapped [OF m2 un]) simp
    show "pmd_cost (unat a) (unat e) \<le> free_pages s2" using m2 fr cost by (simp add: mapped_def)
  qed (use t2 lt al ph blk addr_end_unat(2) in simp_all)
  then obtain s' where s': "level_loop pud_addr_end ?step (p + 8 * word_of_nat (ix 2 a)) a e ph s2 = Some (Inr s')"
    "mapped pgd (unat a) (unat e) (unat ph) prot (pmd_cost (unat a) (unat e)) s2 s'" unfolding two by blast
  have "mapped pgd (unat a) (unat e) (unat ph) prot (1 + pmd_cost (unat a) (unat e)) s s'"
    by (rule mapped_trans [OF m2]) (use s'(2) lt in simp_all)
  moreover have "pud_offset_phys ?p a s2 = p + 8 * word_of_nat (ix 2 a)"
    by (simp only: pud_offset_phys_def pgd_page_paddr_def p2 index_ix mult.commute [of _ 8])
  with s'(1) have "alloc_init_pud ?p a e ph prot alloc flags s = Inr s'"
    unfolding alloc_init_pud_def pgd_none_def set_pgd_def PUD_TYPE_TABLE_def push_bit_0_id id_apply s2 bindr_simps
    by (simp only: run_loop_def option.case)
  ultimately show ?thesis unfolding cost by blast
qed

lemma create_pgd_mapping_mapped:
  assumes ok: "tables_ok pgd s" and sz: "0 < unat sz" and v: "unat virt + unat sz \<le> 2 ^ 48"
    and un: "unmapped pgd (page_down (unat virt)) (page_up (unat virt + unat sz)) s"
    and ph: "page_down (unat phys) + (page_up (unat virt + unat sz) - page_down (unat virt)) \<le> 2 ^ 48"
    and prot: "prot_ok prot"
    and fr: "pud_cost (page_down (unat virt)) (page_up (unat virt + unat sz)) \<le> free_pages s"
  shows "\<exists>s'. create_pgd_mapping pgd phys virt sz prot alloc flags s = Inr s' \<and>
     mapped pgd (page_down (unat virt)) (page_up (unat virt + unat sz)) (page_down (unat phys)) prot
       (pud_cost (page_down (unat virt)) (page_up (unat virt + unat sz))) s s'"
proof -
  let ?ph = "phys AND scast PAGE_MASK" and ?a = "virt AND scast PAGE_MASK" and ?e = "PAGE_ALIGN (virt + sz)"
  have ua: "unat ?a = page_down (unat virt)" "unat ?ph = page_down (unat phys)" by (simp_all only: unat_page_down)
  have vs: "unat (virt + sz) = unat virt + unat sz" using v by (intro unat_add_lem') simp
  then have ue: "unat ?e = page_up (unat virt + unat sz)" using v unat_page_up [of "virt + sz"] by simp
  have lt: "page_down (unat virt) < page_up (unat virt + unat sz)" using sz page_down_le [of "unat virt"] page_up_ge [of "unat virt + unat sz"] by linarith
  have e48: "page_up (unat virt + unat sz) \<le> 2 ^ 48" using v page_up_least [of "unat virt + unat sz" "2 ^ 48"] by simp
  have al: "4096 dvd page_down (unat virt)" "4096 dvd page_up (unat virt + unat sz)" "4096 dvd page_down (unat phys)"
    by (simp_all add: page_down_def page_up_def)
  have zero: "3 - 0 = (3 :: nat)" by simp
  have "pre 0 ?a = pre 0 virt" "unat ?a div 2 ^ 39 = unat virt div 2 ^ 39"
  proof -
    have "page_down (unat virt) div 2 ^ 39 = unat virt div 4096 * 4096 div (4096 * 2 ^ 27)" by (simp add: page_down_def)
    also have "\<dots> = unat virt div 4096 div 2 ^ 27" by (simp only: div_mult2_eq nonzero_mult_div_cancel_right zero_neq_numeral simp_thms)
    also have "\<dots> = unat virt div (4096 * 2 ^ 27)" by (simp only: div_mult2_eq)
    finally have "page_down (unat virt) div 2 ^ 39 = unat virt div 2 ^ 39" by simp
    then show "unat ?a div 2 ^ 39 = unat virt div 2 ^ 39" by (simp only: ua)
  qed (simp add: pre_def)
  then have ixe: "ix 3 ?a = ix 3 virt" by (simp add: ix_def)
  let ?step = "\<lambda>pgdp addr next phys. alloc_init_pud pgdp addr next phys prot alloc flags"
  have "\<exists>s'. level_loop pgd_addr_end ?step (pgd + 8 * word_of_nat (ix (3 - 0) ?a)) ?a ?e ?ph s = Some (Inr s') \<and>
      mapped pgd (unat ?a) (unat ?e) (unat ?ph) prot (pud_cost (unat ?a) (unat ?e)) s s'"
  proof (rule level_loop_mapped [where n = 39])
    fix a nx ph :: u64 and s :: "'a page_state_scheme"
    assume h: "tables_ok pgd s" "tab 0 (mem s) pgd a = Some pgd" "unmapped pgd (unat a) (unat nx) s" "unat a < unat nx" "unat nx \<le> 2 ^ 48"
      "(unat nx - 1) div 2 ^ 39 = unat a div 2 ^ 39" "4096 dvd unat a" "4096 dvd unat nx" "4096 dvd unat ph"
      "unat ph + (unat nx - unat a) \<le> 2 ^ 48" and f: "pud_cost (unat a) (unat nx) \<le> free_pages s"
    show "\<exists>s'. alloc_init_pud (pgd + 8 * word_of_nat (ix (3 - 0) a)) a nx ph prot alloc flags s = Inr s' \<and>
        mapped pgd (unat a) (unat nx) (unat ph) prot (pud_cost (unat a) (unat nx)) s s'"
      using alloc_init_pud_mapped [OF h prot f] unfolding zero .
  next
    fix a b e :: nat
    assume "a < b" "b < e" and dv: "2 ^ 39 dvd b"
    moreover have "2 ^ 21 dvd b" "2 ^ 30 dvd b" by (rule dvd_trans [OF _ dv], simp)+
    ultimately show "pud_cost a b + pud_cost b e = pud_cost a e"
      using nblocks_split [of a b e 39] nblocks_split [of a b e 30] nblocks_split [of a b e 21]
      by (simp add: pmd_cost_def pud_cost_def)
  next
    show "(unat ?e - 1) div 2 ^ (39 + 9) = unat ?a div 2 ^ (39 + 9)" unfolding ua ue using lt e48 by simp
  next
    show "unat (pgd_addr_end a e) = block_end 39 (unat a) (unat e)" if "unat a < unat e" "unat e \<le> 2 ^ 48" for a e
      by (rule addr_end_unat(1) [OF that])
  next
    show "tab 0 (mem s) pgd ?a = Some pgd" by (simp only: tab.simps)
  next
    show "unmapped pgd (unat ?a) (unat ?e) s" unfolding ua ue by (rule un)
  next
    show "unat ?a < unat ?e" "unat ?e \<le> 2 ^ 48" unfolding ua ue by (rule lt e48)+
  next
    show "4096 dvd unat ?a" "4096 dvd unat ?e" "4096 dvd unat ?ph" unfolding ua ue by (rule al)+
  next
    show "unat ?ph + (unat ?e - unat ?a) \<le> 2 ^ 48" unfolding ua ue by (rule ph)
  next
    show "pud_cost (unat ?a) (unat ?e) \<le> free_pages s" unfolding ua ue by (rule fr)
  qed (use ok in simp_all)
  then obtain s' where s': "level_loop pgd_addr_end ?step (pgd + 8 * word_of_nat (ix 3 virt)) ?a ?e ?ph s = Some (Inr s')"
    "mapped pgd (unat ?a) (unat ?e) (unat ?ph) prot (pud_cost (unat ?a) (unat ?e)) s s'" unfolding zero ixe by blast
  have "create_pgd_mapping pgd phys virt sz prot alloc flags s = Inr s'"
    unfolding create_pgd_mapping_def Let_def pgd_offset_raw_def index_ix by (simp only: s'(1) run_loop_def option.case)
  with s'(2) show ?thesis by (simp only: ua ue) blast
qed

end

section \<open>The allocator of mmu.c\<close>

lemma free_pages_alloc:
  assumes "i < NR_PAGES" and "mem_map s i = 0" and "mem_map s' = (mem_map s)(i := 1)"
  shows "free_pages s = Suc (free_pages s')"
proof -
  have "{k. k < NR_PAGES \<and> mem_map s k = 0} = insert i {k. k < NR_PAGES \<and> mem_map s' k = 0}"
    using assms by auto
  moreover have "i \<notin> {k. k < NR_PAGES \<and> mem_map s' k = 0}" by (simp add: assms(3))
  ultimately show ?thesis by (simp add: free_pages_def)
qed

lemma early_pgtable_alloc_found:
  assumes "i < NR_PAGES" and "get_free_page s = (page_addr i, s\<lparr>mem_map := (mem_map s)(i := 1)\<rparr>)"
  shows "early_pgtable_alloc s =
     Inr (page_addr i, s\<lparr>mem_map := (mem_map s)(i := 1), mem := (\<lambda>a. if a - page_addr i < 4096 then 0 else mem s a)\<rparr>)"
  using assms clear_page [of "page_addr i"] by (simp add: early_pgtable_alloc_def del: page_consts cong: if_cong)

interpretation early: table_allocator early_pgtable_alloc
proof
  fix s :: "'a page_state_scheme"
  assume "0 < free_pages s"
  then have "{i. i < NR_PAGES \<and> mem_map s i = 0} \<noteq> {}" unfolding free_pages_def by (metis card.empty less_irrefl)
  then obtain k where "k < NR_PAGES" "mem_map s k = 0" by blast
  then obtain i where i: "i < NR_PAGES" "mem_map s i = 0" "get_free_page s = (page_addr i, s\<lparr>mem_map := (mem_map s)(i := 1)\<rparr>)"
    "low_first (mem_map s) ((mem_map s)(i := 1))"
    by (cases rule: get_free_page_cases [of s]) (auto intro: low_first_alloc)
  let ?m = "\<lambda>a. if a - page_addr i < 4096 then 0 else mem s a"
  let ?s = "s\<lparr>mem_map := (mem_map s)(i := 1), mem := ?m\<rparr>"
  have "?s = s\<lparr>mem := ?m, mem_map := (mem_map s)(i := 1), hw_trace := hw_trace s @ []\<rparr> \<and> set [] \<subseteq> range Insn \<and>
      low_first (mem_map s) ((mem_map s)(i := 1))" using i(4) by simp
  then have t: "touched s ?s" unfolding touched_def by blast
  have u: "used_pages ?s = insert (page_addr i) (used_pages s)"
    using used_pages_alloc [OF i(1), of s] by (simp add: used_pages_def)
  have f: "free_pages s = Suc (free_pages ?s)" by (rule free_pages_alloc [OF i(1,2)]) simp
  have b: "4194304 \<le> unat (page_addr i)" "unat (page_addr i) < 2 ^ 48" using i(1) by (simp_all add: unat_page_addr NR_PAGES_val)
  show "\<exists>p s'. early_pgtable_alloc s = Inr (p, s') \<and> p \<notin> used_pages s \<and>
     page_aligned p \<and> 4194304 \<le> unat p \<and> unat p < 2 ^ 48 \<and> used_pages s' = insert p (used_pages s) \<and>
     free_pages s = Suc (free_pages s') \<and> touched s s' \<and>
     (\<forall>t i. page_aligned t \<longrightarrow> i < 512 \<longrightarrow> ent (mem s') t i = (if t = p then 0 else ent (mem s) t i))"
    by (rule exI [of _ "page_addr i"], rule exI [of _ ?s])
      (use t u f b i ent_clear [of "page_addr i"] early_pgtable_alloc_found [OF i(1,3)] page_addr_used_iff [OF i(1), of s] in simp)
qed

section \<open>The whole of paging_init\<close>

lemma tables_ok_empty:
  fixes s :: "'a page_state_scheme"
  assumes "page_aligned pgd" and "unat pgd < 4194304"
    and e: "\<And>i. i < 512 \<Longrightarrow> ent (mem s) pgd i = 0"
  shows "tables_ok pgd s" "translate (mem s) pgd va = None"
proof -
  have t: "tab (Suc d) (mem s) pgd va = None" for d va
  proof (induction d)
    case 0
    then show ?case using e [OF ix_less] by simp
  qed simp
  have tt: "tab d (mem s) pgd va = Some t \<longleftrightarrow> d = 0 \<and> t = pgd" for d va t by (cases d) (auto simp: t simp del: tab.simps(2))
  show "translate (mem s) pgd va = None" using e [OF ix_less] by (simp add: translate_def numeral_3_eq_3 Let_def)
  have u: "pgd \<notin> used_pages s" "\<forall>p \<in> used_pages s. page_aligned p \<and> unat p < 2 ^ 48"
    using assms(2) by (auto simp: used_pages_def unat_page_addr NR_PAGES_val)
  show "tables_ok pgd s"
    unfolding tables_ok_def pt_inv_def tt using assms(1,2) u by (auto simp: e pre_def)
qed

text \<open>The attributes that the kernel maps with.\<close>

lemma prot_ok_kernel: "prot_ok PAGE_KERNEL_ROX" "prot_ok PAGE_KERNEL" "prot_ok PROT_DEVICE_nGnRnE"
  by (simp_all add: prot_ok_def PAGE_KERNEL_ROX_def PAGE_KERNEL_def PROT_DEVICE_nGnRnE_def PROT_NORMAL_def prot_consts
     PTE_ADDR_MASK_def PAGE_SHIFT_def)

lemma mem_cpu_init [simp]: "mem (cpu_init s) = mem s" "mem (snd (enable_mmu pgd s)) = mem s"
  by (simp_all add: cpu_init_def enable_mmu_def op_defs Let_def dsb_def)

text \<open>The number of tables that a range below 4 GB may need.\<close>

lemma pud_cost_bound:
  assumes "a < e" and "e \<le> 2 ^ 32" and "(e - 1) div 2 ^ 30 = a div 2 ^ 30"
  shows "pud_cost a e \<le> 3 + ((e - 1) div 2 ^ 21 - a div 2 ^ 21)"
proof -
  have "nblocks 39 a e = 1" using assms(1,2) by (intro nblocks_one) simp
  then show ?thesis using nblocks_one [OF assms(3)] by (simp add: pud_cost_def pmd_cost_def nblocks_def)
qed

text \<open>The address space that \<open>paging_init\<close> is to build: the text of the kernel read-only, the memory above
  it up to \<open>TOTAL_MEMORY\<close> writable, the devices.\<close>

definition kernel_map :: "u64 \<Rightarrow> u64 \<Rightarrow> u64 \<Rightarrow> (u64 \<times> u64) option" where
  "kernel_map text_boot_start text_end va =
     (if page_down (unat text_boot_start) \<le> unat va \<and> unat va < page_up (unat text_end) then Some (va, PAGE_KERNEL_ROX AND NOT 3)
      else if page_up (unat text_end) \<le> unat va \<and> unat va < unat (scast TOTAL_MEMORY :: u64) then Some (va, PAGE_KERNEL AND NOT 3)
      else if unat MMIO_BASE \<le> unat va \<and> unat va < unat (MMIO_BASE + DEVICE_SIZE) then Some (va, PROT_DEVICE_nGnRnE AND NOT 3)
      else None)"

lemma identity_mapped:
  assumes ok: "tables_ok pgd s" and sz: "unat a < unat e" "unat e \<le> 2 ^ 48" and prot: "prot_ok prot"
    and un: "unmapped pgd (page_down (unat a)) (page_up (unat e)) s"
    and fr: "pud_cost (page_down (unat a)) (page_up (unat e)) \<le> k" "k \<le> free_pages s"
  shows "\<exists>s'. create_pgd_mapping pgd a a (e - a) prot early_pgtable_alloc 0 s = Inr s' \<and>
     mapped pgd (page_down (unat a)) (page_up (unat e)) (page_down (unat a)) prot k s s'"
proof -
  have d: "unat (e - a) = unat e - unat a" using sz by (simp add: unat_sub word_le_nat_alt)
  then have ae: "unat a + unat (e - a) = unat e" using sz by simp
  have "page_down (unat a) + (page_up (unat e) - page_down (unat a)) \<le> 2 ^ 48"
    using page_down_le [of "unat a"] page_up_ge [of "unat e"] sz page_up_least [of "unat e" "2 ^ 48"] by simp
  then obtain s' where "create_pgd_mapping pgd a a (e - a) prot early_pgtable_alloc 0 s = Inr s'"
    "mapped pgd (page_down (unat a)) (page_up (unat e)) (page_down (unat a)) prot (pud_cost (page_down (unat a)) (page_up (unat e))) s s'"
    using early.create_pgd_mapping_mapped [OF ok, of "e - a" a a prot 0] un prot fr sz unfolding ae d by auto
  then show ?thesis using mapped_weaken [OF _ fr(1)] by blast
qed

lemma mapped_free: "mapped pgd a e ph prot k s s' \<Longrightarrow> free_pages s \<le> free_pages s' + k"
  and mapped_ok: "mapped pgd a e ph prot k s s' \<Longrightarrow> tables_ok pgd s'"
  by (simp_all add: mapped_def)

lemma mapped_touched: "mapped pgd a e ph prot k s s' \<Longrightarrow> touched s s'"
  by (simp add: mapped_def)

lemma mapped_translate:
  "mapped pgd a e a prot k s s' \<Longrightarrow> unat va < 2 ^ 48 \<Longrightarrow> translate (mem s') pgd va =
     (if a \<le> unat va \<and> unat va < e then Some (va, prot AND NOT 3) else translate (mem s) pgd va)"
  unfolding mapped_def by simp

lemma identity_segments:
  fixes s :: "'a page_state_scheme"
  assumes ok: "tables_ok pgd s" and empty: "\<And>va. translate (mem s) pgd va = None"
    and bt: "unat B < unat T" "page_up (unat T) < 2 ^ 29" and fr: "534 \<le> free_pages s"
  shows "\<exists>s1 s2 s3. create_pgd_mapping pgd B B (T - B) PAGE_KERNEL_ROX early_pgtable_alloc 0 s = Inr s1 \<and>
     create_pgd_mapping pgd (PAGE_ALIGN T) (PAGE_ALIGN T) (scast TOTAL_MEMORY - PAGE_ALIGN T) PAGE_KERNEL early_pgtable_alloc 0 s1 = Inr s2 \<and>
     create_pgd_mapping pgd MMIO_BASE MMIO_BASE DEVICE_SIZE PROT_DEVICE_nGnRnE early_pgtable_alloc 0 s2 = Inr s3 \<and>
     touched s s3 \<and> free_pages s \<le> free_pages s3 + 534 \<and> tables_ok pgd s3 \<and> (\<forall>va. unat va < 2 ^ 48 \<longrightarrow> translate (mem s3) pgd va = kernel_map B T va)"
proof -
  let ?a = "page_down (unat B)" and ?b = "page_up (unat T)"
  have T: "unat T < 2 ^ 29" using bt(2) page_up_ge [of "unat T"] by linarith
  have uT: "unat (PAGE_ALIGN T) = ?b" using T by (intro unat_page_up) simp
  have M: "unat (scast TOTAL_MEMORY :: u64) = 2 ^ 29" by simp
  have ab: "?a < ?b" using bt(1) page_down_le [of "unat B"] page_up_ge [of "unat T"] by linarith
  have al: "page_down ?b = ?b" "page_up (2 ^ 29) = 2 ^ 29" by (simp_all add: page_up_def page_down_def)
  have D: "MMIO_BASE + DEVICE_SIZE - MMIO_BASE = DEVICE_SIZE" "unat MMIO_BASE = 0xFE000000" "unat (MMIO_BASE + DEVICE_SIZE) = 2 ^ 32"
    "page_down 0xFE000000 = 0xFE000000" "page_up (2 ^ 32) = 2 ^ 32"
    by (simp_all add: MMIO_BASE_def DEVICE_SIZE_def page_up_def page_down_def)
  have c: "pud_cost a e \<le> 258" if "a < e" "e \<le> 2 ^ 29" for a e
  proof -
    have "(e - 1) div 2 ^ 21 \<le> (2 ^ 29 - 1) div 2 ^ 21" using that(2) by (intro div_le_mono) simp
    then show ?thesis using pud_cost_bound [of a e] that by simp
  qed
  have c3: "pud_cost 0xFE000000 (2 ^ 32) \<le> 18" by (simp add: pud_cost_def pmd_cost_def nblocks_def)
  obtain s1 where s1: "create_pgd_mapping pgd B B (T - B) PAGE_KERNEL_ROX early_pgtable_alloc 0 s = Inr s1"
      "mapped pgd ?a ?b ?a PAGE_KERNEL_ROX 258 s s1"
    using identity_mapped [OF ok bt(1) _ prot_ok_kernel(1) _ c [OF ab]] T bt(2) fr empty by (auto simp: unmapped_def)
  note t1 = mapped_translate [OF s1(2)]
  obtain s2 where s2: "create_pgd_mapping pgd (PAGE_ALIGN T) (PAGE_ALIGN T) (scast TOTAL_MEMORY - PAGE_ALIGN T) PAGE_KERNEL early_pgtable_alloc 0 s1 = Inr s2"
      "mapped pgd ?b (2 ^ 29) ?b PAGE_KERNEL 258 s1 s2"
  proof -
    have "unmapped pgd ?b (2 ^ 29) s1" unfolding unmapped_def using t1 empty by simp
    then show ?thesis
      using identity_mapped [OF mapped_ok [OF s1(2)], of "PAGE_ALIGN T" "scast TOTAL_MEMORY" PAGE_KERNEL 258] prot_ok_kernel(2)
        c [of ?b "2 ^ 29"] mapped_free [OF s1(2)] fr bt(2) that unfolding uT M al by auto
  qed
  note t2 = mapped_translate [OF s2(2)]
  obtain s3 where s3: "create_pgd_mapping pgd MMIO_BASE MMIO_BASE DEVICE_SIZE PROT_DEVICE_nGnRnE early_pgtable_alloc 0 s2 = Inr s3"
      "mapped pgd 0xFE000000 (2 ^ 32) 0xFE000000 PROT_DEVICE_nGnRnE 18 s2 s3"
  proof -
    have "unmapped pgd 0xFE000000 (2 ^ 32) s2" unfolding unmapped_def using t2 t1 empty bt(2) by simp
    then show ?thesis
      using identity_mapped [OF mapped_ok [OF s2(2)], of MMIO_BASE "MMIO_BASE + DEVICE_SIZE" PROT_DEVICE_nGnRnE 18] prot_ok_kernel(3)
        c3 mapped_free [OF s1(2)] mapped_free [OF s2(2)] fr that unfolding D by auto
  qed
  have "translate (mem s3) pgd va = kernel_map B T va" if "unat va < 2 ^ 48" for va
    unfolding mapped_translate [OF s3(2) that] t2 [OF that] t1 [OF that] empty kernel_map_def M D
    using bt(2) by simp
  moreover have "touched s s3" by (rule touched_trans [OF mapped_touched [OF s1(2)] touched_trans [OF mapped_touched [OF s2(2)] mapped_touched [OF s3(2)]]])
  moreover have "free_pages s \<le> free_pages s3 + 534" using mapped_free [OF s1(2)] mapped_free [OF s2(2)] mapped_free [OF s3(2)] by simp
  ultimately show ?thesis using s1(1) s2(1) s3(1) mapped_ok [OF s3(2)] by blast
qed

lemma paging_init_run:
  fixes s :: "'a page_state_scheme"
  assumes pgd: "page_aligned pgd" "unat pgd < 4194304"
    and bt: "unat B < unat T" "page_up (unat T) < 2 ^ 29" and fr: "534 \<le> free_pages s"
  shows "\<exists>s1. paging_init pgd B T s = Inr (printk_call ''Enable mmu done\<newline>'' [] (snd (enable_mmu pgd (cpu_init s1)))) \<and>
     touched s s1 \<and> free_pages s \<le> free_pages s1 + 534 \<and> tables_ok pgd s1 \<and> (\<forall>va. unat va < 2 ^ 48 \<longrightarrow> translate (mem s1) pgd va = kernel_map B T va)"
proof -
  let ?m = "\<lambda>a. if a - pgd < 4096 then 0 else mem s a"
  let ?s = "s\<lparr>mem := ?m\<rparr>"
  have e: "ent (mem ?s) pgd i = 0" if "i < 512" for i using ent_clear [OF pgd(1,1) that] by simp
  have t: "touched s ?s"
  proof -
    have "?s = s\<lparr>mem := ?m, mem_map := mem_map s, hw_trace := hw_trace s @ []\<rparr> \<and> set [] \<subseteq> range Insn \<and> low_first (mem_map s) (mem_map s)" by simp
    then show ?thesis unfolding touched_def by blast
  qed
  have fr': "534 \<le> free_pages ?s" using fr by (simp add: free_pages_def)
  obtain s1 s2 s3 where m: "create_pgd_mapping pgd B B (T - B) PAGE_KERNEL_ROX early_pgtable_alloc 0 ?s = Inr s1"
     "create_pgd_mapping pgd (PAGE_ALIGN T) (PAGE_ALIGN T) (scast TOTAL_MEMORY - PAGE_ALIGN T) PAGE_KERNEL early_pgtable_alloc 0 s1 = Inr s2"
     "create_pgd_mapping pgd MMIO_BASE MMIO_BASE DEVICE_SIZE PROT_DEVICE_nGnRnE early_pgtable_alloc 0 s2 = Inr s3"
     "touched ?s s3" "free_pages ?s \<le> free_pages s3 + 534" "tables_ok pgd s3" "\<forall>va. unat va < 2 ^ 48 \<longrightarrow> translate (mem s3) pgd va = kernel_map B T va"
    using identity_segments [OF tables_ok_empty [OF pgd e] bt fr'] by blast
  have "paging_init pgd B T s = Inr (printk_call ''Enable mmu done\<newline>'' [] (snd (enable_mmu pgd (cpu_init s3))))"
    unfolding paging_init_def clear_page [OF pgd(1)] create_identity_mapping_def create_mmio_mapping_def Let_def bindr_simps m(1-3)
    by (simp add: case_prod_unfold)
  moreover have "free_pages s \<le> free_pages s3 + 534" using m(5) by (simp add: free_pages_def)
  ultimately show ?thesis using m(6,7) touched_trans [OF t m(4)] by blast
qed

lemma touched_trace:
  "touched s s' \<Longrightarrow> klog s' = klog s \<and> sys_dev s' = sys_dev s \<and> (\<exists>es. hw_trace s' = hw_trace s @ es \<and> set es \<subseteq> range Insn)"
  by (auto simp: touched_def)

lemma klog_cpu_init [simp]: "klog (cpu_init s) = klog s" "klog (snd (enable_mmu pgd s)) = klog s"
  and sys_dev_cpu_init [simp]: "sys_dev (cpu_init s) = sys_dev s"
  by (simp_all add: cpu_init_def enable_mmu_def op_defs Let_def dsb_def)

lemma cpu_init_trace: "\<exists>es. hw_trace (cpu_init s) = hw_trace s @ es \<and> (\<forall>v. Sys_write ''sctlr_el1'' v \<notin> set es)"
  by (simp add: cpu_init_def op_defs Let_def dsb_def)

lemma enable_mmu_unsupported:
  "\<lbrakk>\<And>h. drop_bit 28 (sys_dev s h ''ID_AA64MMFR0_EL1'') AND 0xf \<noteq> 0\<rbrakk> \<Longrightarrow>
     fst (enable_mmu pgd s) = - 1 \<and> (\<exists>v. hw_trace (snd (enable_mmu pgd s)) = hw_trace s @ [Sys_read ''ID_AA64MMFR0_EL1'' v])"
proof -
  assume h: "\<And>h. drop_bit 28 (sys_dev s h ''ID_AA64MMFR0_EL1'') AND 0xf \<noteq> 0"
  have n: "(ucast (drop_bit 28 (sys_dev s (hw_trace s) ''ID_AA64MMFR0_EL1'') AND 0xf) :: s32) \<noteq> 0"
  proof
    let ?x = "drop_bit 28 (sys_dev s (hw_trace s) ''ID_AA64MMFR0_EL1'') AND 0xf"
    assume "(ucast ?x :: s32) = 0"
    moreover have "unat ?x < 16" using unat_and_mask [of "drop_bit 28 (sys_dev s (hw_trace s) ''ID_AA64MMFR0_EL1'')" 4] by (simp add: mask_eq_exp_minus_1)
    moreover have "unat (ucast ?x :: s32) = unat ?x mod 2 ^ 32" by (simp only: unsigned_ucast_eq take_bit_eq_mod, simp)
    ultimately have "unat ?x = 0" by simp
    then show False using h [of "hw_trace s"] by (simp only: unat_eq_zero)
  qed
  then show ?thesis
    by (simp add: enable_mmu_def ID_AA64MMFR0_TGRAN4_SHIFT_def ID_AA64MMFR0_TGRAN4_SUPPORTED_def read_sysreg_def hw_emit_def Let_def)
qed

text \<open>C16. A range of virtual addresses, mapped by \<open>__create_pgd_mapping\<close> with the allocator of the boot code
  into tables that are a tree of their own pages, in which the pages of the range are still free: the walk of the
  hardware takes each address from the page of \<open>virt\<close> to the end of the last page to the physical address
  at the same distance from the page of \<open>phys\<close>, with the attributes asked for; every other
  translation below \<open>2 ^ 48\<close> is as it was, and the tables remain such a tree. No more pages are taken than the number of
  blocks of 512 GB, 1 GB and 2 MB that the range touches.\<close>

theorem create_pgd_mapping_correct:
  fixes s :: "'a page_state_scheme"
  assumes "tables_ok pgd s" and "0 < unat sz" and "unat virt + unat sz \<le> 2 ^ 48" and "prot_ok prot"
    and "unmapped pgd (page_down (unat virt)) (page_up (unat virt + unat sz)) s"
    and "page_down (unat phys) + (page_up (unat virt + unat sz) - page_down (unat virt)) \<le> 2 ^ 48"
    and "pud_cost (page_down (unat virt)) (page_up (unat virt + unat sz)) \<le> free_pages s"
  shows "\<exists>s'. create_pgd_mapping pgd phys virt sz prot early_pgtable_alloc flags s = Inr s' \<and> tables_ok pgd s' \<and>
     free_pages s \<le> free_pages s' + pud_cost (page_down (unat virt)) (page_up (unat virt + unat sz)) \<and>
     (\<forall>va. unat va < 2 ^ 48 \<longrightarrow> translate (mem s') pgd va =
        (if page_down (unat virt) \<le> unat va \<and> unat va < page_up (unat virt + unat sz)
         then Some (word_of_nat (page_down (unat phys) + (unat va - page_down (unat virt))), prot AND NOT 3)
         else translate (mem s) pgd va))"
  using early.create_pgd_mapping_mapped [OF assms(1-3,5,6,4,7)] unfolding mapped_def by blast

text \<open>A machine with its page frames free and memory cleared, as the witnesses use it.\<close>

definition demo_boot :: page_state where
  "demo_boot = \<lparr>klog = [], hw_trace = [], io_dev = (\<lambda>_ _. 0), sys_dev = (\<lambda>_ _. 0), mem = (\<lambda>_. 0), irq_masked = True,
     mem_map = (\<lambda>_. 0), phy_start_address = 0\<rparr>"

lemma demo_boot_simps [simp]: "free_pages demo_boot = 131072" "ent (mem demo_boot) p i = 0"
proof -
  show "free_pages demo_boot = 131072" by (simp add: free_pages_def demo_boot_def NR_PAGES_val)
  have "bit (load64 (p + 8 * word_of_nat i) (\<lambda>_. 0)) k = bit (0 :: u64) k" for k by (cases "k < 64") (simp_all add: bit_load64)
  then show "ent (mem demo_boot) p i = 0" by (simp add: ent_def demo_boot_def  bit_eq_iff)
qed

lemma demo_boot_tables: "tables_ok 0x90000 demo_boot" "translate (mem demo_boot) 0x90000 va = None"
  by (rule tables_ok_empty, simp_all add: page_aligned_def)+

theorem create_pgd_mapping_correct_witness:
  "\<exists>s'. create_pgd_mapping 0x90000 0x3F201234 0x10001000 0x2000 PROT_DEVICE_nGnRnE early_pgtable_alloc 0 demo_boot = Inr s' \<and>
     translate (mem s') 0x90000 0x10002010 = Some (0x3F202010, PROT_DEVICE_nGnRnE AND NOT 3)"
proof -
  obtain s' where "create_pgd_mapping 0x90000 0x3F201234 0x10001000 0x2000 PROT_DEVICE_nGnRnE early_pgtable_alloc 0 demo_boot = Inr s'"
    "\<forall>va. unat va < 2 ^ 48 \<longrightarrow> translate (mem s') 0x90000 va =
        (if page_down 0x10001000 \<le> unat va \<and> unat va < page_up (0x10001000 + 0x2000)
         then Some (word_of_nat (page_down 0x3F201234 + (unat va - page_down 0x10001000)), PROT_DEVICE_nGnRnE AND NOT 3)
         else translate (mem demo_boot) 0x90000 va)"
    using create_pgd_mapping_correct [OF demo_boot_tables(1), of "0x2000" "0x10001000" PROT_DEVICE_nGnRnE "0x3F201234" 0]
      prot_ok_kernel(3) demo_boot_tables(2)
    by (auto simp: unmapped_def page_down_def page_up_def pud_cost_def pmd_cost_def nblocks_def)
  then show ?thesis by (simp add: page_down_def page_up_def)
qed

text \<open>C15. \<open>paging_init\<close> with a page for the top table in the kernel's image below \<open>LOW_MEMORY\<close>, the end of the text below
  \<open>TOTAL_MEMORY\<close> and 534 free pages returns with an identity map: the text read-only, the memory above the text up to
  \<open>TOTAL_MEMORY\<close> writable, the 32 MB of devices, nothing else. An address that is
  writable is never executable at EL1, and none is accessible to the user.\<close>

theorem paging_init_identity:
  fixes s :: "'a page_state_scheme"
  assumes "page_aligned pgd" and "unat pgd < 4194304" and "unat B < unat T" and "page_up (unat T) < 2 ^ 29" and "534 \<le> free_pages s"
  shows "\<exists>s'. paging_init pgd B T s = Inr s' \<and> tables_ok pgd s' \<and>
     (\<forall>va. unat va < 2 ^ 48 \<longrightarrow> translate (mem s') pgd va = kernel_map B T va) \<and>
     (\<forall>va pa attr. kernel_map B T va = Some (pa, attr) \<longrightarrow>
        pa = va \<and> attr AND PTE_USER = 0 \<and> (attr AND PTE_RDONLY = 0 \<longrightarrow> attr AND PTE_PXN \<noteq> 0))"
proof -
  have w: "pa = va \<and> attr AND PTE_USER = 0 \<and> (attr AND PTE_RDONLY = 0 \<longrightarrow> attr AND PTE_PXN \<noteq> 0)" if "kernel_map B T va = Some (pa, attr)" for va pa attr
    using that by (auto simp: kernel_map_def prot_consts split: if_splits)
  obtain s1 where "paging_init pgd B T s = Inr (printk_call ''Enable mmu done\<newline>'' [] (snd (enable_mmu pgd (cpu_init s1))))"
     "tables_ok pgd s1" "\<forall>va. unat va < 2 ^ 48 \<longrightarrow> translate (mem s1) pgd va = kernel_map B T va"
    using paging_init_run [OF assms] by blast
  then show ?thesis using w by (simp add: printk_call_def tables_ok_def used_pages_def cpu_init_def enable_mmu_def op_defs Let_def dsb_def)
qed

theorem paging_init_identity_witness:
  "\<exists>s'. paging_init 0x90000 0x80000 0x88888 demo_boot = Inr s' \<and> translate (mem s') 0x90000 0x88890 = Some (0x88890, PAGE_KERNEL_ROX AND NOT 3) \<and>
     translate (mem s') 0x90000 0x1000000 = Some (0x1000000, PAGE_KERNEL AND NOT 3) \<and> translate (mem s') 0x90000 0x7ffff = None"
proof -
  obtain s' where "paging_init 0x90000 0x80000 0x88888 demo_boot = Inr s'"
    "\<forall>va. unat va < 2 ^ 48 \<longrightarrow> translate (mem s') 0x90000 va = kernel_map 0x80000 0x88888 va"
    using paging_init_identity [of "0x90000" "0x80000" "0x88888" demo_boot] by (auto simp: page_aligned_def page_up_def)
  then show ?thesis by (simp add: kernel_map_def page_up_def page_down_def MMIO_BASE_def DEVICE_SIZE_def)
qed

text \<open>On a processor without the 4 KB granule \<open>enable_mmu\<close> gives \<open>-1\<close> and \<open>paging_init\<close> drops it:
  it returns having logged ''Enable mmu done'' although the register that switches the MMU on was never written.\<close>

theorem paging_init_ignores_failure:
  fixes s :: "'a page_state_scheme"
  assumes "page_aligned pgd" and "unat pgd < 4194304" and "unat B < unat T" and "page_up (unat T) < 2 ^ 29" and "534 \<le> free_pages s"
    and granule: "\<And>h. drop_bit 28 (sys_dev s h ''ID_AA64MMFR0_EL1'') AND 0xf \<noteq> 0"
  shows "\<exists>s' es. paging_init pgd B T s = Inr s' \<and> klog s' = klog s @ [(''Enable mmu done\<newline>'', [])] \<and>
     hw_trace s' = hw_trace s @ es \<and> (\<forall>v. Sys_write ''sctlr_el1'' v \<notin> set es)"
proof -
  obtain s1 where s1: "paging_init pgd B T s = Inr (printk_call ''Enable mmu done\<newline>'' [] (snd (enable_mmu pgd (cpu_init s1))))" "touched s s1"
    using paging_init_run [OF assms(1-5)] by blast
  obtain es where es: "klog s1 = klog s" "sys_dev s1 = sys_dev s" "hw_trace s1 = hw_trace s @ es" "set es \<subseteq> range Insn"
    using touched_trace [OF s1(2)] by blast
  obtain es2 where es2: "hw_trace (cpu_init s1) = hw_trace s1 @ es2" "\<forall>v. Sys_write ''sctlr_el1'' v \<notin> set es2"
    using cpu_init_trace by blast
  obtain v where v: "hw_trace (snd (enable_mmu pgd (cpu_init s1))) = hw_trace (cpu_init s1) @ [Sys_read ''ID_AA64MMFR0_EL1'' v]"
    using enable_mmu_unsupported [of "cpu_init s1" pgd] granule es(2) by auto
  have "\<forall>v. Sys_write ''sctlr_el1'' v \<notin> set es" using es(4) by auto
  then have "\<forall>x. Sys_write ''sctlr_el1'' x \<notin> set (es @ es2 @ [Sys_read ''ID_AA64MMFR0_EL1'' v])" using es2(2) by simp
  moreover have "hw_trace (printk_call ''Enable mmu done\<newline>'' [] (snd (enable_mmu pgd (cpu_init s1)))) =
      hw_trace s @ es @ es2 @ [Sys_read ''ID_AA64MMFR0_EL1'' v]" using es(3) es2(1) v by (simp add: printk_call_def)
  moreover have "klog (printk_call ''Enable mmu done\<newline>'' [] (snd (enable_mmu pgd (cpu_init s1)))) = klog s @ [(''Enable mmu done\<newline>'', [])]"
    using es(1) by (simp add: printk_call_def)
  ultimately show ?thesis using s1(1) by blast
qed

theorem paging_init_ignores_failure_witness:
  "\<exists>s'. paging_init 0x90000 0x80000 0x88888 (demo_boot\<lparr>sys_dev := \<lambda>_ _. 0xF0000000\<rparr>) = Inr s' \<and>
     klog s' = [(''Enable mmu done\<newline>'', [])] \<and> Sys_write ''sctlr_el1'' SCTLR_ELx_M \<notin> set (hw_trace s')"
  using paging_init_ignores_failure [of "0x90000" "0x80000" "0x88888" "demo_boot\<lparr>sys_dev := \<lambda>_ _. 0xF0000000\<rparr>"]
  by (auto simp: page_aligned_def page_up_def free_pages_def demo_boot_def  NR_PAGES_val)

end
