(* ===== verification/Boot.thy ===== *)
theory Boot
  imports Kernel_Runs Printk Mmu
begin

text \<open>
  \<^verbatim>\<open>init/main.c\<close>: the boot sequence up to the console loop, the console loop, the bodies of the kernel's
  threads and the tests of the MMU, composed from the operations of the component theories.

  \<^item> The symbols of the linker script, the addresses of the functions and of the string literals that
    leave the file are the record \<open>image\<close>; \<open>boot_image\<close> is the state that the static initialisers
    and the zeroed bss give, on the stack of the init task.
  \<^item> As in the other theories a call of \<open>printk\<close> is an event of \<open>klog\<close>. \<open>init_printk_done\<close>, which
    works on the variables of \<^verbatim>\<open>printk.c\<close>, is the one of its theory, on the part of the state it works on.
  \<^item> \<open>DEBUG_DUMP_PGTABLE\<close> and \<open>INIT_CACHE_INFO\<close> are not defined by the build.
\<close>

section \<open>State\<close>

record boot_state = irq_state +
  b_print_buf :: "nat \<Rightarrow> u8"
  b_log_buf :: "nat \<Rightarrow> u8"
  b_printk_status :: printk_status
  b_record :: nat
  b_record_len :: nat

record image =
  im_text_boot_start :: u64
  im_text_boot_end :: u64
  im_text_start :: u64
  im_text_end :: u64
  im_rodata_start :: u64
  im_rodata_end :: u64
  im_data_start :: u64
  im_data_end :: u64
  im_bss_begin :: u64
  im_bss_end :: u64
  im_idmap_pgd_dir :: u64
  im_kernel_thread1 :: u64
  im_kernel_thread2 :: u64
  im_run_user_thread :: u64
  im_hello :: u64
  im_prompt :: u64
  im_crlf :: u64
  im_buffer :: u64

text \<open>The static initialiser of the init task.\<close>

definition INIT_TASK :: "u64 \<Rightarrow> task_struct" where
  "INIT_TASK p = task_0\<lparr>t_state := TASK_RUNNING, t_priority := 20, t_counter := DEF_COUNTER, t_flags := ucast PF_KTHREAD,
     t_pid := 0, t_preempt_count := 0, t_need_resched := 0, t_next_task := p, t_prev_task := p\<rparr>"

section \<open>The variables of printk\<close>

definition console_of :: "'a boot_state_scheme \<Rightarrow> console_state" where
  "console_of s = \<lparr>klog = klog s, hw_trace = hw_trace s, io_dev = io_dev s, sys_dev = sys_dev s, mem = mem s, irq_masked = irq_masked s,
     print_buf = b_print_buf s, log_buf = b_log_buf s, g_printk_status = b_printk_status s,
     g_record = b_record s, g_record_len = b_record_len s\<rparr>"

definition set_console :: "console_state \<Rightarrow> 'a boot_state_scheme \<Rightarrow> 'a boot_state_scheme" where
  "set_console c s = s\<lparr>klog := klog c, hw_trace := hw_trace c, mem := mem c, irq_masked := irq_masked c,
     b_print_buf := print_buf c, b_log_buf := log_buf c, b_printk_status := g_printk_status c,
     b_record := g_record c, b_record_len := g_record_len c\<rparr>"

definition boot_printk_done :: "'a boot_state_scheme \<Rightarrow> 'a boot_state_scheme res" where
  "boot_printk_done s = bindr (init_printk_done (console_of s)) (\<lambda>c. Inr (set_console c s))"

section \<open>The boot sequence\<close>

definition print_mem :: "image \<Rightarrow> 'a machine_scheme \<Rightarrow> 'a machine_scheme" where
  "print_mem im s =
     (let row = (\<lambda>fmt a b. printk_call fmt [Arg_word a, Arg_word b, Arg_word (b - a)]);
          s = printk_call ''Arm64OS image layout:\<newline>'' [] s;
          s = row ''  .text.boot: 0x%08lx - 0x%08lx (%6ld B)\<newline>'' (im_text_boot_start im) (im_text_boot_end im) s;
          s = row ''       .text: 0x%08lx - 0x%08lx (%6ld B)\<newline>'' (im_text_start im) (im_text_end im) s;
          s = row ''     .rodata: 0x%08lx - 0x%08lx (%6ld B)\<newline>'' (im_rodata_start im) (im_rodata_end im) s;
          s = row ''       .data: 0x%08lx - 0x%08lx (%6ld B)\<newline>'' (im_data_start im) (im_data_end im) s
      in row ''        .bss: 0x%08lx - 0x%08lx (%6ld B)\<newline>'' (im_bss_begin im) (im_bss_end im) s)"

definition create_thread :: "u64 \<Rightarrow> 'a fork_state_scheme \<Rightarrow> 'a fork_state_scheme res" where
  "create_thread fn s =
     bindr (kernel_thread fn 0 0 s) (\<lambda>(pid, s).
       Inr (if sint pid < 0 then printk_call ''create thread fail\<newline>'' [] s else s))"

text \<open>\<open>start_kernel\<close> up to its loop: the banner with the exception level, the scheduler with the report of
  the image's layout, and the whole.\<close>

definition boot_banner :: "'a machine_scheme \<Rightarrow> 'a machine_scheme" where
  "boot_banner s =
     (let s = printk_call ''printk init done.\<newline>'' [] s;
          s = printk_call ''Running on EL:'' [] s;
          (el, s) = read_sysreg ''CurrentEL'' s
      in printk_call ''%d\<newline>'' [Arg_word (scast (ucast (drop_bit 2 el) :: s32))] s)"

definition boot_sched :: "image \<Rightarrow> 'a sched_state_scheme \<Rightarrow> 'a sched_state_scheme" where
  "boot_sched im s =
     (let s = sched_init s;
          s = print_mem im s;
          s = printk_call ''init(0) thread's task_struct address: 0x%lx\<newline>'' [Arg_word (init_task s)] s
      in printk_call ''the SP of 0 thread: 0x%lx\<newline>'' [Arg_word (cc_sp (cpu s))] s)"

definition start_kernel_init :: "image \<Rightarrow> 'a boot_state_scheme \<Rightarrow> 'a boot_state_scheme res" where
  "start_kernel_init im s =
     bindr (returns (uart_send_string (im_hello im) (uart_init s))) (\<lambda>s.
     bindr (boot_printk_done s) (\<lambda>s.
     bindr (arch_irq_init (boot_banner s)) (\<lambda>s.
     bindr (mem_init (im_bss_end im) (scast TOTAL_MEMORY) s) (\<lambda>s.
     bindr (paging_init (im_idmap_pgd_dir im) (im_text_boot_start im) (im_text_end im) (boot_sched im s)) (\<lambda>s.
     bindr (timer_init (printk_call ''Page Table Init Done.\<newline>'' [] s)) (\<lambda>s.
     bindr (create_thread (im_kernel_thread1 im) (arch_local_irq_enable s)) (\<lambda>s.
     create_thread (im_kernel_thread2 im) s)))))))"

section \<open>The console loop\<close>

definition BUFFER_SIZE :: s32 where "BUFFER_SIZE = 64"

definition console_step :: "image \<Rightarrow> 'a machine_scheme \<Rightarrow> 'a machine_scheme option" where
  "console_step im s =
     Option.bind (uart_send_string (im_prompt im) s) (\<lambda>s.
     Option.bind (uart_recv_string (im_buffer im) BUFFER_SIZE s) (\<lambda>(_, s).
     Option.bind (uart_send_string (im_buffer im) s) (uart_send_string (im_crlf im))))"

partial_function (option) console_loop :: "image \<Rightarrow> 'a machine_scheme \<Rightarrow> 'a machine_scheme option" where
  "console_loop im s = Option.bind (console_step im s) (console_loop im)"

definition start_kernel :: "image \<Rightarrow> 'a boot_state_scheme \<Rightarrow> 'a boot_state_scheme res" where
  "start_kernel im s =
     bindr (start_kernel_init im s) (\<lambda>s.
       let s = s\<lparr>mem := (\<lambda>a. if unat (a - im_buffer im) < unat BUFFER_SIZE then 0 else mem s a)\<rparr>
       in returns (console_loop im s))"

section \<open>The threads\<close>

text \<open>One turn of the loops of the two kernel threads, and the thread that enters user space.\<close>

definition kernel_thread1_turn :: "'a machine_scheme \<Rightarrow> 'a machine_scheme" where
  "kernel_thread1_turn s = (let s = delay 80000 s in printk_call ''%s: %s\<newline>'' [Arg_str ''kernel_thread1'', Arg_str ''12345''] s)"

definition kernel_thread2_turn :: "'a machine_scheme \<Rightarrow> 'a machine_scheme" where
  "kernel_thread2_turn s = (let s = delay 50000 s in printk_call ''%s: %s\<newline>'' [Arg_str ''kernel_thread2'', Arg_str ''abcde''] s)"

definition user_thread :: "image \<Rightarrow> 'a fork_state_scheme \<Rightarrow> (s32 \<times> 'a fork_state_scheme) res" where
  "user_thread im s =
     (let (el, s) = read_sysreg ''CurrentEL'' s;
          s = printk_call ''%s: running at EL%d\<newline>'' [Arg_str ''user_thread'', Arg_word (drop_bit 2 el)] s
      in bindr (move_to_user_space (im_run_user_thread im) s) (\<lambda>(r, s).
           let s = (if r \<noteq> 0 then printk_call ''error move_to_user_space\<newline>'' [] s else s)
           in Inr (0, s)))"

section \<open>The tests of the MMU\<close>

text \<open>A store by the program goes through the tables; an address that is not mapped raises an abort, which the kernel does
  not handle. The instruction \<open>at s1e1r\<close> of \<^verbatim>\<open>mm.S\<close> gives the register \<open>PAR_EL1\<close>: a parameter.\<close>

definition store_mapped :: "u64 \<Rightarrow> u64 \<Rightarrow> u64 \<Rightarrow> 'a machine_scheme \<Rightarrow> 'a machine_scheme res" where
  "store_mapped pgd a v s =
     (case translate (mem s) pgd a of None \<Rightarrow> Inl Bad_pointer | Some (pa, attr) \<Rightarrow>
        if attr AND PTE_RDONLY \<noteq> 0 then Inl Bad_pointer else Inr (s\<lparr>mem := store64 pa v (mem s)\<rparr>))"

definition test_access :: "string \<Rightarrow> u64 \<Rightarrow> u64 \<Rightarrow> 'a machine_scheme \<Rightarrow> 'a machine_scheme res" where
  "test_access name address pgd s =
     bindr (store_mapped pgd address 0x55 s) (\<lambda>s.
       Inr (printk_call ''%s access 0x%x done\<newline>'' [Arg_str name, Arg_word address] s))"

definition test_access_map_address :: "u64 \<Rightarrow> 'a machine_scheme \<Rightarrow> 'a machine_scheme res" where
  "test_access_map_address = test_access ''test_access_map_address'' (scast (TOTAL_MEMORY - 4096))"

definition test_access_unmap_address :: "u64 \<Rightarrow> 'a machine_scheme \<Rightarrow> 'a machine_scheme res" where
  "test_access_unmap_address = test_access ''test_access_unmap_address'' (scast (TOTAL_MEMORY + 4096))"

definition parse_par_el1 :: "u64 \<Rightarrow> 'a machine_scheme \<Rightarrow> u64 \<times> 'a machine_scheme" where
  "parse_par_el1 val s =
     (let ret = ucast (val AND 1) :: s32;
          s = printk_call ''Address Translation instruction %s\<newline>'' [Arg_str (if ret = 0 then ''successfully'' else ''failed'')] s
      in if ret \<noteq> 0 then (- 1, s)
         else
           let pa = (val AND scast PAGE_MASK) AND 0xffffffffff;
               s = printk_call ''par_el1:0x%lx, PA: 0x%lx\<newline>'' [Arg_word val, Arg_word pa] s;
               s = printk_call ''  NS=%u\<newline>'' [Arg_word (drop_bit 9 val AND 1)] s;
               s = printk_call ''  SH=%u\<newline>'' [Arg_word (drop_bit 7 val AND 3)] s;
               s = printk_call ''  ATTR=0x%x\<newline>'' [Arg_word (drop_bit 56 val)] s
           in (pa, s))"

definition test_at :: "(u64 \<Rightarrow> u64) \<Rightarrow> u64 \<Rightarrow> 'a machine_scheme \<Rightarrow> 'a machine_scheme" where
  "test_at mmu_at_test addr s =
     (let par_el1 = mmu_at_test addr;
          (pa, s) = parse_par_el1 par_el1 s
      in printk_call ''test AT instruction %s\<newline>'' [Arg_str (if addr = pa then ''done'' else ''failed'')] s)"

definition test_mmu :: "(u64 \<Rightarrow> u64) \<Rightarrow> u64 \<Rightarrow> 'a machine_scheme \<Rightarrow> 'a machine_scheme res" where
  "test_mmu mmu_at_test pgd s =
     (let s = test_at mmu_at_test (scast (TOTAL_MEMORY - 4096)) s;
          s = test_at mmu_at_test (scast (TOTAL_MEMORY + 4096)) s
      in bindr (test_access_map_address pgd s) (test_access_unmap_address pgd))"

section \<open>The state the kernel is entered in\<close>

definition image_ok :: "image \<Rightarrow> bool" where
  "image_ok im \<longleftrightarrow> page_aligned (im_idmap_pgd_dir im) \<and> unat (im_idmap_pgd_dir im) < 4194304 \<and>
     unat (im_text_boot_start im) < unat (im_text_end im) \<and> page_up (unat (im_text_end im)) < 2 ^ 29"

definition boot_image :: "'a boot_state_scheme \<Rightarrow> bool" where
  "boot_image s \<longleftrightarrow> mem_map s = (\<lambda>_. 0) \<and> tasks s (init_task s) = INIT_TASK (init_task s) \<and> current s = init_task s \<and>
     init_task s \<noteq> 0 \<and> unat (init_task s) < 4194304 \<and> rq_head s \<noteq> 0 \<and> unat (rq_head s) < 4194304 \<and>
     sym_ret_from_fork (syms s) \<noteq> sym_switch_to_ret (syms s) \<and> g_task s = (\<lambda>_. 0)(0 := init_task s) \<and>
     (\<forall>i. id_handler (irq_descs s i) = None) \<and> b_record_len s = 0"

text \<open>The controller has at most 256 lines.\<close>

definition gic_small :: "'a machine_scheme \<Rightarrow> bool" where
  "gic_small s \<longleftrightarrow> (\<forall>h. unat (io_dev s h (GIC_V2_DISTRIBUTOR_BASE + 4) AND 0x1f) < 8)"

section \<open>The steps of the boot\<close>

lemma uart_init_frame: "\<exists>h. uart_init s = s\<lparr>hw_trace := h\<rparr>"
  unfolding uart_init_def readl_def writel_def hw_emit_def delay_def Let_def prod.case by (rule exI) simp

lemma boot_printk_done_eq:
  "b_record_len s = 0 \<Longrightarrow>
     boot_printk_done s = Inr (s\<lparr>b_printk_status := PRINTK_STATUS_READY, b_record := 0, b_record_len := 0\<rparr>)"
  by (simp add: boot_printk_done_def init_printk_done_def console_of_def set_console_def)

lemma hello_sent:
  fixes s :: "'a machine_scheme"
  assumes "string_at (mem s) a cs" and "uart_live s"
  shows "\<exists>h. uart_send_string a (uart_init s) = Some (s\<lparr>hw_trace := h\<rparr>)"
proof -
  obtain h where h: "uart_init s = s\<lparr>hw_trace := h\<rparr>" using uart_init_frame by blast
  have "string_at (mem (uart_init s)) a cs" "uart_live (uart_init s)" using assms by (simp_all add: h uart_live_def)
  then obtain s' where "uart_send_string a (uart_init s) = Some s'" "sent cs (uart_init s) s'"
    using uart_send_string_from_sent [of "uart_init s" a cs 0] by (auto simp: uart_send_string_def)
  then show ?thesis by (auto simp: sent_def h)
qed

lemma sched_init_empty:
  assumes "boot_image s"
  shows "fork_inv 0 (sched_init s) [] []"
proof -
  have b: "tasks s (init_task s) = INIT_TASK (init_task s)" "current s = init_task s" "rq_head s \<noteq> 0" "init_task s \<noteq> 0"
    using assms by (simp_all add: boot_image_def)
  have t: "t_state (INIT_TASK p) = TASK_RUNNING" "t_counter (INIT_TASK p) = 25" "t_priority (INIT_TASK p) = 20" "t_preempt_count (INIT_TASK p) = 0"
    "t_next_task (INIT_TASK p) = p" "t_prev_task (INIT_TASK p) = p" for p
    by (simp_all add: INIT_TASK_def DEF_COUNTER_def HZ_def)
  have f: "syms (sched_init s) = syms s" "tasks (sched_init s) = tasks s" "current (sched_init s) = current s" "g_task (sched_init s) = g_task s"
    by (simp_all add: sched_init_def Let_def current_def)
  have "sched_rep (sched_init s) [] []"
    by (rule sched_rep_init) (simp_all add: task_ring_def ring_def b t)
  then have "sched_inv 0 (sched_init s) [] []" using assms
    by (simp add: sched_inv_def f counters_ok_def preempt_count_def b t boot_image_def)
  then show ?thesis using assms by (simp add: fork_inv_def f boot_image_def)
qed

text \<open>With no task but the init task the invariant does not depend on the pages in use.\<close>

lemma fork_inv_empty_cong:
  fixes s :: "'a fork_state_scheme" and s' :: "'b fork_state_scheme"
  assumes "tasks s' = tasks s" and "lists s' = lists s" and "rq s' = rq s" and "cpu s' = cpu s"
    and "syms s' = syms s" and "g_task s' = g_task s"
  shows "fork_inv k s' [] [] \<longleftrightarrow> fork_inv k s [] []"
  by (simp add: fork_inv_def sched_inv_def sched_rep_def task_ring_def counters_ok_def suspended_def
      preempt_count_def current_def assms)

lemma arch_irq_init_boot:
  fixes s :: "'a irq_state_scheme"
  assumes "mem_map s = (\<lambda>_. 0)" and "gic_small s"
  shows "\<exists>d l h g n p. arch_irq_init s = Inr (s\<lparr>gic_data := g, hw_trace := h, klog := l, mem_map := (\<lambda>_. 0)(0 := 1),
      arch_irq_handler := Some Gic_handle_irq, domains := d, irq_descs := gic_mapped n p s\<rparr>) \<and> 32 \<le> n"
proof -
  have p0: "get_free_page s = (page_addr 0, s\<lparr>mem_map := (mem_map s)(0 := 1)\<rparr>)"
  proof (cases rule: get_free_page_cases [of s])
    case (found i)
    then have "i = 0" using assms(1) by (metis gr0I)
    with found show ?thesis by simp
  next
    case full
    then show ?thesis using full(1) [of 0] assms(1) by (simp add: NR_PAGES_val)
  qed
  have n: "gic_lines GIC_V2_DISTRIBUTOR_BASE s \<le> 256" "32 \<le> gic_lines GIC_V2_DISTRIBUTOR_BASE s"
  proof -
    have "unat (io_dev s (hw_trace s) (GIC_V2_DISTRIBUTOR_BASE + 4) AND 0x1f) < 8" using assms(2) by (simp only: gic_small_def)
    then show "gic_lines GIC_V2_DISTRIBUTOR_BASE s \<le> 256" "32 \<le> gic_lines GIC_V2_DISTRIBUTOR_BASE s" by (simp_all add: gic_lines_def)
  qed
  have z: "0 < NR_PAGES" by (simp add: NR_PAGES_val)
  obtain s' d es where g: "gic_init 0 GIC_V2_DISTRIBUTOR_BASE GIC_V2_CPU_INTERFACE_BASE s = Inr (0, s')"
     "s' = s\<lparr>gic_data := (gic_data s)(0 := \<lparr>raw_dist_base = GIC_V2_DISTRIBUTOR_BASE, raw_cpu_base = GIC_V2_CPU_INTERFACE_BASE, gic_domain = page_addr 0,
              gic_chip = Some gicv2_chip, gic_irqs = word_of_nat (gic_lines GIC_V2_DISTRIBUTOR_BASE s)\<rparr>),
        hw_trace := hw_trace s @ es, klog := klog s @ [(''%s: cpu_base:0x%x, dist_base:0x%x, gic_irqs:%d\<newline>'',
          [Arg_str ''gic_init'', Arg_word GIC_V2_CPU_INTERFACE_BASE, Arg_word GIC_V2_DISTRIBUTOR_BASE, Arg_word (word_of_nat (gic_lines GIC_V2_DISTRIBUTOR_BASE s))])],
        mem_map := (mem_map s)(0 := 1), arch_irq_handler := Some Gic_handle_irq, domains := d,
        irq_descs := gic_mapped (gic_lines GIC_V2_DISTRIBUTOR_BASE s) (page_addr 0) s\<rparr>"
    using gic_init_ok [OF n(1) z p0, of GIC_V2_CPU_INTERFACE_BASE] by blast
  show ?thesis
    unfolding arch_irq_init_def g(1) bindr_simps prod.case g(2) assms(1) using n(2) by blast
qed

lemma timer_init_boot:
  fixes s :: "'a irq_state_scheme"
  assumes "id_chip (irq_descs s 30) = Some gicv2_chip" and "id_hwirq (irq_descs s 30) = 30"
  shows "\<exists>f h l. timer_init s = Inr (s\<lparr>arch_timer_rate := f, hw_trace := h, klog := l,
     irq_descs := (irq_descs s)(30 := (irq_descs s 30)\<lparr>id_handler := Some Handle_timer_irq, id_param := 0, id_name := ''core timer''\<rparr>)\<rparr>)"
  using timer_init_eq [OF assms] by blast

lemma cpu_init_frame: "\<exists>h. cpu_init s = s\<lparr>hw_trace := h\<rparr>"
  unfolding cpu_init_def op_defs dsb_def Let_def prod.case by (rule exI) simp

lemma enable_mmu_frame: "\<exists>h. snd (enable_mmu p s) = s\<lparr>hw_trace := h\<rparr>"
proof (cases "ucast (drop_bit ID_AA64MMFR0_TGRAN4_SHIFT (sys_dev s (hw_trace s) ''ID_AA64MMFR0_EL1'') AND 0xf) = ID_AA64MMFR0_TGRAN4_SUPPORTED")
  case True
  then show ?thesis unfolding enable_mmu_def op_defs dsb_def Let_def prod.case by (intro exI) simp
next
  case False
  then show ?thesis unfolding enable_mmu_def op_defs dsb_def Let_def prod.case by (intro exI) simp
qed

lemma paging_init_boot:
  fixes s :: "'a page_state_scheme"
  assumes "image_ok im" and "534 \<le> free_pages s"
  shows "\<exists>m mm h l. paging_init (im_idmap_pgd_dir im) (im_text_boot_start im) (im_text_end im) s =
      Inr (s\<lparr>mem := m, mem_map := mm, hw_trace := h, klog := l\<rparr>) \<and>
     free_pages s \<le> free_pages (s\<lparr>mem_map := mm\<rparr>) + 534 \<and>
     (\<forall>va. unat va < 2 ^ 48 \<longrightarrow> translate m (im_idmap_pgd_dir im) va = kernel_map (im_text_boot_start im) (im_text_end im) va)"
proof -
  let ?p = "im_idmap_pgd_dir im" and ?b = "im_text_boot_start im" and ?t = "im_text_end im"
  have i: "page_aligned ?p" "unat ?p < 4194304" "unat ?b < unat ?t" "page_up (unat ?t) < 2 ^ 29" using assms(1) by (simp_all add: image_ok_def)
  obtain s1 where s1: "paging_init ?p ?b ?t s = Inr (printk_call ''Enable mmu done\<newline>'' [] (snd (enable_mmu ?p (cpu_init s1))))"
    "touched s s1" "free_pages s \<le> free_pages s1 + 534" "\<forall>va. unat va < 2 ^ 48 \<longrightarrow> translate (mem s1) ?p va = kernel_map ?b ?t va"
    using paging_init_run [OF i assms(2)] by blast
  obtain m mm es where t: "s1 = s\<lparr>mem := m, mem_map := mm, hw_trace := es\<rparr>" using s1(2) by (auto simp: touched_def)
  obtain h1 where "cpu_init s1 = s1\<lparr>hw_trace := h1\<rparr>" using cpu_init_frame by blast
  moreover obtain h where "snd (enable_mmu ?p (cpu_init s1)) = (cpu_init s1)\<lparr>hw_trace := h\<rparr>" using enable_mmu_frame by blast
  ultimately have "snd (enable_mmu ?p (cpu_init s1)) = s1\<lparr>hw_trace := h\<rparr>" by simp
  then have "paging_init ?p ?b ?t s = Inr (s\<lparr>mem := m, mem_map := mm, hw_trace := h, klog := klog s @ [(''Enable mmu done\<newline>'', [])]\<rparr>)"
    using s1(1) by (simp add: printk_call_def t)
  moreover have "free_pages s1 = free_pages (s\<lparr>mem_map := mm\<rparr>)" by (simp add: t free_pages_def)
  moreover have "mem s1 = m" by (simp add: t)
  ultimately show ?thesis using s1(3,4) by metis
qed

lemma mem_upd_task [simp]: "mem (upd_task p f s) = mem s"
  by (simp add: upd_task_def)

lemma fork_mem_page:
  fixes s :: "'a fork_state_scheme"
  shows "get_free_page s = (p, s1) \<Longrightarrow> mem s1 = mem s"
    "free_page p s = Inr s1 \<Longrightarrow> mem s1 = mem s"
    "wake_up_process p s = Inr s1 \<Longrightarrow> mem s1 = mem s"
    "copy_thread cf p st arg s = (err, s1) \<Longrightarrow> mem s1 = mem s"
    "mem (SET_LINKS p s) = mem s"
proof -
  show "get_free_page s = (p, s1) \<Longrightarrow> mem s1 = mem s"
    by (cases rule: get_free_page_cases [of s]) auto
  show "free_page p s = Inr s1 \<Longrightarrow> mem s1 = mem s"
    by (auto simp: free_page_def split: if_splits)
  show "wake_up_process p s = Inr s1 \<Longrightarrow> mem s1 = mem s"
    by (auto simp: wake_up_process_def enqueue_task_def nop_sched_class_def enqueue_task_nop_def bindr_eq_Inr Let_def)
  show "copy_thread cf p st arg s = (err, s1) \<Longrightarrow> mem s1 = mem s"
    by (auto simp: copy_thread_def Let_def set_regs_def split: if_splits prod.splits)
  show "mem (SET_LINKS p s) = mem s" by (simp add: SET_LINKS_def Let_def)
qed

lemma do_fork_mem:
  fixes s :: "'a fork_state_scheme"
  assumes "do_fork cf st arg s = Inr (r, e)"
  shows "mem e = mem s"
proof -
  obtain p s1 where a: "get_free_page s = (p, s1)" by fastforce
  show ?thesis
    using assms fork_mem_page(1) [OF a]
    by (auto simp: do_fork_def a Let_def bindr_eq_Inr fork_mem_page(5) dest!: fork_mem_page(2-4) split: if_splits prod.splits)
qed

lemma create_thread_made:
  fixes s :: "'a fork_state_scheme"
  assumes "fork_inv 0 s ts qs" and "i < NR_PAGES" "page_addr i \<notin> used_pages s" and "j < 128" "g_task s j = 0" "{i. i < j \<and> g_task s i = 0} = {}"
  shows "\<exists>p e. create_thread fn s = Inr e \<and> fork_inv 0 e (ts @ [p]) (p # qs) \<and> g_task e = (g_task s)(j := p) \<and>
     used_pages e = insert p (used_pages s) \<and> current e = current s \<and> syms e = syms s \<and>
     fork_state.more e = fork_state.more s \<and> irq_masked e = irq_masked s \<and> mem e = mem s \<and> p \<noteq> 0"
proof (cases rule: do_fork_cases [OF assms(1), of "0 OR PF_KTHREAD" fn 0, case_names made failed])
  case (made p s1 k e)
  have "k = j"
  proof (rule ccontr)
    assume "k \<noteq> j"
    then have "k \<in> {i. i < j \<and> g_task s i = 0} \<or> j \<in> {i. i < k \<and> g_task s i = 0}" using made(5) assms(5) by auto
    then show False using made(6) assms(6) by blast
  qed
  moreover have "sint (word_of_nat k :: s32) = int k" using made(4) by (intro sint_word_of_int32 [of "int k", unfolded of_int_of_nat_eq]) simp_all
  ultimately have "create_thread fn s = Inr e" using made(7) by (simp add: create_thread_def kernel_thread_def)
  then show ?thesis using made \<open>k = j\<close> do_fork_more [OF made(7)] do_fork_masked [OF made(7)] do_fork_mem [OF made(7)]
    by (intro exI [of _ p] exI [of _ e]) simp
next
  case (failed e)
  have "fst (get_free_page s) \<noteq> 0"
  proof (cases rule: get_free_page_cases [of s])
    case (found k)
    then show ?thesis by simp
  next
    case full
    then show ?thesis using assms(2,3) page_addr_used_iff [of i s] by simp
  qed
  moreover have "\<not> copy_fails (0 OR PF_KTHREAD) fn" by (simp add: copy_fails_def PF_KTHREAD_def)
  moreover have "{i. i < 128 \<and> g_task s i = 0} \<noteq> {}" using assms(4,5) by blast
  ultimately show ?thesis using failed(1) by blast
qed

text \<open>Two pages that are free.\<close>

lemma two_free_pages:
  assumes "2 \<le> free_pages s"
  obtains i k where "i < NR_PAGES" "k < NR_PAGES" "i \<noteq> k" "page_addr i \<notin> used_pages s" "page_addr k \<notin> used_pages s"
proof -
  let ?S = "{i. i < NR_PAGES \<and> mem_map s i = 0}"
  have c: "2 \<le> card ?S" using assms by (simp add: free_pages_def)
  then obtain i where i: "i \<in> ?S" by (metis (no_types, lifting) card.empty ex_in_conv not_numeral_le_zero)
  have "card (?S - {i}) \<noteq> 0" using c i by (simp add: card_Diff_singleton)
  then obtain k where k: "k \<in> ?S - {i}" by (metis card.empty ex_in_conv)
  show thesis using i k page_addr_used_iff [of _ s] by (intro that [of i k]) auto
qed

lemma boot_banner_frame: "\<exists>h l. boot_banner s = s\<lparr>hw_trace := h, klog := l\<rparr>"
  unfolding boot_banner_def op_defs Let_def prod.case by (intro exI) simp

lemma boot_sched_frame: "\<exists>l. boot_sched im s = (sched_init s)\<lparr>klog := l\<rparr>"
  unfolding boot_sched_def print_mem_def printk_call_def Let_def by (rule exI) simp

text \<open>The state in which the first thread is created.\<close>

lemma boot_ready:
  fixes s :: "'a boot_state_scheme"
  assumes im: "boot_image s" "image_ok im" and uart: "string_at (mem s) (im_hello im) cs" "uart_live s" and gic: "gic_small s"
  shows "\<exists>u. start_kernel_init im s = bindr (create_thread (im_kernel_thread1 im) u) (create_thread (im_kernel_thread2 im)) \<and>
     fork_inv 0 u [] [] \<and> only_timer u \<and> \<not> irq_masked u \<and> g_task u = (\<lambda>_. 0)(0 := init_task u) \<and> 2 \<le> free_pages u \<and>
     (\<forall>va. unat va < 2 ^ 48 \<longrightarrow> translate (mem u) (im_idmap_pgd_dir im) va = kernel_map (im_text_boot_start im) (im_text_end im) va) \<and>
     b_printk_status u = PRINTK_STATUS_READY \<and> current u = init_task u \<and> init_task u \<noteq> 0"
proof -
  have B: "mem_map s = (\<lambda>_. 0)" "current s = init_task s" "init_task s \<noteq> 0" "g_task s = (\<lambda>_. 0)(0 := init_task s)"
    "\<And>i. id_handler (irq_descs s i) = None" "b_record_len s = 0" using im(1) by (simp_all add: boot_image_def)
  obtain h1 where s1: "uart_send_string (im_hello im) (uart_init s) = Some (s\<lparr>hw_trace := h1\<rparr>)" using hello_sent [OF uart] by blast
  let ?s2 = "s\<lparr>hw_trace := h1, b_printk_status := PRINTK_STATUS_READY, b_record := 0, b_record_len := 0\<rparr>"
  have s2: "boot_printk_done (s\<lparr>hw_trace := h1\<rparr>) = Inr ?s2" using boot_printk_done_eq [of "s\<lparr>hw_trace := h1\<rparr>"] B(6) by simp
  obtain h3 l3 where s3: "boot_banner ?s2 = ?s2\<lparr>hw_trace := h3, klog := l3\<rparr>" using boot_banner_frame by blast
  let ?s3 = "?s2\<lparr>hw_trace := h3, klog := l3\<rparr>"
  have "mem_map ?s3 = (\<lambda>_. 0)" "gic_small ?s3" using B(1) gic by (simp_all add: gic_small_def)
  then obtain d l h g n p where s4: "arch_irq_init ?s3 = Inr (?s3\<lparr>gic_data := g, hw_trace := h, klog := l, mem_map := (\<lambda>_. 0)(0 := 1),
      arch_irq_handler := Some Gic_handle_irq, domains := d, irq_descs := gic_mapped n p ?s3\<rparr>)" "32 \<le> n"
    using arch_irq_init_boot [of ?s3] by blast
  let ?s4 = "?s3\<lparr>gic_data := g, hw_trace := h, klog := l, mem_map := (\<lambda>_. 0)(0 := 1),
      arch_irq_handler := Some Gic_handle_irq, domains := d, irq_descs := gic_mapped n p ?s3\<rparr>"
  obtain a5 l5 where s5: "mem_init (im_bss_end im) (scast TOTAL_MEMORY) ?s4 = Inr (?s4\<lparr>phy_start_address := a5, klog := l5\<rparr>)"
    using mem_init_counts by blast
  let ?s5 = "?s4\<lparr>phy_start_address := a5, klog := l5\<rparr>"
  obtain l6 where s6: "boot_sched im ?s5 = (sched_init ?s5)\<lparr>klog := l6\<rparr>" using boot_sched_frame by blast
  define s6 where "s6 = (sched_init ?s5)\<lparr>klog := l6\<rparr>"
  have f6: "mem_map s6 = (\<lambda>_. 0)(0 := 1)" "tasks s6 = tasks s" "lists s6 = lists (sched_init s)" "rq s6 = rq (sched_init s)" "cpu s6 = cpu s"
    "syms s6 = syms s" "g_task s6 = g_task s" "irq_descs s6 = gic_mapped n p ?s3" "arch_irq_handler s6 = Some Gic_handle_irq"
    "b_printk_status s6 = PRINTK_STATUS_READY"
    by (simp_all add: s6_def sched_init_def Let_def)
  have i6: "fork_inv 0 s6 [] []"
    using sched_init_empty [OF im(1)] by (subst fork_inv_empty_cong [where s = "sched_init s"]) (simp_all add: f6 sched_init_def Let_def)
  have "{i. i < NR_PAGES \<and> mem_map s6 i = 0} = {1 ..< NR_PAGES}" by (auto simp: f6)
  then have fp: "free_pages s6 = 131071" by (simp add: free_pages_def NR_PAGES_val)
  then obtain m mm h7 l7 where s7: "paging_init (im_idmap_pgd_dir im) (im_text_boot_start im) (im_text_end im) s6 =
      Inr (s6\<lparr>mem := m, mem_map := mm, hw_trace := h7, klog := l7\<rparr>)" "free_pages s6 \<le> free_pages (s6\<lparr>mem_map := mm\<rparr>) + 534"
     "\<forall>va. unat va < 2 ^ 48 \<longrightarrow> translate m (im_idmap_pgd_dir im) va = kernel_map (im_text_boot_start im) (im_text_end im) va"
    using paging_init_boot [OF im(2), of s6] by auto
  let ?s7 = "printk_call ''Page Table Init Done.\<newline>'' [] (s6\<lparr>mem := m, mem_map := mm, hw_trace := h7, klog := l7\<rparr>)"
  have f7: "irq_descs ?s7 = gic_mapped n p ?s3" by (simp add: printk_call_def f6)
  have c30: "id_chip (irq_descs ?s7 30) = Some gicv2_chip" "id_hwirq (irq_descs ?s7 30) = 30"
    unfolding f7 using s4(2) by (simp_all add: gic_mapped_def)
  obtain f h8 l8 where s8: "timer_init ?s7 = Inr (?s7\<lparr>arch_timer_rate := f, hw_trace := h8, klog := l8,
     irq_descs := (irq_descs ?s7)(30 := (irq_descs ?s7 30)\<lparr>id_handler := Some Handle_timer_irq, id_param := 0, id_name := ''core timer''\<rparr>)\<rparr>)"
    using timer_init_boot [OF c30] by blast
  define u where "u = arch_local_irq_enable (?s7\<lparr>arch_timer_rate := f, hw_trace := h8, klog := l8,
     irq_descs := (irq_descs ?s7)(30 := (irq_descs ?s7 30)\<lparr>id_handler := Some Handle_timer_irq, id_param := 0, id_name := ''core timer''\<rparr>)\<rparr>)"
  have fu: "tasks u = tasks s6" "lists u = lists s6" "rq u = rq s6" "cpu u = cpu s6" "syms u = syms s6" "g_task u = g_task s6" "mem_map u = mm"
    "mem u = m" "\<not> irq_masked u" "arch_irq_handler u = Some Gic_handle_irq" "b_printk_status u = PRINTK_STATUS_READY"
    "irq_descs u = (irq_descs ?s7)(30 := (irq_descs ?s7 30)\<lparr>id_handler := Some Handle_timer_irq, id_param := 0, id_name := ''core timer''\<rparr>)"
    by (simp_all add: u_def arch_local_irq_enable_def printk_call_def f6)
  have iu: "fork_inv 0 u [] []" using i6 by (subst fork_inv_empty_cong [where s = s6]) (simp_all add: fu)
  have ir: "irq_ready u" unfolding irq_ready_def fu using c30 by simp
  have ot: "only_timer u" unfolding only_timer_def using ir B(5) by (simp add: fu(12) f7 gic_mapped_def)
  have cu: "current u = init_task u" "init_task u \<noteq> 0" using B(2,3) by (simp_all add: current_def fu f6)
  have gu: "g_task u = (\<lambda>_. 0)(0 := init_task u)" by (simp only: fu f6 B(4))
  have fr: "2 \<le> free_pages u" using s7(2) fp by (simp add: free_pages_def fu)
  have "start_kernel_init im s = bindr (create_thread (im_kernel_thread1 im) u) (create_thread (im_kernel_thread2 im))"
    unfolding start_kernel_init_def s1 s2 s3 s4(1) s5 s6 s6_def [symmetric] s7(1) s8 u_def [symmetric] bindr_simps returns_simps by (rule refl)
  with iu ir ot fu(8,9,11) gu fr s7(3) cu show ?thesis by blast
qed

lemma two_threads:
  fixes u :: "'a irq_state_scheme"
  assumes "fork_inv 0 u [] []" and "only_timer u" and "\<not> irq_masked u" and "g_task u = (\<lambda>_. 0)(0 := init_task u)"
    and "2 \<le> free_pages u" and "init_task u \<noteq> 0"
  shows "\<exists>p q s'. bindr (create_thread f u) (create_thread g) = Inr s' \<and> kinv s' [p, q] [q, p] \<and> p \<noteq> q \<and>
     g_task s' = (\<lambda>_. 0)(0 := init_task u, 1 := p, 2 := q) \<and> current s' = current u \<and> mem s' = mem u \<and>
     fork_state.more s' = fork_state.more u"
proof -
  obtain i k where ik: "i < NR_PAGES" "k < NR_PAGES" "i \<noteq> k" "page_addr i \<notin> used_pages u" "page_addr k \<notin> used_pages u"
    by (rule two_free_pages [OF assms(5)])
  have one: "{i. i < 1 \<and> g_task u i = 0} = {}" using assms(4,6) by simp
  obtain p e where e: "create_thread f u = Inr e" "fork_inv 0 e ([] @ [p]) [p]" "g_task e = (g_task u)(1 := p)"
    "used_pages e = insert p (used_pages u)" "current e = current u" "syms e = syms u" "fork_state.more e = fork_state.more u"
    "irq_masked e = irq_masked u" "mem e = mem u" "p \<noteq> 0"
    using create_thread_made [OF assms(1) ik(1,4), of 1 f] one assms(4) by auto
  obtain k' where k': "k' < NR_PAGES" "page_addr k' \<notin> used_pages e"
  proof (cases "p = page_addr i")
    case True
    then show thesis using that [OF ik(2)] ik by (simp add: e(4) page_addr_inj)
  next
    case False
    then show thesis using that [OF ik(1)] ik by (auto simp: e(4))
  qed
  have two: "{i. i < 2 \<and> g_task e i = 0} = {}" using assms(4,6) e(3,10) by (auto simp: less_2_cases_iff)
  have "g_task e 2 = 0" using assms(4) e(3) by simp
  then obtain q s' where s': "create_thread g e = Inr s'" "fork_inv 0 s' (([] @ [p]) @ [q]) [q, p]" "g_task s' = (g_task e)(2 := q)"
    "current s' = current e" "fork_state.more s' = fork_state.more e" "irq_masked s' = irq_masked e" "mem s' = mem e"
    using create_thread_made [OF e(2) k', of 2 g] two by auto
  have "only_timer s'" using only_timer_more [of s' u] assms(2) s'(5) e(7) by simp
  then have "kinv s' [p, q] [q, p]" using s'(2,6) e(8) assms(3) by (simp add: kinv_def)
  moreover have "p \<noteq> q"
  proof -
    have "list_rep (lists s') (rq_head s') (map run_list_of [q, p])"
      using s'(2) by (simp only: fork_inv_def sched_inv_def sched_rep_def)
    then have "distinct (map run_list_of [q, p])" unfolding list_rep_def ring_def by auto
    then show ?thesis by auto
  qed
  moreover have "bindr (create_thread f u) (create_thread g) = Inr s'" by (simp add: e(1) s'(1))
  moreover have "g_task s' = (\<lambda>_. 0)(0 := init_task u, 1 := p, 2 := q)" by (simp only: s'(3) e(3) assms(4))
  moreover have "current s' = current u" "mem s' = mem u" "fork_state.more s' = fork_state.more u"
    by (simp_all only: s'(4,5,7) e(5,7,9))
  ultimately show ?thesis by blast
qed

section \<open>The console\<close>

text \<open>The strings of the loop, in the image and outside the line buffer.\<close>

definition outside :: "u64 \<Rightarrow> u64 \<Rightarrow> u8 list \<Rightarrow> bool" where
  "outside buf a cs \<longleftrightarrow> (\<forall>k \<le> length cs. 64 \<le> unat (a + word_of_nat k - buf))"

definition console_ready :: "image \<Rightarrow> u8 list \<Rightarrow> u8 list \<Rightarrow> 'a machine_scheme \<Rightarrow> bool" where
  "console_ready im ps ns s \<longleftrightarrow> uart_live s \<and> string_at (mem s) (im_prompt im) ps \<and> string_at (mem s) (im_crlf im) ns \<and>
     outside (im_buffer im) (im_prompt im) ps \<and> outside (im_buffer im) (im_crlf im) ns"

lemma string_outside:
  assumes "string_at m a cs" and "outside buf a cs" and "{x. 64 \<le> unat (x - buf) \<and> m' x \<noteq> m x} = {}"
  shows "string_at m' a cs"
proof -
  have "m' (a + word_of_nat k) = m (a + word_of_nat k)" if "k \<le> length cs" for k
    using assms(2,3) that by (auto simp: outside_def)
  then show ?thesis using assms(1) by (simp add: string_at_def)
qed

text \<open>The text that a buffer holds is what was received up to its first null byte.\<close>

lemma string_received:
  assumes "m' = (put_bytes buf cs m)(buf + word_of_nat i := 0)" and "i \<le> length cs" and "i < 64"
  shows "string_at m' buf (takeWhile (\<lambda>c. c \<noteq> 0) (take i cs))"
proof -
  let ?t = "takeWhile (\<lambda>c. c \<noteq> 0) (take i cs)"
  have l: "length ?t \<le> i" using length_takeWhile_le [of "\<lambda>c. c \<noteq> 0" "take i cs"] assms(2) by simp
  have u: "unat (word_of_nat k :: u64) = k" if "k \<le> i" for k using that assms(3) by (simp add: unsigned_of_nat take_bit_nat_eq_self)
  have at: "m' (buf + word_of_nat k) = cs ! k" if "k < i" for k
  proof -
    have "word_of_nat k \<noteq> (word_of_nat i :: u64)" using u [of k] u [of i] that by auto
    moreover have "k < length cs" using that assms(2) by simp
    ultimately show ?thesis using u [of k] that by (simp add: assms(1) put_bytes_def)
  qed
  have "?t ! k = cs ! k" if "k < length ?t" for k
    using takeWhile_nth [OF that] that l by simp
  moreover have "m' (buf + word_of_nat (length ?t)) = 0"
  proof (cases "length ?t = i")
    case True
    then show ?thesis by (simp add: assms(1))
  next
    case False
    then have k: "length ?t < i" using l by simp
    then have "length ?t < length (take i cs)" using assms(2) by simp
    then have "take i cs ! length ?t = 0" using nth_length_takeWhile [of "\<lambda>c. c \<noteq> 0" "take i cs"] by blast
    then show ?thesis using at [OF k] k by simp
  qed
  moreover have "0 \<notin> set ?t" by (auto dest: set_takeWhileD)
  ultimately show ?thesis using at l assms(3) by (simp add: string_at_def)
qed

lemma uart_send_string_sent:
  "string_at (mem s) a cs \<Longrightarrow> uart_live s \<Longrightarrow> \<exists>s'. uart_send_string a s = Some s' \<and> sent cs s s'"
  using uart_send_string_from_sent [of s a cs 0] by (simp add: uart_send_string_def)

lemma console_step_echo:
  fixes s :: "'a machine_scheme"
  assumes "console_ready im ps ns s"
  shows "\<exists>cs i s'. console_step im s = Some s' \<and> console_ready im ps ns s' \<and> rx s' = rx s @ cs \<and>
     i = (if length cs = 64 then 63 else length cs) \<and> 0 < length cs \<and> length cs \<le> 64 \<and>
     {c \<in> set (butlast cs). is_eol c} = {} \<and> (is_eol (last cs) \<or> length cs = 64) \<and>
     tx s' = tx s @ map ucast (ps @ takeWhile (\<lambda>c. c \<noteq> 0) (take i cs) @ ns)"
proof -
  have r: "uart_live s" "string_at (mem s) (im_prompt im) ps" "string_at (mem s) (im_crlf im) ns"
    "outside (im_buffer im) (im_prompt im) ps" "outside (im_buffer im) (im_crlf im) ns" using assms by (simp_all add: console_ready_def)
  obtain s1 where s1: "uart_send_string (im_prompt im) s = Some s1" "sent ps s s1" using uart_send_string_sent [OF r(2,1)] by blast
  have l1: "uart_live s1" using sent_live [OF s1(2)] r(1) by simp
  have n64: "0 < (64 :: nat)" "(64 :: nat) < 2 ^ 31" by simp_all
  obtain cs i s2 where s2: "uart_recv_string (im_buffer im) (word_of_nat 64) s1 = Some (word_of_nat i, s2)" "rx s2 = rx s1 @ cs"
     "i = (if length cs = 64 then 64 - 1 else length cs)" "0 < length cs" "length cs \<le> 64" "{c \<in> set (butlast cs). is_eol c} = {}"
     "is_eol (last cs) \<or> length cs = 64" "mem s2 = (put_bytes (im_buffer im) cs (mem s1))(im_buffer im + word_of_nat i := 0)" "i < 64"
     "{a. 64 \<le> unat (a - im_buffer im) \<and> mem s2 a \<noteq> mem s1 a} = {}"
    using uart_recv_string_line [OF l1 n64, of "im_buffer im"] by blast
  have o2: "tx s2 = tx s1" "io_dev s2 = io_dev s1" using uart_recv_string_only_reads [OF s2(1)] by (simp_all add: only_reads_def)
  have l2: "uart_live s2" using l1 o2(2) by (simp add: uart_live_def)
  have m1: "mem s1 = mem s" by (rule sent_mem [OF s1(2)])
  have il: "i \<le> length cs" using s2(3) by (simp split: if_splits)
  let ?t = "takeWhile (\<lambda>c. c \<noteq> 0) (take i cs)"
  have "string_at (mem s2) (im_buffer im) ?t" by (rule string_received [OF s2(8) il s2(9)])
  from uart_send_string_sent [OF this l2] obtain s3 where s3: "uart_send_string (im_buffer im) s2 = Some s3" "sent ?t s2 s3" by blast
  have m3: "mem s3 = mem s2" by (rule sent_mem [OF s3(2)])
  have l3: "uart_live s3" using sent_live [OF s3(2)] l2 by simp
  have p2: "string_at (mem s2) (im_prompt im) ps" "string_at (mem s2) (im_crlf im) ns"
    using string_outside [OF r(2,4) s2(10) [unfolded m1]] string_outside [OF r(3,5) s2(10) [unfolded m1]] by simp_all
  then obtain s4 where s4: "uart_send_string (im_crlf im) s3 = Some s4" "sent ns s3 s4"
    using uart_send_string_sent [of s3, OF _ l3] m3 by metis
  have "console_ready im ps ns s4" using p2 r(4,5) sent_mem [OF s4(2)] m3 sent_live [OF s4(2)] l3 by (simp add: console_ready_def)
  moreover have "console_step im s = Some s4" using s1(1) s2(1) s3(1) s4(1) by (simp add: console_step_def BUFFER_SIZE_def)
  moreover have "rx s4 = rx s @ cs" using s1(2) s2(2) s3(2) s4(2) by (simp add: sent_def)
  moreover have "tx s4 = tx s @ map ucast (ps @ ?t @ ns)" using s1(2) o2(1) s3(2) s4(2) by (simp add: sent_def)
  ultimately show ?thesis using s2(3-7) by (intro exI [of _ cs] exI [of _ i] exI [of _ s4]) simp
qed

lemma console_loop_runs:
  fixes s :: "'a machine_scheme"
  assumes "console_ready im ps ns s"
  shows "console_loop im s = None"
proof (rule ccontr)
  assume "console_loop im s \<noteq> None"
  then obtain r where "console_loop im s = Some r" by blast
  then have "\<not> console_ready im ps ns s"
  proof (rule console_loop.raw_induct [rotated])
    fix f :: "image \<Rightarrow> 'a machine_scheme \<Rightarrow> 'a machine_scheme option" and im s r
    assume "\<And>im s r. f im s = Some r \<Longrightarrow> \<not> console_ready im ps ns s" and "Option.bind (console_step im s) (f im) = Some r"
    then show "\<not> console_ready im ps ns s" using console_step_echo [of im ps ns s] by auto
  qed
  with assms show False by simp
qed

section \<open>Properties\<close>

text \<open>The registers of the drivers lie in the device range of the map.\<close>

definition driver_registers :: "u64 set" where
  "driver_registers = {GPFSEL1, GPPUD, UART_DATA_REG, UART_FR_REG, TIMER_CNTRL0, GIC_V2_DISTRIBUTOR_BASE, GIC_V2_CPU_INTERFACE_BASE}"

lemma driver_registers_mapped:
  assumes "image_ok im" and "a \<in> driver_registers"
  shows "unat a < 2 ^ 48" "kernel_map (im_text_boot_start im) (im_text_end im) a = Some (a, PROT_DEVICE_nGnRnE AND NOT 3)"
proof -
  have "page_up (unat (im_text_end im)) < 2 ^ 29" using assms(1) by (simp add: image_ok_def)
  then show "unat a < 2 ^ 48" "kernel_map (im_text_boot_start im) (im_text_end im) a = Some (a, PROT_DEVICE_nGnRnE AND NOT 3)"
    using assms(2) by (auto simp: driver_registers_def kernel_map_def uart_regs GPFSEL1_def GPPUD_def TIMER_CNTRL0_def
        GIC_V2_DISTRIBUTOR_BASE_def GIC_V2_CPU_INTERFACE_BASE_def MMIO_BASE_def DEVICE_SIZE_def)
qed

lemma boots:
  fixes s :: "'a boot_state_scheme"
  assumes "boot_image s" and "image_ok im" and "string_at (mem s) (im_hello im) cs" and "uart_live s" and "gic_small s"
  shows "\<exists>s' p q. start_kernel_init im s = Inr s' \<and> kinv s' [p, q] [q, p] \<and> p \<noteq> q \<and> g_task s' 1 = p \<and> g_task s' 2 = q \<and>
     current s' = g_task s' 0 \<and> b_printk_status s' = PRINTK_STATUS_READY \<and>
     (\<forall>va. unat va < 2 ^ 48 \<longrightarrow> translate (mem s') (im_idmap_pgd_dir im) va = kernel_map (im_text_boot_start im) (im_text_end im) va)"
proof -
  obtain u where u: "start_kernel_init im s = bindr (create_thread (im_kernel_thread1 im) u) (create_thread (im_kernel_thread2 im))"
     "fork_inv 0 u [] []" "only_timer u" "\<not> irq_masked u" "g_task u = (\<lambda>_. 0)(0 := init_task u)" "2 \<le> free_pages u"
     "\<forall>va. unat va < 2 ^ 48 \<longrightarrow> translate (mem u) (im_idmap_pgd_dir im) va = kernel_map (im_text_boot_start im) (im_text_end im) va"
     "b_printk_status u = PRINTK_STATUS_READY" "current u = init_task u" "init_task u \<noteq> 0"
    using boot_ready [OF assms] by blast
  obtain p q s' where s': "bindr (create_thread (im_kernel_thread1 im) u) (create_thread (im_kernel_thread2 im)) = Inr s'"
    "kinv s' [p, q] [q, p]" "p \<noteq> q" "g_task s' = (\<lambda>_. 0)(0 := init_task u, 1 := p, 2 := q)" "current s' = current u" "mem s' = mem u"
    "fork_state.more s' = fork_state.more u"
    using two_threads [OF u(2-6,10)] by blast
  have "b_printk_status s' = b_printk_status u" using s'(7) by (cases s', cases u) simp
  then show ?thesis using u(1,7,8,9) s'(1-6) by (intro exI [of _ s'] exI [of _ p] exI [of _ q]) simp
qed

lemma booted:
  fixes s :: "'a boot_state_scheme"
  assumes "boot_image s" and "image_ok im" and "string_at (mem s) (im_hello im) cs" and "uart_live s" and "gic_small s"
    and "start_kernel_init im s = Inr s0"
  shows "\<exists>p q. kinv s0 [p, q] [q, p] \<and> current s0 = init_task s0"
proof -
  obtain p q where "kinv s0 [p, q] [q, p]" "current s0 = g_task s0 0" using boots [OF assms(1-5)] assms(6) by auto
  then show ?thesis by (auto simp: kinv_def fork_inv_def)
qed

text \<open>C1. The boot: from the state of the image, on a UART that makes progress and with an interrupt controller of at most 256
  lines, and with no interrupt before the loop, \<open>start_kernel\<close> reaches its loop with two threads that are ready under the
  pids 1 and 2, interrupts on, the timer handled, the console ready and the identity map in the tables, with the registers of the drivers as device memory; from there every
  sequence of interrupts, scheduler calls, thread creations, preempted or not, and system calls keeps the kernel's invariant and both threads.\<close>

theorem start_kernel_boots:
  fixes s :: "'a boot_state_scheme"
  assumes "boot_image s" and "image_ok im" and "string_at (mem s) (im_hello im) cs" and "uart_live s" and "gic_small s"
  shows "\<exists>s' p q. start_kernel_init im s = Inr s' \<and> kinv s' [p, q] [q, p] \<and> p \<noteq> q \<and> g_task s' 1 = p \<and> g_task s' 2 = q \<and>
     current s' = g_task s' 0 \<and> b_printk_status s' = PRINTK_STATUS_READY \<and>
     (\<forall>va. unat va < 2 ^ 48 \<longrightarrow> translate (mem s') (im_idmap_pgd_dir im) va = kernel_map (im_text_boot_start im) (im_text_end im) va) \<and>
     (\<forall>a \<in> driver_registers. translate (mem s') (im_idmap_pgd_dir im) a = Some (a, PROT_DEVICE_nGnRnE AND NOT 3)) \<and>
     (\<forall>t. krun s' t \<longrightarrow> (\<exists>ts qs. kinv t ts qs \<and> {p, q} \<subseteq> set ts))"
proof -
  obtain s' p q where s': "start_kernel_init im s = Inr s'" "kinv s' [p, q] [q, p]" "p \<noteq> q" "g_task s' 1 = p" "g_task s' 2 = q"
    "current s' = g_task s' 0" "b_printk_status s' = PRINTK_STATUS_READY"
    "\<forall>va. unat va < 2 ^ 48 \<longrightarrow> translate (mem s') (im_idmap_pgd_dir im) va = kernel_map (im_text_boot_start im) (im_text_end im) va"
    using boots [OF assms] by blast
  have "\<exists>ts qs. kinv t ts qs \<and> {p, q} \<subseteq> set ts" if "krun s' t" for t using krun_kinv [OF that s'(2)] by auto
  moreover have "\<forall>a \<in> driver_registers. translate (mem s') (im_idmap_pgd_dir im) a = Some (a, PROT_DEVICE_nGnRnE AND NOT 3)"
    using driver_registers_mapped [OF assms(2)] s'(8) by simp
  ultimately show ?thesis using s' by blast
qed

text \<open>A machine in the state of the image, with an interrupt controller of 32 lines.\<close>

definition demo_image :: image where
  "demo_image = \<lparr>im_text_boot_start = 0x80000, im_text_boot_end = 0x80800, im_text_start = 0x81000, im_text_end = 0x88888,
     im_rodata_start = 0x89000, im_rodata_end = 0x8a000, im_data_start = 0x8c000, im_data_end = 0x8f000, im_bss_begin = 0x8f000,
     im_bss_end = 0xb0000, im_idmap_pgd_dir = 0x91000, im_kernel_thread1 = 0x83000, im_kernel_thread2 = 0x83040,
     im_run_user_thread = 0x83080, im_hello = 0x89000, im_prompt = 0x89020, im_crlf = 0x89030, im_buffer = 0x8cf00\<rparr>"

definition demo_reset :: boot_state where
  "demo_reset = irq_state.extend
     (demo_irq\<lparr>mem_map := (\<lambda>_. 0), tasks := (\<lambda>_. INIT_TASK 0x90000), g_task := (\<lambda>_. 0)(0 := 0x90000), io_dev := (\<lambda>_ _. 0),
        irq_descs := (\<lambda>_. \<lparr>id_name = [], id_hwirq = 0, id_chip = None, id_domain = 0, id_chip_data = 0, id_refcount = 0,
          id_handler = None, id_param = 0\<rparr>),
        mem := (\<lambda>a. if a = 0x89000 then 72 else 0)\<rparr>)
     (boot_state.fields (\<lambda>_. 0) (\<lambda>_. 0) PRINTK_STATUS_DOWN 0 0)"

lemma demo_reset_simps:
  "mem_map demo_reset = (\<lambda>_. 0)" "tasks demo_reset = (\<lambda>_. INIT_TASK 0x90000)" "g_task demo_reset = (\<lambda>_. 0)(0 := 0x90000)"
  "syms demo_reset = syms demo_sched" "cpu demo_reset = cpu demo_sched" "io_dev demo_reset = (\<lambda>_ _. 0)"
  "mem demo_reset = (\<lambda>a. if a = 0x89000 then 72 else 0)" "b_record_len demo_reset = 0" "id_handler (irq_descs demo_reset i) = None"
  by (simp_all add: demo_reset_def irq_state.extend_def boot_state.fields_def demo_irq_simps)

lemma demo_reset_ok: "boot_image demo_reset" "image_ok demo_image" "string_at (mem demo_reset) (im_hello demo_image) [72]"
  "uart_live demo_reset" "gic_small demo_reset"
proof -
  have c: "current demo_reset = 0x90000" using demo_irq_current by (simp add: current_def demo_reset_simps demo_irq_simps)
  show "boot_image demo_reset"
    by (simp add: boot_image_def demo_reset_simps c) (simp add: demo_sched_def)
  show "image_ok demo_image" by (simp add: image_ok_def demo_image_def page_aligned_def page_up_def)
  show "string_at (mem demo_reset) (im_hello demo_image) [72]" by (simp add: string_at_def demo_reset_simps demo_image_def)
  show "uart_live demo_reset" by (auto simp: uart_live_def demo_reset_simps uart_regs intro: drains.clear)
  show "gic_small demo_reset" by (simp add: gic_small_def demo_reset_simps)
qed

theorem start_kernel_boots_witness:
  "\<exists>s' p q. start_kernel_init demo_image demo_reset = Inr s' \<and> kinv s' [p, q] [q, p] \<and> krun s' s' \<and>
     translate (mem s') 0x91000 0x81000 = Some (0x81000, PAGE_KERNEL_ROX AND NOT 3)"
proof -
  have "kernel_map 0x80000 0x88888 0x81000 = Some (0x81000, PAGE_KERNEL_ROX AND NOT 3)"
    by (simp add: kernel_map_def page_up_def page_down_def)
  then show ?thesis using start_kernel_boots [OF demo_reset_ok] krun.start by (fastforce simp: demo_image_def)
qed

text \<open>C38. The init task, whose code goes on as the console loop, is scheduled away once and for all. From the boot on, in every state that
  the runs of the kernel reach, it is in no ready queue; a call of the scheduler never selects it; and once another task runs, it never runs
  again, whatever interrupts, scheduler calls, system calls and creations follow.\<close>

theorem init_task_never_returns:
  fixes s :: "'a boot_state_scheme"
  assumes "boot_image s" and "image_ok im" and "string_at (mem s) (im_hello im) cs" and "uart_live s" and "gic_small s"
    and "start_kernel_init im s = Inr s0" and "krun s0 s1"
  shows "current s0 = init_task s0 \<and>
     (\<exists>qs. list_nodes (rq_head s1) (lists s1) = Some (map run_list_of qs) \<and> run_list_of (init_task s1) \<notin> set (map run_list_of qs)) \<and>
     (\<forall>s2 s3. kstep s1 Yield s2 \<longrightarrow> krun s2 s3 \<longrightarrow> current s3 \<noteq> init_task s3) \<and>
     (\<forall>s2. current s1 \<noteq> init_task s1 \<longrightarrow> krun s1 s2 \<longrightarrow> current s2 \<noteq> init_task s2)"
proof -
  obtain p q where k0: "kinv s0 [p, q] [q, p]" and c0: "current s0 = init_task s0"
    using booted [OF assms(1-6)] by blast
  obtain ts qs where k1: "kinv s1 ts qs" using krun_kinv [OF assms(7) k0] by blast
  then have r: "sched_rep s1 ts qs" "set qs = set ts" by (simp_all add: kinv_def fork_inv_def sched_inv_def)
  have "list_nodes (rq_head s1) (lists s1) = Some (map run_list_of qs)" using r(1) by (intro list_rep_nodes) (simp add: sched_rep_def)
  moreover have "init_task s1 \<notin> set qs" using init_not_listed [OF kinv_run_ok [OF k1]] r(2) by simp
  then have "run_list_of (init_task s1) \<notin> set (map run_list_of qs)" by (auto simp: run_list_of_def)
  moreover have "current s3 \<noteq> init_task s3" if y: "kstep s1 Yield s2" and run: "krun s2 s3" for s2 s3
  proof -
    obtain ts2 qs2 where "kinv s2 ts2 qs2" using kstep_kinv [OF y k1] by blast
    from krun_not_init [OF run this yield_leaves_init [OF k1 y]] show ?thesis .
  qed
  moreover have "current s2 \<noteq> init_task s2" if "current s1 \<noteq> init_task s1" "krun s1 s2" for s2
    by (rule krun_not_init [OF that(2) k1 that(1)])
  ultimately show ?thesis using c0 by blast
qed

theorem init_task_never_returns_witness:
  "\<exists>s0 s1. start_kernel_init demo_image demo_reset = Inr s0 \<and> kstep s0 Yield s1 \<and> current s0 = init_task s0 \<and> current s1 \<noteq> init_task s1"
proof -
  obtain s0 p q where s0: "start_kernel_init demo_image demo_reset = Inr s0" "kinv s0 [p, q] [q, p]"
    using boots [OF demo_reset_ok] by blast
  obtain s1 where s1: "kstep s0 Yield s1" using fork_run_goes_on [OF fork_run.called s0(2)] by blast
  then show ?thesis using init_task_never_returns [OF demo_reset_ok s0(1) krun.start] s0(1) krun.start by blast
qed

text \<open>C23. One turn of the console loop with a UART that makes progress: it prompts, receives bytes up to the first end of line or 64,
  sends back what it received up to its first null byte - without the last byte when the buffer is full - and an
  end of line; the strings of the loop are intact. The loop never ends.\<close>

theorem console_echoes:
  fixes s :: "'a machine_scheme"
  assumes "console_ready im ps ns s"
  shows "(\<exists>cs i s'. console_step im s = Some s' \<and> console_ready im ps ns s' \<and> rx s' = rx s @ cs \<and>
       i = (if length cs = 64 then 63 else length cs) \<and> 0 < length cs \<and> length cs \<le> 64 \<and>
       {c \<in> set (butlast cs). is_eol c} = {} \<and> (is_eol (last cs) \<or> length cs = 64) \<and>
       tx s' = tx s @ map ucast (ps @ takeWhile (\<lambda>c. c \<noteq> 0) (take i cs) @ ns)) \<and>
     console_loop im s = None"
  using console_step_echo [OF assms] console_loop_runs [OF assms] by blast

theorem console_echoes_witness:
  "\<exists>s'. console_step demo_image (machine0\<lparr>io_dev := (\<lambda>h a. if a = UART_DATA_REG then 10 else 0), mem := (\<lambda>a. if a = 0x89020 then 62 else 0)\<rparr>) = Some s' \<and>
     rx s' \<noteq> []"
proof -
  let ?s = "machine0\<lparr>io_dev := (\<lambda>h a. if a = UART_DATA_REG then 10 else 0), mem := (\<lambda>a. if a = 0x89020 then 62 else 0)\<rparr>"
  have "uart_live ?s" by (auto simp: uart_live_def uart_regs intro: drains.clear)
  moreover have "outside (im_buffer demo_image) (im_prompt demo_image) [62]" "outside (im_buffer demo_image) (im_crlf demo_image) []"
    by (auto simp: outside_def demo_image_def le_Suc_eq)
  ultimately have "console_ready demo_image [62] [] ?s" by (simp add: console_ready_def string_at_def demo_image_def)
  from console_echoes [OF this] show ?thesis by auto
qed

section \<open>The address translation instruction\<close>

text \<open>What the architecture says of \<open>PAR_EL1\<close> after \<open>at s1e1r\<close>: bit 0 is set when the walk fails, otherwise bits 47 to 12 are
  those of the physical address.\<close>

definition at_walks :: "bmem \<Rightarrow> u64 \<Rightarrow> (u64 \<Rightarrow> u64) \<Rightarrow> bool" where
  "at_walks m pgd mmu_at_test \<longleftrightarrow> (\<forall>a. unat a < 2 ^ 48 \<longrightarrow>
     (case translate m pgd a of None \<Rightarrow> bit (mmu_at_test a) 0
      | Some (pa, attr) \<Rightarrow> \<not> bit (mmu_at_test a) 0 \<and> mmu_at_test a AND PTE_ADDR_MASK = pa AND PTE_ADDR_MASK))"

lemma page_mask_bit: "i < 64 \<Longrightarrow> bit (scast PAGE_MASK :: u64) i \<longleftrightarrow> 12 \<le> i"
proof -
  have "(scast PAGE_MASK :: u64) = NOT (mask 12)" by (simp add: mask_eq_exp_minus_1)
  then show "i < 64 \<Longrightarrow> ?thesis" by (simp only: bit_not_iff bit_mask_iff possible_bit_word) auto
qed

lemma par_address:
  assumes "v AND PTE_ADDR_MASK = a AND PTE_ADDR_MASK" and "unat a < 2 ^ 40" and "unat a mod 4096 = 0"
  shows "(v AND scast PAGE_MASK) AND 0xffffffffff = a"
proof (rule bit_word_eqI)
  fix i assume i: "i < LENGTH(64)"
  have m: "(0xffffffffff :: u64) = mask 40" by (simp add: mask_eq_exp_minus_1)
  have b: "bit (v AND PTE_ADDR_MASK) i = bit (a AND PTE_ADDR_MASK) i" by (simp only: assms(1))
  have hi: "\<not> bit a i" if "40 \<le> i"
  proof -
    have "take_bit 40 (unat a) = unat a" using assms(2) by (simp add: take_bit_nat_eq_self)
    then have "\<not> bit (unat a) i" using that by (metis bit_take_bit_iff not_less)
    then show ?thesis by (simp add: bit_unsigned_iff)
  qed
  have lo: "\<not> bit a i" if "i < 12"
  proof -
    have "take_bit 12 (unat a) = 0" using assms(3) by (simp add: take_bit_eq_mod)
    then have "\<not> bit (take_bit 12 (unat a)) i" by simp
    then have "\<not> bit (unat a) i" using that by (simp add: bit_take_bit_iff)
    then show ?thesis by (simp add: bit_unsigned_iff)
  qed
  have "bit a i \<Longrightarrow> 12 \<le> i \<and> i < 40" using hi lo by (meson not_less)
  moreover have "bit (scast PAGE_MASK :: u64) i \<longleftrightarrow> 12 \<le> i" by (rule page_mask_bit) (use i in simp)
  moreover have "bit (mask 40 :: u64) i \<longleftrightarrow> i < 40" using i by (simp only: bit_mask_iff possible_bit_word) simp
  ultimately show "bit ((v AND scast PAGE_MASK) AND 0xffffffffff) i \<longleftrightarrow> bit a i"
    using b unfolding m by (simp only: bit_and_iff bit_addr_mask) auto
qed

lemma parse_par_eq:
  "parse_par_el1 v s =
     (if bit v 0 then (- 1, s\<lparr>klog := klog s @ [(''Address Translation instruction %s\<newline>'', [Arg_str ''failed''])]\<rparr>)
      else ((v AND scast PAGE_MASK) AND 0xffffffffff,
        s\<lparr>klog := klog s @ [(''Address Translation instruction %s\<newline>'', [Arg_str ''successfully'']),
          (''par_el1:0x%lx, PA: 0x%lx\<newline>'', [Arg_word v, Arg_word ((v AND scast PAGE_MASK) AND 0xffffffffff)]),
          (''  NS=%u\<newline>'', [Arg_word (drop_bit 9 v AND 1)]), (''  SH=%u\<newline>'', [Arg_word (drop_bit 7 v AND 3)]),
          (''  ATTR=0x%x\<newline>'', [Arg_word (drop_bit 56 v)])]\<rparr>))"
proof -
  have "(ucast (v AND 1) :: s32) = (if bit v 0 then 1 else 0)"
    by (simp add: and_one_eq odd_iff_mod_2_eq_one bit_0)
  then show ?thesis by (simp add: parse_par_el1_def Let_def printk_call_def)
qed


lemma kernel_map_ends:
  assumes "page_up (unat T) < 2 ^ 29"
  shows "kernel_map B T 0x1FFFF000 = Some (0x1FFFF000, PAGE_KERNEL AND NOT 3)" "kernel_map B T 0x20001000 = None"
proof -
  have "4096 dvd page_up (unat T)" by (simp add: page_up_def)
  then obtain q where q: "page_up (unat T) = 4096 * q" by (rule dvdE)
  then have "q \<le> 0x1FFFF" using assms by simp
  then have "page_up (unat T) \<le> 0x1FFFF000" using q by simp
  then show "kernel_map B T 0x1FFFF000 = Some (0x1FFFF000, PAGE_KERNEL AND NOT 3)" "kernel_map B T 0x20001000 = None"
    by (simp_all add: kernel_map_def MMIO_BASE_def DEVICE_SIZE_def)
qed

text \<open>Stores outside the tables do not change the translation.\<close>

lemma tab_frame:
  assumes "pt_inv m pgd U" and "\<And>t i. t = pgd \<or> t \<in> U \<Longrightarrow> i < 512 \<Longrightarrow> ent m' t i = ent m t i" and "d \<le> 3"
  shows "tab d m' pgd va = tab d m pgd va"
  using assms(3)
proof (induction d)
  case (Suc d)
  have e: "ent m' t (ix (3 - d) va) = ent m t (ix (3 - d) va)" if "tab d m pgd va = Some t" for t
    using pt_inv_tab_page(2) [OF assms(1) that] Suc.prems by (intro assms(2)) auto
  then show ?case using Suc by (auto split: option.split simp: Let_def)
qed simp

lemma translate_frame:
  assumes "pt_inv m pgd U" and "\<And>t i. t = pgd \<or> t \<in> U \<Longrightarrow> i < 512 \<Longrightarrow> ent m' t i = ent m t i"
  shows "translate m' pgd va = translate m pgd va"
proof -
  note f = tab_frame [OF assms]
  have e: "ent m' t i = ent m t i" if "tab d m pgd va = Some t" "d \<le> 3" "i < 512" for t d i
    using pt_inv_tab_page(2) [OF assms(1) that(1,2)] that(3) by (intro assms(2)) auto
  show ?thesis unfolding translate_tab
    using f [of 3] f [of 2] f [of 1] by (auto split: option.split simp: e simp del: tab.simps)
qed

lemma test_at_eq:
  "\<exists>l. test_at mmu_at_test a s = s\<lparr>klog := klog s @ l @ [(''test AT instruction %s\<newline>'',
     [Arg_str (if a = fst (parse_par_el1 (mmu_at_test a) s) then ''done'' else ''failed'')])]\<rparr>"
proof -
  obtain l where "snd (parse_par_el1 (mmu_at_test a) s) = s\<lparr>klog := klog s @ l\<rparr>"
    unfolding parse_par_eq by (cases "bit (mmu_at_test a) 0") auto
  then show ?thesis unfolding test_at_def Let_def split_beta printk_call_def by (intro exI [of _ l]) simp
qed

lemma test_addresses: "scast (TOTAL_MEMORY - 4096) = (0x1FFFF000 :: u64)" "scast (TOTAL_MEMORY + 4096) = (0x20001000 :: u64)"
  by simp_all

text \<open>The tests of \<open>test_mmu\<close> on the tables that \<open>paging_init\<close> builds: the translation of the last page of the
  memory is reported as done and the store to it goes through; the translation of the page after the memory is reported as
  failed, and the store to it ends the test with an abort, after the verdicts.\<close>

theorem test_mmu_verdicts:
  fixes s :: "'a page_state_scheme"
  assumes "image_ok im" and "tables_ok pgd s" and "0x1FFFF000 \<notin> used_pages s"
    and "\<And>va. unat va < 2 ^ 48 \<Longrightarrow> translate (mem s) pgd va = kernel_map (im_text_boot_start im) (im_text_end im) va"
    and "at_walks (mem s) pgd mmu_at_test"
  shows "(\<exists>l. test_at mmu_at_test 0x1FFFF000 s = s\<lparr>klog := klog s @ l @ [(''test AT instruction %s\<newline>'', [Arg_str ''done''])]\<rparr>) \<and>
     (\<exists>l. test_at mmu_at_test 0x20001000 s = s\<lparr>klog := klog s @ l @ [(''test AT instruction %s\<newline>'', [Arg_str ''failed''])]\<rparr>) \<and>
     (\<exists>l. test_access_map_address pgd s = Inr (s\<lparr>mem := store64 0x1FFFF000 0x55 (mem s), klog := l\<rparr>)) \<and>
     test_mmu mmu_at_test pgd s = Inl Bad_pointer"
proof -
  have k: "translate (mem s) pgd 0x1FFFF000 = Some (0x1FFFF000, PAGE_KERNEL AND NOT 3)" "translate (mem s) pgd 0x20001000 = None"
    using assms(4) [of "0x1FFFF000"] assms(4) [of "0x20001000"] kernel_map_ends [of "im_text_end im"] assms(1) by (simp_all add: image_ok_def)
  have a: "\<not> bit (mmu_at_test 0x1FFFF000) 0" "mmu_at_test 0x1FFFF000 AND PTE_ADDR_MASK = 0x1FFFF000 AND PTE_ADDR_MASK" "bit (mmu_at_test 0x20001000) 0"
    using assms(5) [unfolded at_walks_def, rule_format, of "0x1FFFF000"] assms(5) [unfolded at_walks_def, rule_format, of "0x20001000"]
    unfolding k by simp_all
  have p: "fst (parse_par_el1 (mmu_at_test 0x1FFFF000) s) = 0x1FFFF000" "fst (parse_par_el1 (mmu_at_test 0x20001000) s) = - 1" for s :: "'a page_state_scheme"
    unfolding parse_par_eq using a(1,3) par_address [OF a(2)] by simp_all
  have A: "\<exists>l. test_at mmu_at_test 0x1FFFF000 s = s\<lparr>klog := klog s @ l @ [(''test AT instruction %s\<newline>'', [Arg_str ''done''])]\<rparr>" for s :: "'a page_state_scheme"
    using test_at_eq [of mmu_at_test "0x1FFFF000" s] by (simp add: p)
  have B: "\<exists>l. test_at mmu_at_test 0x20001000 s = s\<lparr>klog := klog s @ l @ [(''test AT instruction %s\<newline>'', [Arg_str ''failed''])]\<rparr>" for s :: "'a page_state_scheme"
    using test_at_eq [of mmu_at_test "0x20001000" s] by (simp add: p)
  have w: "(PAGE_KERNEL AND NOT 3) AND PTE_RDONLY = 0" by (simp add: PAGE_KERNEL_def PROT_NORMAL_def prot_consts)
  have C: "\<exists>l'. test_access_map_address pgd (s\<lparr>klog := l\<rparr>) = Inr (s\<lparr>mem := store64 0x1FFFF000 0x55 (mem s), klog := l'\<rparr>)" for l
    using w by (intro exI) (simp add: test_access_map_address_def test_access_def store_mapped_def test_addresses k(1) printk_call_def del: page_consts)
  have inv: "pt_inv (mem s) pgd (used_pages s)" "unat pgd < 4194304" using assms(2) by (simp_all add: tables_ok_def)
  have al: "page_aligned (0x1FFFF000 :: u64)" by (simp add: page_aligned_iff)
  have "translate (store64 0x1FFFF000 0x55 (mem s)) pgd va = translate (mem s) pgd va" for va
  proof (rule translate_frame [OF inv(1)])
    fix t and i :: nat
    assume t: "t = pgd \<or> t \<in> used_pages s" and i: "i < 512"
    then have "t \<noteq> 0x1FFFF000" using assms(3) inv(2) by auto
    moreover have "page_aligned t" using t inv(1) by (auto simp: pt_inv_def)
    ultimately show "ent (store64 0x1FFFF000 0x55 (mem s)) t i = ent (mem s) t i"
      using ent_store [OF al, of 0 t i "0x55" "mem s"] i by simp
  qed
  then have D: "test_access_unmap_address pgd (s\<lparr>mem := store64 0x1FFFF000 0x55 (mem s), klog := l\<rparr>) = Inl Bad_pointer" for l
    by (simp add: test_access_unmap_address_def test_access_def store_mapped_def test_addresses k(2) del: page_consts)
  obtain l1 where l1: "test_at mmu_at_test 0x1FFFF000 s = s\<lparr>klog := l1\<rparr>" using A [of s] by blast
  obtain l2 where l2: "test_at mmu_at_test 0x20001000 (s\<lparr>klog := l1\<rparr>) = s\<lparr>klog := l2\<rparr>" using B [of "s\<lparr>klog := l1\<rparr>"] by auto
  obtain l3 where l3: "test_access_map_address pgd (s\<lparr>klog := l2\<rparr>) = Inr (s\<lparr>mem := store64 0x1FFFF000 0x55 (mem s), klog := l3\<rparr>)" using C by blast
  have "test_mmu mmu_at_test pgd s = Inl Bad_pointer"
    unfolding test_mmu_def test_addresses Let_def l1 l2 l3 bindr_simps by (rule D)
  then show ?thesis using A [of s] B [of s] C [of "klog s"] by simp
qed

theorem test_mmu_verdicts_witness:
  "\<exists>(s :: page_state) mmu_at_test. tables_ok 0x91000 s \<and> test_mmu mmu_at_test 0x91000 s = Inl Bad_pointer"
proof -
  have i: "page_aligned (0x91000 :: u64)" "unat (0x91000 :: u64) < 4194304" "unat (0x80000 :: u64) < unat (0x88888 :: u64)"
    "page_up (unat (0x88888 :: u64)) < 2 ^ 29" by (simp_all add: page_aligned_def page_up_def)
  have m0: "mem_map demo_boot = (\<lambda>_. 0)" by (simp add: demo_boot_def)
  have f: "free_pages demo_boot = 131072" using demo_boot_simps(1) by simp
  obtain s where s: "touched demo_boot s" "free_pages demo_boot \<le> free_pages s + 534" "tables_ok 0x91000 s"
    "\<forall>va. unat va < 2 ^ 48 \<longrightarrow> translate (mem s) 0x91000 va = kernel_map 0x80000 0x88888 va"
    using paging_init_run [OF i, of demo_boot] f by auto
  have "mem_map s 130047 = 0" by (rule touched_high_page [OF s(1)]) (use m0 f s(2) in \<open>simp_all add: NR_PAGES_val\<close>)
  moreover have "page_addr 130047 = 0x1FFFF000" by (simp add: page_addr_eq NR_PAGES_val)
  ultimately have u: "0x1FFFF000 \<notin> used_pages s" using page_addr_used_iff [of 130047 s] by (simp add: NR_PAGES_val)
  let ?at = "\<lambda>a. case translate (mem s) 0x91000 a of None \<Rightarrow> 1 | Some (pa, attr) \<Rightarrow> pa AND PTE_ADDR_MASK"
  have at: "at_walks (mem s) 0x91000 ?at"
    unfolding at_walks_def by (auto split: option.split simp: bit_and_iff bit_addr_mask)
  have im: "im_text_boot_start demo_image = 0x80000" "im_text_end demo_image = 0x88888" by (simp_all add: demo_image_def)
  show ?thesis using test_mmu_verdicts [OF demo_reset_ok(2) s(3) u _ at] s(3,4) unfolding im by blast
qed

end
