(* ===== verification/Dump_Pgtable.thy ===== *)
theory Dump_Pgtable
  imports Mmu
begin

text \<open>
  \<^verbatim>\<open>mach-rpi/dump_pgtable.c\<close>: the printout of the translation tables and the test that makes a
  page writable, with the functions of \<^verbatim>\<open>asm/pgtable.h\<close> that only they use. The table \<open>pg_level\<close>
  is a variable of the file, since \<open>pg_level_init\<close> fills in its masks; a string that is not given in an
  initialiser is null. The four walks share the shape of their do-while loop, which does not end when the
  address never meets the end.
\<close>

section \<open>Data\<close>

record prot_bits =
  pb_mask :: u64
  pb_val :: u64
  pb_set :: "string option"
  pb_clear :: "string option"

record pg_level =
  pl_bits :: "prot_bits list option"
  pl_name :: "string option"
  pl_num :: u32
  pl_mask :: u64

record dump_state = page_state +
  pg_level :: "pg_level list"

definition PTE_VALID :: u64 where "PTE_VALID = push_bit 0 1"
definition PTE_ATTRINDX_MASK :: s32 where "PTE_ATTRINDX_MASK = push_bit 2 7"

definition flag_bits :: "u64 \<Rightarrow> string \<Rightarrow> string option \<Rightarrow> prot_bits" where
  "flag_bits m set_str clear_str = \<lparr>pb_mask = m, pb_val = m, pb_set = Some set_str, pb_clear = clear_str\<rparr>"

definition attr_bits :: "u64 \<Rightarrow> string \<Rightarrow> prot_bits" where
  "attr_bits t str = \<lparr>pb_mask = scast PTE_ATTRINDX_MASK, pb_val = PTE_ATTRINDX t, pb_set = Some str, pb_clear = None\<rparr>"

definition pte_bits :: "prot_bits list" where
  "pte_bits =
     [flag_bits PTE_VALID '' '' (Some ''F''),
      flag_bits PTE_USER ''USR'' (Some ''   ''),
      flag_bits PTE_RDONLY ''ro'' (Some ''RW''),
      flag_bits PTE_PXN ''NX'' (Some ''x ''),
      flag_bits PTE_SHARED ''SHD'' (Some ''   ''),
      flag_bits PTE_AF ''AF'' (Some ''  ''),
      flag_bits PTE_NG ''NG'' (Some ''  ''),
      flag_bits PTE_CONT ''CON'' (Some ''   ''),
      flag_bits PTE_TABLE_BIT ''   '' (Some ''BLK''),
      flag_bits PTE_UXN ''UXN'' None,
      attr_bits MT_DEVICE_nGnRnE ''DEVICE/nGnRnE'',
      attr_bits MT_DEVICE_nGnRE ''DEVICE/nGnRE'',
      attr_bits MT_DEVICE_GRE ''DEVICE/GRE'',
      attr_bits MT_NORMAL_NC ''MEM/NORMAL-NC'',
      attr_bits MT_NORMAL ''MEM/NORMAL'']"

definition named_level :: "string \<Rightarrow> pg_level" where
  "named_level name = \<lparr>pl_bits = Some pte_bits, pl_name = Some name, pl_num = word_of_nat (length pte_bits), pl_mask = 0\<rparr>"

definition pg_level_0 :: "pg_level list" where
  "pg_level_0 =
     [\<lparr>pl_bits = None, pl_name = None, pl_num = 0, pl_mask = 0\<rparr>,
      named_level ''PGD'', named_level ''PUD'', named_level ''PMD'', named_level ''PTE'']"

definition address_markers :: "(u64 \<times> string) list" where
  "address_markers = [(0, ''Identical mapping'')]"

section \<open>Printing an entry\<close>

definition dump_bit :: "u64 \<Rightarrow> prot_bits \<Rightarrow> 'a machine_scheme \<Rightarrow> 'a machine_scheme" where
  "dump_bit prot b s =
     (case (if prot AND pb_mask b = pb_val b then pb_set b else pb_clear b) of
        None \<Rightarrow> s
      | Some str \<Rightarrow> printk_call '' %s'' [Arg_str str] s)"

definition dump_prot :: "u64 \<Rightarrow> prot_bits list \<Rightarrow> u32 \<Rightarrow> 'a machine_scheme \<Rightarrow> 'a machine_scheme res" where
  "dump_prot prot bits num s =
     (if length bits < unat num then Inl Out_of_bounds
      else Inr (fold (dump_bit prot) (take (unat num) bits) s))"

text \<open>The loop that scales the size. Its condition reads \<open>units[1]\<close>, the second letter of the array, not the letter
  after the current one, so only \<open>delta\<close> can end it.\<close>

definition units :: string where "units = ''KMGT'' @ [CHR 0x00]"

partial_function (option) scale_units :: "u64 \<Rightarrow> nat \<Rightarrow> (u64 \<times> nat) option" where
  "scale_units delta unit =
     (if delta AND 1023 = 0 \<and> units ! 1 \<noteq> CHR 0x00 then scale_units (drop_bit 10 delta) (unit + 1)
      else Some (delta, unit))"

definition print_markers :: "u64 \<Rightarrow> 'a machine_scheme \<Rightarrow> 'a machine_scheme" where
  "print_markers start s =
     fold (\<lambda>(a, name) s. if start = a then printk_call ''---[ %s ]---\<newline>'' [Arg_str name] s else s) address_markers s"

definition print_pgtable :: "u64 \<Rightarrow> u64 \<Rightarrow> nat \<Rightarrow> u64 \<Rightarrow> 'a dump_state_scheme \<Rightarrow> 'a dump_state_scheme res" where
  "print_pgtable start e level val s =
     (if length (pg_level s) \<le> level then Inl Out_of_bounds
      else
        let lv = pg_level s ! level;
            prot = val AND pl_mask lv;
            s = print_markers start s
        in if val = 0 then Inr s
           else
             let s = printk_call ''0x%016lx-0x%016lx   '' [Arg_word start, Arg_word e] s
             in bindr (returns (scale_units (drop_bit 10 (e - start)) 0)) (\<lambda>(delta, unit).
                  if length units \<le> unit then Inl Out_of_bounds
                  else
                    let s = printk_call ''%9lu%c %s'' [Arg_word delta, Arg_word (word_of_nat (of_char (units ! unit))),
                              arg_of_string (pl_name lv)] s
                    in bindr (case pl_bits lv of None \<Rightarrow> Inr s | Some bits \<Rightarrow> dump_prot prot bits (pl_num lv) s) (\<lambda>s.
                         Inr (printk_call ''\<newline>'' [] s))))"

section \<open>The walks\<close>

partial_function (option) walk_loop ::
    "(u64 \<Rightarrow> u64) \<Rightarrow> (u64 \<Rightarrow> u64 \<Rightarrow> u64 \<Rightarrow> 's \<Rightarrow> 's res) \<Rightarrow> u64 \<Rightarrow> u64 \<Rightarrow> u64 \<Rightarrow> 's \<Rightarrow> 's res option" where
  "walk_loop next step p addr e s =
     (case step p addr (next addr) s of
        Inl err \<Rightarrow> Some (Inl err)
      | Inr s \<Rightarrow> if next addr \<noteq> e then walk_loop next step (p + 8) (next addr) e s else Some (Inr s))"

definition walk_pte :: "u64 \<Rightarrow> u64 \<Rightarrow> u64 \<Rightarrow> 'a dump_state_scheme \<Rightarrow> 'a dump_state_scheme res" where
  "walk_pte pmdp start e s =
     run_loop (walk_loop (\<lambda>addr. addr + scast PAGE_SIZE)
       (\<lambda>ptep addr next s. print_pgtable addr (addr + scast PAGE_SIZE) 4 (load64 ptep (mem s)) s)
       (pte_offset_phys pmdp start s) start e s)"

definition walk_pmd :: "u64 \<Rightarrow> u64 \<Rightarrow> u64 \<Rightarrow> 'a dump_state_scheme \<Rightarrow> 'a dump_state_scheme res" where
  "walk_pmd pudp start e s =
     run_loop (walk_loop (\<lambda>addr. pmd_addr_end addr e)
       (\<lambda>pmdp addr next s.
          let pmd = load64 pmdp (mem s)
          in if pmd_none pmd \<or> pmd_sect pmd then print_pgtable addr next 3 pmd s
             else walk_pte pmdp addr next (printk_call ''        PMD Entry: 0x%016lx-0x%016lx\<newline>'' [Arg_word addr, Arg_word next] s))
       (pmd_offset_phys pudp start s) start e s)"

text \<open>\<open>walk_pud\<close> computes the end of an entry from \<open>start\<close>, not from \<open>addr\<close>.\<close>

definition walk_pud :: "u64 \<Rightarrow> u64 \<Rightarrow> u64 \<Rightarrow> 'a dump_state_scheme \<Rightarrow> 'a dump_state_scheme res" where
  "walk_pud pgdp start e s =
     run_loop (walk_loop (\<lambda>addr. pud_addr_end start e)
       (\<lambda>pudp addr next s.
          let pud = load64 pudp (mem s)
          in if pud_none pud \<or> pud_sect pud then print_pgtable addr next 2 pud s
             else walk_pmd pudp addr next (printk_call ''    PUD Entry: 0x%016lx-0x%016lx\<newline>'' [Arg_word addr, Arg_word next] s))
       (pud_offset_phys pgdp start s) start e s)"

definition walk_pgd :: "u64 \<Rightarrow> u64 \<Rightarrow> u64 \<Rightarrow> 'a dump_state_scheme \<Rightarrow> 'a dump_state_scheme res" where
  "walk_pgd pgd start sz s =
     (let e = start + sz
      in run_loop (walk_loop (\<lambda>addr. pgd_addr_end addr e)
           (\<lambda>pgdp addr next s.
              let pgd_entry = load64 pgdp (mem s)
              in if pgd_none pgd_entry then print_pgtable addr next 1 pgd_entry s
                 else walk_pud pgdp addr next (printk_call ''PGD Entry: 0x%016lx-0x%016lx\<newline>'' [Arg_word addr, Arg_word next] s))
           (pgd_offset_raw pgd start) start e s))"

definition pg_level_init :: "'a dump_state_scheme \<Rightarrow> 'a dump_state_scheme" where
  "pg_level_init s = s\<lparr>pg_level := map (\<lambda>lv. case pl_bits lv of None \<Rightarrow> lv
     | Some bits \<Rightarrow> lv\<lparr>pl_mask := fold (\<lambda>b mask. mask OR pb_mask b) (take (unat (pl_num lv)) bits) (pl_mask lv)\<rparr>) (pg_level s)\<rparr>"

definition dump_pgtable :: "u64 \<Rightarrow> 'a dump_state_scheme \<Rightarrow> 'a dump_state_scheme res" where
  "dump_pgtable idmap_pgd_dir s =
     (let s = pg_level_init s
      in bindr (walk_pgd idmap_pgd_dir 0 (scast TOTAL_MEMORY) s) (\<lambda>s.
           walk_pgd idmap_pgd_dir MMIO_BASE DEVICE_SIZE s))"

section \<open>The test of a read-only page\<close>

definition set_pte_bit :: "u64 \<Rightarrow> u64 \<Rightarrow> u64" where "set_pte_bit pte b = pte OR b"

text \<open>The parameter is an \<open>int\<close>: its complement is computed in 32 bits and extended with its sign.\<close>

definition clear_pte_bit :: "u64 \<Rightarrow> s32 \<Rightarrow> u64" where "clear_pte_bit pte b = pte AND scast (NOT b)"

definition pte_mkyoung :: "u64 \<Rightarrow> u64" where "pte_mkyoung pte = set_pte_bit pte PTE_AF"

definition pte_mkwrite :: "u64 \<Rightarrow> u64" where
  "pte_mkwrite pte = (let pte = set_pte_bit pte PTE_WRITE in clear_pte_bit pte (ucast PTE_RDONLY))"

definition walk_pgtable :: "u64 \<Rightarrow> u64 \<Rightarrow> 'a machine_scheme \<Rightarrow> u64" where
  "walk_pgtable idmap_pgd_dir address s =
     (let pgd = pgd_offset_raw idmap_pgd_dir address
      in if pgd = 0 \<or> pgd_none (load64 pgd (mem s)) then 0
         else let pud = pud_offset_phys pgd address s
              in if pud = 0 \<or> pud_none (load64 pud (mem s)) then 0
                 else let pmd = pmd_offset_phys pud address s
                      in if pmd = 0 \<or> pmd_none (load64 pmd (mem s)) then 0
                         else if load64 pmd (mem s) AND PMD_TYPE_MASK = PMD_TYPE_SECT then pmd
                         else let pte = pte_offset_phys pmd address s
                              in if pte = 0 \<or> pte_none (load64 pte (mem s)) then 0 else pte)"

definition test_walk_pgtable :: "u64 \<Rightarrow> u64 \<Rightarrow> 'a dump_state_scheme \<Rightarrow> 'a dump_state_scheme res" where
  "test_walk_pgtable idmap_pgd_dir readonly_page s =
     (let addr = readonly_page;
          ptep = walk_pgtable idmap_pgd_dir addr s
      in if ptep = 0 then Inl Null_deref
         else
           let pte = load64 ptep (mem s);
               s = printk_call ''Test Page:0x%lx, pte value: 0x%lx\<newline>'' [Arg_word addr, Arg_word pte] s;
               pte_new = pte_mkyoung pte;
               pte_new = pte_mkwrite pte_new;
               s = set_pte ptep pte_new s
           in bindr (walk_pgd idmap_pgd_dir addr (scast PAGE_SIZE) s) (\<lambda>s.
              bindr (memset readonly_page 0x55 100 (mem s)) (\<lambda>m.
                Inr (printk_call ''write readonly page done\<newline>'' [] (s\<lparr>mem := m\<rparr>)))))"

section \<open>The scaling loop\<close>

lemma unat_drop_10: "unat (drop_bit 10 (d :: u64)) = unat d div 1024"
  by (simp add: unat_drop_bit_eq drop_bit_eq_div unat_div)

lemma low_bits_10: "(d :: u64) AND 1023 = 0 \<longleftrightarrow> 1024 dvd unat d"
proof -
  have m: "(1023 :: u64) = mask 10" by (simp add: mask_eq_exp_minus_1)
  have "d AND 1023 = 0 \<longleftrightarrow> unat (d AND 1023) = 0" by (simp add: word_unat_eq_iff)
  also have "\<dots> \<longleftrightarrow> unat d mod 2 ^ 10 = 0" by (simp only: m unat_and_mask)
  also have "\<dots> \<longleftrightarrow> 1024 dvd unat d" by (simp add: mod_eq_0_iff_dvd)
  finally show ?thesis .
qed

text \<open>A size of \<open>d\<close> KB is scaled at most as often as it has factors of 1024, and never to 0.\<close>

lemma scale_units_ends:
  "0 < unat d \<Longrightarrow> unat d < 1024 ^ k \<Longrightarrow> \<exists>d' j. scale_units d u = Some (d', u + j) \<and> j < k \<and> unat d = unat d' * 1024 ^ j \<and> \<not> 1024 dvd unat d'"
proof (induction k arbitrary: d u)
  case 0
  then show ?case by simp
next
  case (Suc k)
  show ?case
  proof (cases "1024 dvd unat d")
    case False
    then have "scale_units d u = Some (d, u + 0)" by (simp add: scale_units.simps [of d] low_bits_10)
    with False show ?thesis by (intro exI [of _ d] exI [of _ 0]) simp
  next
    case True
    then obtain q where q: "unat d = 1024 * q" by (rule dvdE)
    then have h: "unat (drop_bit 10 d) = q" by (simp add: unat_drop_10)
    have "0 < q" "q < 1024 ^ k" using Suc.prems q by simp_all
    with Suc.IH [of "drop_bit 10 d" "u + 1"] h obtain d' j where
      "scale_units (drop_bit 10 d) (u + 1) = Some (d', u + 1 + j)" "j < k" "q = unat d' * 1024 ^ j" "\<not> 1024 dvd unat d'" by auto
    moreover from this have "scale_units d u = Some (d', u + Suc j)"
      using True by (simp add: scale_units.simps [of d] low_bits_10 units_def)
    ultimately show ?thesis using q by (intro exI [of _ d'] exI [of _ "Suc j"]) simp
  qed
qed

section \<open>What a walk prints\<close>

text \<open>The rows of a piece of log: an address is shown when a row with its range is printed.\<close>

definition shown :: "(string \<times> varg list) list \<Rightarrow> u64 \<Rightarrow> bool" where
  "shown l va \<longleftrightarrow> (\<exists>a b. (''0x%016lx-0x%016lx   '', [Arg_word a, Arg_word b]) \<in> set l \<and> unat a \<le> unat va \<and> unat va < unat b)"

lemma shown_simps [simp]:
  "\<not> shown [] va" "shown (l @ l') va \<longleftrightarrow> shown l va \<or> shown l' va"
  "shown ((f, args) # l) va \<longleftrightarrow>
     (\<exists>a b. f = ''0x%016lx-0x%016lx   '' \<and> args = [Arg_word a, Arg_word b] \<and> unat a \<le> unat va \<and> unat va < unat b) \<or> shown l va"
  by (auto simp: shown_def)

definition levels_ok :: "pg_level list \<Rightarrow> bool" where
  "levels_ok ls \<longleftrightarrow> length ls = 5 \<and> (\<forall>i \<in> {1 ..< 5}. pl_bits (ls ! i) = Some pte_bits \<and> pl_num (ls ! i) = 15)"

text \<open>The walk of \<open>[a, e)\<close> changes the log alone, and shows the mapped addresses.\<close>

definition dumped :: "u64 \<Rightarrow> nat \<Rightarrow> nat \<Rightarrow> 'a dump_state_scheme \<Rightarrow> 'a dump_state_scheme \<Rightarrow> bool" where
  "dumped pgd a e s s' \<longleftrightarrow> (\<exists>l. s' = s\<lparr>klog := klog s @ l\<rparr> \<and>
     (\<forall>va. unat va < 2 ^ 48 \<longrightarrow> (shown l va \<longleftrightarrow> a \<le> unat va \<and> unat va < e \<and> translate (mem s) pgd va \<noteq> None)))"

lemma dumped_trans:
  assumes "dumped pgd a b s s1" and "dumped pgd b e s1 s2" and "a \<le> b" and "b \<le> e"
  shows "dumped pgd a e s s2"
proof -
  obtain l where l: "s1 = s\<lparr>klog := klog s @ l\<rparr>"
    "\<And>va. unat va < 2 ^ 48 \<Longrightarrow> (shown l va \<longleftrightarrow> a \<le> unat va \<and> unat va < b \<and> translate (mem s) pgd va \<noteq> None)"
    using assms(1) by (auto simp: dumped_def)
  obtain l' where l': "s2 = s1\<lparr>klog := klog s1 @ l'\<rparr>"
    "\<And>va. unat va < 2 ^ 48 \<Longrightarrow> (shown l' va \<longleftrightarrow> b \<le> unat va \<and> unat va < e \<and> translate (mem s) pgd va \<noteq> None)"
    using assms(2) l(1) by (auto simp: dumped_def)
  have "s2 = s\<lparr>klog := klog s @ l @ l'\<rparr>" by (simp add: l(1) l'(1))
  moreover have "shown (l @ l') va \<longleftrightarrow> a \<le> unat va \<and> unat va < e \<and> translate (mem s) pgd va \<noteq> None" if "unat va < 2 ^ 48" for va
    using l(2) [OF that] l'(2) [OF that] assms(3,4) by auto
  ultimately show ?thesis unfolding dumped_def by blast
qed

lemma fold_dump_bit:
  "\<exists>l. fold (dump_bit prot) bs s = s\<lparr>klog := klog s @ l\<rparr> \<and> (\<forall>va. \<not> shown l va)"
proof (induction bs arbitrary: s)
  case Nil
  then show ?case by (intro exI [of _ "[]"]) simp
next
  case (Cons b bs)
  obtain k where k: "dump_bit prot b s = s\<lparr>klog := klog s @ k\<rparr>" "\<forall>va. \<not> shown k va"
  proof (cases "if prot AND pb_mask b = pb_val b then pb_set b else pb_clear b")
    case None
    then show thesis using that [of "[]"] by (simp add: dump_bit_def)
  next
    case (Some str)
    then show thesis using that [of "[('' %s'', [Arg_str str])]"] by (simp add: dump_bit_def printk_call_def)
  qed
  with Cons.IH [of "dump_bit prot b s"] obtain l where
    "fold (dump_bit prot) bs (dump_bit prot b s) = s\<lparr>klog := klog s @ k @ l\<rparr>" "\<forall>va. \<not> shown l va" by auto
  with k(2) show ?case by (intro exI [of _ "k @ l"]) simp
qed

lemma print_pgtable_row:
  assumes lv: "levels_ok (pg_level s)" "1 \<le> level" "level \<le> 4" and r: "unat a < unat b" "4096 dvd unat a" "4096 dvd unat b" "unat b \<le> 2 ^ 48"
  shows "\<exists>l. print_pgtable a b level val s = Inr (s\<lparr>klog := klog s @ l\<rparr>) \<and>
     (\<forall>va. shown l va \<longleftrightarrow> val \<noteq> 0 \<and> unat a \<le> unat va \<and> unat va < unat b)"
proof -
  have len: "length (pg_level s) = 5" "pl_bits (pg_level s ! level) = Some pte_bits" "pl_num (pg_level s ! level) = 15"
    using lv by (simp_all add: levels_ok_def)
  obtain k where k: "print_markers a s = s\<lparr>klog := klog s @ k\<rparr>" "\<forall>va. \<not> shown k va"
    by (cases "a = 0") (auto simp: print_markers_def address_markers_def printk_call_def intro: that [of "[]"])
  show ?thesis
  proof (cases "val = 0")
    case True
    then show ?thesis using k len(1) lv(3) by (intro exI [of _ k]) (simp add: print_pgtable_def Let_def)
  next
    case False
    let ?d = "drop_bit 10 (b - a) :: u64"
    have "unat (b - a) = unat b - unat a" using r(1) by (simp add: unat_sub word_le_nat_alt)
    moreover obtain p q where "unat a = 4096 * p" "unat b = 4096 * q" using r(2,3) by (auto elim!: dvdE)
    ultimately have d: "unat ?d = 4 * (q - p)" "p < q" "4096 * q \<le> 2 ^ 48" using r(1,4) by (simp_all add: unat_drop_10)
    then have "0 < unat ?d" "unat ?d < 1024 ^ 4" by simp_all
    from scale_units_ends [OF this, of 0] obtain d' j where u: "scale_units ?d 0 = Some (d', j)" "j < 4" by auto
    let ?s = "s\<lparr>klog := klog s @ k @ [(''0x%016lx-0x%016lx   '', [Arg_word a, Arg_word b]),
       (''%9lu%c %s'', [Arg_word d', Arg_word (word_of_nat (of_char (units ! j))), arg_of_string (pl_name (pg_level s ! level))])]\<rparr>"
    obtain l where l: "fold (dump_bit (val AND pl_mask (pg_level s ! level))) pte_bits ?s = ?s\<lparr>klog := klog ?s @ l\<rparr>" "\<forall>va. \<not> shown l va"
      using fold_dump_bit by blast
    have "unat (15 :: u32) = 15" "length pte_bits = 15" by (simp_all add: pte_bits_def)
    then have "dump_prot (val AND pl_mask (pg_level s ! level)) pte_bits 15 ?s = Inr (?s\<lparr>klog := klog ?s @ l\<rparr>)"
      using l(1) by (simp add: dump_prot_def)
    then have "print_pgtable a b level val s = Inr (printk_call ''\<newline>'' [] (?s\<lparr>klog := klog ?s @ l\<rparr>))"
      using False k(1) len lv(3) u by (simp add: print_pgtable_def Let_def printk_call_def units_def)
    then show ?thesis using k(2) l(2) False
      by (intro exI [of _ "k @ [(''0x%016lx-0x%016lx   '', [Arg_word a, Arg_word b]), (''%9lu%c %s'', [Arg_word d',
         Arg_word (word_of_nat (of_char (units ! j))), arg_of_string (pl_name (pg_level s ! level))])] @ l @ [(''\<newline>'', [])]"])
        (simp add: printk_call_def)
  qed
qed


section \<open>A loop over the entries of a table\<close>

definition readable :: "u64 \<Rightarrow> 'a dump_state_scheme \<Rightarrow> bool" where
  "readable pgd s \<longleftrightarrow> tables_ok pgd s \<and> levels_ok (pg_level s)"

lemma readable_log [simp]: "readable pgd (s\<lparr>klog := l\<rparr>) = readable pgd s"
  by (simp add: readable_def tables_ok_def used_pages_def)

lemma dumped_readable: "dumped pgd a e s s' \<Longrightarrow> readable pgd s' = readable pgd s \<and> mem s' = mem s"
  by (auto simp: dumped_def)

lemma walk_loop_dumped:
  fixes step :: "u64 \<Rightarrow> u64 \<Rightarrow> u64 \<Rightarrow> 'a dump_state_scheme \<Rightarrow> 'a dump_state_scheme res"
  assumes n: "n = 12 + 9 * (3 - d)" and d: "d \<le> 3"
    and bound: "\<And>a. unat a < unat e \<Longrightarrow> 4096 dvd unat a \<Longrightarrow> unat a0 \<le> unat a \<Longrightarrow> unat (next a) = block_end n (unat a) (unat e)"
    and step: "\<And>a nx s. readable pgd s \<Longrightarrow> tab d (mem s) pgd a = Some t \<Longrightarrow> unat a < unat nx \<Longrightarrow> unat nx \<le> 2 ^ 48 \<Longrightarrow>
       unat a0 \<le> unat a \<Longrightarrow> unat nx \<le> unat e \<Longrightarrow> (unat nx - 1) div 2 ^ n = unat a div 2 ^ n \<Longrightarrow> 4096 dvd unat a \<Longrightarrow> 4096 dvd unat nx \<Longrightarrow>
       \<exists>s'. step (t + 8 * word_of_nat (ix (3 - d) a)) a nx s = Inr s' \<and> dumped pgd (unat a) (unat nx) s s'"
    and ok: "readable pgd s" and t: "tab d (mem s) pgd a = Some t" and a0: "unat a0 \<le> unat a"
    and lt: "unat a < unat e" "unat e \<le> 2 ^ 48" and blk: "(unat e - 1) div 2 ^ (n + 9) = unat a div 2 ^ (n + 9)"
    and al: "4096 dvd unat a" "4096 dvd unat e"
  shows "\<exists>s'. run_loop (walk_loop next step (t + 8 * word_of_nat (ix (3 - d) a)) a e s) = Inr s' \<and> dumped pgd (unat a) (unat e) s s'"
  using ok t a0 lt(1) blk al
proof (induction "unat e - unat a" arbitrary: a s rule: less_induct)
  case less
  let ?b = "next a" and ?p = "t + 8 * word_of_nat (ix (3 - d) a)"
  note prems = less.prems
  have b: "unat ?b = block_end n (unat a) (unat e)" by (rule bound [OF prems(4,6,3)])
  note bb = block_end_bounds [OF prems(4), of n, folded b]
  have "12 \<le> n" by (simp add: n)
  then have "(4096 :: nat) dvd 2 ^ n" using le_imp_power_dvd [of 12 n "2 :: nat"] by simp
  then have alb: "4096 dvd unat ?b"
    using prems(7) unfolding b block_end_def min_def by (auto intro: dvd_mult)
  obtain s1 where s1: "step ?p a ?b s = Inr s1" "dumped pgd (unat a) (unat ?b) s s1"
    using step [OF prems(1,2) bb(1) _ prems(3) bb(2) bb(3) prems(6) alb] bb(2) lt(2) by fastforce
  show ?case
  proof (cases "?b = e")
    case True
    with s1 show ?thesis by (simp add: walk_loop.simps [of _ _ _ a] run_loop_def)
  next
    case False
    then have be: "unat ?b < unat e" using bb(2) by (auto simp: word_unat_eq_iff)
    then have bn: "unat ?b = (unat a div 2 ^ n + 1) * 2 ^ n" using b by (simp add: block_end_def min_def split: if_splits)
    have n9: "21 + 9 * (3 - d) = n + 9" "48 - 9 * d = n + 9" using n d by simp_all
    have sameblk: "unat ?b div 2 ^ (n + 9) = unat a div 2 ^ (n + 9)"
    proof -
      have "unat a div 2 ^ (n + 9) \<le> unat ?b div 2 ^ (n + 9)" "unat ?b div 2 ^ (n + 9) \<le> (unat e - 1) div 2 ^ (n + 9)"
        using bb(1) be by (intro div_le_mono; simp)+
      with prems(5) show ?thesis by simp
    qed
    have "pre d ?b = pre d a" by (rule same_pre) (use lt be bb(1) sameblk n9 in simp_all)
    then have "tab d (mem s) pgd ?b = Some t" using tab_cong [of d ?b a "mem s" pgd] d prems(2) by simp
    then have t1: "tab d (mem s1) pgd ?b = Some t" "readable pgd s1" using dumped_readable [OF s1(2)] prems(1) by simp_all
    have ix1: "ix (3 - d) ?b = Suc (ix (3 - d) a)"
      by (rule next_slot) (use bn n sameblk in \<open>simp_all only: n9 n\<close>)
    obtain s' where s': "run_loop (walk_loop next step (t + 8 * word_of_nat (ix (3 - d) ?b)) ?b e s1) = Inr s'"
      "dumped pgd (unat ?b) (unat e) s1 s'"
    proof -
      have "unat e - unat ?b < unat e - unat a" using bb(1) be by linarith
      have "\<exists>s'. run_loop (walk_loop next step (t + 8 * word_of_nat (ix (3 - d) ?b)) ?b e s1) = Inr s' \<and> dumped pgd (unat ?b) (unat e) s1 s'"
        by (rule less.hyps [OF \<open>unat e - unat ?b < unat e - unat a\<close> t1(2,1) _ be _ alb prems(7)]) (use prems(3,5) sameblk bb(1) in simp_all)
      then show ?thesis using that by blast
    qed
    have "t + 8 * word_of_nat (ix (3 - d) ?b) = ?p + 8" by (simp add: ix1 algebra_simps)
    with s'(1) have "run_loop (walk_loop next step (?p + 8) ?b e s1) = Inr s'" by (simp only:)
    then have "run_loop (walk_loop next step ?p a e s) = Inr s'"
      using s1(1) False by (simp add: walk_loop.simps [of _ _ _ a])
    then show ?thesis using dumped_trans [OF s1(2) s'(2)] bb(1) be by auto
  qed
qed


text \<open>The row of an entry that is not a table shows its block exactly when the block is mapped.\<close>

lemma print_block_dumped:
  assumes ok: "readable pgd s" and t: "tab d (mem s) pgd a = Some t" and d: "d \<le> 3"
    and ne: "d = 3 \<or> ent (mem s) t (ix (3 - d) a) AND 3 \<noteq> 3"
    and r: "unat a < unat nx" "unat nx \<le> 2 ^ 48" "4096 dvd unat a" "4096 dvd unat nx"
    and blk: "(unat nx - 1) div 2 ^ (12 + 9 * (3 - d)) = unat a div 2 ^ (12 + 9 * (3 - d))"
  shows "\<exists>s'. print_pgtable a nx (Suc d) (ent (mem s) t (ix (3 - d) a)) s = Inr s' \<and> dumped pgd (unat a) (unat nx) s s'"
proof -
  let ?v = "ent (mem s) t (ix (3 - d) a)"
  have inv: "pt_inv (mem s) pgd (used_pages s)" using ok by (simp add: readable_def tables_ok_def)
  have lv: "levels_ok (pg_level s)" "1 \<le> Suc d" "Suc d \<le> 4" using ok d by (simp_all add: readable_def)
  from print_pgtable_row [OF lv r(1,3,4,2), of ?v] obtain l where
    l: "print_pgtable a nx (Suc d) ?v s = Inr (s\<lparr>klog := klog s @ l\<rparr>)"
      "\<forall>va. shown l va \<longleftrightarrow> ?v \<noteq> 0 \<and> unat a \<le> unat va \<and> unat va < unat nx" by blast
  have "translate (mem s) pgd va \<noteq> None \<longleftrightarrow> ?v \<noteq> 0" if va: "unat a \<le> unat va" "unat va < unat nx" for va
  proof -
    have n: "12 + 9 * (3 - d) = 48 - 9 * Suc d" using d by simp
    have "unat va div 2 ^ (48 - 9 * Suc d) = unat a div 2 ^ (48 - 9 * Suc d)"
    proof -
      have "unat a div 2 ^ (48 - 9 * Suc d) \<le> unat va div 2 ^ (48 - 9 * Suc d)"
        "unat va div 2 ^ (48 - 9 * Suc d) \<le> (unat nx - 1) div 2 ^ (48 - 9 * Suc d)"
        using va by (intro div_le_mono; simp)+
      with blk show ?thesis unfolding n by simp
    qed
    then have "pre (Suc d) va = pre (Suc d) a" using va r by (intro same_pre) simp_all
    with pre_eq_iff [OF d] have e: "pre d va = pre d a" "ix (3 - d) va = ix (3 - d) a" by auto
    have tv: "tab d (mem s) pgd va = Some t" using tab_cong [OF _ e(1)] d t by simp
    have "tab j (mem s) pgd va = None" if "d < j" "j \<le> 3" for j
      using tab_below [OF tv _ that(1)] ne that e(2) by auto
    then have tr: "translate (mem s) pgd va = (if d = 0 then None else leaf (3 - d) ?v va)"
      using translate_at [OF tv d] e(2) by simp
    note sh = pt_inv_entry [OF inv t d]
    from d consider "d = 0" | "d = 1" | "d = 2" | "d = 3" by linarith
    then show ?thesis using sh ne by cases (auto simp: tr leaf_def)
  qed
  then have "dumped pgd (unat a) (unat nx) s (s\<lparr>klog := klog s @ l\<rparr>)"
    unfolding dumped_def by (intro exI [of _ l] conjI allI impI) (use l(2) in auto)
  with l(1) show ?thesis by blast
qed

lemma same_page_end:
  fixes a nx :: u64
  assumes "unat a < unat nx" and "4096 dvd unat a" and "4096 dvd unat nx" and "(unat nx - 1) div 2 ^ 12 = unat a div 2 ^ 12"
    and "unat nx \<le> 2 ^ 48"
  shows "a + scast PAGE_SIZE = nx"
proof -
  obtain p q where pq: "unat a = 4096 * p" "unat nx = 4096 * q" using assms(2,3) by (auto elim!: dvdE)
  then have "p < q" using assms(1) by simp
  moreover have "(4096 * q - 1) div 4096 = p" using assms(4) pq by simp
  moreover have "(4096 * q - 1) div 4096 = q - 1" using \<open>p < q\<close> by (cases q) simp_all
  ultimately have "unat nx = unat a + 4096" using pq by simp
  moreover have "unat (a + 4096) = unat a + 4096" using assms(1,5) by (subst unat_add_lem') simp_all
  ultimately show ?thesis by (simp add: word_unat_eq_iff)
qed

lemma walk_pte_dumped:
  fixes a e :: u64
  assumes ok: "readable pgd s" and t: "tab 2 (mem s) pgd a = Some t" and e3: "ent (mem s) t (ix 1 a) AND 3 = 3"
    and r: "unat a < unat e" "unat e \<le> 2 ^ 48" "4096 dvd unat a" "4096 dvd unat e" and blk: "(unat e - 1) div 2 ^ 21 = unat a div 2 ^ 21"
  shows "\<exists>s'. walk_pte (t + 8 * word_of_nat (ix 1 a)) a e s = Inr s' \<and> dumped pgd (unat a) (unat e) s s'"
proof -
  let ?t = "ent (mem s) t (ix 1 a) AND PTE_ADDR_MASK"
  have "tab (Suc 2) (mem s) pgd a = Some ?t" unfolding tab.simps(2) t using e3 by (simp add: Let_def)
  then have t3: "tab 3 (mem s) pgd a = Some ?t" by (simp only: Suc_numeral semiring_norm)
  have o: "pte_offset_phys (t + 8 * word_of_nat (ix 1 a)) a s = ?t + 8 * word_of_nat (ix (3 - 3) a)"
    by (simp only: pte_offset_phys_def pmd_page_paddr_def index_ix mult.commute [of _ 8] ent_def) simp
  show ?thesis
    unfolding walk_pte_def o
  proof (rule walk_loop_dumped [where n = 12 and ?a0.0 = a])
    fix b :: u64 assume b: "unat b < unat e" "4096 dvd unat b"
    then obtain x y where xy: "unat b = 4096 * x" "unat e = 4096 * y" using r(4) by (auto elim!: dvdE)
    have "unat (b + scast PAGE_SIZE) = unat b + 4096" using b r(2) by (subst unat_add_lem') simp_all
    then show "unat (b + scast PAGE_SIZE) = block_end 12 (unat b) (unat e)" using xy b(1) by (simp add: block_end_def)
  next
    fix b nx :: u64 and u :: "'a dump_state_scheme"
    assume h: "readable pgd u" "tab 3 (mem u) pgd b = Some ?t" "unat b < unat nx" "unat nx \<le> 2 ^ 48"
      "(unat nx - 1) div 2 ^ 12 = unat b div 2 ^ 12" "4096 dvd unat b" "4096 dvd unat nx"
    show "\<exists>s'. print_pgtable b (b + scast PAGE_SIZE) 4 (load64 (?t + 8 * word_of_nat (ix (3 - 3) b)) (mem u)) u = Inr s' \<and>
        dumped pgd (unat b) (unat nx) u s'"
      using print_block_dumped [OF h(1,2) _ _ h(3,4,6,7)] h(5) same_page_end [OF h(3,6,7,5,4)] unfolding ent_def by simp
  qed (use ok t3 r blk in simp_all)
qed


lemma dumped_log:
  assumes "dumped pgd a e (s\<lparr>klog := klog s @ l\<rparr>) s'" and "\<And>va. \<not> shown l va"
  shows "dumped pgd a e s s'"
proof -
  obtain l' where "s' = s\<lparr>klog := klog s @ l @ l'\<rparr>"
    "\<forall>va. unat va < 2 ^ 48 \<longrightarrow> (shown l' va \<longleftrightarrow> a \<le> unat va \<and> unat va < e \<and> translate (mem s) pgd va \<noteq> None)"
    using assms(1) by (auto simp: dumped_def)
  then show ?thesis using assms(2) unfolding dumped_def by (intro exI [of _ "l @ l'"]) simp
qed

lemma walk_pmd_dumped:
  fixes a e :: u64
  assumes ok: "readable pgd s" and t: "tab 1 (mem s) pgd a = Some t" and e3: "ent (mem s) t (ix 2 a) AND 3 = 3"
    and r: "unat a < unat e" "unat e \<le> 2 ^ 48" "4096 dvd unat a" "4096 dvd unat e" and blk: "(unat e - 1) div 2 ^ 30 = unat a div 2 ^ 30"
  shows "\<exists>s'. walk_pmd (t + 8 * word_of_nat (ix 2 a)) a e s = Inr s' \<and> dumped pgd (unat a) (unat e) s s'"
proof -
  let ?t = "ent (mem s) t (ix 2 a) AND PTE_ADDR_MASK"
  have "tab (Suc 1) (mem s) pgd a = Some ?t" unfolding tab.simps(2) t using e3 by (simp add: Let_def numeral_2_eq_2)
  then have t2: "tab 2 (mem s) pgd a = Some ?t" by (simp only: one_add_one [symmetric] Suc_eq_plus1)
  have o: "pmd_offset_phys (t + 8 * word_of_nat (ix 2 a)) a s = ?t + 8 * word_of_nat (ix (3 - 2) a)"
    by (simp only: pmd_offset_phys_def pud_page_paddr_def index_ix mult.commute [of _ 8] ent_def) simp
  have one: "3 - 2 = (1 :: nat)" "Suc 2 = 3" by simp_all
  show ?thesis
    unfolding walk_pmd_def o
  proof (rule walk_loop_dumped [where n = 21 and ?a0.0 = a])
    fix b :: u64 assume b: "unat b < unat e"
    then show "unat (pmd_addr_end b e) = block_end 21 (unat b) (unat e)" using addr_end_unat(3) r(2) by blast
  next
    fix b nx :: u64 and u :: "'a dump_state_scheme"
    assume h: "readable pgd u" "tab 2 (mem u) pgd b = Some ?t" "unat b < unat nx" "unat nx \<le> 2 ^ 48"
      "(unat nx - 1) div 2 ^ 21 = unat b div 2 ^ 21" "4096 dvd unat b" "4096 dvd unat nx"
    let ?v = "ent (mem u) ?t (ix 1 b)"
    have ld: "load64 (?t + 8 * word_of_nat (ix 1 b)) (mem u) = ?v" unfolding ent_def ..
    have inv: "pt_inv (mem u) pgd (used_pages u)" using h(1) by (simp add: readable_def tables_ok_def)
    have sh: "?v = 0 \<or> ?v AND 3 = 3 \<or> ?v AND 3 = 1" using pt_inv_entry [OF inv h(2)] by auto
    show "\<exists>s'. (let pmd = load64 (?t + 8 * word_of_nat (ix (3 - 2) b)) (mem u)
          in if pmd_none pmd \<or> pmd_sect pmd then print_pgtable b nx 3 pmd u
             else walk_pte (?t + 8 * word_of_nat (ix (3 - 2) b)) b nx (printk_call ''        PMD Entry: 0x%016lx-0x%016lx\<newline>'' [Arg_word b, Arg_word nx] u)) = Inr s' \<and>
        dumped pgd (unat b) (unat nx) u s'"
    proof (cases "?v = 0 \<or> ?v AND 3 = 1")
      case True
      then have "?v AND 3 \<noteq> 3" by auto
      then show ?thesis
        using print_block_dumped [OF h(1,2) _ _ h(3,4,6,7)] h(5) True unfolding one unfolding ld Let_def
        by (simp add: pmd_none_def pmd_sect_def type_consts)
    next
      case False
      let ?u = "u\<lparr>klog := klog u @ [(''        PMD Entry: 0x%016lx-0x%016lx\<newline>'', [Arg_word b, Arg_word nx])]\<rparr>"
      have v3: "?v AND 3 = 3" using False sh by blast
      obtain s' where "walk_pte (?t + 8 * word_of_nat (ix 1 b)) b nx ?u = Inr s'" "dumped pgd (unat b) (unat nx) ?u s'"
        using walk_pte_dumped [of pgd ?u b ?t nx] h v3 by auto
      moreover from dumped_log [OF this(2)] have "dumped pgd (unat b) (unat nx) u s'" by simp
      ultimately show ?thesis using False v3 unfolding one unfolding ld Let_def
        by (intro exI [of _ s']) (simp add: pmd_none_def pmd_sect_def type_consts printk_call_def)
    qed
  qed (use ok t2 r blk in simp_all)
qed


text \<open>A range inside one entry: the loop runs once.\<close>

lemma walk_loop_one: "next a = e \<Longrightarrow> run_loop (walk_loop next step p a e s) = step p a e s"
  by (simp add: walk_loop.simps [of _ step p a] run_loop_def split: sum.split)

lemma block_end_one: "a < e \<Longrightarrow> (e - 1) div 2 ^ n = a div 2 ^ n \<Longrightarrow> block_end n a e = e"
proof -
  assume a: "a < e" "(e - 1) div 2 ^ n = a div 2 ^ n"
  have "e - 1 < (e - 1) div 2 ^ n * 2 ^ n + 2 ^ n" using dividend_less_div_times [of "2 ^ n" "e - 1"] by (simp add: algebra_simps)
  then have "e \<le> (a div 2 ^ n + 1) * 2 ^ n" using a by simp
  then show ?thesis by (simp add: block_end_def)
qed

lemma walk_pud_dumped:
  fixes a e :: u64
  assumes ok: "readable pgd s" and e3: "ent (mem s) pgd (ix 3 a) AND 3 = 3"
    and r: "unat a < unat e" "unat e \<le> 2 ^ 48" "4096 dvd unat a" "4096 dvd unat e" and blk: "(unat e - 1) div 2 ^ 30 = unat a div 2 ^ 30"
  shows "\<exists>s'. walk_pud (pgd + 8 * word_of_nat (ix 3 a)) a e s = Inr s' \<and> dumped pgd (unat a) (unat e) s s'"
proof -
  let ?t = "ent (mem s) pgd (ix 3 a) AND PTE_ADDR_MASK"
  have t1: "tab 1 (mem s) pgd a = Some ?t" using e3 by (simp add: Let_def)
  have o: "pud_offset_phys (pgd + 8 * word_of_nat (ix 3 a)) a s = ?t + 8 * word_of_nat (ix 2 a)"
    by (simp only: pud_offset_phys_def pgd_page_paddr_def index_ix mult.commute [of _ 8] ent_def)
  have nx: "pud_addr_end a e = e"
    using addr_end_unat(2) [OF r(1,2)] block_end_one [OF r(1) blk] by (simp add: word_unat_eq_iff)
  have lp: "run_loop (walk_loop (\<lambda>b. e) step p a e u) = step p a e u" for step p and u :: "'a dump_state_scheme"
    by (rule walk_loop_one) (rule refl)
  let ?v = "ent (mem s) ?t (ix 2 a)"
  have ld: "load64 (?t + 8 * word_of_nat (ix 2 a)) (mem s) = ?v" unfolding ent_def ..
  have inv: "pt_inv (mem s) pgd (used_pages s)" using ok by (simp add: readable_def tables_ok_def)
  have two: "3 - 1 = (2 :: nat)" "Suc 1 = 2" "12 + 9 * 2 = (30 :: nat)" by simp_all
  have sh: "?v = 0 \<or> ?v AND 3 = 3" using pt_inv_entry [OF inv t1] by auto
  show ?thesis
  proof (cases "?v = 0")
    case True
    obtain s' where "print_pgtable a e 2 ?v s = Inr s'" "dumped pgd (unat a) (unat e) s s'"
      using print_block_dumped [OF ok t1 _ _ r(1-4)] blk True unfolding two by auto
    then show ?thesis using True unfolding walk_pud_def o by (simp add: lp nx ld pud_none_def Let_def)
  next
    case False
    let ?u = "s\<lparr>klog := klog s @ [(''    PUD Entry: 0x%016lx-0x%016lx\<newline>'', [Arg_word a, Arg_word e])]\<rparr>"
    have v3: "?v AND 3 = 3" using False sh by blast
    obtain s' where "walk_pmd (?t + 8 * word_of_nat (ix 2 a)) a e ?u = Inr s'" "dumped pgd (unat a) (unat e) ?u s'"
      using walk_pmd_dumped [of pgd ?u a ?t e] ok t1 v3 r blk by auto
    moreover from dumped_log [OF this(2)] have "dumped pgd (unat a) (unat e) s s'" by simp
    ultimately show ?thesis using False v3 unfolding walk_pud_def o
      by (intro exI [of _ s']) (simp add: lp nx ld pud_none_def pud_sect_def type_consts Let_def printk_call_def)
  qed
qed

lemma walk_pgd_dumped:
  fixes a :: u64
  assumes ok: "readable pgd s" and sz: "0 < unat sz" "unat a + unat sz \<le> 2 ^ 48" "4096 dvd unat a" "4096 dvd unat sz"
    and blk: "(unat a + unat sz - 1) div 2 ^ 30 = unat a div 2 ^ 30"
  shows "\<exists>s'. walk_pgd pgd a sz s = Inr s' \<and> dumped pgd (unat a) (unat a + unat sz) s s'"
proof -
  let ?e = "a + sz"
  have ue: "unat ?e = unat a + unat sz" using sz(2) by (intro unat_add_lem') simp
  have r: "unat a < unat ?e" "unat ?e \<le> 2 ^ 48" "4096 dvd unat a" "4096 dvd unat ?e" using sz unfolding ue by simp_all
  have blk30: "(unat ?e - 1) div 2 ^ 30 = unat a div 2 ^ 30" using blk by (simp only: ue)
  have blk39: "(unat ?e - 1) div 2 ^ 39 = unat a div 2 ^ 39"
  proof -
    have "(2 :: nat) ^ 39 = 2 ^ 30 * 2 ^ 9" by simp
    then show ?thesis using blk30 by (simp only: div_mult2_eq)
  qed
  have nx: "pgd_addr_end a ?e = ?e"
    using addr_end_unat(1) [OF r(1,2)] block_end_one [OF r(1) blk39] by (simp add: word_unat_eq_iff)
  have lp: "run_loop (walk_loop (\<lambda>b. pgd_addr_end b ?e) step p a ?e u) = step p a ?e u" for step p and u :: "'a dump_state_scheme"
    by (rule walk_loop_one) (rule nx)
  let ?v = "ent (mem s) pgd (ix 3 a)"
  have ld: "load64 (pgd + 8 * word_of_nat (ix 3 a)) (mem s) = ?v" unfolding ent_def ..
  have o: "pgd_offset_raw pgd a = pgd + 8 * word_of_nat (ix 3 a)" by (simp only: pgd_offset_raw_def index_ix)
  have inv: "pt_inv (mem s) pgd (used_pages s)" using ok by (simp add: readable_def tables_ok_def)
  have t0: "tab 0 (mem s) pgd a = Some pgd" by simp
  have three: "3 - 0 = (3 :: nat)" "12 + 9 * 3 = (39 :: nat)" by simp_all
  have sh: "?v = 0 \<or> ?v AND 3 = 3" using pt_inv_entry [OF inv t0] by auto
  have "\<exists>s'. walk_pgd pgd a sz s = Inr s' \<and> dumped pgd (unat a) (unat ?e) s s'"
  proof (cases "?v = 0")
    case True
    obtain s' where "print_pgtable a ?e 1 ?v s = Inr s'" "dumped pgd (unat a) (unat ?e) s s'"
      using print_block_dumped [OF ok t0 _ _ r] blk39 True unfolding three by auto
    then show ?thesis using True unfolding walk_pgd_def Let_def o by (simp add: lp nx ld pgd_none_def)
  next
    case False
    let ?u = "s\<lparr>klog := klog s @ [(''PGD Entry: 0x%016lx-0x%016lx\<newline>'', [Arg_word a, Arg_word ?e])]\<rparr>"
    have v3: "?v AND 3 = 3" using False sh by blast
    obtain s' where "walk_pud (pgd + 8 * word_of_nat (ix 3 a)) a ?e ?u = Inr s'" "dumped pgd (unat a) (unat ?e) ?u s'"
      using walk_pud_dumped [of pgd ?u a ?e] ok v3 r blk30 by auto
    moreover from dumped_log [OF this(2)] have "dumped pgd (unat a) (unat ?e) s s'" by simp
    ultimately show ?thesis using False v3 unfolding walk_pgd_def Let_def o
      by (intro exI [of _ s']) (simp add: lp nx ld pgd_none_def type_consts printk_call_def)
  qed
  then show ?thesis by (simp only: ue)
qed


section \<open>The pointer to the entry of an address\<close>

lemma entry_ptr_not_0:
  assumes "page_aligned t" and "t \<noteq> 0"
  shows "t + 8 * word_of_nat (ix r a) \<noteq> 0"
proof
  assume "t + 8 * word_of_nat (ix r a) = 0"
  then have "unat (t + 8 * word_of_nat (ix r a)) = 0" by (simp only: unat_0)
  then have "unat t = 0" using page_aligned_add8 [OF assms(1) ix_less [of r a]] by simp
  with assms(2) show False by (simp add: unat_eq_0)
qed

lemma table_not_0:
  assumes "tables_ok pgd s" and "tab (Suc d) (mem s) pgd a = Some t" and "d < 3"
  shows "t \<noteq> 0" "page_aligned t"
proof -
  have inv: "pt_inv (mem s) pgd (used_pages s)" using assms(1) by (simp add: tables_ok_def)
  have d: "Suc d \<le> 3" using assms(3) by simp
  note p = pt_inv_tab_page [OF inv assms(2) d]
  then have "t \<in> used_pages s" by simp
  then show "t \<noteq> 0" "page_aligned t" using p(1) by (auto simp: used_pages_def)
qed

lemma entry_shape:
  assumes "tables_ok pgd s" and "tab d (mem s) pgd a = Some t" and "d \<le> 3" and "ent (mem s) t (ix (3 - d) a) \<noteq> 0"
    and "ent (mem s) t (ix (3 - d) a) AND 3 \<noteq> 1 \<or> d \<noteq> 2"
  shows "ent (mem s) t (ix (3 - d) a) AND 3 = 3"
  using pt_inv_entry [of "mem s" pgd "used_pages s" d a t] assms by (auto simp: tables_ok_def)

lemma walk_pgtable_cases:
  assumes ok: "tables_ok pgd s" and p0: "pgd \<noteq> 0"
  obtains (none) "walk_pgtable pgd a s = 0" "translate (mem s) pgd a = None"
  | (found) t d where "walk_pgtable pgd a s = t + 8 * word_of_nat (ix (3 - d) a)" "tab d (mem s) pgd a = Some t" "d = 2 \<or> d = 3"
      "t + 8 * word_of_nat (ix (3 - d) a) \<noteq> 0" "translate (mem s) pgd a = leaf (3 - d) (ent (mem s) t (ix (3 - d) a)) a"
      "leaf (3 - d) (ent (mem s) t (ix (3 - d) a)) a \<noteq> None"
proof -
  let ?e = "\<lambda>t r. ent (mem s) t (ix r a)" and ?p = "\<lambda>t r. t + 8 * word_of_nat (ix r a)"
  have ld: "load64 (?p t r) (mem s) = ?e t r" for t r by (simp only: ent_def)
  have o: "pgd_offset_raw pgd a = ?p pgd 3" "pud_offset_phys (?p t 3) a s = ?p (?e t 3 AND PTE_ADDR_MASK) 2"
    "pmd_offset_phys (?p t 2) a s = ?p (?e t 2 AND PTE_ADDR_MASK) 1" "pte_offset_phys (?p t 1) a s = ?p (?e t 1 AND PTE_ADDR_MASK) 0" for t
    by (simp_all only: pgd_offset_raw_def pud_offset_phys_def pmd_offset_phys_def pte_offset_phys_def pgd_page_paddr_def
        pud_page_paddr_def pmd_page_paddr_def index_ix mult.commute [of _ 8] ld)
  have al: "page_aligned pgd" using ok by (simp add: tables_ok_def pt_inv_def)
  define t1 where "t1 = ?e pgd 3 AND PTE_ADDR_MASK"
  define t2 where "t2 = ?e t1 2 AND PTE_ADDR_MASK"
  define t3 where "t3 = ?e t2 1 AND PTE_ADDR_MASK"
  have w: "walk_pgtable pgd a s = (if ?e pgd 3 = 0 then 0 else if ?p t1 2 = 0 \<or> ?e t1 2 = 0 then 0 else if ?p t2 1 = 0 \<or> ?e t2 1 = 0 then 0
      else if ?e t2 1 AND 3 = 1 then ?p t2 1 else if ?p t3 0 = 0 \<or> ?e t3 0 = 0 then 0 else ?p t3 0)"
    using entry_ptr_not_0 [OF al p0, of 3 a]
    unfolding walk_pgtable_def Let_def o ld t1_def [symmetric] t2_def [symmetric] t3_def [symmetric] type_consts
      pgd_none_def pud_none_def pmd_none_def pte_none_def push_bit_0_id id_apply
    by (simp only: o ld t1_def [symmetric] t2_def [symmetric] t3_def [symmetric] if_False simp_thms cong: if_cong)
  have at: "translate (mem s) pgd a = (if d = 0 then None else leaf (3 - d) (?e t (3 - d)) a)"
    if "tab d (mem s) pgd a = Some t" "d \<le> 3" "d = 3 \<or> ?e t (3 - d) AND 3 \<noteq> 3" for d t
    by (rule translate_at [OF that(1,2)]) (use tab_below [OF that(1)] that(3) in auto)
  have down: "tab (Suc d) (mem s) pgd a = Some (?e t (3 - d) AND PTE_ADDR_MASK)"
    if "tab d (mem s) pgd a = Some t" "?e t (3 - d) AND 3 = 3" for d t using that by (simp add: Let_def)
  have tb0: "tab 0 (mem s) pgd a = Some pgd" by simp
  have n: "3 - 0 = (3 :: nat)" "3 - 1 = (2 :: nat)" "3 - 2 = (1 :: nat)" "3 - 3 = (0 :: nat)" "Suc 0 = 1" "Suc 1 = 2" "Suc 2 = 3" by simp_all
  show thesis
  proof (cases "?e pgd 3 = 0")
    case True
    with w at [OF tb0] none show thesis by simp
  next
    case e3: False
    from entry_shape [OF ok tb0] e3 have s3: "?e pgd 3 AND 3 = 3" unfolding n by simp
    from down [OF tb0] s3 have tb1: "tab 1 (mem s) pgd a = Some t1" unfolding n t1_def by simp
    then have z1: "t1 \<noteq> 0" "page_aligned t1" using table_not_0 [OF ok, of 0] unfolding n by simp_all
    note q1 = entry_ptr_not_0 [OF z1(2,1), of 2 a]
    show thesis
    proof (cases "?e t1 2 = 0")
      case True
      with w e3 at [OF tb1] none show thesis unfolding n by simp
    next
      case e2: False
      from entry_shape [OF ok tb1] e2 have s2: "?e t1 2 AND 3 = 3" unfolding n by simp
      from down [OF tb1] s2 have tb2: "tab 2 (mem s) pgd a = Some t2" unfolding n t2_def by simp
      then have z2: "t2 \<noteq> 0" "page_aligned t2" using table_not_0 [OF ok, of 1] unfolding n by simp_all
      note q2 = entry_ptr_not_0 [OF z2(2,1), of 1 a]
      consider "?e t2 1 = 0" | (sect) "?e t2 1 AND 3 = 1" | (table) "?e t2 1 \<noteq> 0" "?e t2 1 AND 3 \<noteq> 1" by blast
      then show thesis
      proof cases
        case 1
        with w e3 e2 q1 at [OF tb2] none show thesis unfolding n by simp
      next
        case sect
        then have "?e t2 1 \<noteq> 0" by auto
        then have p: "walk_pgtable pgd a s = ?p t2 1" using w e3 e2 q1 q2 sect by simp
        have tr: "translate (mem s) pgd a = leaf 1 (?e t2 1) a" using at [OF tb2] sect unfolding n by simp
        have lf: "leaf 1 (?e t2 1) a \<noteq> None" using sect by (simp add: leaf_def)
        show thesis by (rule found [where d = 2, unfolded n, OF p tb2 _ q2 tr lf]) (rule disjI1, rule refl)
      next
        case table
        from entry_shape [OF ok tb2] table have s1: "?e t2 1 AND 3 = 3" unfolding n by simp
        from down [OF tb2] s1 have tb3: "tab 3 (mem s) pgd a = Some t3" unfolding n t3_def by simp
        then have z3: "t3 \<noteq> 0" "page_aligned t3" using table_not_0 [OF ok, of 2] unfolding n by simp_all
        note q3 = entry_ptr_not_0 [OF z3(2,1), of 0 a]
        show thesis
        proof (cases "?e t3 0 = 0")
          case True
          with w e3 e2 table q1 q2 at [OF tb3] none show thesis unfolding n by simp
        next
          case e0: False
          from entry_shape [OF ok tb3] e0 have s0: "?e t3 0 AND 3 = 3" unfolding n by simp
          have p: "walk_pgtable pgd a s = ?p t3 0" using w e3 e2 table q1 q2 q3 e0 by simp
          have tr: "translate (mem s) pgd a = leaf 0 (?e t3 0) a" using at [OF tb3] unfolding n by simp
          have lf: "leaf 0 (?e t3 0) a \<noteq> None" using s0 by (simp add: leaf_def)
          show thesis by (rule found [where d = 3, unfolded n, OF p tb3 _ q3 tr lf]) (rule disjI2, rule refl)
        qed
      qed
    qed
  qed
qed

section \<open>Ranges that cross a gigabyte\<close>

text \<open>A loop whose next address does not depend on the address ends at once or not at all.\<close>

lemma walk_loop_stuck:
  assumes "walk_loop nx step p a e s = Some r" and "\<And>x. nx x = b" and "b \<noteq> e"
  shows "\<exists>err. r = Inl err"
proof -
  have "(\<forall>x. nx x = b) \<and> b \<noteq> e \<longrightarrow> (\<exists>err. r = Inl err)"
  proof (rule walk_loop.raw_induct [OF _ assms(1)])
    fix f :: "(u64 \<Rightarrow> u64) \<Rightarrow> (u64 \<Rightarrow> u64 \<Rightarrow> u64 \<Rightarrow> 's \<Rightarrow> 's res) \<Rightarrow> u64 \<Rightarrow> u64 \<Rightarrow> u64 \<Rightarrow> 's \<Rightarrow> 's res option"
      and nx step p a e s r
    assume "\<And>nx step p a e s r. f nx step p a e s = Some r \<Longrightarrow> (\<forall>x. nx x = b) \<and> b \<noteq> e \<longrightarrow> (\<exists>err. r = Inl err)"
      and "(case step p a (nx a) s of Inl err \<Rightarrow> Some (Inl err)
        | Inr s \<Rightarrow> if nx a \<noteq> e then f nx step (p + 8) (nx a) e s else Some (Inr s)) = Some r"
    then show "(\<forall>x. nx x = b) \<and> b \<noteq> e \<longrightarrow> (\<exists>err. r = Inl err)" by (cases "step p a (nx a) s") auto
  qed
  with assms(2,3) show ?thesis by blast
qed

lemma walk_pud_stuck:
  fixes a e :: u64
  assumes "unat a < unat e" and "unat e \<le> 2 ^ 48" and "(unat e - 1) div 2 ^ 30 \<noteq> unat a div 2 ^ 30"
  shows "walk_pud pgdp a e s \<noteq> Inr s'"
proof
  let ?b = "pud_addr_end a e"
  have "unat ?b = block_end 30 (unat a) (unat e)" by (rule addr_end_unat(2) [OF assms(1,2)])
  then have "(unat ?b - 1) div 2 ^ 30 = unat a div 2 ^ 30" using block_end_bounds(3) [OF assms(1), of 30] by simp
  then have ne: "?b \<noteq> e" using assms(3) by auto
  assume "walk_pud pgdp a e s = Inr s'"
  then obtain r where "walk_loop (\<lambda>addr. ?b) (\<lambda>pudp addr next s.
          let pud = load64 pudp (mem s)
          in if pud_none pud \<or> pud_sect pud then print_pgtable addr next 2 pud s
             else walk_pmd pudp addr next (printk_call ''    PUD Entry: 0x%016lx-0x%016lx\<newline>'' [Arg_word addr, Arg_word next] s))
       (pud_offset_phys pgdp a s) a e s = Some r" "r = Inr s'"
    unfolding walk_pud_def run_loop_def by (auto split: option.splits)
  from walk_loop_stuck [OF this(1) refl ne] this(2) show False by simp
qed


section \<open>Making an entry writable\<close>

lemma pte_bits_of:
  "PTE_RDONLY = push_bit 7 1" "PTE_AF = push_bit 10 1" "PTE_WRITE = push_bit 51 1"
  by (simp_all add: PTE_RDONLY_def PTE_AF_def PTE_WRITE_def PTE_DBM_def)

lemma bit_one_at: "i < 64 \<Longrightarrow> bit (push_bit n 1 :: u64) i \<longleftrightarrow> i = n"
  by (simp only: bit_push_bit_iff bit_1_iff) auto

lemma writable_bits:
  assumes "i < 64"
  shows "bit (pte_mkwrite (pte_mkyoung e)) i \<longleftrightarrow> i \<noteq> 7 \<and> (i = 10 \<or> i = 51 \<or> bit e i)"
proof -
  have c: "scast (NOT (ucast PTE_RDONLY :: s32)) = (NOT (push_bit 7 1) :: u64)" by (simp add: PTE_RDONLY_def)
  show ?thesis
    unfolding pte_mkwrite_def pte_mkyoung_def set_pte_bit_def clear_pte_bit_def Let_def c unfolding pte_bits_of
    using assms by (simp only: bit_and_iff bit_or_iff bit_not_iff possible_bit_word len_num0 len_bit0 bit_one_at) auto
qed

text \<open>What the rewritten entry says: the same address and type, the page writable and accessed.\<close>

lemma writable_entry:
  "pte_mkwrite (pte_mkyoung e) AND 3 = e AND 3"
  "pte_mkwrite (pte_mkyoung e) AND PTE_ADDR_MASK = e AND PTE_ADDR_MASK"
  "(pte_mkwrite (pte_mkyoung e) AND NOT PTE_ADDR_MASK) AND NOT 3 = (((e AND NOT PTE_ADDR_MASK) AND NOT 3) OR PTE_AF OR PTE_WRITE) AND NOT PTE_RDONLY"
proof -
  have b: "bit (pte_mkwrite (pte_mkyoung e)) i \<longleftrightarrow> i \<noteq> 7 \<and> (i = 10 \<or> i = 51 \<or> bit e i)" "bit PTE_AF i \<longleftrightarrow> i = 10" "bit PTE_WRITE i \<longleftrightarrow> i = 51"
    "bit PTE_RDONLY i \<longleftrightarrow> i = 7" if "i < LENGTH(64)" for i
  proof -
    have n: "i < 64" using that by simp
    show "bit (pte_mkwrite (pte_mkyoung e)) i \<longleftrightarrow> i \<noteq> 7 \<and> (i = 10 \<or> i = 51 \<or> bit e i)" by (rule writable_bits [OF n])
    show "bit PTE_AF i \<longleftrightarrow> i = 10" "bit PTE_WRITE i \<longleftrightarrow> i = 51" "bit PTE_RDONLY i \<longleftrightarrow> i = 7"
      unfolding pte_bits_of by (rule bit_one_at [OF n])+
  qed
  show "pte_mkwrite (pte_mkyoung e) AND 3 = e AND 3"
    by (rule bit_word_eqI) (simp only: b bit_and_iff three_bits, auto)
  show "pte_mkwrite (pte_mkyoung e) AND PTE_ADDR_MASK = e AND PTE_ADDR_MASK"
    by (rule bit_word_eqI) (simp only: b bit_and_iff bit_addr_mask, auto)
  show "(pte_mkwrite (pte_mkyoung e) AND NOT PTE_ADDR_MASK) AND NOT 3 = (((e AND NOT PTE_ADDR_MASK) AND NOT 3) OR PTE_AF OR PTE_WRITE) AND NOT PTE_RDONLY"
    by (rule bit_word_eqI) (simp only: b bit_and_iff bit_or_iff bit_not_iff three_bits bit_addr_mask, auto)
qed


lemma writable_leaf:
  assumes "leaf r e a = Some (pa, attr)"
  shows "leaf r (pte_mkwrite (pte_mkyoung e)) a = Some (pa, (attr OR PTE_AF OR PTE_WRITE) AND NOT PTE_RDONLY)"
  using assms unfolding leaf_def walk_output_def writable_entry by (cases "r = 0") (auto split: if_splits)

section \<open>Concrete tables\<close>

text \<open>A section of 2 MB and a page, mapped into empty tables.\<close>

definition demo_dump :: dump_state where
  "demo_dump = page_state.extend demo_boot (dump_state.fields pg_level_0)"

lemma demo_dump_simps: "mem_map demo_dump = mem_map demo_boot" "mem demo_dump = mem demo_boot" "pg_level demo_dump = pg_level_0"
  by (simp_all add: demo_dump_def page_state.extend_def dump_state.fields_def)

lemma demo_dump_mapped:
  obtains s :: dump_state where "tables_ok 0x90000 s" "pg_level s = pg_level_0"
    "\<And>va. unat va < 2 ^ 48 \<Longrightarrow> translate (mem s) 0x90000 va =
       (if 0x200000 \<le> unat va \<and> unat va < 0x401000 then Some (va, PAGE_KERNEL_ROX AND NOT 3) else None)"
proof -
  have e: "ent (mem demo_dump) 0x90000 i = 0" for i unfolding demo_dump_simps by simp
  note ok = tables_ok_empty [OF _ _ e]
  have k: "tables_ok 0x90000 demo_dump" "translate (mem demo_dump) 0x90000 va = None" for va by (rule ok; simp add: page_aligned_def)+
  have f: "free_pages demo_dump = 131072" using demo_boot_simps(1) by (simp only: free_pages_def demo_dump_simps)
  have c: "page_down (unat (0x200000 :: u64)) = 0x200000" "page_up (unat (0x401000 :: u64)) = 0x401000" by (simp_all add: page_down_def page_up_def)
  have u: "unmapped 0x90000 0x200000 0x401000 demo_dump" by (simp add: unmapped_def k(2))
  have n: "pud_cost 0x200000 0x401000 \<le> 10" by (simp add: pud_cost_def pmd_cost_def nblocks_def)
  have "\<exists>s'. create_pgd_mapping 0x90000 0x200000 0x200000 (0x401000 - 0x200000) PAGE_KERNEL_ROX early_pgtable_alloc 0 demo_dump = Inr s' \<and>
     mapped 0x90000 0x200000 0x401000 0x200000 PAGE_KERNEL_ROX 10 demo_dump s'"
    by (rule identity_mapped [OF k(1), of "0x200000" "0x401000" PAGE_KERNEL_ROX 10, unfolded c]) (use prot_ok_kernel(1) u n f in simp_all)
  then obtain s where s: "mapped 0x90000 0x200000 0x401000 0x200000 PAGE_KERNEL_ROX 10 demo_dump s" by blast
  have "pg_level s = pg_level_0" using mapped_touched [OF s] by (auto simp: touched_def demo_dump_simps)
  then show thesis using that [OF mapped_ok [OF s]] mapped_translate [OF s] k(2) by simp
qed

section \<open>Properties\<close>

text \<open>C17. \<open>dump_pgtable\<close> on tables that are well formed returns, changes the log and the masks of \<open>pg_level\<close> alone, and prints a
  row for an address exactly when the address is mapped and lies in the memory or in the device range.\<close>

theorem dump_pgtable_complete:
  assumes "tables_ok pgd s" and "pg_level s = pg_level_0"
  shows "\<exists>s' l. dump_pgtable pgd s = Inr s' \<and> s' = s\<lparr>pg_level := pg_level s', klog := klog s @ l\<rparr> \<and>
     (\<forall>va. unat va < 2 ^ 48 \<longrightarrow> (shown l va \<longleftrightarrow>
        translate (mem s) pgd va \<noteq> None \<and> (unat va < 2 ^ 29 \<or> 0xFE000000 \<le> unat va \<and> unat va < 2 ^ 32)))"
proof -
  let ?s = "pg_level_init s"
  have lv: "levels_ok (pg_level ?s)"
  proof -
    have "{1 ..< 5} = {1, 2, 3, 4 :: nat}" by auto
    then show ?thesis using assms(2) by (simp add: levels_ok_def pg_level_init_def pg_level_0_def named_level_def pte_bits_def)
  qed
  have ok: "readable pgd ?s" using assms(1) lv by (simp add: readable_def tables_ok_def used_pages_def pg_level_init_def)
  have M: "mem ?s = mem s" "klog ?s = klog s" by (simp_all add: pg_level_init_def)
  have T: "unat (scast TOTAL_MEMORY :: u64) = 2 ^ 29" by simp
  have D: "unat MMIO_BASE = 0xFE000000" "unat DEVICE_SIZE = 0x2000000" by (simp_all add: MMIO_BASE_def DEVICE_SIZE_def)
  obtain s1 where s1: "walk_pgd pgd 0 (scast TOTAL_MEMORY) ?s = Inr s1" "dumped pgd 0 (2 ^ 29) ?s s1"
    using walk_pgd_dumped [OF ok, of "scast TOTAL_MEMORY" 0] unfolding T by auto
  have ok1: "readable pgd s1" using dumped_readable [OF s1(2)] ok by simp
  obtain s2 where s2: "walk_pgd pgd MMIO_BASE DEVICE_SIZE s1 = Inr s2" "dumped pgd 0xFE000000 (2 ^ 32) s1 s2"
    using walk_pgd_dumped [OF ok1, of DEVICE_SIZE MMIO_BASE] unfolding D by auto
  obtain l1 where l1: "s1 = ?s\<lparr>klog := klog s @ l1\<rparr>"
    "\<And>va. unat va < 2 ^ 48 \<Longrightarrow> (shown l1 va \<longleftrightarrow> unat va < 2 ^ 29 \<and> translate (mem s) pgd va \<noteq> None)"
    using s1(2) unfolding dumped_def M by auto
  obtain l2 where l2: "s2 = s1\<lparr>klog := klog s1 @ l2\<rparr>"
    "\<And>va. unat va < 2 ^ 48 \<Longrightarrow> (shown l2 va \<longleftrightarrow> 0xFE000000 \<le> unat va \<and> unat va < 2 ^ 32 \<and> translate (mem s) pgd va \<noteq> None)"
    using s2(2) dumped_readable [OF s1(2)] unfolding dumped_def M by auto
  have "dump_pgtable pgd s = Inr s2" using s1(1) s2(1) by (simp add: dump_pgtable_def Let_def)
  moreover have "s2 = s\<lparr>pg_level := pg_level s2, klog := klog s @ l1 @ l2\<rparr>" by (simp add: l2(1) l1(1) pg_level_init_def)
  moreover have "shown (l1 @ l2) va \<longleftrightarrow> translate (mem s) pgd va \<noteq> None \<and> (unat va < 2 ^ 29 \<or> 0xFE000000 \<le> unat va \<and> unat va < 2 ^ 32)"
    if "unat va < 2 ^ 48" for va using l1(2) [OF that] l2(2) [OF that] by auto
  ultimately show ?thesis by blast
qed

theorem dump_pgtable_complete_witness:
  "\<exists>(s :: dump_state) s' l. dump_pgtable 0x90000 s = Inr s' \<and> klog s' = klog s @ l \<and> shown l 0x200000 \<and> shown l 0x400fff \<and> \<not> shown l 0x401000"
proof -
  obtain s :: dump_state where s: "tables_ok 0x90000 s" "pg_level s = pg_level_0"
    "\<And>va. unat va < 2 ^ 48 \<Longrightarrow> translate (mem s) 0x90000 va =
       (if 0x200000 \<le> unat va \<and> unat va < 0x401000 then Some (va, PAGE_KERNEL_ROX AND NOT 3) else None)" by (rule demo_dump_mapped) (rule that)
  from dump_pgtable_complete [OF s(1,2)] obtain s' l where r: "dump_pgtable 0x90000 s = Inr s'"
    "s' = s\<lparr>pg_level := pg_level s', klog := klog s @ l\<rparr>"
    "\<And>va. unat va < 2 ^ 48 \<Longrightarrow> (shown l va \<longleftrightarrow>
        translate (mem s) 0x90000 va \<noteq> None \<and> (unat va < 2 ^ 29 \<or> 0xFE000000 \<le> unat va \<and> unat va < 2 ^ 32))" by blast
  have "klog s' = klog (s\<lparr>pg_level := pg_level s', klog := klog s @ l\<rparr>)" by (rule arg_cong [OF r(2)])
  then have k: "klog s' = klog s @ l" by simp
  have "shown l 0x200000" "shown l 0x400fff" "\<not> shown l 0x401000" by (subst r(3); simp add: s(3))+
  with r(1) k show ?thesis by metis
qed

text \<open>C19. \<open>walk_pud\<close> never returns on a range that crosses a boundary of 1 GB: it computes the end of an entry from the
  start of the range, so after the first entry the address stays at the boundary. The walk of a range that crosses one inside an
  entry of the top table that is in use never returns either.\<close>

theorem walk_pud_never_returns:
  assumes "unat a < unat e" and "unat e \<le> 2 ^ 48" and "(unat e - 1) div 2 ^ 30 \<noteq> unat a div 2 ^ 30"
    and "(unat e - 1) div 2 ^ 39 = unat a div 2 ^ 39" and "load64 (pgd_offset_raw pgd a) (mem s) \<noteq> 0"
  shows "walk_pud pgdp a e s \<noteq> Inr s' \<and> walk_pgd pgd a (e - a) s \<noteq> Inr s'"
proof -
  have ae: "a + (e - a) = e" by simp
  have nx: "pgd_addr_end a e = e"
    using addr_end_unat(1) [OF assms(1,2)] block_end_one [OF assms(1,4)] by (simp add: word_unat_eq_iff)
  have lp: "run_loop (walk_loop (\<lambda>b. pgd_addr_end b e) step p a e u) = step p a e u" for step p and u :: "'a dump_state_scheme"
    by (rule walk_loop_one) (rule nx)
  have "walk_pgd pgd a (e - a) s = walk_pud (pgd_offset_raw pgd a) a e (printk_call ''PGD Entry: 0x%016lx-0x%016lx\<newline>'' [Arg_word a, Arg_word e] s)"
    unfolding walk_pgd_def ae Let_def using assms(5) by (simp add: lp pgd_none_def)
  then show ?thesis using walk_pud_stuck [OF assms(1-3)] by metis
qed

theorem walk_pud_never_returns_witness:
  "\<forall>s'. walk_pgd 0x90000 0 0x80000000 (demo_dump\<lparr>mem := (\<lambda>_. 1)\<rparr>) \<noteq> Inr s'"
proof -
  have "bit (load64 p (\<lambda>_. 1)) 0" for p by (simp add: bit_load64)
  then have "load64 p (\<lambda>_. 1) \<noteq> 0" for p by (metis bit_0_eq bot_apply bot_bool_def)
  then show ?thesis using walk_pud_never_returns [of 0 "0x80000000" "0x90000" "demo_dump\<lparr>mem := (\<lambda>_. 1)\<rparr>"] by simp
qed

text \<open>C18. \<open>walk_pgtable\<close> agrees with the walk of the hardware: it gives null exactly for an address that is
  not mapped, and otherwise a pointer to the entry, of a page or of a section, that translates the address.\<close>

theorem walk_pgtable_finds_leaf:
  assumes "tables_ok pgd s" and "pgd \<noteq> 0"
  shows "(walk_pgtable pgd a s = 0 \<longleftrightarrow> translate (mem s) pgd a = None) \<and>
     (walk_pgtable pgd a s \<noteq> 0 \<longrightarrow> (\<exists>r \<le> 1. translate (mem s) pgd a = leaf r (load64 (walk_pgtable pgd a s) (mem s)) a))"
proof (cases rule: walk_pgtable_cases [OF assms, of a, case_names none found])
  case none
  then show ?thesis by simp
next
  case (found t d)
  moreover have "3 - d \<le> 1" using found(3) by auto
  ultimately show ?thesis by (auto simp flip: ent_def)
qed

theorem walk_pgtable_finds_leaf_witness:
  "\<exists>s :: dump_state. tables_ok 0x90000 s \<and> walk_pgtable 0x90000 0x200000 s \<noteq> 0 \<and> walk_pgtable 0x90000 0x400000 s \<noteq> 0 \<and> walk_pgtable 0x90000 0x401000 s = 0"
proof -
  obtain s :: dump_state where s: "tables_ok 0x90000 s" "pg_level s = pg_level_0"
    "\<And>va. unat va < 2 ^ 48 \<Longrightarrow> translate (mem s) 0x90000 va =
       (if 0x200000 \<le> unat va \<and> unat va < 0x401000 then Some (va, PAGE_KERNEL_ROX AND NOT 3) else None)" by (rule demo_dump_mapped) (rule that)
  show ?thesis using s(1,3) walk_pgtable_finds_leaf [OF s(1)] by (intro exI [of _ s]) simp
qed

text \<open>The rewriting that \<open>test_walk_pgtable\<close> applies to the entry of a mapped address: the address goes where it went
  before, now writable and accessed, the other attributes unchanged; the tables stay well formed. The
  change holds for the whole block of the entry: a test page inside a section makes 2 MB writable, while outside that block nothing
  changes.\<close>

theorem test_page_writable:
  assumes "tables_ok pgd s" and "pgd \<noteq> 0" and "translate (mem s) pgd a = Some (pa, attr)"
    and "p = walk_pgtable pgd a s" and "s' = set_pte p (pte_mkwrite (pte_mkyoung (load64 p (mem s)))) s"
  shows "translate (mem s') pgd a = Some (pa, (attr OR PTE_AF OR PTE_WRITE) AND NOT PTE_RDONLY) \<and> tables_ok pgd s' \<and>
     (\<forall>va. unat va mod 2 ^ 48 div 2 ^ 21 \<noteq> unat a mod 2 ^ 48 div 2 ^ 21 \<longrightarrow> translate (mem s') pgd va = translate (mem s) pgd va)"
proof (cases rule: walk_pgtable_cases [OF assms(1,2), of a, case_names none found])
  case none
  with assms(3) show ?thesis by simp
next
  case (found t d)
  let ?e = "ent (mem s) t (ix (3 - d) a)" and ?p = "t + 8 * word_of_nat (ix (3 - d) a)"
  let ?v = "pte_mkwrite (pte_mkyoung ?e)"
  let ?m = "store64 ?p ?v (mem s)"
  have inv: "pt_inv (mem s) pgd (used_pages s)" using assms(1) by (simp add: tables_ok_def)
  have d: "d \<le> 3" "d \<noteq> 0" using found(3) by auto
  have lf: "leaf (3 - d) ?e a = Some (pa, attr)" using found(5) assms(3) by simp
  have sh: "d = 3 \<and> ?v AND 3 = 3 \<or> d = 2 \<and> ?v AND 3 = 1"
    using lf found(3) by (auto simp: leaf_def writable_entry split: if_splits)
  have ch: "changed (mem s) t d a ?v None ?m" by (rule changed_store [OF pt_inv_tab_page(1) [OF inv found(2) d(1)]])
  have vv: "d = 3 \<or> ?v AND 3 \<noteq> 3" using sh by auto
  have m: "mem s' = ?m" "used_pages s' = used_pages s"
    using assms(4,5) found(1) by (simp_all add: set_pte_def ent_def used_pages_def)
  have "translate ?m pgd a = leaf (3 - d) ?v a" by (rule translate_leaf [OF inv found(2) d(1) ch vv refl d(2)])
  moreover have "pt_inv ?m pgd (used_pages s)"
    using pt_inv_changed [OF inv found(2) d(1) ch] vv sh by auto
  moreover have "translate ?m pgd va = translate (mem s) pgd va" if "unat va mod 2 ^ 48 div 2 ^ 21 \<noteq> unat a mod 2 ^ 48 div 2 ^ 21" for va
  proof -
    have "pre 3 va \<noteq> pre 3 a" using that by (simp add: pre_def)
    then have "pre (Suc d) va \<noteq> pre (Suc d) a" using pre_mono [of 3 "Suc d" va a] d found(3) by auto
    show ?thesis by (rule translate_other [OF inv found(2) d(1) ch _ _ \<open>pre (Suc d) va \<noteq> pre (Suc d) a\<close>]) (use vv in simp_all)
  qed
  ultimately show ?thesis using writable_leaf [OF lf] assms(1) by (simp add: m tables_ok_def)
qed

theorem test_page_writable_witness:
  "\<exists>(s :: dump_state) (s' :: dump_state). translate (mem s) 0x90000 0x400000 = Some (0x400000, PAGE_KERNEL_ROX AND NOT 3) \<and>
     translate (mem s') 0x90000 0x400000 = Some (0x400000, ((PAGE_KERNEL_ROX AND NOT 3) OR PTE_AF OR PTE_WRITE) AND NOT PTE_RDONLY) \<and>
     translate (mem s') 0x90000 0x200000 = Some (0x200000, PAGE_KERNEL_ROX AND NOT 3)"
proof -
  obtain s :: dump_state where s: "tables_ok 0x90000 s" "pg_level s = pg_level_0"
    "\<And>va. unat va < 2 ^ 48 \<Longrightarrow> translate (mem s) 0x90000 va =
       (if 0x200000 \<le> unat va \<and> unat va < 0x401000 then Some (va, PAGE_KERNEL_ROX AND NOT 3) else None)" by (rule demo_dump_mapped) (rule that)
  have t: "translate (mem s) 0x90000 0x400000 = Some (0x400000, PAGE_KERNEL_ROX AND NOT 3)"
    "translate (mem s) 0x90000 0x200000 = Some (0x200000, PAGE_KERNEL_ROX AND NOT 3)" using s(3) by simp_all
  have nz: "(0x90000 :: u64) \<noteq> 0" by simp
  let ?p = "walk_pgtable 0x90000 0x400000 s"
  note r = test_page_writable [OF s(1) nz t(1) refl refl]
  have o: "unat (0x200000 :: u64) mod 2 ^ 48 div 2 ^ 21 \<noteq> unat (0x400000 :: u64) mod 2 ^ 48 div 2 ^ 21" by simp
  have "translate (mem (set_pte ?p (pte_mkwrite (pte_mkyoung (load64 ?p (mem s)))) s)) 0x90000 0x200000 = Some (0x200000, PAGE_KERNEL_ROX AND NOT 3)"
    using r o t(2) by metis
  then show ?thesis using conjunct1 [OF r] t(1) by metis
qed

end
