(* ===== verification/Traps.thy ===== *)
theory Traps
  imports Printk
begin

text \<open>
  The report of an exception that the kernel does not handle: \<^verbatim>\<open>arch/arm64/kernel/traps.c\<close>, the
  constants of \<^verbatim>\<open>asm/esr.h\<close> it uses and the macro \<open>inv_entry\<close> of the invalid vectors of \<^verbatim>\<open>kernel/entry.S\<close>;
  \<open>el1_sync_invalid\<close> saves a frame first, it is in \<open>Entry\<close>. A call of \<open>printk\<close> is logged with its format and arguments, what the formatter
  makes of them is \<open>myprintf\<close> of \<open>Printk\<close>. An array whose
  initialiser names its indices is the list of the later values over a default, a hole of an array of
  strings is null. \<open>panic\<close> is a loop that does not end: what was printed before it is the result of
  \<open>bad_mode_report\<close>, the part of \<open>bad_mode\<close> up to the call.
\<close>

section \<open>The exception syndrome register\<close>

definition ESR_ELx_EC_UNKNOWN :: u32 where [layout_defs]: "ESR_ELx_EC_UNKNOWN = 0x00"
definition ESR_ELx_EC_WFx :: u32 where [layout_defs]: "ESR_ELx_EC_WFx = 0x01"
definition ESR_ELx_EC_CP15_32 :: u32 where [layout_defs]: "ESR_ELx_EC_CP15_32 = 0x03"
definition ESR_ELx_EC_CP15_64 :: u32 where [layout_defs]: "ESR_ELx_EC_CP15_64 = 0x04"
definition ESR_ELx_EC_CP14_MR :: u32 where [layout_defs]: "ESR_ELx_EC_CP14_MR = 0x05"
definition ESR_ELx_EC_CP14_LS :: u32 where [layout_defs]: "ESR_ELx_EC_CP14_LS = 0x06"
definition ESR_ELx_EC_FP_ASIMD :: u32 where [layout_defs]: "ESR_ELx_EC_FP_ASIMD = 0x07"
definition ESR_ELx_EC_CP10_ID :: u32 where [layout_defs]: "ESR_ELx_EC_CP10_ID = 0x08"
definition ESR_ELx_EC_CP14_64 :: u32 where [layout_defs]: "ESR_ELx_EC_CP14_64 = 0x0c"
definition ESR_ELx_EC_ILL :: u32 where [layout_defs]: "ESR_ELx_EC_ILL = 0x0e"
definition ESR_ELx_EC_SVC32 :: u32 where [layout_defs]: "ESR_ELx_EC_SVC32 = 0x11"
definition ESR_ELx_EC_HVC32 :: u32 where [layout_defs]: "ESR_ELx_EC_HVC32 = 0x12"
definition ESR_ELx_EC_SMC32 :: u32 where [layout_defs]: "ESR_ELx_EC_SMC32 = 0x13"
definition ESR_ELx_EC_SVC64 :: u32 where [layout_defs]: "ESR_ELx_EC_SVC64 = 0x15"
definition ESR_ELx_EC_HVC64 :: u32 where [layout_defs]: "ESR_ELx_EC_HVC64 = 0x16"
definition ESR_ELx_EC_SMC64 :: u32 where [layout_defs]: "ESR_ELx_EC_SMC64 = 0x17"
definition ESR_ELx_EC_SYS64 :: u32 where [layout_defs]: "ESR_ELx_EC_SYS64 = 0x18"
definition ESR_ELx_EC_IMP_DEF :: u32 where [layout_defs]: "ESR_ELx_EC_IMP_DEF = 0x1f"
definition ESR_ELx_EC_IABT_LOW :: u32 where [layout_defs]: "ESR_ELx_EC_IABT_LOW = 0x20"
definition ESR_ELx_EC_IABT_CUR :: u32 where [layout_defs]: "ESR_ELx_EC_IABT_CUR = 0x21"
definition ESR_ELx_EC_PC_ALIGN :: u32 where [layout_defs]: "ESR_ELx_EC_PC_ALIGN = 0x22"
definition ESR_ELx_EC_DABT_LOW :: u32 where [layout_defs]: "ESR_ELx_EC_DABT_LOW = 0x24"
definition ESR_ELx_EC_DABT_CUR :: u32 where [layout_defs]: "ESR_ELx_EC_DABT_CUR = 0x25"
definition ESR_ELx_EC_SP_ALIGN :: u32 where [layout_defs]: "ESR_ELx_EC_SP_ALIGN = 0x26"
definition ESR_ELx_EC_FP_EXC32 :: u32 where [layout_defs]: "ESR_ELx_EC_FP_EXC32 = 0x28"
definition ESR_ELx_EC_FP_EXC64 :: u32 where [layout_defs]: "ESR_ELx_EC_FP_EXC64 = 0x2c"
definition ESR_ELx_EC_SERROR :: u32 where [layout_defs]: "ESR_ELx_EC_SERROR = 0x2f"
definition ESR_ELx_EC_BREAKPT_LOW :: u32 where [layout_defs]: "ESR_ELx_EC_BREAKPT_LOW = 0x30"
definition ESR_ELx_EC_BREAKPT_CUR :: u32 where [layout_defs]: "ESR_ELx_EC_BREAKPT_CUR = 0x31"
definition ESR_ELx_EC_SOFTSTP_LOW :: u32 where [layout_defs]: "ESR_ELx_EC_SOFTSTP_LOW = 0x32"
definition ESR_ELx_EC_SOFTSTP_CUR :: u32 where [layout_defs]: "ESR_ELx_EC_SOFTSTP_CUR = 0x33"
definition ESR_ELx_EC_WATCHPT_LOW :: u32 where [layout_defs]: "ESR_ELx_EC_WATCHPT_LOW = 0x34"
definition ESR_ELx_EC_WATCHPT_CUR :: u32 where [layout_defs]: "ESR_ELx_EC_WATCHPT_CUR = 0x35"
definition ESR_ELx_EC_BKPT32 :: u32 where [layout_defs]: "ESR_ELx_EC_BKPT32 = 0x38"
definition ESR_ELx_EC_VECTOR32 :: u32 where [layout_defs]: "ESR_ELx_EC_VECTOR32 = 0x3a"
definition ESR_ELx_EC_BRK64 :: u32 where [layout_defs]: "ESR_ELx_EC_BRK64 = 0x3c"
definition ESR_ELx_EC_MAX :: u32 where [layout_defs]: "ESR_ELx_EC_MAX = 0x3f"

definition ESR_ELx_SET_SHIFT :: nat where [layout_defs]: "ESR_ELx_SET_SHIFT = 11"
definition ESR_ELx_FnV_SHIFT :: nat where [layout_defs]: "ESR_ELx_FnV_SHIFT = 10"
definition ESR_ELx_EA_SHIFT :: nat where [layout_defs]: "ESR_ELx_EA_SHIFT = 9"
definition ESR_ELx_CM_SHIFT :: nat where [layout_defs]: "ESR_ELx_CM_SHIFT = 8"
definition ESR_ELx_S1PTW_SHIFT :: nat where [layout_defs]: "ESR_ELx_S1PTW_SHIFT = 7"
definition ESR_ELx_WNR_SHIFT :: nat where [layout_defs]: "ESR_ELx_WNR_SHIFT = 6"
definition ESR_ELx_EC_SHIFT :: nat where [layout_defs]: "ESR_ELx_EC_SHIFT = 26"
definition ESR_ELx_SAS_SHIFT :: nat where [layout_defs]: "ESR_ELx_SAS_SHIFT = 22"
definition ESR_ELx_SSE_SHIFT :: nat where [layout_defs]: "ESR_ELx_SSE_SHIFT = 21"
definition ESR_ELx_SRT_SHIFT :: nat where [layout_defs]: "ESR_ELx_SRT_SHIFT = 16"
definition ESR_ELx_SF_SHIFT :: nat where [layout_defs]: "ESR_ELx_SF_SHIFT = 15"
definition ESR_ELx_AR_SHIFT :: nat where [layout_defs]: "ESR_ELx_AR_SHIFT = 14"

definition ESR_ELx_EC_MASK :: u32 where [layout_defs]: "ESR_ELx_EC_MASK = push_bit ESR_ELx_EC_SHIFT 0x3F"
definition ESR_ELx_IL :: u32 where [layout_defs]: "ESR_ELx_IL = push_bit 25 1"
definition ESR_ELx_ISV :: u32 where [layout_defs]: "ESR_ELx_ISV = push_bit 24 1"
definition ESR_ELx_SAS :: u32 where [layout_defs]: "ESR_ELx_SAS = push_bit ESR_ELx_SAS_SHIFT 3"
definition ESR_ELx_SSE :: u32 where [layout_defs]: "ESR_ELx_SSE = push_bit 21 1"
definition ESR_ELx_SRT_MASK :: u32 where [layout_defs]: "ESR_ELx_SRT_MASK = push_bit ESR_ELx_SRT_SHIFT 0x1F"
definition ESR_ELx_SF :: u32 where [layout_defs]: "ESR_ELx_SF = push_bit 15 1"
definition ESR_ELx_AR :: u32 where [layout_defs]: "ESR_ELx_AR = push_bit 14 1"
definition ESR_ELx_CM :: u32 where [layout_defs]: "ESR_ELx_CM = push_bit 8 1"
definition ESR_ELx_WNR :: u32 where [layout_defs]: "ESR_ELx_WNR = push_bit 6 1"

definition ESR_ELx_EC :: "u32 \<Rightarrow> u32" where
  "ESR_ELx_EC esr = drop_bit ESR_ELx_EC_SHIFT (esr AND ESR_ELx_EC_MASK)"

section \<open>The tables of strings\<close>

definition bad_mode_handler :: "string list" where
  "bad_mode_handler = [''Sync Abort'', ''IRQ'', ''FIQ'', ''SError'']"

definition override :: "(nat \<times> 'a) list \<Rightarrow> 'a list \<Rightarrow> 'a list" where
  "override es t = fold (\<lambda>(i, x) t. t[i := x]) es t"

definition class_entries :: "(nat \<times> string) list" where
  "class_entries =
     [(unat ESR_ELx_EC_UNKNOWN, ''Unknown/Uncategorized''),
      (unat ESR_ELx_EC_WFx, ''WFI/WFE''),
      (unat ESR_ELx_EC_CP15_32, ''CP15 MCR/MRC''),
      (unat ESR_ELx_EC_CP15_64, ''CP15 MCRR/MRRC''),
      (unat ESR_ELx_EC_CP14_MR, ''CP14 MCR/MRC''),
      (unat ESR_ELx_EC_CP14_LS, ''CP14 LDC/STC''),
      (unat ESR_ELx_EC_FP_ASIMD, ''ASIMD''),
      (unat ESR_ELx_EC_CP10_ID, ''CP10 MRC/VMRS''),
      (unat ESR_ELx_EC_CP14_64, ''CP14 MCRR/MRRC''),
      (unat ESR_ELx_EC_ILL, ''PSTATE.IL''),
      (unat ESR_ELx_EC_SVC32, ''SVC (AArch32)''),
      (unat ESR_ELx_EC_HVC32, ''HVC (AArch32)''),
      (unat ESR_ELx_EC_SMC32, ''SMC (AArch32)''),
      (unat ESR_ELx_EC_SVC64, ''SVC (AArch64)''),
      (unat ESR_ELx_EC_HVC64, ''HVC (AArch64)''),
      (unat ESR_ELx_EC_SMC64, ''SMC (AArch64)''),
      (unat ESR_ELx_EC_SYS64, ''MSR/MRS (AArch64)''),
      (unat ESR_ELx_EC_IMP_DEF, ''EL3 IMP DEF''),
      (unat ESR_ELx_EC_IABT_LOW, ''IABT (lower EL)''),
      (unat ESR_ELx_EC_IABT_CUR, ''IABT (current EL)''),
      (unat ESR_ELx_EC_PC_ALIGN, ''PC Alignment''),
      (unat ESR_ELx_EC_DABT_LOW, ''DABT (lower EL)''),
      (unat ESR_ELx_EC_DABT_CUR, ''DABT (current EL)''),
      (unat ESR_ELx_EC_SP_ALIGN, ''SP Alignment''),
      (unat ESR_ELx_EC_FP_EXC32, ''FP (AArch32)''),
      (unat ESR_ELx_EC_FP_EXC64, ''FP (AArch64)''),
      (unat ESR_ELx_EC_SERROR, ''SError''),
      (unat ESR_ELx_EC_BREAKPT_LOW, ''Breakpoint (lower EL)''),
      (unat ESR_ELx_EC_BREAKPT_CUR, ''Breakpoint (current EL)''),
      (unat ESR_ELx_EC_SOFTSTP_LOW, ''Software Step (lower EL)''),
      (unat ESR_ELx_EC_SOFTSTP_CUR, ''Software Step (current EL)''),
      (unat ESR_ELx_EC_WATCHPT_LOW, ''Watchpoint (lower EL)''),
      (unat ESR_ELx_EC_WATCHPT_CUR, ''Watchpoint (current EL)''),
      (unat ESR_ELx_EC_BKPT32, ''BKPT (AArch32)''),
      (unat ESR_ELx_EC_VECTOR32, ''Vector catch (AArch32)''),
      (unat ESR_ELx_EC_BRK64, ''BRK (AArch64)'')]"

definition ESR_CLASS_STR :: "string list" where
  "ESR_CLASS_STR = override class_entries (replicate (unat ESR_ELx_EC_MAX + 1) ''UNRECOGNIZED EC'')"

definition fault_entries :: "(nat \<times> string) list" where
  "fault_entries =
     [(0, ''Address size fault, level0''),
      (1, ''Address size fault, level1''),
      (2, ''Address size fault, level2''),
      (3, ''Address size fault, level3''),
      (4, ''Translation fault, level0''),
      (5, ''Translation fault, level1''),
      (6, ''Translation fault, level2''),
      (7, ''Translation fault, level3''),
      (9, ''Access flag fault, level1''),
      (10, ''Access flag fault, level2''),
      (11, ''Access flag fault, level3''),
      (13, ''Permission fault, level1''),
      (14, ''Permission fault, level2''),
      (15, ''Permission fault, level3''),
      (0x21, ''Alignment fault''),
      (0x35, ''Unsupported Exclusive or Atomic access'')]"

definition DATA_FAULT_CODE :: "string option list" where
  "DATA_FAULT_CODE = override (map (\<lambda>(i, str). (i, Some str)) fault_entries) (replicate 0x36 None)"

definition esr_get_class_string :: "u32 \<Rightarrow> string res" where
  "esr_get_class_string esr =
     (let i = unat (drop_bit ESR_ELx_EC_SHIFT esr)
      in if length ESR_CLASS_STR \<le> i then Inl Out_of_bounds else Inr (ESR_CLASS_STR ! i))"

definition esr_get_dfsc_string :: "u32 \<Rightarrow> string option res" where
  "esr_get_dfsc_string esr =
     (let i = unat (esr AND 0x3f)
      in if length DATA_FAULT_CODE \<le> i then Inl Out_of_bounds else Inr (DATA_FAULT_CODE ! i))"

section \<open>The report\<close>

definition access_report :: "u32 \<Rightarrow> 'a machine_scheme \<Rightarrow> 'a machine_scheme" where
  "access_report esr s =
     (let s = printk_call ''  Access size = %u byte(s)\<newline>'' [arg_u32 (push_bit (unat (drop_bit ESR_ELx_SAS_SHIFT (esr AND ESR_ELx_SAS))) 1)] s;
          s = printk_call ''  SSE = %lu, SRT = %lu\<newline>''
                [arg_u32 (drop_bit ESR_ELx_SSE_SHIFT (esr AND ESR_ELx_SSE)), arg_u32 (drop_bit ESR_ELx_SRT_SHIFT (esr AND ESR_ELx_SRT_MASK))] s
      in printk_call ''  SF = %lu, AR = %lu\<newline>''
           [arg_u32 (drop_bit ESR_ELx_SF_SHIFT (esr AND ESR_ELx_SF)), arg_u32 (drop_bit ESR_ELx_AR_SHIFT (esr AND ESR_ELx_AR))] s)"

definition parse_esr :: "u32 \<Rightarrow> 'a machine_scheme \<Rightarrow> 'a machine_scheme res" where
  "parse_esr esr s =
     (let ec = ESR_ELx_EC esr;
          s = printk_call ''ESR info:\<newline>'' [] s;
          s = printk_call ''  ESR = 0x%08x\<newline>'' [arg_u32 esr] s
      in bindr (esr_get_class_string esr) (\<lambda>class_str.
           let s = printk_call ''  Exception class = %s, IL = %u bits\<newline>''
                     [Arg_str class_str, arg_u32 (if esr AND ESR_ELx_IL \<noteq> 0 then 32 else 16)] s
           in if ec = ESR_ELx_EC_DABT_LOW \<or> ec = ESR_ELx_EC_DABT_CUR then
                let s = printk_call ''  Data abort:\<newline>'' [] s;
                    s = (if esr AND ESR_ELx_ISV \<noteq> 0 then access_report esr s else s);
                    s = printk_call ''  SET = %lu, FnV = %lu\<newline>''
                          [arg_u32 (drop_bit ESR_ELx_SET_SHIFT esr AND 3), arg_u32 (drop_bit ESR_ELx_FnV_SHIFT esr AND 1)] s;
                    s = printk_call ''  EA = %lu, S1PTW = %lu\<newline>''
                          [arg_u32 (drop_bit ESR_ELx_EA_SHIFT esr AND 1), arg_u32 (drop_bit ESR_ELx_S1PTW_SHIFT esr AND 1)] s;
                    s = printk_call ''  CM = %lu, WnR = %lu\<newline>''
                          [arg_u32 (drop_bit ESR_ELx_CM_SHIFT (esr AND ESR_ELx_CM)), arg_u32 (drop_bit ESR_ELx_WNR_SHIFT (esr AND ESR_ELx_WNR))] s
                in bindr (esr_get_dfsc_string esr) (\<lambda>dfsc. Inr (printk_call ''  DFSC = %s\<newline>'' [arg_of_string dfsc] s))
              else Inr s))"

section \<open>Bad mode\<close>

partial_function (option) spin :: "'s \<Rightarrow> 's option" where "spin s = spin s"

definition panic :: "'a machine_scheme \<Rightarrow> 'a machine_scheme res" where
  "panic s = returns (spin (printk_call ''Kernel panic\<newline>'' [] s))"

definition bad_mode_report :: "s32 \<Rightarrow> u32 \<Rightarrow> 'a machine_scheme \<Rightarrow> 'a machine_scheme res" where
  "bad_mode_report reason esr s =
     (let (reason, s) =
        (if 4 \<le> sint reason then
           let s = printk_call ''bad mode reason: 0x%08x\<newline>'' [arg_u32 reason] s;
               (el, s) = read_sysreg ''CurrentEL'' s;
               s = printk_call ''%s: running at EL%d\<newline>'' [Arg_str ''bad_mode'', Arg_word (drop_bit 2 el)] s
           in (reason AND 0x3, s)
         else (reason, s))
      in if sint reason < 0 \<or> int (length bad_mode_handler) \<le> sint reason then Inl Out_of_bounds
         else
           let (far, s) = read_sysreg ''far_el1'' s
           in bindr (esr_get_class_string esr) (\<lambda>class_str.
                parse_esr esr (printk_call ''Bad mode for %s handler detected, FAR: 0x%x esr: 0x%x - %s\<newline>''
                  [Arg_str (bad_mode_handler ! nat (sint reason)), Arg_word far, arg_u32 esr, Arg_str class_str] s)))"

definition bad_mode :: "s32 \<Rightarrow> u32 \<Rightarrow> 'a machine_scheme \<Rightarrow> 'a machine_scheme res" where
  "bad_mode reason esr s = bindr (bad_mode_report reason esr s) panic"

text \<open>The vectors of the exceptions that are not handled read the syndrome and pass their reason.\<close>

definition BAD_SYNC :: s32 where "BAD_SYNC = 0"
definition BAD_IRQ :: s32 where "BAD_IRQ = 1"
definition BAD_FIQ :: s32 where "BAD_FIQ = 2"
definition BAD_ERROR :: s32 where "BAD_ERROR = 3"

definition inv_entry :: "s32 \<Rightarrow> 'a machine_scheme \<Rightarrow> 'a machine_scheme res" where
  "inv_entry reason s = (let (esr, s) = read_sysreg ''esr_el1'' s in bad_mode reason (ucast esr) s)"


section \<open>Lists of overrides\<close>

lemma length_override [simp]: "length (override es t) = length t"
  unfolding override_def by (induction es arbitrary: t) auto

text \<open>A table with distinct overrides is a lookup with a default.\<close>

lemma override_nth:
  "distinct (map fst es) \<Longrightarrow> k < length t \<Longrightarrow> override es t ! k = (case map_of es k of None \<Rightarrow> t ! k | Some x \<Rightarrow> x)"
proof (induction es arbitrary: t)
  case Nil
  then show ?case by (simp add: override_def)
next
  case (Cons e es)
  obtain i x where e: "e = (i, x)" by (cases e)
  have "override (e # es) t = override es (t[i := x])" by (simp add: override_def e)
  moreover have "map_of es i = None" using Cons.prems(1) by (simp add: e map_of_eq_None_iff)
  ultimately show ?case using Cons by (auto simp: e split: option.split)
qed

definition class_name :: "nat \<Rightarrow> string" where
  "class_name k = (case map_of class_entries k of None \<Rightarrow> ''UNRECOGNIZED EC'' | Some str \<Rightarrow> str)"

lemma ESR_CLASS_STR_nth: "k < 64 \<Longrightarrow> ESR_CLASS_STR ! k = class_name k"
  unfolding ESR_CLASS_STR_def class_name_def
  by (subst override_nth) (simp_all add: class_entries_def layout_defs split: option.split)

lemma length_ESR_CLASS_STR: "length ESR_CLASS_STR = 64"
  by (simp add: ESR_CLASS_STR_def layout_defs)

lemma length_DATA_FAULT_CODE: "length DATA_FAULT_CODE = 0x36"
  by (simp add: DATA_FAULT_CODE_def)

lemma map_of_Some: "map_of (map (\<lambda>(i, x). (i, Some x)) es) k = map_option Some (map_of es k)"
  by (induction es) auto

lemma DATA_FAULT_CODE_nth: "k < 0x36 \<Longrightarrow> DATA_FAULT_CODE ! k = map_of fault_entries k"
  unfolding DATA_FAULT_CODE_def
  by (subst override_nth) (simp_all add: map_of_Some fault_entries_def split: option.split)

section \<open>The fields of the syndrome\<close>

lemma one_bit_mask: "(1 :: u32) = mask 1" "(3 :: u32) = mask 2" "(0x1F :: u32) = mask 5" "(0x3F :: u32) = mask 6"
  by (simp_all add: mask_eq_exp_minus_1)

lemma esr_args:
  "arg_u32 (drop_bit ESR_ELx_SSE_SHIFT (esr AND ESR_ELx_SSE)) = arg_num (bitfield 21 1 esr)"
  "arg_u32 (drop_bit ESR_ELx_SRT_SHIFT (esr AND ESR_ELx_SRT_MASK)) = arg_num (bitfield 16 5 esr)"
  "arg_u32 (drop_bit ESR_ELx_SF_SHIFT (esr AND ESR_ELx_SF)) = arg_num (bitfield 15 1 esr)"
  "arg_u32 (drop_bit ESR_ELx_AR_SHIFT (esr AND ESR_ELx_AR)) = arg_num (bitfield 14 1 esr)"
  "arg_u32 (drop_bit ESR_ELx_CM_SHIFT (esr AND ESR_ELx_CM)) = arg_num (bitfield 8 1 esr)"
  "arg_u32 (drop_bit ESR_ELx_WNR_SHIFT (esr AND ESR_ELx_WNR)) = arg_num (bitfield 6 1 esr)"
  "arg_u32 (drop_bit ESR_ELx_SET_SHIFT esr AND 3) = arg_num (bitfield 11 2 esr)"
  "arg_u32 (drop_bit ESR_ELx_FnV_SHIFT esr AND 1) = arg_num (bitfield 10 1 esr)"
  "arg_u32 (drop_bit ESR_ELx_EA_SHIFT esr AND 1) = arg_num (bitfield 9 1 esr)"
  "arg_u32 (drop_bit ESR_ELx_S1PTW_SHIFT esr AND 1) = arg_num (bitfield 7 1 esr)"
  unfolding layout_defs arg_u32_num
  by (simp_all only: unat_shifted_bitfield [OF one_bit_mask(1)] unat_shifted_bitfield [OF one_bit_mask(3)]
      unat_bitfield [OF one_bit_mask(1)] unat_bitfield [OF one_bit_mask(2)])

lemma access_size:
  "arg_u32 (push_bit (unat (drop_bit ESR_ELx_SAS_SHIFT (esr AND ESR_ELx_SAS))) 1) = arg_num (2 ^ bitfield 22 2 esr)"
proof -
  have "bitfield 22 2 esr < 32" using bitfield_less [of 22 2 esr] by simp
  then have "unat (word_of_nat (2 ^ bitfield 22 2 esr) :: u32) = 2 ^ bitfield 22 2 esr"
    by (simp only: unsigned_of_nat) (simp add: take_bit_nat_eq_self)
  then have "unat (2 ^ bitfield 22 2 esr :: u32) = 2 ^ bitfield 22 2 esr" by simp
  then show ?thesis unfolding layout_defs arg_u32_num
    by (simp only: unat_shifted_bitfield [OF one_bit_mask(2)] push_bit_of_1)
qed

lemma esr_flags:
  "esr AND ESR_ELx_IL \<noteq> 0 \<longleftrightarrow> bitfield 25 1 esr = 1" "esr AND ESR_ELx_ISV \<noteq> 0 \<longleftrightarrow> bitfield 24 1 esr = 1"
  unfolding layout_defs by (rule bitfield_flag)+

lemma esr_class:
  "unat (drop_bit ESR_ELx_EC_SHIFT esr) = bitfield 26 6 esr" "unat (ESR_ELx_EC esr) = bitfield 26 6 esr"
proof -
  have "unat esr < 2 ^ 32" using unsigned_less [of esr, where 'a = nat] by simp
  then have "unat esr div 2 ^ 26 < 2 ^ 6" by (simp add: less_mult_imp_div_less)
  then show "unat (drop_bit ESR_ELx_EC_SHIFT esr) = bitfield 26 6 esr"
    unfolding layout_defs unat_drop bitfield_def by simp
  show "unat (ESR_ELx_EC esr) = bitfield 26 6 esr"
    unfolding ESR_ELx_EC_def layout_defs by (rule unat_shifted_bitfield [OF one_bit_mask(4)])
qed

lemma esr_get_class_string_eq: "esr_get_class_string esr = Inr (class_name (bitfield 26 6 esr))"
  using bitfield_less [of 26 6 esr]
  by (simp add: esr_get_class_string_def Let_def esr_class length_ESR_CLASS_STR ESR_CLASS_STR_nth)

lemma esr_get_dfsc_string_eq:
  "esr_get_dfsc_string esr = (if 0x36 \<le> bitfield 0 6 esr then Inl Out_of_bounds else Inr (map_of fault_entries (bitfield 0 6 esr)))"
proof -
  have "unat (esr AND 0x3f) = bitfield 0 6 esr" using unat_bitfield [OF one_bit_mask(4), of 0 esr] by simp
  then show ?thesis by (simp add: esr_get_dfsc_string_def Let_def length_DATA_FAULT_CODE DATA_FAULT_CODE_nth)
qed

section \<open>The specification of the report\<close>

definition data_abort :: "u32 \<Rightarrow> bool" where "data_abort esr \<longleftrightarrow> bitfield 26 6 esr \<in> {0x24, 0x25}"

definition esr_report :: "u32 \<Rightarrow> (string \<times> varg list) list" where
  "esr_report esr =
     [(''ESR info:\<newline>'', []),
      (''  ESR = 0x%08x\<newline>'', [arg_num (unat esr)]),
      (''  Exception class = %s, IL = %u bits\<newline>'',
        [Arg_str (class_name (bitfield 26 6 esr)), arg_num (if bitfield 25 1 esr = 1 then 32 else 16)])] @
     (if data_abort esr then
        [(''  Data abort:\<newline>'', [])] @
        (if bitfield 24 1 esr = 1 then
           [(''  Access size = %u byte(s)\<newline>'', [arg_num (2 ^ bitfield 22 2 esr)]),
            (''  SSE = %lu, SRT = %lu\<newline>'', [arg_num (bitfield 21 1 esr), arg_num (bitfield 16 5 esr)]),
            (''  SF = %lu, AR = %lu\<newline>'', [arg_num (bitfield 15 1 esr), arg_num (bitfield 14 1 esr)])]
         else []) @
        [(''  SET = %lu, FnV = %lu\<newline>'', [arg_num (bitfield 11 2 esr), arg_num (bitfield 10 1 esr)]),
         (''  EA = %lu, S1PTW = %lu\<newline>'', [arg_num (bitfield 9 1 esr), arg_num (bitfield 7 1 esr)]),
         (''  CM = %lu, WnR = %lu\<newline>'', [arg_num (bitfield 8 1 esr), arg_num (bitfield 6 1 esr)]),
         (''  DFSC = %s\<newline>'', [arg_of_string (map_of fault_entries (bitfield 0 6 esr))])]
      else [])"

text \<open>A data abort whose status code lies past the end of \<open>DATA_FAULT_CODE\<close>.\<close>

definition past_the_codes :: "u32 \<Rightarrow> bool" where "past_the_codes esr \<longleftrightarrow> data_abort esr \<and> 0x36 \<le> bitfield 0 6 esr"

lemma parse_esr_eq:
  "parse_esr esr s = (if past_the_codes esr then Inl Out_of_bounds else Inr (s\<lparr>klog := klog s @ esr_report esr\<rparr>))"
proof -
  have ec: "ESR_ELx_EC esr = ESR_ELx_EC_DABT_LOW \<or> ESR_ELx_EC esr = ESR_ELx_EC_DABT_CUR \<longleftrightarrow> data_abort esr"
    by (simp add: data_abort_def word_unat_eq_iff esr_class ESR_ELx_EC_DABT_LOW_def ESR_ELx_EC_DABT_CUR_def)
  have n: "arg_u32 (if b then 32 else 16) = arg_num (if b then 32 else 16)" for b by (simp add: arg_u32_num)
  show ?thesis
    unfolding parse_esr_def access_report_def Let_def ec esr_flags esr_args access_size esr_get_class_string_eq
      esr_get_dfsc_string_eq past_the_codes_def n
    by (simp add: esr_report_def printk_call_def arg_u32_num)
qed

lemma spin_none: "spin s = None"
proof -
  have "spin s = Some r \<Longrightarrow> False" for r :: 'a by (erule spin.raw_induct [rotated]) blast
  then show ?thesis by (cases "spin s") auto
qed

lemma panic_diverges: "panic s = Inl Diverges"
  by (simp add: panic_def spin_none)

section \<open>Properties\<close>

text \<open>Every syndrome has a class string, the one of its class in the table, and exactly the classes without an entry
  get the default.\<close>

theorem esr_class_strings:
  "\<exists>str. esr_get_class_string esr = Inr str \<and>
     (str = ''UNRECOGNIZED EC'' \<longleftrightarrow> unat esr div 2 ^ 26 \<in> {0x02, 0x09, 0x0A, 0x0B, 0x0D, 0x0F, 0x10, 0x14, 0x19, 0x1A, 0x1B, 0x1C, 0x1D, 0x1E,
        0x23, 0x27, 0x29, 0x2A, 0x2B, 0x2D, 0x2E, 0x36, 0x37, 0x39, 0x3B, 0x3D, 0x3E, 0x3F})"
proof -
  have d: "unat esr div 2 ^ 26 = bitfield 26 6 esr" using esr_class(1) [of esr]
    unfolding layout_defs unat_drop by simp
  have "\<forall>k \<in> set [0 ..< 64]. class_name k = ''UNRECOGNIZED EC'' \<longleftrightarrow> k \<in> {0x02, 0x09, 0x0A, 0x0B, 0x0D, 0x0F, 0x10, 0x14, 0x19, 0x1A, 0x1B, 0x1C, 0x1D, 0x1E,
        0x23, 0x27, 0x29, 0x2A, 0x2B, 0x2D, 0x2E, 0x36, 0x37, 0x39, 0x3B, 0x3D, 0x3E, 0x3F}"
    unfolding class_name_def class_entries_def layout_defs by code_simp
  then show ?thesis using bitfield_less [of 26 6 esr] unfolding d
    by (intro exI [of _ "class_name (bitfield 26 6 esr)"] conjI esr_get_class_string_eq) simp
qed

text \<open>C24. \<open>parse_esr\<close> prints the fields of the syndrome as the architecture lays them out: the class and the length of
  the instruction for every exception, and for a data abort its syndrome. It faults exactly on a data abort with a status
  code of 0x36 or above, past the end of \<open>DATA_FAULT_CODE\<close>.\<close>

theorem parse_esr_report:
  "parse_esr esr s = (if past_the_codes esr then Inl Out_of_bounds else Inr (s\<lparr>klog := klog s @ esr_report esr\<rparr>))"
  by (rule parse_esr_eq)

lemma cstr_class_name: "cstr (class_name k) = class_name k"
proof -
  have "\<forall>(i, str) \<in> set class_entries. CHR 0x00 \<notin> set str" by (simp add: class_entries_def)
  then have "CHR 0x00 \<notin> set (class_name k)" by (auto simp: class_name_def split: option.splits dest!: map_of_SomeD)
  then show ?thesis unfolding cstr_def by (intro takeWhile_eq_all_conv [THEN iffD2]) auto
qed

text \<open>C25. A vector that enters by the macro \<open>inv_entry\<close> (all those that are not handled but \<open>el1_sync_invalid\<close>, which saves a frame
  first) reads the syndrome and the fault address, reports the vector, the address, the syndrome and its class, then the
  syndrome in detail, and never returns. The address is printed with \<open>%x\<close>, which takes its low 32 bits only. For a data
  abort with a fault status code past the table of codes the report reads outside the table instead.\<close>

theorem unhandled_exception_reports:
  assumes "reason \<in> {BAD_SYNC, BAD_IRQ, BAD_FIQ, BAD_ERROR}"
    and "esr_val = sys_dev s (hw_trace s) ''esr_el1''" and "esr = ucast esr_val"
    and "far = sys_dev s (hw_trace s @ [Sys_read ''esr_el1'' esr_val]) ''far_el1''"
    and "name = (if reason = BAD_SYNC then ''Sync Abort'' else if reason = BAD_IRQ then ''IRQ'' else if reason = BAD_FIQ then ''FIQ'' else ''SError'')"
    and "args = [Arg_str name, Arg_word far, arg_num (unat esr), Arg_str (class_name (bitfield 26 6 esr))]"
    and "fmt = ''Bad mode for %s handler detected, FAR: 0x%x esr: 0x%x - %s\<newline>''"
  shows "if past_the_codes esr then inv_entry reason s = Inl Out_of_bounds
     else bad_mode_report reason esr (snd (read_sysreg ''esr_el1'' s)) =
         Inr (s\<lparr>klog := klog s @ [(fmt, args)] @ esr_report esr,
           hw_trace := hw_trace s @ [Sys_read ''esr_el1'' esr_val, Sys_read ''far_el1'' far]\<rparr>) \<and>
       inv_entry reason s = Inl Diverges \<and>
       (\<exists>st. myprintf fmt args = Inr st \<and>
          p_out st = ''Bad mode for '' @ name @ '' handler detected, FAR: 0x'' @ hexadecimal (unat far mod 2 ^ 32) @
            '' esr: 0x'' @ hexadecimal (unat esr) @ '' - '' @ class_name (bitfield 26 6 esr) @ [CHR 0x0A])"
proof -
  have r: "reason \<in> {0, 1, 2, 3}" using assms(1) by (simp add: BAD_SYNC_def BAD_IRQ_def BAD_FIQ_def BAD_ERROR_def)
  have A: "bad_mode_report reason esr (snd (read_sysreg ''esr_el1'' s)) =
      (if past_the_codes esr then Inl Out_of_bounds
       else Inr (s\<lparr>klog := klog s @ [(fmt, args)] @ esr_report esr,
         hw_trace := hw_trace s @ [Sys_read ''esr_el1'' esr_val, Sys_read ''far_el1'' far]\<rparr>))"
    using r assms(2-7)
    by (auto simp: bad_mode_report_def bad_mode_handler_def op_defs Let_def esr_get_class_string_eq parse_esr_eq arg_u32_num
        BAD_SYNC_def BAD_IRQ_def BAD_FIQ_def BAD_ERROR_def)
  have B: "inv_entry reason s = bindr (bad_mode_report reason esr (snd (read_sysreg ''esr_el1'' s))) panic"
    by (simp add: inv_entry_def bad_mode_def read_sysreg_def Let_def assms(2,3))
  let ?line = "[Lit ''Bad mode for '', Str name, Lit '' handler detected, FAR: 0x'', Hex far, Lit '' esr: 0x'', Hex (ucast esr),
    Lit '' - '', Str (class_name (bitfield 26 6 esr)), Lit [CHR 0x0A]]"
  have "arg_num (unat esr) = Arg_word (ucast esr)" using arg_u32_num [of esr] by (simp add: arg_u32_def)
  then have "concat (map fmt_of ?line) = fmt" "concat (map args_of ?line) = args" by (simp_all add: assms(6,7))
  moreover have "\<forall>p \<in> set ?line. plain_piece p" by (simp add: plain_def)
  moreover have "cstr name = name" by (simp add: assms(5) cstr_def)
  moreover have "unat (ucast far :: u32) = unat far mod 2 ^ 32"
    by (simp add: unsigned_ucast_eq unsigned_take_bit_eq take_bit_eq_mod)
  moreover have "(ucast (ucast esr :: u64) :: u32) = esr" by (intro bit_word_eqI) (simp add: bit_simps)
  ultimately obtain st where "myprintf fmt args = Inr st" "p_out st = ''Bad mode for '' @ name @ '' handler detected, FAR: 0x'' @
      hexadecimal (unat far mod 2 ^ 32) @ '' esr: 0x'' @ hexadecimal (unat esr) @ '' - '' @ class_name (bitfield 26 6 esr) @ [CHR 0x0A]"
    using myprintf_pieces [of ?line] by (auto simp: cstr_class_name)
  then show ?thesis using A B by (simp add: panic_diverges)
qed

theorem unhandled_exception_reports_witness:
  "(\<exists>st. myprintf ''Bad mode for %s handler detected, FAR: 0x%x esr: 0x%x - %s\<newline>''
       [Arg_str ''Sync Abort'', Arg_word 0x120001000, arg_num 0x96000047, Arg_str (class_name 0x25)] = Inr st \<and>
     p_out st = ''Bad mode for Sync Abort handler detected, FAR: 0x20001000 esr: 0x96000047 - '' @ class_name 0x25 @ [CHR 0x0A]) \<and>
   inv_entry BAD_SYNC (machine0\<lparr>sys_dev := (\<lambda>_ r. if r = ''esr_el1'' then 0x96000047 else 0x120001000)\<rparr>) = Inl Diverges"
proof -
  have d: "\<not> past_the_codes 0x96000047" "bitfield 26 6 (0x96000047 :: u32) = 0x25"
    by (simp_all add: data_abort_def past_the_codes_def bitfield_def fault_entries_def)
  have h: "hexadecimal 0x20001000 = ''20001000''" "hexadecimal 0x96000047 = ''96000047''"
    by (simp_all add: hexadecimal_def numeral_of.simps lower_digits_def)
  show ?thesis
    using unhandled_exception_reports [of BAD_SYNC "0x96000047" "machine0\<lparr>sys_dev := (\<lambda>_ r. if r = ''esr_el1'' then 0x96000047 else 0x120001000)\<rparr>"
        "0x96000047" "0x120001000", OF _ _ _ _ refl refl refl] d h
    by (simp add: machine0_def)
qed

end
