(* ===== verification/Cacheinfo.thy ===== *)
theory Cacheinfo
  imports Traps
begin

text \<open>
  \<^verbatim>\<open>arch/arm64/kernel/cacheinfo.c\<close>: the printout of the cache hierarchy. The identification registers are
  read through the device functions of the machine; \<open>cache_device\<close> states what the architecture promises of
  them: they do not change, and \<open>CCSIDR_EL1\<close> describes the cache that \<open>CSSELR_EL1\<close> selects.
\<close>

section \<open>Constants\<close>

definition CACHE_TYPE_NOCACHE :: u64 where [layout_defs]: "CACHE_TYPE_NOCACHE = 0"
definition CACHE_TYPE_INST :: u64 where [layout_defs]: "CACHE_TYPE_INST = push_bit 0 1"
definition CACHE_TYPE_DATA :: u64 where [layout_defs]: "CACHE_TYPE_DATA = push_bit 1 1"
definition CACHE_TYPE_SEPARATE :: u64 where [layout_defs]: "CACHE_TYPE_SEPARATE = CACHE_TYPE_INST OR CACHE_TYPE_DATA"
definition CACHE_TYPE_UNIFIED :: u64 where [layout_defs]: "CACHE_TYPE_UNIFIED = push_bit 2 1"

definition cache_type_string :: "string list" where
  "cache_type_string = [''nocache'', ''i-cache'', ''d-cache'', ''separate cache'', ''unifed cache'']"

definition ICACHE_POLICY_VPIPT :: nat where [layout_defs]: "ICACHE_POLICY_VPIPT = 0"
definition ICACHE_POLICY_VIPT :: nat where [layout_defs]: "ICACHE_POLICY_VIPT = 2"
definition ICACHE_POLICY_PIPT :: nat where [layout_defs]: "ICACHE_POLICY_PIPT = 3"

definition icache_policy_str :: "string list" where
  "icache_policy_str =
     override [(ICACHE_POLICY_VIPT, ''VIPT''), (ICACHE_POLICY_PIPT, ''PIPT''), (ICACHE_POLICY_VPIPT, ''VPIPT'')]
       (replicate (ICACHE_POLICY_PIPT + 1) ''RESERVED/UNKNOWN'')"

definition CTR_L1IP_SHIFT :: nat where [layout_defs]: "CTR_L1IP_SHIFT = 14"
definition CTR_L1IP_MASK :: u32 where [layout_defs]: "CTR_L1IP_MASK = 3"
definition CTR_CWG_SHIFT :: nat where [layout_defs]: "CTR_CWG_SHIFT = 24"
definition CTR_CWG_MASK :: u64 where [layout_defs]: "CTR_CWG_MASK = 15"

definition CTR_L1IP :: "u32 \<Rightarrow> u32" where "CTR_L1IP ctr = drop_bit CTR_L1IP_SHIFT ctr AND CTR_L1IP_MASK"

definition CSSELR_LEVEL_SHIFT :: nat where [layout_defs]: "CSSELR_LEVEL_SHIFT = 1"

definition CCSIDR_NUMSETS_SHIFT :: nat where [layout_defs]: "CCSIDR_NUMSETS_SHIFT = 13"
definition CCSIDR_NUMSETS_MASK :: s32 where [layout_defs]: "CCSIDR_NUMSETS_MASK = push_bit CCSIDR_NUMSETS_SHIFT 0x1fff"
definition CCSIDR_ASS_SHIFT :: nat where [layout_defs]: "CCSIDR_ASS_SHIFT = 3"
definition CCSIDR_ASS_MASK :: s32 where [layout_defs]: "CCSIDR_ASS_MASK = push_bit CCSIDR_ASS_SHIFT 0x3ff"
definition CCSIDR_LINESIZE_MASK :: s32 where [layout_defs]: "CCSIDR_LINESIZE_MASK = 0x7"

definition MAX_CACHE_LEVEL :: s32 where [layout_defs]: "MAX_CACHE_LEVEL = 7"

definition CLIDR_ICB_SHIFT :: nat where [layout_defs]: "CLIDR_ICB_SHIFT = 30"
definition CLIDR_LOUU_SHIFT :: nat where [layout_defs]: "CLIDR_LOUU_SHIFT = 27"
definition CLIDR_LOC_SHIFT :: nat where [layout_defs]: "CLIDR_LOC_SHIFT = 24"
definition CLIDR_LOUIS_SHIFT :: nat where [layout_defs]: "CLIDR_LOUIS_SHIFT = 21"

text \<open>The variable \<open>clidr\<close> of \<open>init_cache_info\<close> is an \<open>unsigned\<close>.\<close>

definition CLIDR_ICB :: "u32 \<Rightarrow> u32" where "CLIDR_ICB clidr = drop_bit CLIDR_ICB_SHIFT clidr AND 0x7"
definition CLIDR_LOUU :: "u32 \<Rightarrow> u32" where "CLIDR_LOUU clidr = drop_bit CLIDR_LOUU_SHIFT clidr AND 0x7"
definition CLIDR_LOC :: "u32 \<Rightarrow> u32" where "CLIDR_LOC clidr = drop_bit CLIDR_LOC_SHIFT clidr AND 0x7"
definition CLIDR_LOUIS :: "u32 \<Rightarrow> u32" where "CLIDR_LOUIS clidr = drop_bit CLIDR_LOUIS_SHIFT clidr AND 0x7"

definition CLIDR_CTYPE_SHIFT :: "s32 \<Rightarrow> nat" where "CLIDR_CTYPE_SHIFT level = unat (3 * (level - 1))"
definition CLIDR_CTYPE_MASK :: "s32 \<Rightarrow> s32" where "CLIDR_CTYPE_MASK level = push_bit (CLIDR_CTYPE_SHIFT level) 7"
definition CLIDR_CTYPE :: "u64 \<Rightarrow> s32 \<Rightarrow> u64" where
  "CLIDR_CTYPE clidr level = drop_bit (CLIDR_CTYPE_SHIFT level) (clidr AND scast (CLIDR_CTYPE_MASK level))"

section \<open>The functions\<close>

definition cache_type_cwg :: "'a machine_scheme \<Rightarrow> u32 \<times> 'a machine_scheme" where
  "cache_type_cwg s = (let (ctr, s) = read_sysreg ''CTR_EL0'' s in (ucast (drop_bit CTR_CWG_SHIFT ctr AND CTR_CWG_MASK), s))"

definition cache_line_size :: "'a machine_scheme \<Rightarrow> s32 \<times> 'a machine_scheme" where
  "cache_line_size s = (let (cwg, s) = cache_type_cwg s in (push_bit (unat cwg) 4, s))"

definition get_cache_type :: "s32 \<Rightarrow> 'a machine_scheme \<Rightarrow> u64 \<times> 'a machine_scheme" where
  "get_cache_type level s =
     (if sint MAX_CACHE_LEVEL < sint level then (CACHE_TYPE_NOCACHE, s)
      else let (clidr, s) = read_sysreg ''clidr_el1'' s in (CLIDR_CTYPE clidr level, s))"

definition get_cache_set_way :: "u32 \<Rightarrow> u32 \<Rightarrow> 'a machine_scheme \<Rightarrow> 'a machine_scheme" where
  "get_cache_set_way level ind s =
     (let tmp = push_bit CSSELR_LEVEL_SHIFT (level - 1) OR ind :: s32;
          s = write_sysreg (scast tmp) ''CSSELR_EL1'' s;
          (val, s) = read_sysreg ''CCSIDR_EL1'' s;
          sets = ucast (drop_bit CCSIDR_NUMSETS_SHIFT (val AND scast CCSIDR_NUMSETS_MASK)) :: u32;
          sets = sets + 1;
          way = ucast (drop_bit CCSIDR_ASS_SHIFT (val AND scast CCSIDR_ASS_MASK)) :: u32;
          way = way + 1;
          line_size = ucast (val AND scast CCSIDR_LINESIZE_MASK) :: u32;
          line_size = push_bit (unat (line_size + 4)) 1
      in printk_call ''          %s: set %u way %u line_size %u size %uKB\<newline>''
           [Arg_str (if ind \<noteq> 0 then ''i-cache'' else ''d/u cache''), arg_u32 sets, arg_u32 way, arg_u32 line_size,
            arg_u32 (line_size * way * sets div 1024)] s)"

text \<open>The loop over the levels; its result is the value of \<open>level\<close> after it.\<close>

function cache_levels :: "s32 \<Rightarrow> 'a machine_scheme \<Rightarrow> (s32 \<times> 'a machine_scheme) res" where
  "cache_levels level s =
     (if sint level \<le> sint MAX_CACHE_LEVEL then
        let (ctype, s) = get_cache_type level s
        in if ctype = CACHE_TYPE_NOCACHE then Inr (level - 1, s)
           else if length cache_type_string \<le> unat ctype then Inl Out_of_bounds
           else
             let (sz, s) = cache_line_size s;
                 s = printk_call ''   L%u: %s, cache line size %u\<newline>''
                       [arg_u32 level, Arg_str (cache_type_string ! unat ctype), arg_u32 sz] s;
                 s = (if ctype = CACHE_TYPE_SEPARATE then get_cache_set_way level 0 (get_cache_set_way level 1 s)
                      else if ctype = CACHE_TYPE_UNIFIED then get_cache_set_way level 0 s
                      else s)
             in cache_levels (level + 1) s
      else Inr (level, s))"
  by pat_completeness auto
termination
proof (relation "measure (\<lambda>(level, s). nat (8 - sint level))")
  fix level :: s32
  assume "sint level \<le> sint MAX_CACHE_LEVEL"
  then have l: "sint level \<le> 7" by (simp add: MAX_CACHE_LEVEL_def)
  have "sint (level + 1) = sint level + 1"
    using sint_add32 [of level 1] l sint_greater_eq [of level] by simp
  then show "((level + 1, s'), (level, s)) \<in> measure (\<lambda>(level, s). nat (8 - sint level))" for s s' :: "'a machine_scheme"
    using l by simp
qed simp

declare cache_levels.simps [simp del]

definition init_cache_info :: "'a machine_scheme \<Rightarrow> (s32 \<times> 'a machine_scheme) res" where
  "init_cache_info s =
     (let s = printk_call ''parse cache info:\<newline>'' [] s
      in bindr (cache_levels 1 s) (\<lambda>(level, s).
           let (clidr, s) = read_sysreg ''clidr_el1'' s;
               clidr = ucast clidr;
               s = printk_call ''   IBC:%u LOUU:%u LoC:%u LoUIS:%u\<newline>''
                     [arg_u32 (CLIDR_ICB clidr), arg_u32 (CLIDR_LOUU clidr), arg_u32 (CLIDR_LOC clidr), arg_u32 (CLIDR_LOUIS clidr)] s;
               (ctr, s) = read_sysreg ''ctr_el0'' s;
               i = unat (CTR_L1IP (ucast ctr))
           in if length icache_policy_str \<le> i then Inl Out_of_bounds
              else Inr (level, printk_call ''   Detected %s I-cache\<newline>'' [Arg_str (icache_policy_str ! i)] s)))"


section \<open>What the architecture promises\<close>

definition last_csselr :: "hw_event list \<Rightarrow> u64" where
  "last_csselr tr = fold (\<lambda>e sel. case e of Sys_write r v \<Rightarrow> if r = ''CSSELR_EL1'' then v else sel | _ \<Rightarrow> sel) tr 0"

definition cache_device :: "u64 \<Rightarrow> u64 \<Rightarrow> (u64 \<Rightarrow> u64) \<Rightarrow> 'a machine_scheme \<Rightarrow> bool" where
  "cache_device clidr ctr geo s \<longleftrightarrow>
     (\<forall>tr. sys_dev s tr ''clidr_el1'' = clidr \<and> sys_dev s tr ''CTR_EL0'' = ctr \<and> sys_dev s tr ''ctr_el0'' = ctr \<and>
        sys_dev s tr ''CCSIDR_EL1'' = geo (last_csselr tr))"

section \<open>The report\<close>

text \<open>The type of level \<open>n\<close>, and the levels from \<open>n\<close> on up to the first without a cache.\<close>

definition ctype :: "u64 \<Rightarrow> nat \<Rightarrow> nat" where "ctype clidr n = bitfield (3 * (n - 1)) 3 clidr"

definition present :: "u64 \<Rightarrow> nat \<Rightarrow> nat list" where "present clidr n = takeWhile (\<lambda>k. ctype clidr k \<noteq> 0) [n ..< 8]"

definition cache_sets :: "u64 \<Rightarrow> nat" where "cache_sets v = bitfield 13 13 v + 1"
definition cache_ways :: "u64 \<Rightarrow> nat" where "cache_ways v = bitfield 3 10 v + 1"
definition cache_line :: "u64 \<Rightarrow> nat" where "cache_line v = 2 ^ (bitfield 0 3 v + 4)"

definition geometry :: "(u64 \<Rightarrow> u64) \<Rightarrow> nat \<Rightarrow> nat \<Rightarrow> string \<times> varg list" where
  "geometry geo n i =
     (let v = geo (word_of_nat (2 * (n - 1) + i))
      in (''          %s: set %u way %u line_size %u size %uKB\<newline>'',
          [Arg_str (if i = 1 then ''i-cache'' else ''d/u cache''), arg_num (cache_sets v), arg_num (cache_ways v), arg_num (cache_line v),
           arg_num (cache_line v * cache_ways v * cache_sets v mod 2 ^ 32 div 1024)]))"

definition level_rows :: "u64 \<Rightarrow> u64 \<Rightarrow> (u64 \<Rightarrow> u64) \<Rightarrow> nat \<Rightarrow> (string \<times> varg list) list" where
  "level_rows clidr ctr geo n =
     (''   L%u: %s, cache line size %u\<newline>'',
       [arg_num n, Arg_str (cache_type_string ! ctype clidr n), arg_num (4 * 2 ^ bitfield 24 4 ctr)]) #
     (if ctype clidr n = 3 then [geometry geo n 1, geometry geo n 0] else if ctype clidr n = 4 then [geometry geo n 0] else [])"

section \<open>Levels as numbers\<close>

lemma level_cases:
  assumes "1 \<le> n" "n \<le> 7"
  obtains "n = 1" | "n = 2" | "n = 3" | "n = 4" | "n = 5" | "n = 6" | "n = (7 :: nat)"
  using assms by linarith

lemma level_word:
  assumes "n \<le> 8"
  shows "sint (word_of_nat n :: s32) = int n" "unat (word_of_nat n :: s32) = n" "word_of_nat n + (1 :: s32) = word_of_nat (Suc n)"
proof -
  have "n \<in> {0, 1, 2, 3, 4, 5, 6, 7, 8}" using assms by auto
  then show "sint (word_of_nat n :: s32) = int n" "unat (word_of_nat n :: s32) = n" by auto
qed simp

lemma CLIDR_CTYPE_eq:
  assumes "1 \<le> n" "n \<le> 7"
  shows "unat (CLIDR_CTYPE c (word_of_nat n)) = ctype c n"
proof -
  have s: "CLIDR_CTYPE_SHIFT (word_of_nat n) = 3 * (n - 1)"
    using assms by (cases rule: level_cases) (simp_all add: CLIDR_CTYPE_SHIFT_def)
  have m: "scast (CLIDR_CTYPE_MASK (word_of_nat n)) = (push_bit (3 * (n - 1)) 7 :: u64)"
    unfolding CLIDR_CTYPE_MASK_def s using assms by (cases rule: level_cases) simp_all
  have "(7 :: u64) = mask 3" by (simp add: mask_eq_exp_minus_1)
  then show ?thesis unfolding CLIDR_CTYPE_def s m ctype_def by (rule unat_shifted_bitfield)
qed

lemma get_cache_set_way_eq:
  assumes "cache_device c ctr geo s" and "1 \<le> n" "n \<le> 7" and "i \<le> 1"
  shows "\<exists>es. get_cache_set_way (word_of_nat n) (word_of_nat i) s = s\<lparr>klog := klog s @ [geometry geo n i], hw_trace := hw_trace s @ es\<rparr>"
proof -
  have i: "i = 0 \<or> i = 1" using assms(4) by auto
  define sel :: u64 where "sel = word_of_nat (2 * (n - 1) + i)"
  define j :: u32 where "j = word_of_nat i"
  have t: "scast (push_bit CSSELR_LEVEL_SHIFT (word_of_nat n - 1) OR j :: s32) = sel"
    using assms(2,3) i unfolding sel_def j_def by (cases rule: level_cases) (auto simp: CSSELR_LEVEL_SHIFT_def)
  have v: "sys_dev s (hw_trace s @ [Sys_write ''CSSELR_EL1'' sel]) ''CCSIDR_EL1'' = geo sel"
    using assms(1) by (simp add: cache_device_def last_csselr_def)
  let ?v = "geo sel"
  have up: "unat (ucast w :: u32) = unat w" if "unat w < 2 ^ 32" for w :: u64
  proof -
    have "unat (ucast w :: u32) = take_bit 32 (unat w)" by (rule bit_eqI) (auto simp: bit_simps)
    then show ?thesis using that by (simp add: take_bit_nat_eq_self)
  qed
  have S: "unat (ucast (drop_bit 13 (?v AND push_bit 13 0x1fff)) + 1 :: u32) = cache_sets ?v"
  proof -
    have e: "unat (drop_bit 13 (?v AND push_bit 13 0x1fff)) = bitfield 13 13 ?v"
      by (rule unat_shifted_bitfield) (simp add: mask_eq_exp_minus_1)
    have b: "bitfield 13 13 ?v < 2 ^ 13" by (rule bitfield_less)
    then have u: "unat (ucast (drop_bit 13 (?v AND push_bit 13 0x1fff)) :: u32) = bitfield 13 13 ?v" by (subst up) (simp_all only: e, simp_all)
    show ?thesis unfolding cache_sets_def by (subst unat_add_lem') (use b u in simp_all)
  qed
  have W: "unat (ucast (drop_bit 3 (?v AND push_bit 3 0x3ff)) + 1 :: u32) = cache_ways ?v"
  proof -
    have e: "unat (drop_bit 3 (?v AND push_bit 3 0x3ff)) = bitfield 3 10 ?v"
      by (rule unat_shifted_bitfield) (simp add: mask_eq_exp_minus_1)
    have b: "bitfield 3 10 ?v < 2 ^ 10" by (rule bitfield_less)
    then have u: "unat (ucast (drop_bit 3 (?v AND push_bit 3 0x3ff)) :: u32) = bitfield 3 10 ?v" by (subst up) (simp_all only: e, simp_all)
    show ?thesis unfolding cache_ways_def by (subst unat_add_lem') (use b u in simp_all)
  qed
  have L: "unat (push_bit (unat (ucast (?v AND 0x7) + 4 :: u32)) 1 :: u32) = cache_line ?v"
  proof -
    have e: "unat (?v AND 7) = bitfield 0 3 ?v" using unat_bitfield [of 7 3 0 ?v] by (simp add: mask_eq_exp_minus_1)
    have b: "bitfield 0 3 ?v < 2 ^ 3" by (rule bitfield_less)
    then have u: "unat (ucast (?v AND 0x7) :: u32) = bitfield 0 3 ?v" by (subst up) (simp_all only: e, simp_all)
    have "unat (ucast (?v AND 0x7) + 4 :: u32) = bitfield 0 3 ?v + 4" by (subst unat_add_lem') (use b u in simp_all)
    moreover have "unat (word_of_nat (2 ^ (bitfield 0 3 ?v + 4)) :: u32) = 2 ^ (bitfield 0 3 ?v + 4)"
      using b by (simp only: unsigned_of_nat) (simp add: take_bit_nat_eq_self)
    ultimately show ?thesis by (simp add: cache_line_def push_bit_of_1)
  qed
  have m: "scast CCSIDR_NUMSETS_MASK = (push_bit 13 0x1fff :: u64)" "scast CCSIDR_ASS_MASK = (push_bit 3 0x3ff :: u64)"
    "scast CCSIDR_LINESIZE_MASK = (0x7 :: u64)" "CCSIDR_NUMSETS_SHIFT = 13" "CCSIDR_ASS_SHIFT = 3" by (simp_all add: layout_defs)
  have n0: "j \<noteq> 0 \<longleftrightarrow> i = 1" using i by (auto simp: j_def)
  have r: "read_sysreg ''CCSIDR_EL1'' (write_sysreg sel ''CSSELR_EL1'' s) =
      (?v, s\<lparr>hw_trace := hw_trace s @ [Sys_write ''CSSELR_EL1'' sel, Sys_read ''CCSIDR_EL1'' ?v]\<rparr>)"
    by (simp add: read_sysreg_def write_sysreg_def hw_emit_def Let_def v)
  have "get_cache_set_way (word_of_nat n) j s =
      printk_call (fst (geometry geo n i)) (snd (geometry geo n i))
        (s\<lparr>hw_trace := hw_trace s @ [Sys_write ''CSSELR_EL1'' sel, Sys_read ''CCSIDR_EL1'' ?v]\<rparr>)"
    unfolding get_cache_set_way_def t Let_def geometry_def sel_def [symmetric] m n0 arg_u32_num r prod.case fst_conv snd_conv
    by (simp only: S W L unat_div unat_word_ariths(2)) (simp add: mod_mult_left_eq)
  then show ?thesis unfolding j_def by (intro exI [of _ "[Sys_write ''CSSELR_EL1'' sel, Sys_read ''CCSIDR_EL1'' ?v]"]) (simp add: printk_call_def)
qed


section \<open>The loop\<close>

text \<open>A report that goes on: the log is extended by known rows, the trace by accesses, nothing else changes.\<close>

definition reports :: "(string \<times> varg list) list \<Rightarrow> 'a machine_scheme \<Rightarrow> 'a machine_scheme \<Rightarrow> bool" where
  "reports rows s s' \<longleftrightarrow> (\<exists>es. s' = s\<lparr>klog := klog s @ rows, hw_trace := hw_trace s @ es\<rparr>)"

lemma reports_trans: "reports l s s' \<Longrightarrow> reports l' s' s'' \<Longrightarrow> reports (l @ l') s s''"
  by (auto simp: reports_def)

lemma reports_Nil: "reports [] s s"
  unfolding reports_def by (rule exI [of _ "[]"]) simp

lemma reports_device: "reports l s s' \<Longrightarrow> cache_device c ctr geo s \<Longrightarrow> cache_device c ctr geo s'"
  by (auto simp: reports_def cache_device_def)

lemma reports_read: "reports [] s (snd (read_sysreg r s))"
  unfolding reports_def read_sysreg_def hw_emit_def Let_def by (rule exI) simp

lemma reports_printk: "reports [(f, args)] s (printk_call f args s)"
  unfolding reports_def printk_call_def by (rule exI [of _ "[]"]) simp

lemma reports_cache_set_way:
  "cache_device c ctr geo s \<Longrightarrow> 1 \<le> n \<Longrightarrow> n \<le> 7 \<Longrightarrow> i \<le> 1 \<Longrightarrow>
    reports [geometry geo n i] s (get_cache_set_way (word_of_nat n) (word_of_nat i) s)"
  unfolding reports_def by (rule get_cache_set_way_eq)

lemma get_cache_type_eq:
  assumes "cache_device c ctr geo s" and "1 \<le> n" "n \<le> 7"
  shows "\<exists>t s'. get_cache_type (word_of_nat n) s = (t, s') \<and> unat t = ctype c n \<and> reports [] s s'"
proof -
  have "\<not> sint MAX_CACHE_LEVEL < sint (word_of_nat n :: s32)" using assms(3) level_word(1) [of n] by (simp add: MAX_CACHE_LEVEL_def)
  then have "get_cache_type (word_of_nat n) s = (CLIDR_CTYPE (fst (read_sysreg ''clidr_el1'' s)) (word_of_nat n), snd (read_sysreg ''clidr_el1'' s))"
    by (simp add: get_cache_type_def split_beta Let_def)
  moreover have "fst (read_sysreg ''clidr_el1'' s) = c" using assms(1) by (simp add: read_sysreg_def cache_device_def Let_def)
  ultimately show ?thesis using CLIDR_CTYPE_eq [OF assms(2,3)] reports_read by auto
qed

lemma cache_line_size_eq:
  assumes "cache_device c ctr geo s"
  shows "\<exists>z s'. cache_line_size s = (z, s') \<and> unat z = 4 * 2 ^ bitfield 24 4 ctr \<and> reports [] s s'"
proof -
  have f: "fst (read_sysreg ''CTR_EL0'' s) = ctr" using assms by (simp add: read_sysreg_def cache_device_def Let_def)
  have e: "unat (drop_bit CTR_CWG_SHIFT ctr AND CTR_CWG_MASK) = bitfield 24 4 ctr"
    unfolding layout_defs by (rule unat_bitfield) (simp add: mask_eq_exp_minus_1)
  have b: "bitfield 24 4 ctr < 2 ^ 4" by (rule bitfield_less)
  have u: "unat (ucast (drop_bit CTR_CWG_SHIFT ctr AND CTR_CWG_MASK) :: u32) = bitfield 24 4 ctr"
  proof -
    have "unat (ucast w :: u32) = take_bit 32 (unat w)" for w :: u64 by (rule bit_eqI) (auto simp: bit_simps)
    then show ?thesis using b by (simp only: e) (simp add: take_bit_nat_eq_self)
  qed
  have "unat (word_of_nat (4 * 2 ^ bitfield 24 4 ctr) :: u32) = 4 * 2 ^ bitfield 24 4 ctr"
  proof -
    have "(2 :: nat) ^ bitfield 24 4 ctr \<le> 2 ^ 15" using b by (intro power_increasing) simp_all
    then show ?thesis by (simp only: unsigned_of_nat) (simp add: take_bit_nat_eq_self)
  qed
  then have "unat (push_bit (bitfield 24 4 ctr) 4 :: s32) = 4 * 2 ^ bitfield 24 4 ctr" by (simp add: push_bit_eq_mult mult.commute)
  then show ?thesis using f u reports_read [of s "''CTR_EL0''"]
    by (simp add: cache_line_size_def cache_type_cwg_def split_beta Let_def)
qed

lemma present_Cons: "1 \<le> n \<Longrightarrow> n \<le> 7 \<Longrightarrow> present c n = (if ctype c n = 0 then [] else n # present c (Suc n))"
  by (simp add: present_def upt_conv_Cons)

lemma present_8: "present c 8 = []"
  by (simp add: present_def)

text \<open>The value of \<open>level\<close> after the loop from level \<open>n\<close>: the last level with a cache, but 8 where all have one.\<close>

definition last_level :: "u64 \<Rightarrow> nat \<Rightarrow> nat" where
  "last_level c n = (let m = n + length (present c n) in if m = 8 then 8 else m - 1)"

definition types_known :: "u64 \<Rightarrow> nat \<Rightarrow> bool" where "types_known c n \<longleftrightarrow> (\<forall>k \<in> set (present c n). ctype c k \<le> 4)"

lemma cache_levels_step:
  assumes "cache_device c ctr geo s" and "1 \<le> n" "n \<le> 7"
  shows "if ctype c n = 0 then \<exists>s'. cache_levels (word_of_nat n) s = Inr (word_of_nat (n - 1), s') \<and> reports [] s s'
    else if ctype c n \<le> 4 then
      \<exists>s'. cache_levels (word_of_nat n) s = cache_levels (word_of_nat (Suc n)) s' \<and> reports (level_rows c ctr geo n) s s'
    else cache_levels (word_of_nat n) s = Inl Out_of_bounds"
proof -
  have lv: "sint (word_of_nat n :: s32) \<le> sint MAX_CACHE_LEVEL" using assms(3) level_word(1) [of n] by (simp add: MAX_CACHE_LEVEL_def)
  have p: "word_of_nat n - (1 :: s32) = word_of_nat (n - 1)" using assms(2) by (simp add: of_nat_diff)
  have w: "arg_u32 (word_of_nat n) = arg_num n" using level_word(2) [of n] assms(3) by (simp add: arg_u32_num)
  obtain t s1 where t: "get_cache_type (word_of_nat n) s = (t, s1)" "unat t = ctype c n" "reports [] s s1"
    using get_cache_type_eq [OF assms] by blast
  have d1: "cache_device c ctr geo s1" by (rule reports_device [OF t(3) assms(1)])
  obtain z s2 where z: "cache_line_size s1 = (z, s2)" "unat z = 4 * 2 ^ bitfield 24 4 ctr" "reports [] s1 s2"
    using cache_line_size_eq [OF d1] by blast
  let ?row = "(''   L%u: %s, cache line size %u\<newline>'', [arg_num n, Arg_str (cache_type_string ! ctype c n), arg_num (4 * 2 ^ bitfield 24 4 ctr)])"
  let ?s3 = "printk_call (fst ?row) (snd ?row) s2"
  have r3: "reports [?row] s ?s3" using reports_trans [OF t(3) reports_trans [OF z(3) reports_printk]] by simp
  have d3: "cache_device c ctr geo ?s3" by (rule reports_device [OF r3 assms(1)])
  have tt: "t = CACHE_TYPE_NOCACHE \<longleftrightarrow> ctype c n = 0" "t = CACHE_TYPE_SEPARATE \<longleftrightarrow> ctype c n = 3" "t = CACHE_TYPE_UNIFIED \<longleftrightarrow> ctype c n = 4"
    using t(2) by (auto simp: layout_defs word_unat_eq_iff)
  have len: "length cache_type_string \<le> unat t \<longleftrightarrow> \<not> ctype c n \<le> 4" using t(2) by (auto simp: cache_type_string_def)
  have sc: "word_of_nat n + (1 :: s32) = word_of_nat (Suc n)" using level_word(3) [of n] assms(3) by simp
  have zz: "arg_u32 z = arg_num (4 * 2 ^ bitfield 24 4 ctr)" by (simp add: arg_u32_num z(2))
  have ts: "cache_type_string ! unat t = cache_type_string ! ctype c n" by (simp only: t(2))
  let ?s4 = "if ctype c n = 3 then get_cache_set_way (word_of_nat n) 0 (get_cache_set_way (word_of_nat n) 1 ?s3)
    else if ctype c n = 4 then get_cache_set_way (word_of_nat n) 0 ?s3 else ?s3"
  have L: "cache_levels (word_of_nat n) s =
      (if ctype c n = 0 then Inr (word_of_nat (n - 1), s1)
       else if \<not> ctype c n \<le> 4 then Inl Out_of_bounds
       else cache_levels (word_of_nat (Suc n)) ?s4)"
    by (subst cache_levels.simps)
      (simp only: lv t(1) z(1) tt len p sc w zz ts Let_def prod.case if_True fst_conv snd_conv)
  have R4: "reports (level_rows c ctr geo n) s ?s4"
  proof -
    note g = reports_cache_set_way [OF _ assms(2,3)]
    have g0: "cache_device c ctr geo u \<Longrightarrow> reports [geometry geo n 0] u (get_cache_set_way (word_of_nat n) 0 u)" for u
      using g [of c ctr geo u 0] by simp
    have g1: "cache_device c ctr geo u \<Longrightarrow> reports [geometry geo n 1] u (get_cache_set_way (word_of_nat n) 1 u)" for u
      using g [of c ctr geo u 1] by simp
    have d4: "cache_device c ctr geo (get_cache_set_way (word_of_nat n) 1 ?s3)" by (rule reports_device [OF g1 [OF d3] d3])
    consider "ctype c n = 3" | "ctype c n = 4" | "ctype c n \<noteq> 3" "ctype c n \<noteq> 4" by blast
    then show ?thesis
    proof cases
      case 1
      then show ?thesis using reports_trans [OF r3 reports_trans [OF g1 [OF d3] g0 [OF d4]]] by (simp add: level_rows_def)
    next
      case 2
      then show ?thesis using reports_trans [OF r3 g0 [OF d3]] by (simp add: level_rows_def)
    next
      case 3
      then show ?thesis using r3 by (simp add: level_rows_def)
    qed
  qed
  show ?thesis unfolding L using t(3) R4 by auto
qed


lemma types_known_Cons:
  "1 \<le> n \<Longrightarrow> n \<le> 7 \<Longrightarrow> types_known c n \<longleftrightarrow> ctype c n = 0 \<or> ctype c n \<le> 4 \<and> types_known c (Suc n)"
  by (auto simp: types_known_def present_Cons)

lemma last_level_Cons:
  "1 \<le> n \<Longrightarrow> n \<le> 7 \<Longrightarrow> last_level c n = (if ctype c n = 0 then n - 1 else last_level c (Suc n))"
  by (auto simp: last_level_def present_Cons)

lemma cache_levels_report:
  assumes "cache_device c ctr geo s" and "1 \<le> n" "n \<le> 8"
  shows "if types_known c n then
      \<exists>s'. cache_levels (word_of_nat n) s = Inr (word_of_nat (last_level c n), s') \<and>
         reports (concat (map (level_rows c ctr geo) (present c n))) s s'
    else cache_levels (word_of_nat n) s = Inl Out_of_bounds"
  using assms
proof (induction "8 - n" arbitrary: n s)
  case 0
  then have "n = 8" by simp
  moreover have "cache_levels 8 s = Inr (8, s)" by (simp add: cache_levels.simps [of 8] MAX_CACHE_LEVEL_def)
  ultimately show ?case by (simp add: types_known_def present_8 last_level_def reports_Nil)
next
  case (Suc k)
  then have n: "1 \<le> n" "n \<le> 7" by linarith+
  note st = cache_levels_step [OF Suc.prems(1) n]
  show ?case
  proof (cases "ctype c n = 0")
    case True
    then show ?thesis using st n by (simp add: types_known_Cons last_level_Cons present_Cons)
  next
    case nz: False
    show ?thesis
    proof (cases "ctype c n \<le> 4")
      case False
      then show ?thesis using st nz n by (simp add: types_known_Cons)
    next
      case True
      then obtain s1 where s1: "cache_levels (word_of_nat n) s = cache_levels (word_of_nat (Suc n)) s1" "reports (level_rows c ctr geo n) s s1"
        using st nz by auto
      have k: "k = 8 - Suc n" using Suc.hyps(2) by simp
      note IH = Suc.hyps(1) [OF k reports_device [OF s1(2) Suc.prems(1)]]
      show ?thesis
      proof (cases "types_known c (Suc n)")
        case False
        then show ?thesis using IH n s1(1) nz by (simp add: types_known_Cons)
      next
        case tk: True
        then obtain s' where s': "cache_levels (word_of_nat (Suc n)) s1 = Inr (word_of_nat (last_level c (Suc n)), s')"
          "reports (concat (map (level_rows c ctr geo) (present c (Suc n)))) s1 s'" using IH n by auto
        then show ?thesis using tk nz True n s1(1) reports_trans [OF s1(2) s'(2)]
          by (simp add: types_known_Cons last_level_Cons present_Cons)
      qed
    qed
  qed
qed

definition summary_rows :: "u64 \<Rightarrow> u64 \<Rightarrow> (string \<times> varg list) list" where
  "summary_rows clidr ctr =
     [(''   IBC:%u LOUU:%u LoC:%u LoUIS:%u\<newline>'',
        [arg_num (bitfield 30 2 clidr), arg_num (bitfield 27 3 clidr), arg_num (bitfield 24 3 clidr), arg_num (bitfield 21 3 clidr)]),
      (''   Detected %s I-cache\<newline>'',
        [Arg_str ([''VPIPT'', ''RESERVED/UNKNOWN'', ''VIPT'', ''PIPT''] ! bitfield 14 2 ctr)])]"

lemma bitfield_ucast: "bitfield lo n (ucast (w :: u64) :: u32) = bitfield lo (min n (32 - lo)) w"
proof -
  have f: "bitfield lo n v = take_bit n (drop_bit lo (unat v))" for lo n and v :: "'b :: len word"
    by (simp add: bitfield_def take_bit_eq_mod drop_bit_eq_div)
  show ?thesis unfolding f by (rule bit_eqI) (auto simp: bit_simps)
qed

lemma clidr_args:
  fixes c :: u64
  shows
  "arg_u32 (CLIDR_ICB (ucast c)) = arg_num (bitfield 30 2 c)" "arg_u32 (CLIDR_LOUU (ucast c)) = arg_num (bitfield 27 3 c)"
  "arg_u32 (CLIDR_LOC (ucast c)) = arg_num (bitfield 24 3 c)" "arg_u32 (CLIDR_LOUIS (ucast c)) = arg_num (bitfield 21 3 c)"
proof -
  have m: "(0x7 :: u32) = mask 3" by (simp add: mask_eq_exp_minus_1)
  show "arg_u32 (CLIDR_ICB (ucast c)) = arg_num (bitfield 30 2 c)" "arg_u32 (CLIDR_LOUU (ucast c)) = arg_num (bitfield 27 3 c)"
    "arg_u32 (CLIDR_LOC (ucast c)) = arg_num (bitfield 24 3 c)" "arg_u32 (CLIDR_LOUIS (ucast c)) = arg_num (bitfield 21 3 c)"
    unfolding arg_u32_num CLIDR_ICB_def CLIDR_LOUU_def CLIDR_LOC_def CLIDR_LOUIS_def layout_defs unat_bitfield [OF m] bitfield_ucast
    by simp_all
qed

lemma icache_policy:
  fixes c :: u64
  shows
  "unat (CTR_L1IP (ucast c)) = bitfield 14 2 c" "icache_policy_str = [''VPIPT'', ''RESERVED/UNKNOWN'', ''VIPT'', ''PIPT'']"
proof -
  have m: "(3 :: u32) = mask 2" by (simp add: mask_eq_exp_minus_1)
  show "unat (CTR_L1IP (ucast c)) = bitfield 14 2 c"
    unfolding CTR_L1IP_def layout_defs unat_bitfield [OF m] bitfield_ucast by simp
  show "icache_policy_str = [''VPIPT'', ''RESERVED/UNKNOWN'', ''VIPT'', ''PIPT'']"
    by (simp add: icache_policy_str_def override_def layout_defs numeral_eq_Suc)
qed

section \<open>Properties\<close>

text \<open>C26. On a processor whose registers keep the promises of the architecture, \<open>init_cache_info\<close> prints one row per level up
  to the first without a cache, with the geometry of its caches, then the summary, and returns the number of levels - except
  that it returns 8 when all seven levels have a cache. A level with a reserved type makes it read past the end of
  \<open>cache_type_string\<close>.\<close>

theorem cache_info_report:
  assumes "cache_device clidr ctr geo s"
  shows "if \<forall>k \<in> set (present clidr 1). ctype clidr k \<le> 4 then
      \<exists>s'. init_cache_info s = Inr (word_of_nat (if length (present clidr 1) = 7 then 8 else length (present clidr 1)), s') \<and>
         reports ((''parse cache info:\<newline>'', []) # concat (map (level_rows clidr ctr geo) (present clidr 1)) @ summary_rows clidr ctr) s s'
    else init_cache_info s = Inl Out_of_bounds"
proof -
  let ?s1 = "printk_call ''parse cache info:\<newline>'' [] s"
  have r1: "reports [(''parse cache info:\<newline>'', [])] s ?s1" by (rule reports_printk)
  note L = cache_levels_report [OF reports_device [OF r1 assms], of 1, unfolded types_known_def]
  have ll: "last_level clidr 1 = (if length (present clidr 1) = 7 then 8 else length (present clidr 1))"
    by (simp add: last_level_def Let_def)
  show ?thesis
  proof (cases "\<forall>k \<in> set (present clidr 1). ctype clidr k \<le> 4")
    case False
    then have "cache_levels (word_of_nat 1) ?s1 = Inl Out_of_bounds" using L by (simp only: if_False)
    then show ?thesis using False by (simp add: init_cache_info_def Let_def)
  next
    case True
    then have "\<exists>s2. cache_levels (word_of_nat 1) ?s1 = Inr (word_of_nat (last_level clidr 1), s2) \<and>
      reports (concat (map (level_rows clidr ctr geo) (present clidr 1))) ?s1 s2" using L by (simp only: if_True)
    then obtain s2 where s2: "cache_levels 1 ?s1 = Inr (word_of_nat (last_level clidr 1), s2)"
      "reports (concat (map (level_rows clidr ctr geo) (present clidr 1))) ?s1 s2" unfolding of_nat_1 by blast
    have r2: "reports ((''parse cache info:\<newline>'', []) # concat (map (level_rows clidr ctr geo) (present clidr 1))) s s2"
      using reports_trans [OF r1 s2(2)] by simp
    have dev: "fst (read_sysreg ''clidr_el1'' u) = clidr" "fst (read_sysreg ''ctr_el0'' u) = ctr" if "cache_device clidr ctr geo u" for u :: "'a machine_scheme"
      using that by (simp_all add: read_sysreg_def cache_device_def Let_def)
    obtain s3 where s3: "read_sysreg ''clidr_el1'' s2 = (clidr, s3)" "reports [] s2 s3"
      using dev(1) [OF reports_device [OF r2 assms]] reports_read [of s2 "''clidr_el1''"] by (metis prod.collapse)
    let ?row = "hd (summary_rows clidr ctr)"
    let ?s4 = "printk_call (fst ?row) (snd ?row) s3"
    have r4: "reports [?row] s2 ?s4" using reports_trans [OF s3(2) reports_printk [of "fst ?row" "snd ?row" s3]] by simp
    obtain s5 where s5: "read_sysreg ''ctr_el0'' ?s4 = (ctr, s5)" "reports [] ?s4 s5"
      using dev(2) [OF reports_device [OF reports_trans [OF r2 r4] assms]] reports_read [of ?s4 "''ctr_el0''"] by (metis prod.collapse)
    let ?tail_row = "hd (tl (summary_rows clidr ctr))"
    let ?s6 = "printk_call (fst ?tail_row) (snd ?tail_row) s5"
    have r6: "reports [?tail_row] ?s4 ?s6" using reports_trans [OF s5(2) reports_printk [of "fst ?tail_row" "snd ?tail_row" s5]] by simp
    have b: "bitfield 14 2 ctr < 4" using bitfield_less [of 14 2 ctr] by simp
    have e: "init_cache_info s = Inr (word_of_nat (last_level clidr 1), ?s6)"
      using s2(1) s3(1) s5(1) b by (simp add: init_cache_info_def Let_def clidr_args summary_rows_def icache_policy split: prod.split)
    moreover have "summary_rows clidr ctr = [?row, ?tail_row]" by (simp add: summary_rows_def)
    then have "reports ((''parse cache info:\<newline>'', []) # concat (map (level_rows clidr ctr geo) (present clidr 1)) @ summary_rows clidr ctr) s ?s6"
      using reports_trans [OF r2 reports_trans [OF r4 r6]] by simp
    ultimately show ?thesis using True unfolding ll by auto
  qed
qed

text \<open>The caches of the Raspberry Pi 4: 48 KB of instruction and 32 KB of data cache, 1 MB of a second level.\<close>

definition demo_cache :: machine where
  "demo_cache = machine0\<lparr>sys_dev := (\<lambda>tr r. if r = ''clidr_el1'' then 0x0A200023
     else if r = ''CCSIDR_EL1'' then
       (if last_csselr tr = 0 then 0x701FE00A else if last_csselr tr = 1 then 0x201FE012 else 0x707FE07A)
     else 0x8444C004)\<rparr>"

theorem cache_info_report_witness:
  "\<exists>s'. init_cache_info demo_cache = Inr (2, s') \<and> length (klog s') = 8"
proof -
  let ?geo = "\<lambda>sel :: u64. if sel = 0 then 0x701FE00A else if sel = 1 then 0x201FE012 else 0x707FE07A :: u64"
  have d: "cache_device 0x0A200023 0x8444C004 ?geo demo_cache"
    by (simp add: cache_device_def demo_cache_def)
  have p: "present 0x0A200023 1 = [1, 2]" by (simp add: present_def ctype_def bitfield_def upt_conv_Cons)
  have c: "ctype 0x0A200023 (Suc 0) = 3" "ctype 0x0A200023 2 = 4" by (simp_all add: ctype_def bitfield_def)
  have k: "klog demo_cache = []" by (simp add: demo_cache_def machine0_def)
  show ?thesis using cache_info_report [OF d] unfolding p
    by (auto simp: c k level_rows_def summary_rows_def reports_def)
qed

end
