(* ===== verification/Spec2Isabelle.thy ===== *)
theory Spec2Isabelle
  imports Page_Race Fork_Race Head User_Lib Boot Dump_Pgtable Cacheinfo
begin

text \<open>
  A verification development for Arm64OS, a small kernel in C and assembly for one core of the
  Raspberry Pi (AArch64). This is the root: it imports every theory and holds the map of the whole.

  \<^bold>\<open>The program.\<close> A reset ends in \<open>start_kernel\<close>, which initialises the console, the interrupt
  controller, the page allocator, the scheduler, the translation tables and the timer, creates two kernel
  threads and goes on as the console loop on the stack of the init task. From then on the kernel is
  driven by events: the timer interrupt charges the running task and may preempt it, a task may call the
  scheduler or create a task, a user task may make a system call. The components share their state
  through globals and through the memory of the pages: the structure of a task lies at the bottom of
  its page, its exception frame at the top, and \<open>current\<close> is the stack pointer with the low 12 bits cleared.

  \<^bold>\<open>How the code is modelled.\<close>
  \<^item> State is passed explicitly. The record \<open>machine\<close> (log, hardware trace, devices, memory, interrupt mask)
    is extended by \<open>page_state\<close>, \<open>sched_state\<close>, \<open>fork_state\<close>, \<open>irq_state\<close> and \<open>boot_state\<close>; an operation of a
    lower component is defined on every extension of its record.
  \<^item> An operation that can go wrong returns \<open>res\<close>: \<open>Inl\<close> a fault of C (a null or bad pointer, an index
    outside an array, a local that was never assigned, a loop that does not end) or \<open>Inr\<close> the
    result. Loops that may not end are \<open>partial_function (option)\<close>: not to return is \<open>None\<close>.
  \<^item> Integers are words at their width. Structures of tasks and frames are records kept by address; the
    lists are heaps of nodes by address; the translation tables and the strings live in a memory of bytes.
  \<^item> Devices and system registers are functions of the history of all accesses, arguments of the model.
    What a property needs of them is a named hypothesis (\<open>uart_live\<close>, \<open>gic_small\<close>, \<open>cache_device\<close>, \<open>at_walks\<close>).

  \<^bold>\<open>Theories and sources\<close> (paths under \<^verbatim>\<open>src/\<close>).
  \<^item> \<open>Prelude\<close>: word types, faults, the bind of results, facts on words. \<open>Machine\<close>: the hardware and the
    accessors of \<^verbatim>\<open>asm/io.h\<close> and \<^verbatim>\<open>asm/sysregs.h\<close>.
  \<^item> \<open>Page_Alloc\<close>: \<^verbatim>\<open>mm/page_alloc.c\<close>. The locale \<open>page_allocator\<close> is what the clients rely on: pages that are
    handed out are fresh and stay distinct. \<open>mem_map\<close> has \<open>NR_PAGES = 131072\<close> entries. \<open>Page_Race\<close>: the same
    function one access at a time, run by several tasks.
  \<^item> \<open>Byte_Memory\<close>: \<^verbatim>\<open>lib/string.c\<close> on bytes, \<open>memset\<close> with its three phases; 64-bit loads and stores.
  \<^item> \<open>Klist\<close>: \<^verbatim>\<open>include/list.h\<close>, refined to lists of nodes by \<open>list_rep\<close>; the locale \<open>kernel_list\<close>.
  \<^item> \<open>Sched\<close>: \<^verbatim>\<open>kernel/sched.c\<close>, \<^verbatim>\<open>kernel/sched_nop.c\<close>, \<^verbatim>\<open>include/sched.h\<close>; the locale \<open>scheduling_class\<close> is
    the table of functions of a class, interpreted on \<open>nop_sched_class\<close>. \<open>sched_inv\<close> joins the ring of
    tasks, the ready queue, the counters and the contexts of the suspended tasks. The scheduler itself follows forward
    links only: \<open>walk_rep\<close> is that part of the lists and \<open>run_inv\<close> the invariant over it, which also holds
    between the writes of an insertion.
  \<^item> \<open>Fork\<close>: \<^verbatim>\<open>kernel/fork.c\<close> with the layouts of \<open>task_struct\<close> and \<open>pt_regs\<close>; at most 128 tasks. \<open>Fork_Steps\<close>: \<open>do_fork\<close>
    and what it calls as a program counter with one step per statement; 34 steps are enough on every path. \<open>Syscall\<close>:
    \<^verbatim>\<open>arch/arm64/kernel/syscall.c\<close>.
  \<^item> \<open>Uart\<close>: \<^verbatim>\<open>mach-rpi/pl_uart.c\<close>. \<open>Printk\<close>: \<^verbatim>\<open>lib/printk.c\<close>, the formatter and the early log.
  \<^item> \<open>Irq\<close>: \<^verbatim>\<open>kernel/irq.c\<close>, \<^verbatim>\<open>drivers/irqchip/gicv2.c\<close>, \<^verbatim>\<open>kernel/arm64_irq.c\<close>, \<^verbatim>\<open>mach-rpi/timer.c\<close>; 256 descriptors.
  \<^item> \<open>Kernel\<close>: the events (interrupts in the kernel and of the user, calls of the scheduler, thread creations, system
    calls with any registers) as a step relation \<open>kstep\<close>, and the invariant \<open>kinv\<close>. A system call with a negative number
    has no step, it reads outside the table.
  \<^item> \<open>Preempt\<close>: the steps of \<open>Fork_Steps\<close> interleaved with the interrupts and scheduler calls of \<open>Kernel\<close>. \<open>fork_run\<close> are
    the runs (the creator moves when it is the running task), \<open>fork_ok\<close> the invariant per program counter: before the new task is
    published the invariant of the kernel, from then on \<open>run_inv\<close> and that the remaining writes complete the lists. \<open>Fork_Race\<close>: a second
    creator inside such a run. \<open>Kernel_Runs\<close>: the runs \<open>krun\<close> of events and preempted creations that do not overlap.
  \<^item> \<open>Entry\<close>: \<^verbatim>\<open>kernel/entry.S\<close> and \<open>syscall\<close> of \<^verbatim>\<open>usr/syscall.S\<close> instruction by instruction. The paths of the
    file have at most five blocks, the fuel of \<open>run_from\<close>. The compiled functions in C are a parameter
    with the calling convention (\<open>obeys\<close>), the frame (\<open>keeps_frame\<close>) and, for the handler of system calls, its model
    (\<open>runs_handler\<close>). \<open>frame_rep\<close>, \<open>holds_tasks\<close> and \<open>holds_flags\<close> tie the memory of the assembly to
    the records of the other theories. \<open>User_Lib\<close>: \<^verbatim>\<open>usr/user_syscall.c\<close> on top of it.
  \<^item> \<open>Pgtable\<close>, \<open>Mmu\<close>: \<^verbatim>\<open>asm/pgtable*.h\<close> and \<^verbatim>\<open>mach-rpi/mmu.c\<close>. \<open>translate\<close> is the walk of the hardware,
    \<open>pt_inv\<close> the invariant of a tree of tables over 48-bit addresses, the locale \<open>table_allocator\<close> what
    the code relies on for a new table. Building the tables takes at most 534 pages.
  \<^item> \<open>Dump_Pgtable\<close>: \<^verbatim>\<open>mach-rpi/dump_pgtable.c\<close>. \<open>Traps\<close>: \<^verbatim>\<open>kernel/traps.c\<close> with \<^verbatim>\<open>asm/esr.h\<close>. \<open>Cacheinfo\<close>:
    \<^verbatim>\<open>kernel/cacheinfo.c\<close>.
  \<^item> \<open>Head\<close>: \<^verbatim>\<open>kernel/head.S\<close>, \<^verbatim>\<open>kernel/mm.S\<close>, the delay loop of \<^verbatim>\<open>kernel/utils.S\<close>. \<open>Boot\<close>: \<^verbatim>\<open>init/main.c\<close>.

  \<^bold>\<open>What the properties show.\<close> The claims are numbered in the texts before them.
  \<^item> The kernel as a whole: the boot reaches the running kernel with all invariants, the identity map in the
    tables and two ready threads (\<open>Boot\<close>, after \<open>Head\<close> has brought the processor there); every
    sequence of events and preempted creations keeps the invariant, loses no task and, but for system calls with a negative
    number, nothing faults (\<open>Kernel_Runs\<close>).
  \<^item> Scheduling: the choice is the first ready task with the largest counter; a time slice is exactly
    the counter in ticks; no ready task starves; the init task never returns to the processor (\<open>Boot\<close>).
  \<^item> Processes: what a successful and a failed \<open>do_fork\<close> do; how threads and children start, down to
    the registers with which a child enters user space. A thread creation
    that is interrupted and preempted between any two of its statements ends in a correct state all the same (\<open>Preempt\<close>) when no
    other task creates one meanwhile; otherwise two tasks can get the same pid (\<open>Fork_Race\<close>).
  \<^item> Exceptions: an interrupt is transparent for the interrupted code, a system call changes x0 only, the
    assembly of the context switch implements the scheduler's model. Two theorems say where this ends:
    a fault of the user is taken for a system call, and an interrupt inside the restore of a frame derails the return.
  \<^item> Memory: the allocator is first fit, and safe for several tasks exactly as long as none is preempted between its test
    and its mark of a page; \<open>__create_pgd_mapping\<close> maps exactly its range as the hardware sees it;
    after \<open>paging_init\<close> nothing is both writable and executable; the dump shows exactly the mappings.
  \<^item> Devices and text: the console loop, the interrupt controller's descriptors, the timer interrupt, what a
    \<open>printk\<close> prints, numbers that are printed and read back, the reports of unhandled exceptions and of the caches.

  \<^bold>\<open>Not modelled.\<close>
  \<^item> The configurations the build does not define: \<open>RPI5_BCM2712\<close>, and a kernel without \<open>ENABLE_GIC_V2\<close>, whose
    \<open>arch_irq_init\<close> is empty. \<open>DEBUG_DUMP_PGTABLE\<close> and \<open>INIT_CACHE_INFO\<close> are not defined either, so the
    boot does not call the dump and the cache report; their files are modelled on their own.
  \<^item> The linker script: its symbols are parameters (\<open>image\<close>, \<open>boot_symbols\<close>) with the ranges \<open>image_ok\<close>.
  \<^item> What the compiler makes of the functions in C. The system timer of \<^verbatim>\<open>mach-rpi/timer.c\<close> is empty in the source.
  \<^item> The body of \<open>run_user_thread\<close>, which would run at EL0 although no mapping is accessible to it (no thread of the boot calls it), and what follows the three moves of
    \<open>__clone\<close>, which is cut off in the source before its system call: a parameter of \<open>clone\<close> in \<open>User_Lib\<close>.
  \<^item> A switch inside an operation, with the exceptions below: an event of \<open>kstep\<close> runs to its end. System calls and interrupts do, they run with
    interrupts masked; the code of a kernel thread can be preempted. \<open>Preempt\<close> models this for one thread that creates
    another, with \<open>get_free_page\<close> as one step, and \<open>Page_Race\<close> for the accesses of \<open>get_free_page\<close> by several tasks. \<open>Fork_Race\<close> has
    a second creator, which runs to its end between two steps of the first. The runs of \<open>Kernel_Runs\<close> hold preempted creations
    beside the events; during such a creation there are interrupts and switches, but no other creation and no system call. Other
    interleavings of two creators and the preemption of \<open>printk\<close> are not modelled.
  \<^item> Caches, TLBs and barriers have no effect on the model's memory; they are events of the trace.
\<close>

end
